(* ===== verification/Kfs_Prelude.thy ===== *)
theory Kfs_Prelude
  imports Main "HOL-Library.Word"
begin

text \<open>
  Shared material of the development: the errno values and identifier types of
  src/src/cc/common/kfstypes.h, the convention for asserts, the collections that carry the
  component proofs, and generic lemmas on lists that every component uses.

  The program is built with asserts enabled (CMakeLists.txt defaults to a Debug build). An operation
  that can fail an assert, call panic or follow a null pointer returns an \<^verbatim>\<open>option\<close>: \<^verbatim>\<open>None\<close> is
  the aborted process, \<^verbatim>\<open>Some\<close> a normal return. Status codes are the \<^verbatim>\<open>int\<close>s of the source, zero or
  a negated errno.
\<close>

section \<open>Types and constants\<close>

type_synonym fid_t = int
type_synonym chunkId_t = int
type_synonym chunkOff_t = int
type_synonym seq_t = int

abbreviation (input) ROOTFID :: fid_t where "ROOTFID \<equiv> 2"

abbreviation (input) EPERM :: int where "EPERM \<equiv> 1"
abbreviation (input) ENOENT :: int where "ENOENT \<equiv> 2"
abbreviation (input) EIO :: int where "EIO \<equiv> 5"
abbreviation (input) EBUSY :: int where "EBUSY \<equiv> 16"
abbreviation (input) EEXIST :: int where "EEXIST \<equiv> 17"
abbreviation (input) ENOTDIR :: int where "ENOTDIR \<equiv> 20"
abbreviation (input) EISDIR :: int where "EISDIR \<equiv> 21"
abbreviation (input) EINVAL :: int where "EINVAL \<equiv> 22"
abbreviation (input) ENOTEMPTY :: int where "ENOTEMPTY \<equiv> 39"

definition CHUNKSIZE :: "64 word" where
  "CHUNKSIZE = push_bit 26 1"

lemma CHUNKSIZE_int: "uint CHUNKSIZE = 2 ^ 26"
  by (simp add: CHUNKSIZE_def)

section \<open>Asserts\<close>

text \<open>\<^verbatim>\<open>assert(c)\<close> in front of a continuation: the process is gone when \<^verbatim>\<open>c\<close> is false.\<close>

definition assert_then :: "bool \<Rightarrow> 'a option \<Rightarrow> 'a option" where
  "assert_then c r = (if c then r else None)"

lemma assert_then_True [simp]: "assert_then True r = r"
  by (simp add: assert_then_def)

lemma assert_then_False [simp]: "assert_then False r = None"
  by (simp add: assert_then_def)

lemma assert_then_Some_iff [simp]: "assert_then c r = Some x \<longleftrightarrow> c \<and> r = Some x"
  by (simp add: assert_then_def)

section \<open>Lists\<close>

lemma sorted_map_takeWhile_less:
  fixes f :: "'b \<Rightarrow> 'a::linorder"
  assumes "sorted (map f xs)"
  shows "takeWhile (\<lambda>x. f x < k) xs = filter (\<lambda>x. f x < k) xs"
  using assms
proof (induction xs)
  case (Cons x xs)
  then show ?case
    by (cases "f x < k") (auto intro!: filter_False [symmetric] dest: le_less_trans)
qed simp

lemma sorted_map_dropWhile_less:
  fixes f :: "'b \<Rightarrow> 'a::linorder"
  assumes "sorted (map f xs)"
  shows "dropWhile (\<lambda>x. f x < k) xs = filter (\<lambda>x. \<not> f x < k) xs"
  using assms
proof (induction xs)
  case (Cons x xs)
  then show ?case
    by (cases "f x < k") (auto intro!: filter_True [symmetric] dest: le_less_trans)
qed simp

lemma takeWhile_append_all:
  "(\<And>x. x \<in> set xs \<Longrightarrow> P x) \<Longrightarrow> takeWhile P (xs @ ys) = xs @ takeWhile P ys"
  by (simp add: takeWhile_append2)

lemma dropWhile_append_all:
  "(\<And>x. x \<in> set xs \<Longrightarrow> P x) \<Longrightarrow> dropWhile P (xs @ ys) = dropWhile P ys"
  by (simp add: dropWhile_append2)

lemma list_split3:
  "i < length xs \<Longrightarrow> xs = take i xs @ xs ! i # drop (Suc i) xs"
  by (simp add: id_take_nth_drop)

lemma list_update_split:
  "i < length xs \<Longrightarrow> xs[i := y] = take i xs @ y # drop (Suc i) xs"
  by (simp add: upd_conv_take_nth_drop)

lemma length_takeWhile_less_iff:
  "length (takeWhile P xs) < length xs \<longleftrightarrow> (\<exists>x\<in>set xs. \<not> P x)"
proof (induction xs)
  case (Cons x xs)
  then show ?case by (cases "P x") auto
qed simp

lemma concat_eq_append_Cons:
  assumes "concat xss = xs @ y # ys"
  shows "\<exists>i us vs. i < length xss \<and> xss ! i = us @ y # vs \<and>
    xs = concat (take i xss) @ us \<and> ys = vs @ concat (drop (Suc i) xss)"
  using assms
proof (induction xss arbitrary: xs)
  case (Cons zs xss)
  then consider us where "zs = xs @ us" "us @ concat xss = y # ys"
    | us where "xs = zs @ us" "concat xss = us @ y # ys"
    by (auto simp: append_eq_append_conv2)
  then show ?case
  proof cases
    case 1
    show ?thesis
    proof (cases us)
      case Nil
      with 1 Cons.IH [of "[]"] obtain i us' vs where
        "i < length xss" "xss ! i = us' @ y # vs" "concat (take i xss) @ us' = []"
        "ys = vs @ concat (drop (Suc i) xss)"
        by auto
      with 1 Nil show ?thesis by (intro exI [of _ "Suc i"]) auto
    next
      case (Cons u us')
      with 1 show ?thesis by (intro exI [of _ 0]) auto
    qed
  next
    case 2
    with Cons.IH [of us] obtain i us' vs where
      "i < length xss" "xss ! i = us' @ y # vs" "us = concat (take i xss) @ us'"
      "ys = vs @ concat (drop (Suc i) xss)"
      by auto
    with 2 show ?thesis by (intro exI [of _ "Suc i"]) auto
  qed
qed simp

lemma two_neighbours:
  assumes "Suc i < length xs"
  obtains us x y vs where "xs = us @ x # y # vs" "length us = i"
proof -
  have "xs = take i xs @ xs ! i # xs ! Suc i # drop (Suc (Suc i)) xs"
    using assms by (metis Cons_nth_drop_Suc Suc_lessD append_take_drop_id)
  then show ?thesis using assms that [of "take i xs"] by simp
qed

section \<open>Ordered maps\<close>

text \<open>
  A \<^verbatim>\<open>std::map\<close> as the list of its pairs in the order of iteration. The facts about lookups hold
  for every list; \<^verbatim>\<open>omap_inv\<close> is what iteration in key order needs.
\<close>

fun omap_put :: "'k::linorder \<Rightarrow> 'v \<Rightarrow> ('k \<times> 'v) list \<Rightarrow> ('k \<times> 'v) list" where
  "omap_put k v [] = [(k, v)]"
| "omap_put k v ((k', v') # m) =
     (if k < k' then (k, v) # (k', v') # m
      else if k = k' then (k, v) # m
      else (k', v') # omap_put k v m)"

definition omap_erase :: "'k \<Rightarrow> ('k \<times> 'v) list \<Rightarrow> ('k \<times> 'v) list" where
  "omap_erase k m = filter (\<lambda>p. fst p \<noteq> k) m"

definition omap_inv :: "('k::linorder \<times> 'v) list \<Rightarrow> bool" where
  "omap_inv m \<longleftrightarrow> sorted_wrt (<) (map fst m)"

lemma map_of_omap_put [simp]: "map_of (omap_put k v m) = (map_of m)(k \<mapsto> v)"
  by (induction m) (auto simp: fun_eq_iff)

lemma map_of_omap_erase [simp]: "map_of (omap_erase k m) = (map_of m)(k := None)"
  by (induction m) (auto simp: omap_erase_def fun_eq_iff)

lemma set_omap_put_fst [simp]: "fst ` set (omap_put k v m) = insert k (fst ` set m)"
proof (induction m)
  case (Cons p m)
  then show ?case by (cases p) (simp add: insert_commute)
qed simp

lemma omap_inv_put [simp]: "omap_inv m \<Longrightarrow> omap_inv (omap_put k v m)"
proof (induction m)
  case (Cons p m)
  obtain k' v' where p: "p = (k', v')" by (cases p)
  have "\<forall>x\<in>fst ` set (omap_put k v m). k' < x" if "k' < k"
    using that Cons.prems p by (auto simp: omap_inv_def)
  with Cons p show ?case by (auto simp: omap_inv_def)
qed (simp add: omap_inv_def)

lemma omap_inv_erase [simp]: "omap_inv m \<Longrightarrow> omap_inv (omap_erase k m)"
  by (induction m) (auto simp: omap_inv_def omap_erase_def)

lemma omap_inv_distinct: "omap_inv m \<Longrightarrow> distinct (map fst m)"
  by (simp add: omap_inv_def strict_sorted_iff)

end
