(* ===== verification/Meta_ChunkServer.thy ===== *)
theory Meta_ChunkServer
  imports Kfs_Prelude "HOL-Library.Multiset"
begin

text \<open>
  The metaserver's view of one chunkserver: src/src/cc/meta/ChunkServer.h and ChunkServer.cc, and
  the RPC classes of request.h that it sends. The state is the record \<^verbatim>\<open>ChunkServer\<close>; the RPCs
  wait in \<^verbatim>\<open>mPendingReqs\<close> until \<^verbatim>\<open>Dispatch\<close> sends them and moves them to \<^verbatim>\<open>mDispatchedReqs\<close>, where a
  reply finds them by sequence number. The space counters are \<^verbatim>\<open>uint64_t\<close> and wrap around; the
  load counters are \<^verbatim>\<open>int\<close>. The client's allocation requests are objects that several RPCs
  point to: they live in a store indexed by their address, and \<^verbatim>\<open>submit_request\<close> appends to a
  list of requests handed back to the main loop.
\<close>

section \<open>Data\<close>

abbreviation (input) INACTIVE_SERVER_TIMEOUT :: int where "INACTIVE_SERVER_TIMEOUT \<equiv> 600"

record ServerLocation =
  hostname :: string
  port :: int

type_synonym ChunkServerPtr = nat

record MetaAllocate =
  ma_fid :: fid_t
  ma_offset :: chunkOff_t
  ma_chunkId :: chunkId_t
  ma_chunkVersion :: seq_t
  ma_clientHost :: string
  ma_numReplicas :: int
  ma_layoutDone :: bool
  ma_servers :: "ChunkServerPtr list"
  ma_master :: "ChunkServerPtr option"
  ma_numServerReplies :: nat
  ma_status :: int
  ma_suspended :: bool

text \<open>The RPCs to a chunkserver; \<^verbatim>\<open>MetaChunkAllocate\<close> points to the request that triggered it.\<close>

datatype MetaChunkOp =
    MetaChunkAllocate nat int
  | MetaChunkVersChange fid_t chunkId_t seq_t
  | MetaChunkDelete chunkId_t
  | MetaChunkTruncate chunkId_t int
  | MetaChunkReplicate fid_t chunkId_t seq_t ServerLocation
  | MetaChunkSize fid_t chunkId_t int
  | MetaChunkHeartbeat
  | MetaChunkStaleNotify "chunkId_t list"
  | MetaChunkRetire

record MetaChunkRequest =
  opSeqno :: seq_t
  chunk_op :: MetaChunkOp
  rpc_status :: int

record ChunkServer =
  mSeqNo :: seq_t
  mConnected :: bool
  mTimer :: bool
  mHelloDone :: bool
  mDown :: bool
  mHeartbeatSent :: bool
  mHeartbeatSkipped :: bool
  mIsRetiring :: bool
  mRetireStartTime :: int
  mLastHeard :: int
  mEvacuatingChunks :: "chunkId_t set"
  mChunksToMove :: "chunkId_t set"
  mLocation :: ServerLocation
  mRackId :: int
  mNumCorruptChunks :: int
  mTotalSpace :: "64 word"
  mUsedSpace :: "64 word"
  mAllocSpace :: "64 word"
  mNumChunks :: int
  mNumChunkWrites :: int
  mNumChunkWriteReplications :: int
  mNumChunkReadReplications :: int
  mPendingReqs :: "MetaChunkRequest list"
  mDispatchedReqs :: "MetaChunkRequest list"

definition new_ChunkServer :: ChunkServer where
  "new_ChunkServer =
     \<lparr>mSeqNo = 1, mConnected = True, mTimer = True, mHelloDone = False, mDown = False,
      mHeartbeatSent = False, mHeartbeatSkipped = False, mIsRetiring = False,
      mRetireStartTime = 0, mLastHeard = 0, mEvacuatingChunks = {}, mChunksToMove = {},
      mLocation = \<lparr>hostname = [], port = -1\<rparr>, mRackId = -1, mNumCorruptChunks = 0,
      mTotalSpace = 0, mUsedSpace = 0, mAllocSpace = 0, mNumChunks = 0, mNumChunkWrites = 0,
      mNumChunkWriteReplications = 0, mNumChunkReadReplications = 0,
      mPendingReqs = [], mDispatchedReqs = []\<rparr>"

section \<open>Queueing RPCs\<close>

definition Enqueue :: "MetaChunkRequest \<Rightarrow> ChunkServer \<Rightarrow> ChunkServer" where
  "Enqueue r s = s\<lparr>mPendingReqs := mPendingReqs s @ [r]\<rparr>"

text \<open>\<^verbatim>\<open>new MetaChunkXxx(NextSeq(), ...)\<close> followed by \<^verbatim>\<open>Enqueue\<close>, which ends every sender below.\<close>

definition send_rpc :: "MetaChunkOp \<Rightarrow> ChunkServer \<Rightarrow> ChunkServer" where
  "send_rpc p s =
     Enqueue \<lparr>opSeqno = mSeqNo s, chunk_op = p, rpc_status = 0\<rparr> (s\<lparr>mSeqNo := mSeqNo s + 1\<rparr>)"

definition UpdateNumChunkWrites :: "int \<Rightarrow> ChunkServer \<Rightarrow> ChunkServer" where
  "UpdateNumChunkWrites amount s =
     (let n = mNumChunkWrites s + amount in s\<lparr>mNumChunkWrites := if n < 0 then 0 else n\<rparr>)"

definition UpdateReplicationReadLoad :: "int \<Rightarrow> ChunkServer \<Rightarrow> ChunkServer" where
  "UpdateReplicationReadLoad n0 s =
     (let n = mNumChunkReadReplications s + n0 in
      s\<lparr>mNumChunkReadReplications := if n < 0 then 0 else n\<rparr>)"

definition AllocateChunk_rpc :: "nat \<Rightarrow> int \<Rightarrow> ChunkServer \<Rightarrow> ChunkServer" where
  "AllocateChunk_rpc r leaseId s =
     send_rpc (MetaChunkAllocate r leaseId)
       (UpdateNumChunkWrites 1 (s\<lparr>mAllocSpace := mAllocSpace s + CHUNKSIZE\<rparr>))"

definition Retire :: "ChunkServer \<Rightarrow> ChunkServer" where
  "Retire s = send_rpc MetaChunkRetire s"

definition EvacuateChunk :: "chunkId_t \<Rightarrow> ChunkServer \<Rightarrow> ChunkServer" where
  "EvacuateChunk c s = s\<lparr>mEvacuatingChunks := insert c (mEvacuatingChunks s)\<rparr>"

definition EvacuateChunkDone :: "chunkId_t \<Rightarrow> ChunkServer \<Rightarrow> ChunkServer" where
  "EvacuateChunkDone c s =
     (if \<not> mIsRetiring s then s
      else let s' = s\<lparr>mEvacuatingChunks := mEvacuatingChunks s - {c}\<rparr> in
           if mEvacuatingChunks s' = {} then Retire s' else s')"

definition DeleteChunk_rpc :: "chunkId_t \<Rightarrow> ChunkServer \<Rightarrow> ChunkServer" where
  "DeleteChunk_rpc c s =
     (let s1 = s\<lparr>mAllocSpace := mAllocSpace s - CHUNKSIZE\<rparr>;
          s2 = (if mIsRetiring s1 then EvacuateChunkDone c s1 else s1)
      in send_rpc (MetaChunkDelete c) s2)"

definition TruncateChunk_rpc :: "chunkId_t \<Rightarrow> int \<Rightarrow> ChunkServer \<Rightarrow> ChunkServer" where
  "TruncateChunk_rpc c sz s =
     send_rpc (MetaChunkTruncate c sz)
       (s\<lparr>mAllocSpace := mAllocSpace s - (CHUNKSIZE - word_of_int sz)\<rparr>)"

definition GetChunkSize :: "fid_t \<Rightarrow> chunkId_t \<Rightarrow> ChunkServer \<Rightarrow> ChunkServer" where
  "GetChunkSize f c s = send_rpc (MetaChunkSize f c (-1)) s"

definition ReplicateChunk_rpc :: "fid_t \<Rightarrow> chunkId_t \<Rightarrow> seq_t \<Rightarrow> ServerLocation \<Rightarrow> ChunkServer \<Rightarrow> ChunkServer" where
  "ReplicateChunk_rpc f c v loc s =
     send_rpc (MetaChunkReplicate f c v loc)
       (s\<lparr>mNumChunkWriteReplications := mNumChunkWriteReplications s + 1\<rparr>)"

definition MovingChunkDone :: "chunkId_t \<Rightarrow> ChunkServer \<Rightarrow> ChunkServer" where
  "MovingChunkDone c s = s\<lparr>mChunksToMove := mChunksToMove s - {c}\<rparr>"

definition ReplicateChunkDone :: "chunkId_t \<Rightarrow> ChunkServer \<Rightarrow> ChunkServer option" where
  "ReplicateChunkDone c s =
     (let n = mNumChunkWriteReplications s - 1 in
      assert_then (0 \<le> n) (Some (MovingChunkDone c (s\<lparr>mNumChunkWriteReplications := n\<rparr>))))"

definition NotifyStaleChunks :: "chunkId_t list \<Rightarrow> ChunkServer \<Rightarrow> ChunkServer" where
  "NotifyStaleChunks ids s =
     send_rpc (MetaChunkStaleNotify ids)
       (s\<lparr>mAllocSpace := mAllocSpace s - CHUNKSIZE * word_of_nat (length ids)\<rparr>)"

definition NotifyStaleChunk :: "chunkId_t \<Rightarrow> ChunkServer \<Rightarrow> ChunkServer" where
  "NotifyStaleChunk c s =
     send_rpc (MetaChunkStaleNotify [c]) (s\<lparr>mAllocSpace := mAllocSpace s - CHUNKSIZE\<rparr>)"

definition NotifyChunkVersChange :: "fid_t \<Rightarrow> chunkId_t \<Rightarrow> seq_t \<Rightarrow> ChunkServer \<Rightarrow> ChunkServer" where
  "NotifyChunkVersChange f c v s = send_rpc (MetaChunkVersChange f c v) s"

definition SetRetiring :: "int \<Rightarrow> ChunkServer \<Rightarrow> ChunkServer" where
  "SetRetiring now s = s\<lparr>mIsRetiring := True, mRetireStartTime := now\<rparr>"

definition IncCorruptChunks :: "ChunkServer \<Rightarrow> ChunkServer" where
  "IncCorruptChunks s = s\<lparr>mNumCorruptChunks := mNumCorruptChunks s + 1\<rparr>"

definition SetSpace :: "64 word \<Rightarrow> 64 word \<Rightarrow> 64 word \<Rightarrow> ChunkServer \<Rightarrow> ChunkServer" where
  "SetSpace tot used alloc s = s\<lparr>mTotalSpace := tot, mUsedSpace := used, mAllocSpace := alloc\<rparr>"

definition IsResponsiveServer :: "ChunkServer \<Rightarrow> bool" where
  "IsResponsiveServer s = (\<not> mHeartbeatSkipped s)"

text \<open>\<^verbatim>\<open>GetAvailSpace\<close> recomputes \<^verbatim>\<open>mAllocSpace\<close> as a side effect.\<close>

definition alloc_estimate :: "ChunkServer \<Rightarrow> 64 word" where
  "alloc_estimate s =
     mUsedSpace s + word_of_int (mNumChunkWriteReplications s + mNumChunkWrites s) * CHUNKSIZE"

definition GetAvailSpace :: "ChunkServer \<Rightarrow> ChunkServer \<times> 64 word" where
  "GetAvailSpace s =
     (let s' = s\<lparr>mAllocSpace := alloc_estimate s\<rparr> in
      (s', if mTotalSpace s' \<le> mAllocSpace s' then 0 else mTotalSpace s' - mAllocSpace s'))"

section \<open>Completion of RPCs\<close>

datatype Submitted =
    SubAllocate nat
  | SubChunkReq MetaChunkRequest
  | SubBye ServerLocation

text \<open>
  The requests of the main loop that RPCs refer to, and the requests handed back to it. A resumed
  RPC that points to no allocation request has \<^verbatim>\<open>req == NULL\<close> by construction.
\<close>

record MainLoop =
  allocs :: "nat \<Rightarrow> MetaAllocate"
  submitted :: "Submitted list"

definition submit_request :: "Submitted \<Rightarrow> MainLoop \<Rightarrow> MainLoop" where
  "submit_request r w = w\<lparr>submitted := submitted w @ [r]\<rparr>"

definition ResumeOp :: "MetaChunkRequest \<Rightarrow> MainLoop \<Rightarrow> MainLoop" where
  "ResumeOp p w =
     (case chunk_op p of
        MetaChunkAllocate a leaseId \<Rightarrow>
          (let r = allocs w a;
               r1 = (if ma_status r = 0 then r\<lparr>ma_status := rpc_status p\<rparr> else r);
               r2 = r1\<lparr>ma_numServerReplies := ma_numServerReplies r1 + 1\<rparr>
           in if ma_numServerReplies r2 = length (ma_servers r2)
              then submit_request (SubAllocate a)
                     (w\<lparr>allocs := (allocs w)(a := r2\<lparr>ma_layoutDone := True, ma_suspended := False\<rparr>)\<rparr>)
              else w\<lparr>allocs := (allocs w)(a := r2)\<rparr>)
      | MetaChunkReplicate f c v loc \<Rightarrow> submit_request (SubChunkReq p) w
      | MetaChunkSize f c sz \<Rightarrow> submit_request (SubChunkReq p) w
      | _ \<Rightarrow> w)"

definition FindMatchingRequest :: "seq_t \<Rightarrow> ChunkServer \<Rightarrow> (MetaChunkRequest \<times> ChunkServer) option" where
  "FindMatchingRequest cseq s =
     (case List.find (\<lambda>r. opSeqno r = cseq) (mDispatchedReqs s) of
        None \<Rightarrow> None
      | Some r \<Rightarrow>
          Some (r, s\<lparr>mDispatchedReqs :=
                      takeWhile (\<lambda>r. opSeqno r \<noteq> cseq) (mDispatchedReqs s) @
                      tl (dropWhile (\<lambda>r. opSeqno r \<noteq> cseq) (mDispatchedReqs s))\<rparr>))"

text \<open>\<^verbatim>\<open>prop\<close> is \<^verbatim>\<open>Properties::getValue\<close> on the headers of the reply, with the default as its argument.\<close>

fun reply_op :: "(string \<Rightarrow> int \<Rightarrow> int) \<Rightarrow> MetaChunkOp \<Rightarrow> MetaChunkOp" where
  "reply_op prop (MetaChunkReplicate f c v loc) =
     MetaChunkReplicate (prop ''File-handle'' 0) c (prop ''Chunk-version'' 0) loc"
| "reply_op prop (MetaChunkSize f c sz) = MetaChunkSize f c (prop ''Size'' (-1))"
| "reply_op prop p = p"

definition HandleReply :: "int \<Rightarrow> (string \<Rightarrow> int \<Rightarrow> int) \<Rightarrow> ChunkServer \<Rightarrow> MainLoop \<Rightarrow> (ChunkServer \<times> MainLoop \<times> int) option" where
  "HandleReply now prop s w =
     assert_then (mHelloDone s)
     (case FindMatchingRequest (prop ''Cseq'' (-1)) s of
        None \<Rightarrow> Some (s, w, -1)
      | Some (r, s1) \<Rightarrow>
          (let r1 = r\<lparr>rpc_status := prop ''Status'' (-1), chunk_op := reply_op prop (chunk_op r)\<rparr>;
               s2 = (if chunk_op r = MetaChunkHeartbeat
                     then let used = word_of_int (prop ''Used-space'' 0) in
                       s1\<lparr>mTotalSpace := word_of_int (prop ''Total-space'' 0), mUsedSpace := used,
                          mNumChunks := prop ''Num-chunks'' 0,
                          mAllocSpace := used + word_of_int (mNumChunkWrites s1) * CHUNKSIZE,
                          mHeartbeatSent := False, mLastHeard := now\<rparr>
                     else s1)
           in Some (s2, ResumeOp r1 w, 0)))"

text \<open>The end of \<^verbatim>\<open>HandleHello\<close>: the hello was accepted.\<close>

definition HelloHandled :: "int \<Rightarrow> ChunkServer \<Rightarrow> ChunkServer" where
  "HelloHandled now s = s\<lparr>mHelloDone := True, mLastHeard := now\<rparr>"

definition OpFailer :: "int \<Rightarrow> MetaChunkRequest list \<Rightarrow> MainLoop \<Rightarrow> MainLoop" where
  "OpFailer errCode rs w = fold (\<lambda>r. ResumeOp (r\<lparr>rpc_status := errCode\<rparr>)) rs w"

definition FailDispatchedOps :: "ChunkServer \<Rightarrow> MainLoop \<Rightarrow> ChunkServer \<times> MainLoop" where
  "FailDispatchedOps s w = (s\<lparr>mDispatchedReqs := []\<rparr>, OpFailer (-EIO) (mDispatchedReqs s) w)"

definition FailPendingOps :: "ChunkServer \<Rightarrow> MainLoop \<Rightarrow> ChunkServer \<times> MainLoop" where
  "FailPendingOps s w = (s\<lparr>mPendingReqs := []\<rparr>, OpFailer (-EIO) (mPendingReqs s) w)"

text \<open>\<^verbatim>\<open>Dispatch\<close>: to a connected server the RPCs are written out, otherwise they fail.\<close>

definition Dispatch :: "ChunkServer \<Rightarrow> MainLoop \<Rightarrow> ChunkServer \<times> MainLoop" where
  "Dispatch s w =
     (if mConnected s
      then (s\<lparr>mPendingReqs := [], mDispatchedReqs := mDispatchedReqs s @ mPendingReqs s\<rparr>, w)
      else (s\<lparr>mPendingReqs := []\<rparr>, OpFailer (-EIO) (mPendingReqs s) w))"

text \<open>The \<^verbatim>\<open>EVENT_NET_ERROR\<close> case of \<^verbatim>\<open>HandleRequest\<close>.\<close>

definition HandleNetError :: "ChunkServer \<Rightarrow> MainLoop \<Rightarrow> ChunkServer \<times> MainLoop" where
  "HandleNetError s w =
     (let (s1, w1) = FailDispatchedOps (s\<lparr>mTimer := False\<rparr>) w in
      (s1\<lparr>mTotalSpace := 0, mAllocSpace := 0, mUsedSpace := 0, mConnected := False, mDown := True\<rparr>,
       submit_request (SubBye (mLocation s1)) w1))"

definition Heartbeat :: "int \<Rightarrow> ChunkServer \<Rightarrow> MainLoop \<Rightarrow> ChunkServer \<times> MainLoop" where
  "Heartbeat now s w =
     (if \<not> mHelloDone s then (s, w)
      else if mHeartbeatSent s
      then (if INACTIVE_SERVER_TIMEOUT < now - mLastHeard s then HandleNetError s w
            else (s\<lparr>mHeartbeatSkipped := True\<rparr>, w))
      else (send_rpc MetaChunkHeartbeat (s\<lparr>mHeartbeatSent := True, mHeartbeatSkipped := False\<rparr>), w))"


section \<open>Senders\<close>

text \<open>
  Every operation that talks to the server has the same shape: it appends some RPCs with
  consecutive sequence numbers and leaves the dispatched ones alone. The locale states this
  once; its lemmas give each sender the sequence-number invariant.
\<close>

fun number :: "seq_t \<Rightarrow> MetaChunkOp list \<Rightarrow> MetaChunkRequest list" where
  "number n [] = []"
| "number n (p # ps) = \<lparr>opSeqno = n, chunk_op = p, rpc_status = 0\<rparr> # number (n + 1) ps"

definition outstanding :: "ChunkServer \<Rightarrow> MetaChunkRequest list" where
  "outstanding s = mDispatchedReqs s @ mPendingReqs s"

definition seq_inv :: "ChunkServer \<Rightarrow> bool" where
  "seq_inv s \<longleftrightarrow> distinct (map opSeqno (outstanding s)) \<and> (\<forall>r\<in>set (outstanding s). opSeqno r < mSeqNo s)"

lemma opSeqno_number: "map opSeqno (number n ps) = [n..n + int (length ps) - 1]"
proof (induction ps arbitrary: n)
  case (Cons p ps)
  then show ?case by (subst upto.simps) (auto simp: algebra_simps)
qed simp

locale rpc_sender =
  fixes f :: "ChunkServer \<Rightarrow> ChunkServer" and ops :: "ChunkServer \<Rightarrow> MetaChunkOp list"
  assumes pending_law: "mPendingReqs (f s) = mPendingReqs s @ number (mSeqNo s) (ops s)"
    and seq_law: "mSeqNo (f s) = mSeqNo s + int (length (ops s))"
    and dispatched_law: "mDispatchedReqs (f s) = mDispatchedReqs s"
begin

lemma outstanding_after: "outstanding (f s) = outstanding s @ number (mSeqNo s) (ops s)"
  by (simp add: outstanding_def pending_law dispatched_law)

lemma keeps_seq_inv:
  assumes "seq_inv s"
  shows "seq_inv (f s)"
proof -
  let ?new = "number (mSeqNo s) (ops s)"
  have new: "set (map opSeqno ?new) = {mSeqNo s..<mSeqNo (f s)}"
    unfolding opSeqno_number seq_law by auto
  have "distinct (map opSeqno ?new)" unfolding opSeqno_number by simp
  moreover have "opSeqno r < mSeqNo s" if "r \<in> set (outstanding s)" for r
    using assms that by (simp add: seq_inv_def)
  moreover have "mSeqNo s \<le> mSeqNo (f s)" by (simp add: seq_law)
  moreover have "opSeqno r \<in> {mSeqNo s..<mSeqNo (f s)}" if "r \<in> set ?new" for r
    using that new by (metis imageI set_map)
  ultimately show ?thesis
    using assms unfolding seq_inv_def outstanding_after by fastforce
qed

lemma reply_to_earlier:
  assumes "seq_inv s" "r \<in> set (mDispatchedReqs s)"
  shows "List.find (\<lambda>x. opSeqno x = opSeqno r) (mDispatchedReqs (f s)) = Some r"
proof -
  have "List.find (\<lambda>x. opSeqno x = opSeqno r) xs = Some r"
    if "r \<in> set xs" "distinct (map opSeqno xs)" for xs
    using that by (induction xs) auto
  then show ?thesis using assms by (simp add: dispatched_law seq_inv_def outstanding_def)
qed

end

lemmas rpc_sender_simps =
  send_rpc_def Enqueue_def UpdateNumChunkWrites_def UpdateReplicationReadLoad_def Let_def

interpretation send: rpc_sender "send_rpc p" "\<lambda>_. [p]" for p
  by unfold_locales (simp_all add: rpc_sender_simps)

interpretation alloc: rpc_sender "AllocateChunk_rpc r l" "\<lambda>_. [MetaChunkAllocate r l]" for r l
  by unfold_locales (simp_all add: AllocateChunk_rpc_def rpc_sender_simps)

interpretation retire: rpc_sender Retire "\<lambda>_. [MetaChunkRetire]"
  by unfold_locales (simp_all add: Retire_def rpc_sender_simps)

definition evacuated_ops :: "chunkId_t \<Rightarrow> ChunkServer \<Rightarrow> MetaChunkOp list" where
  "evacuated_ops c s = (if mIsRetiring s \<and> mEvacuatingChunks s \<subseteq> {c} then [MetaChunkRetire] else [])"

lemma minus_single_empty: "A - {c} = {} \<longleftrightarrow> A \<subseteq> {c}"
  by auto

interpretation evac: rpc_sender "EvacuateChunkDone c" "evacuated_ops c" for c
  by unfold_locales
    (simp_all add: EvacuateChunkDone_def evacuated_ops_def Retire_def rpc_sender_simps minus_single_empty)

interpretation dele: rpc_sender "DeleteChunk_rpc c" "\<lambda>s. evacuated_ops c s @ [MetaChunkDelete c]" for c
  by unfold_locales
    (simp_all add: DeleteChunk_rpc_def EvacuateChunkDone_def evacuated_ops_def Retire_def
      rpc_sender_simps minus_single_empty)

interpretation trunc: rpc_sender "TruncateChunk_rpc c sz" "\<lambda>_. [MetaChunkTruncate c sz]" for c sz
  by unfold_locales (simp_all add: TruncateChunk_rpc_def rpc_sender_simps)

interpretation size: rpc_sender "GetChunkSize f c" "\<lambda>_. [MetaChunkSize f c (-1)]" for f c
  by unfold_locales (simp_all add: GetChunkSize_def rpc_sender_simps)

interpretation repl: rpc_sender "ReplicateChunk_rpc f c v l" "\<lambda>_. [MetaChunkReplicate f c v l]" for f c v l
  by unfold_locales (simp_all add: ReplicateChunk_rpc_def rpc_sender_simps)

interpretation stales: rpc_sender "NotifyStaleChunks ids" "\<lambda>_. [MetaChunkStaleNotify ids]" for ids
  by unfold_locales (simp_all add: NotifyStaleChunks_def rpc_sender_simps)

interpretation stale: rpc_sender "NotifyStaleChunk c" "\<lambda>_. [MetaChunkStaleNotify [c]]" for c
  by unfold_locales (simp_all add: NotifyStaleChunk_def rpc_sender_simps)

interpretation vers: rpc_sender "NotifyChunkVersChange f c v" "\<lambda>_. [MetaChunkVersChange f c v]" for f c v
  by unfold_locales (simp_all add: NotifyChunkVersChange_def rpc_sender_simps)

interpretation writes: rpc_sender "UpdateNumChunkWrites n" "\<lambda>_. []" for n
  by unfold_locales (simp_all add: rpc_sender_simps)

interpretation readload: rpc_sender "UpdateReplicationReadLoad n" "\<lambda>_. []" for n
  by unfold_locales (simp_all add: rpc_sender_simps)

interpretation evacuate: rpc_sender "EvacuateChunk c" "\<lambda>_. []" for c
  by unfold_locales (simp_all add: EvacuateChunk_def)

interpretation moving: rpc_sender "MovingChunkDone c" "\<lambda>_. []" for c
  by unfold_locales (simp_all add: MovingChunkDone_def)

interpretation retiring: rpc_sender "SetRetiring now" "\<lambda>_. []" for now
  by unfold_locales (simp_all add: SetRetiring_def)

interpretation corrupt: rpc_sender IncCorruptChunks "\<lambda>_. []"
  by unfold_locales (simp_all add: IncCorruptChunks_def)

interpretation space: rpc_sender "SetSpace a b c" "\<lambda>_. []" for a b c
  by unfold_locales (simp_all add: SetSpace_def)

interpretation hello: rpc_sender "HelloHandled now" "\<lambda>_. []" for now
  by unfold_locales (simp_all add: HelloHandled_def)

interpretation avail: rpc_sender "\<lambda>s. fst (GetAvailSpace s)" "\<lambda>_. []"
  by unfold_locales (simp_all add: GetAvailSpace_def Let_def)


section \<open>Every RPC completes exactly once\<close>

text \<open>
  The events in the life of the connection. Senders are all the operations with the \<^verbatim>\<open>rpc_sender\<close> contract. A run
  also collects the RPCs as they were sent: those in the queues whose numbers are new.
\<close>

inductive cs_step :: "ChunkServer \<times> MainLoop \<Rightarrow> ChunkServer \<times> MainLoop \<Rightarrow> bool" where
  cs_send: "rpc_sender f ops \<Longrightarrow> cs_step (s, w) (f s, w)"
| cs_dispatch: "cs_step (s, w) (Dispatch s w)"
| cs_reply: "HandleReply now prop s w = Some (s', w', res) \<Longrightarrow> cs_step (s, w) (s', w')"
| cs_neterror: "cs_step (s, w) (HandleNetError s w)"
| cs_failpending: "cs_step (s, w) (FailPendingOps s w)"
| cs_heartbeat: "cs_step (s, w) (Heartbeat now s w)"

definition newly_sent :: "ChunkServer \<Rightarrow> ChunkServer \<Rightarrow> MetaChunkRequest list" where
  "newly_sent s s' = filter (\<lambda>r. mSeqNo s \<le> opSeqno r) (outstanding s')"

inductive cs_run :: "MainLoop \<Rightarrow> ChunkServer \<Rightarrow> MainLoop \<Rightarrow> MetaChunkRequest list \<Rightarrow> bool" for w0 where
  cs_init: "cs_run w0 new_ChunkServer w0 []"
| cs_more: "cs_run w0 s w sent \<Longrightarrow> cs_step (s, w) (s', w') \<Longrightarrow> cs_run w0 s' w' (sent @ newly_sent s s')"

text \<open>
  What the connection does to the main loop: it completes an RPC by \<^verbatim>\<open>ResumeOp\<close> or submits the request that takes the server
  down. A completed RPC is one that was sent, with the members that a reply may set.
\<close>

datatype LoopEvent = Resumed MetaChunkRequest | Bye ServerLocation

fun loop_event :: "LoopEvent \<Rightarrow> MainLoop \<Rightarrow> MainLoop" where
  "loop_event (Resumed r) = ResumeOp r"
| "loop_event (Bye loc) = submit_request (SubBye loc)"

fun resumed :: "LoopEvent list \<Rightarrow> MetaChunkRequest list" where
  "resumed [] = []"
| "resumed (Resumed r # es) = r # resumed es"
| "resumed (Bye loc # es) = resumed es"

lemma resumed_append [simp]: "resumed (es @ es') = resumed es @ resumed es'"
  by (induction es rule: resumed.induct) auto

lemma resumed_map [simp]: "resumed (map (\<lambda>r. Resumed (f r)) rs) = map f rs"
  by (induction rs) auto

definition completes :: "MetaChunkRequest \<Rightarrow> MetaChunkRequest \<Rightarrow> bool" where
  "completes r r0 \<longleftrightarrow> r = r0\<lparr>rpc_status := - EIO\<rparr> \<or>
     (\<exists>prop. prop ''Cseq'' (- 1) = opSeqno r0 \<and>
        r = r0\<lparr>rpc_status := prop ''Status'' (- 1), chunk_op := reply_op prop (chunk_op r0)\<rparr>)"

text \<open>A step either sends RPCs, or takes some out of the queues and completes just these.\<close>

definition finishes :: "ChunkServer \<Rightarrow> MainLoop \<Rightarrow> ChunkServer \<Rightarrow> MainLoop \<Rightarrow> bool" where
  "finishes s w s' w' \<longleftrightarrow> mSeqNo s' = mSeqNo s \<and>
     (\<exists>es rs. w' = fold loop_event es w \<and> mset (outstanding s) = mset (outstanding s') + mset rs \<and>
        list_all2 completes (resumed es) rs)"

lemma finishesI:
  assumes "w' = fold loop_event es w" "mset (outstanding s) = mset (outstanding s') + mset rs"
    "list_all2 completes (resumed es) rs" "mSeqNo s' = mSeqNo s"
  shows "finishes s w s' w'"
  unfolding finishes_def using assms by blast

lemma find_SomeD: "List.find P xs = Some x \<Longrightarrow> P x"
  by (auto simp: find_Some_iff)

lemma find_split:
  assumes "List.find P xs = Some x"
  shows "takeWhile (\<lambda>y. \<not> P y) xs @ x # tl (dropWhile (\<lambda>y. \<not> P y) xs) = xs"
  using assms by (induction xs) (auto split: if_splits)

lemma OpFailer_events: "OpFailer e rs w = fold loop_event (map (\<lambda>r. Resumed (r\<lparr>rpc_status := e\<rparr>)) rs) w"
  by (simp add: OpFailer_def fold_map comp_def)

lemma completes_failed: "list_all2 completes (map (\<lambda>r. r\<lparr>rpc_status := - EIO\<rparr>) rs) rs"
  by (simp add: list_all2_conv_all_nth completes_def)

lemma HandleReply_finishes:
  assumes "HandleReply now prop s w = Some (s', w', res)"
  shows "finishes s w s' w'"
proof (cases "List.find (\<lambda>r. opSeqno r = prop ''Cseq'' (- 1)) (mDispatchedReqs s)")
  case None
  then show ?thesis
    using assms by (intro finishesI [of _ "[]" _ _ _ "[]"]) (auto simp: HandleReply_def FindMatchingRequest_def)
next
  case (Some r)
  let ?a = "takeWhile (\<lambda>r. opSeqno r \<noteq> prop ''Cseq'' (- 1)) (mDispatchedReqs s)"
  let ?b = "tl (dropWhile (\<lambda>r. opSeqno r \<noteq> prop ''Cseq'' (- 1)) (mDispatchedReqs s))"
  let ?r = "r\<lparr>rpc_status := prop ''Status'' (-1), chunk_op := reply_op prop (chunk_op r)\<rparr>"
  have "mDispatchedReqs s' = ?a @ ?b" "mPendingReqs s' = mPendingReqs s" "mSeqNo s' = mSeqNo s" "w' = ResumeOp ?r w"
    using assms Some by (auto simp: HandleReply_def FindMatchingRequest_def Let_def split: if_splits)
  moreover have "mset (mDispatchedReqs s) = mset (?a @ ?b) + {#r#}"
    by (subst find_split [OF Some, simplified, symmetric]) simp
  moreover have "completes ?r r"
    using find_SomeD [OF Some] unfolding completes_def by (intro disjI2 exI [of _ "prop"]) simp
  ultimately show ?thesis
    by (intro finishesI [of _ "[Resumed ?r]" _ _ _ "[r]"]) (auto simp: outstanding_def)
qed

lemma FailPendingOps_finishes: "FailPendingOps s w = (s', w') \<Longrightarrow> finishes s w s' w'"
  using completes_failed [of "mPendingReqs s"]
  by (intro finishesI [of _ "map (\<lambda>r. Resumed (r\<lparr>rpc_status := - EIO\<rparr>)) (mPendingReqs s)" _ _ _ "mPendingReqs s"])
    (auto simp: FailPendingOps_def OpFailer_events outstanding_def)

lemma Dispatch_finishes:
  assumes "Dispatch s w = (s', w')"
  shows "finishes s w s' w'"
proof (cases "mConnected s")
  case True
  then show ?thesis
    using assms by (intro finishesI [of _ "[]" _ _ _ "[]"]) (auto simp: Dispatch_def outstanding_def)
next
  case False
  then show ?thesis
    using assms FailPendingOps_finishes [of s w s' w'] by (simp add: Dispatch_def FailPendingOps_def)
qed

lemma HandleNetError_finishes:
  assumes "HandleNetError s w = (s', w')"
  shows "finishes s w s' w'"
  using assms completes_failed [of "mDispatchedReqs s"]
  by (intro finishesI [of _ "map (\<lambda>r. Resumed (r\<lparr>rpc_status := - EIO\<rparr>)) (mDispatchedReqs s) @ [Bye (mLocation s)]" _ _ _ "mDispatchedReqs s"])
    (auto simp: HandleNetError_def FailDispatchedOps_def OpFailer_events outstanding_def)

lemma Heartbeat_cases:
  "(\<exists>f ops. rpc_sender f ops \<and> Heartbeat now s w = (f s, w)) \<or> Heartbeat now s w = HandleNetError s w"
proof -
  have senders: "rpc_sender (\<lambda>s. s) (\<lambda>_. [])" "rpc_sender (\<lambda>s. s\<lparr>mHeartbeatSkipped := True\<rparr>) (\<lambda>_. [])"
    "rpc_sender (\<lambda>s. send_rpc MetaChunkHeartbeat (s\<lparr>mHeartbeatSent := True, mHeartbeatSkipped := False\<rparr>)) (\<lambda>_. [MetaChunkHeartbeat])"
    by (unfold_locales; simp add: rpc_sender_simps)+
  then have senders': "\<exists>f ops. rpc_sender f ops \<and> (s, w) = (f s, w)"
    "\<exists>f ops. rpc_sender f ops \<and> (s\<lparr>mHeartbeatSkipped := True\<rparr>, w) = (f s, w)"
    "\<exists>f ops. rpc_sender f ops \<and>
      (send_rpc MetaChunkHeartbeat (s\<lparr>mHeartbeatSent := True, mHeartbeatSkipped := False\<rparr>), w) = (f s, w)"
    by fast+
  show ?thesis unfolding Heartbeat_def by (simp only: split: if_split) (use senders' in blast)
qed

lemma cs_step_cases:
  assumes "cs_step (s, w) (s', w')"
  obtains f ops where "rpc_sender f ops" "s' = f s" "w' = w" | "finishes s w s' w'"
  using assms
proof cases
  case (cs_heartbeat now)
  then show ?thesis
    using Heartbeat_cases [of now s w] that HandleNetError_finishes [of s w s' w'] by auto
qed (use that HandleReply_finishes Dispatch_finishes HandleNetError_finishes FailPendingOps_finishes in \<open>metis prod.inject\<close>)+

text \<open>The account of a run: RPCs are numbered from one, and each sent one is either in a queue or completed.\<close>

definition rpcs_accounted :: "MainLoop \<Rightarrow> ChunkServer \<Rightarrow> MainLoop \<Rightarrow> MetaChunkRequest list \<Rightarrow> bool" where
  "rpcs_accounted w0 s w sent \<longleftrightarrow>
     1 \<le> mSeqNo s \<and> map opSeqno sent = [1..mSeqNo s - 1] \<and>
     (\<exists>es rs. w = fold loop_event es w0 \<and> mset sent = mset (outstanding s) + mset rs \<and> list_all2 completes (resumed es) rs)"

lemma accounted_old:
  assumes "rpcs_accounted w0 s w sent" "r \<in> set (outstanding s)"
  shows "opSeqno r < mSeqNo s"
proof -
  obtain rs where sent: "map opSeqno sent = [1..mSeqNo s - 1]" "mset sent = mset (outstanding s) + mset rs"
    using assms(1) unfolding rpcs_accounted_def by blast
  then have "r \<in> set sent" using assms(2) by (metis mset_append mset_eq_setD Un_iff set_append)
  then have "opSeqno r \<in> set (map opSeqno sent)" by simp
  then show ?thesis by (simp add: sent(1))
qed

lemma newly_sent_number: "filter (\<lambda>r. k \<le> opSeqno r) (number k ps) = number k ps"
proof -
  have "opSeqno r \<in> {k..k + int (length ps) - 1}" if "r \<in> set (number k ps)" for r
    using that opSeqno_number [of k ps] by (metis imageI set_map set_upto)
  then show ?thesis by (auto intro: filter_True)
qed

lemma sender_accounted:
  assumes f: "rpc_sender f ops" and acc: "rpcs_accounted w0 s w sent"
  shows "rpcs_accounted w0 (f s) w (sent @ newly_sent s (f s))"
proof -
  note laws = rpc_sender.outstanding_after [OF f] rpc_sender.seq_law [OF f]
  have "filter (\<lambda>r. mSeqNo s \<le> opSeqno r) (outstanding s) = []"
    using accounted_old [OF acc] by (fastforce simp: filter_empty_conv)
  then have new: "newly_sent s (f s) = number (mSeqNo s) (ops s)" by (simp add: newly_sent_def laws newly_sent_number)
  have "[1..mSeqNo s - 1] @ [mSeqNo s..mSeqNo (f s) - 1] = [1..mSeqNo (f s) - 1]"
  proof (cases "mSeqNo s = 1")
    case False
    then show ?thesis
      using upto_split2 [of 1 "mSeqNo s - 1" "mSeqNo (f s) - 1"] acc by (simp add: rpcs_accounted_def laws)
  qed simp
  then show ?thesis using acc by (auto simp: rpcs_accounted_def new laws opSeqno_number)
qed

lemma finishes_accounted:
  assumes fin: "finishes s w s' w'" and acc: "rpcs_accounted w0 s w sent"
  shows "rpcs_accounted w0 s' w' (sent @ newly_sent s s')"
proof -
  obtain es rs where fin': "mSeqNo s' = mSeqNo s" "w' = fold loop_event es w" "mset (outstanding s) = mset (outstanding s') + mset rs"
    "list_all2 completes (resumed es) rs"
    using fin unfolding finishes_def by blast
  obtain es0 rs0 where acc': "w = fold loop_event es0 w0" "mset sent = mset (outstanding s) + mset rs0" "list_all2 completes (resumed es0) rs0"
    using acc unfolding rpcs_accounted_def by blast
  have "set (outstanding s') \<subseteq> set (outstanding s)" using fin'(3) by (metis mset_append mset_eq_setD Un_upper1 set_append)
  then have new: "newly_sent s s' = []"
    using accounted_old [OF acc] by (fastforce simp: newly_sent_def filter_empty_conv)
  have "w' = fold loop_event (es0 @ es) w0" "mset sent = mset (outstanding s') + mset (rs0 @ rs)"
    "list_all2 completes (resumed (es0 @ es)) (rs0 @ rs)"
    using fin' acc' by (simp_all add: list_all2_appendI)
  then show ?thesis using acc unfolding rpcs_accounted_def new fin'(1) by (metis append_Nil2)
qed

lemma cs_run_accounted: "cs_run w0 s w sent \<Longrightarrow> rpcs_accounted w0 s w sent"
proof (induction rule: cs_run.induct)
  case cs_init
  show ?case
    by (auto simp: rpcs_accounted_def outstanding_def new_ChunkServer_def intro!: exI [of _ "[]"])
next
  case (cs_more s w sent s' w')
  from cs_more.hyps(2) show ?case
    by (cases rule: cs_step_cases) (use sender_accounted finishes_accounted cs_more.IH in auto)
qed


section \<open>Completion of an allocation\<close>

definition refers :: "nat \<Rightarrow> MetaChunkRequest \<Rightarrow> bool" where
  "refers a r = (case chunk_op r of MetaChunkAllocate b l \<Rightarrow> b = a | _ \<Rightarrow> False)"

text \<open>The first status that reports a failure, or zero.\<close>

fun first_error :: "int list \<Rightarrow> int" where
  "first_error [] = 0"
| "first_error (x # xs) = (if x \<noteq> 0 then x else first_error xs)"

lemma first_error_snoc: "first_error (xs @ [x]) = (if first_error xs = 0 then x else first_error xs)"
  by (induction xs) auto

definition replies_in :: "nat \<Rightarrow> MetaChunkRequest list \<Rightarrow> MetaAllocate \<Rightarrow> MetaAllocate" where
  "replies_in a rs r =
     (let k = length (filter (refers a) rs) in
      r\<lparr>ma_status := first_error (map rpc_status (filter (refers a) rs)), ma_numServerReplies := k,
        ma_layoutDone := ma_layoutDone r \<or> k = length (ma_servers r),
        ma_suspended := ma_suspended r \<and> k \<noteq> length (ma_servers r)\<rparr>)"

lemma ResumeOp_other [simp]:
  assumes "\<not> refers a r"
  shows "allocs (ResumeOp r w) a = allocs w a"
    "count_list (submitted (ResumeOp r w)) (SubAllocate a) = count_list (submitted w) (SubAllocate a)"
  using assms
  by (auto simp: ResumeOp_def refers_def submit_request_def Let_def split: MetaChunkOp.splits)

lemma ResumeOp_refers:
  fixes w :: MainLoop
  assumes "refers a r"
  defines "q \<equiv> allocs w a"
  defines "done \<equiv> ma_numServerReplies q + 1 = length (ma_servers q)"
  shows "allocs (ResumeOp r w) a =
      q\<lparr>ma_status := if ma_status q = 0 then rpc_status r else ma_status q,
        ma_numServerReplies := ma_numServerReplies q + 1,
        ma_layoutDone := ma_layoutDone q \<or> done, ma_suspended := ma_suspended q \<and> \<not> done\<rparr>"
    "count_list (submitted (ResumeOp r w)) (SubAllocate a) =
      count_list (submitted w) (SubAllocate a) + (if done then 1 else 0)"
  using assms
  by (auto simp: ResumeOp_def refers_def submit_request_def Let_def split: MetaChunkOp.splits)

lemma allocation_replies:
  assumes "ma_status (allocs w a) = 0" "ma_numServerReplies (allocs w a) = 0"
    "0 < length (ma_servers (allocs w a))"
    "length (filter (refers a) rs) \<le> length (ma_servers (allocs w a))"
  shows "allocs (fold ResumeOp rs w) a = replies_in a rs (allocs w a)"
    "count_list (submitted (fold ResumeOp rs w)) (SubAllocate a) =
      count_list (submitted w) (SubAllocate a) +
        (if length (filter (refers a) rs) = length (ma_servers (allocs w a)) then 1 else 0)"
proof -
  have "allocs (fold ResumeOp rs w) a = replies_in a rs (allocs w a) \<and>
    count_list (submitted (fold ResumeOp rs w)) (SubAllocate a) =
      count_list (submitted w) (SubAllocate a) +
        (if length (filter (refers a) rs) = length (ma_servers (allocs w a)) then 1 else 0)"
    using assms
  proof (induction rs rule: rev_induct)
    case Nil
    then show ?case by (simp add: replies_in_def)
  next
    case (snoc r rs)
    show ?case
    proof (cases "refers a r")
      case False
      then show ?thesis using snoc by (simp add: replies_in_def)
    next
      case True
      then have IH: "allocs (fold ResumeOp rs w) a = replies_in a rs (allocs w a)"
        "count_list (submitted (fold ResumeOp rs w)) (SubAllocate a) =
          count_list (submitted w) (SubAllocate a)"
        using snoc by auto
      from True snoc.prems have "length (filter (refers a) rs) < length (ma_servers (allocs w a))" by simp
      then show ?thesis
        using True ResumeOp_refers [OF True, of "fold ResumeOp rs w"] IH
        by (auto simp: replies_in_def Let_def first_error_snoc)
    qed
  qed
  then show "allocs (fold ResumeOp rs w) a = replies_in a rs (allocs w a)"
    "count_list (submitted (fold ResumeOp rs w)) (SubAllocate a) =
      count_list (submitted w) (SubAllocate a) +
        (if length (filter (refers a) rs) = length (ma_servers (allocs w a)) then 1 else 0)"
    by simp_all
qed

section \<open>Available space\<close>

lemma GetAvailSpace_le: "snd (GetAvailSpace s) \<le> mTotalSpace s"
  by (simp add: GetAvailSpace_def Let_def word_le_nat_alt unat_sub_if' not_le)

text \<open>
  When the estimate does not exceed 64 bits, the available space is the total less the used space
  less one chunk for each write or replication in progress, and never negative.
\<close>

lemma alloc_estimate_exact:
  assumes n: "0 \<le> n" "n = mNumChunkWriteReplications s + mNumChunkWrites s"
    and small: "uint (mUsedSpace s) + n * 2 ^ 26 < 2 ^ 64"
  shows "uint (alloc_estimate s) = uint (mUsedSpace s) + n * 2 ^ 26"
proof -
  have nonneg: "0 \<le> uint (mUsedSpace s)" by simp
  have "n \<le> n * 2 ^ 26" using n(1) by simp
  then have "n < 2 ^ 64" using small nonneg by linarith
  then have un: "uint (word_of_int n :: 64 word) = n" using n(1) by (simp add: uint_word_of_int)
  have "n * 2 ^ 26 < 2 ^ 64" using small nonneg by linarith
  then have "uint (word_of_int n * CHUNKSIZE) = n * 2 ^ 26"
    using take_bit_int_eq_self [of "n * 2 ^ 26" 64] n(1)
    by (simp add: uint_word_arith_bintrs un CHUNKSIZE_int)
  then show ?thesis
    using small n by (simp add: alloc_estimate_def uint_word_arith_bintrs take_bit_int_eq_self)
qed

lemma GetAvailSpace_exact:
  assumes "0 \<le> n" "n = mNumChunkWriteReplications s + mNumChunkWrites s"
    "uint (mUsedSpace s) + n * 2 ^ 26 < 2 ^ 64"
  shows "uint (snd (GetAvailSpace s)) = max 0 (uint (mTotalSpace s) - (uint (mUsedSpace s) + n * 2 ^ 26))"
  using alloc_estimate_exact [OF assms]
  by (auto simp: GetAvailSpace_def Let_def word_le_def uint_sub_if' split: if_splits)

section \<open>What the connection promises\<close>

definition sample_loop :: MainLoop where
  "sample_loop =
     \<lparr>allocs = \<lambda>_. \<lparr>ma_fid = 5, ma_offset = 0, ma_chunkId = 7, ma_chunkVersion = 1, ma_clientHost = [],
        ma_numReplicas = 2, ma_layoutDone = False, ma_servers = [0, 1], ma_master = Some 0,
        ma_numServerReplies = 0, ma_status = 0, ma_suspended = True\<rparr>,
      submitted = []\<rparr>"



text \<open>
  C24. A client's allocation waits for the replies of all its servers. Whatever other RPCs complete
  in between and in whatever order, after as many completions for it as it has servers the
  request is handed back to the main loop exactly once, marked as laid out and no longer
  suspended, with the first error that a server reported as its status (or 0); before that it is
  not handed back at all.
\<close>

theorem allocation_resumes_once:
  assumes "ma_status (allocs w a) = 0" "ma_numServerReplies (allocs w a) = 0"
    "0 < length (ma_servers (allocs w a))"
    "length (filter (refers a) rs) \<le> length (ma_servers (allocs w a))"
  shows "allocs (fold ResumeOp rs w) a = replies_in a rs (allocs w a) \<and>
    count_list (submitted (fold ResumeOp rs w)) (SubAllocate a) =
      count_list (submitted w) (SubAllocate a) +
        (if length (filter (refers a) rs) = length (ma_servers (allocs w a)) then 1 else 0)"
  using allocation_replies [OF assms] by blast

definition sample_replies :: "MetaChunkRequest list" where
  "sample_replies =
     [\<lparr>opSeqno = 4, chunk_op = MetaChunkAllocate 3 9, rpc_status = 0\<rparr>,
      \<lparr>opSeqno = 5, chunk_op = MetaChunkAllocate 8 9, rpc_status = 0\<rparr>,
      \<lparr>opSeqno = 2, chunk_op = MetaChunkAllocate 3 (-1), rpc_status = - EIO\<rparr>]"

theorem allocation_resumes_once_witness:
  "ma_status (allocs (fold ResumeOp sample_replies sample_loop) 3) = - EIO \<and>
   \<not> ma_suspended (allocs (fold ResumeOp sample_replies sample_loop) 3) \<and>
   count_list (submitted (fold ResumeOp sample_replies sample_loop)) (SubAllocate 3) = 1"
  using allocation_resumes_once [of sample_loop 3 sample_replies]
  by (simp add: sample_loop_def sample_replies_def refers_def replies_in_def Let_def)

text \<open>
  C35. The available space of a server is the total less the used space less one chunk for each
  write and replication in progress, cut off at zero; it is exact as long as that estimate of the
  space in use fits into the 64 bits of the counters.
\<close>

theorem avail_space_exact:
  assumes "0 \<le> n" "n = mNumChunkWriteReplications s + mNumChunkWrites s"
    "uint (mUsedSpace s) + n * 2 ^ 26 < 2 ^ 64"
  shows "uint (snd (GetAvailSpace s)) = max 0 (uint (mTotalSpace s) - (uint (mUsedSpace s) + n * 2 ^ 26))"
  using GetAvailSpace_exact [OF assms] .

theorem avail_space_exact_witness:
  "uint (snd (GetAvailSpace (UpdateNumChunkWrites 2 (SetSpace (2 ^ 30) 1000 0 new_ChunkServer)))) =
     2 ^ 30 - (1000 + 2 * 2 ^ 26)"
  using avail_space_exact [of 2 "UpdateNumChunkWrites 2 (SetSpace (2 ^ 30) 1000 0 new_ChunkServer)"]
  by (simp add: UpdateNumChunkWrites_def SetSpace_def new_ChunkServer_def)

end
