(* ===== verification/Meta_Base.thy ===== *)
theory Meta_Base
  imports Kfs_Prelude
begin

text \<open>
  The metadata items of the metaserver: src/src/cc/meta/kfstypes.h, base.h, meta.h and meta.cc.
  A search key is a kind and two numbers; \<^verbatim>\<open>compare\<close> is the three-way comparison of meta.cc, in
  which a second number \<^verbatim>\<open>MATCH_ANY\<close> equals every other one. Items are directory entries, file
  attributes and chunk descriptors, each with its key, its owner id and its \<^verbatim>\<open>match\<close>. On keys
  that do not use \<^verbatim>\<open>MATCH_ANY\<close> (every stored key) the comparison is the lexicographic order,
  which is made the \<^verbatim>\<open>linorder\<close> of the type.
\<close>

section \<open>Keys\<close>

datatype MetaType =
    KFS_UNINIT
  | KFS_INTERNAL
  | KFS_FATTR
  | KFS_DENTRY
  | KFS_CHUNKINFO
  | KFS_SENTINEL

fun metatype_val :: "MetaType \<Rightarrow> int" where
  "metatype_val KFS_UNINIT = 0"
| "metatype_val KFS_INTERNAL = 1"
| "metatype_val KFS_FATTR = 2"
| "metatype_val KFS_DENTRY = 3"
| "metatype_val KFS_CHUNKINFO = 4"
| "metatype_val KFS_SENTINEL = 99999"

datatype FileType = KFS_NONE | KFS_FILE | KFS_DIR

datatype Key = Key (kind: MetaType) (kdata1: int) (kdata2: int)

definition MATCH_ANY :: int where
  "MATCH_ANY = -1"

definition compare :: "Key \<Rightarrow> Key \<Rightarrow> int" where
  "compare this test =
     (let kdiff = metatype_val (kind this) - metatype_val (kind test) in
      if kdiff \<noteq> 0 then kdiff
      else if kdata1 this \<noteq> kdata1 test
        then (if kdata1 this < kdata1 test then -1 else 1)
      else if kdata2 this \<noteq> kdata2 test \<and> kdata2 this \<noteq> MATCH_ANY \<and> kdata2 test \<noteq> MATCH_ANY
        then (if kdata2 this < kdata2 test then -1 else 1)
      else 0)"

definition key_lt :: "Key \<Rightarrow> Key \<Rightarrow> bool" where
  "key_lt a b \<longleftrightarrow> compare a b < 0"

definition key_eq :: "Key \<Rightarrow> Key \<Rightarrow> bool" where
  "key_eq a b \<longleftrightarrow> compare a b = 0"

definition sentinel_key :: Key where
  "sentinel_key = Key KFS_SENTINEL 0 0"

section \<open>Items\<close>

record timeval =
  tv_sec :: int
  tv_usec :: int

record dentry =
  de_fid :: fid_t
  de_dir :: fid_t
  de_name :: string

record fattr =
  fa_fid :: fid_t
  fa_type :: FileType
  fa_numReplicas :: int
  fa_mtime :: timeval
  fa_ctime :: timeval
  fa_crtime :: timeval
  fa_chunkcount :: int
  fa_filesize :: int

record chunkinfo =
  ci_fid :: fid_t
  ci_offset :: chunkOff_t
  ci_chunkId :: chunkId_t
  ci_chunkVersion :: seq_t

datatype Meta =
    MetaDentry dentry
  | MetaFattr fattr
  | MetaChunkInfo chunkinfo

definition new_dentry :: "fid_t \<Rightarrow> string \<Rightarrow> fid_t \<Rightarrow> dentry" where
  "new_dentry parent fname myID = \<lparr>de_fid = myID, de_dir = parent, de_name = fname\<rparr>"

definition new_fattr :: "timeval \<Rightarrow> FileType \<Rightarrow> fid_t \<Rightarrow> int \<Rightarrow> fattr" where
  "new_fattr now t fid n =
     \<lparr>fa_fid = fid, fa_type = t, fa_numReplicas = n, fa_mtime = now, fa_ctime = now,
      fa_crtime = now, fa_chunkcount = 0, fa_filesize = (if t = KFS_DIR then 0 else -1)\<rparr>"

definition new_chunkinfo :: "fid_t \<Rightarrow> chunkOff_t \<Rightarrow> chunkId_t \<Rightarrow> seq_t \<Rightarrow> chunkinfo" where
  "new_chunkinfo file off cid v =
     \<lparr>ci_fid = file, ci_offset = off, ci_chunkId = cid, ci_chunkVersion = v\<rparr>"

fun meta_id :: "Meta \<Rightarrow> fid_t" where
  "meta_id (MetaDentry d) = de_fid d"
| "meta_id (MetaFattr f) = fa_fid f"
| "meta_id (MetaChunkInfo c) = ci_fid c"

fun meta_key :: "Meta \<Rightarrow> Key" where
  "meta_key (MetaDentry d) = Key KFS_DENTRY (de_dir d) 0"
| "meta_key (MetaFattr f) = Key KFS_FATTR (fa_fid f) 0"
| "meta_key (MetaChunkInfo c) = Key KFS_CHUNKINFO (ci_fid c) (ci_offset c)"

text \<open>
  \<^verbatim>\<open>match\<close> is virtual: directory entries compare names, the other items owner ids. The
  argument always has the key of the receiver, hence its type.
\<close>

fun meta_match :: "Meta \<Rightarrow> Meta \<Rightarrow> bool" where
  "meta_match (MetaDentry d) (MetaDentry t) = (de_name t = de_name d)"
| "meta_match m t = (meta_id m = meta_id t)"

section \<open>The order on keys\<close>

lemma metatype_val_inj [simp]: "metatype_val a = metatype_val b \<longleftrightarrow> a = b"
  by (cases a; cases b) auto

lemma metatype_val_le_sentinel [simp]: "metatype_val a \<le> 99999"
  by (cases a) auto

instantiation Key :: linorder
begin

definition less_Key :: "Key \<Rightarrow> Key \<Rightarrow> bool" where
  "less_Key a b \<longleftrightarrow> metatype_val (kind a) < metatype_val (kind b) \<or>
     kind a = kind b \<and> (kdata1 a < kdata1 b \<or> kdata1 a = kdata1 b \<and> kdata2 a < kdata2 b)"

definition less_eq_Key :: "Key \<Rightarrow> Key \<Rightarrow> bool" where
  "less_eq_Key a b \<longleftrightarrow> a < b \<or> a = (b :: Key)"

instance
proof
  fix x y z :: Key
  show "(x < y) = (x \<le> y \<and> \<not> y \<le> x)"
    by (cases x; cases y) (auto simp: less_Key_def less_eq_Key_def)
  show "x \<le> x"
    by (simp add: less_eq_Key_def)
  show "x \<le> y \<Longrightarrow> y \<le> z \<Longrightarrow> x \<le> z"
    by (cases x; cases y; cases z) (auto simp: less_Key_def less_eq_Key_def)
  show "x \<le> y \<Longrightarrow> y \<le> x \<Longrightarrow> x = y"
    by (cases x; cases y) (auto simp: less_Key_def less_eq_Key_def)
  show "x \<le> y \<or> y \<le> x"
    by (cases x; cases y) (auto simp: less_Key_def less_eq_Key_def neq_iff)
qed

end

text \<open>Keys without the wildcard: all the keys that are ever stored.\<close>

definition exact :: "Key \<Rightarrow> bool" where
  "exact k \<longleftrightarrow> kdata2 k \<noteq> MATCH_ANY"

lemma key_lt_exact: "exact a \<Longrightarrow> exact b \<Longrightarrow> key_lt a b \<longleftrightarrow> a < b"
  by (auto simp: key_lt_def compare_def exact_def less_Key_def Let_def)

lemma key_eq_exact: "exact a \<Longrightarrow> exact b \<Longrightarrow> key_eq a b \<longleftrightarrow> a = b"
  by (cases a; cases b) (auto simp: key_eq_def compare_def exact_def Let_def)

lemma exact_sentinel [simp]: "exact sentinel_key"
  by (simp add: exact_def sentinel_key_def MATCH_ANY_def)

lemma key_lt_sentinel: "kind k \<noteq> KFS_SENTINEL \<Longrightarrow> k < sentinel_key"
  by (cases "kind k") (auto simp: less_Key_def sentinel_key_def)

lemma kind_meta_key [simp]: "kind (meta_key m) \<noteq> KFS_SENTINEL"
  by (cases m) auto

end
