(* ===== verification/Meta_Tree.thy ===== *)
theory Meta_Tree
  imports Meta_Base
begin

unbundle bit_operations_syntax

text \<open>
  The search tree of the metaserver, src/src/cc/meta/kfstree.h and kfstree.cc: a B+ tree whose
  level-1 nodes hold the metadata items and whose internal nodes hold, for every child, the
  largest key below it. The tree is a nested datatype. A node's arrays \<^verbatim>\<open>childKey\<close> and
  \<^verbatim>\<open>childNode\<close> up to \<^verbatim>\<open>count\<close> are one list of pairs, so that \<^verbatim>\<open>count\<close> is its length; entries
  beyond \<^verbatim>\<open>count\<close> are never read by the code and are not kept. The \<^verbatim>\<open>next\<close> pointer of a node is
  the following node of the same level: \<^verbatim>\<open>split\<close> puts the new brother right after the node it
  splits and \<^verbatim>\<open>absorb\<close> takes the absorbed node out of the chain, so the chain of a level is its
  nodes from left to right. \<^verbatim>\<open>LeafIter\<close>, \<^verbatim>\<open>extractAll\<close> and \<^verbatim>\<open>shift_path\<close>, which follow that
  chain, are modelled by cursors: the list of the level-1 positions (paths of child indices)
  that remain to be visited, from left to right, with their entries.
\<close>

section \<open>Nodes\<close>

type_synonym 'c kids = "(Key \<times> 'c) list"

definition NKEY :: nat where "NKEY = 32"
definition NSPLIT :: nat where "NSPLIT = NKEY div 2"
definition NFEWEST :: nat where "NFEWEST = NKEY - NSPLIT"

definition META_CPBIT :: "32 word" where "META_CPBIT = 1"
definition META_ROOT :: "32 word" where "META_ROOT = 4"
definition META_LEVEL1 :: "32 word" where "META_LEVEL1 = 8"

definition setflag :: "32 word \<Rightarrow> 32 word \<Rightarrow> 32 word" where
  "setflag b flagbits = flagbits OR b"

definition clearflag :: "32 word \<Rightarrow> 32 word \<Rightarrow> 32 word" where
  "clearflag b flagbits = flagbits AND NOT b"

definition testflag :: "32 word \<Rightarrow> 32 word \<Rightarrow> bool" where
  "testflag b flagbits \<longleftrightarrow> flagbits AND b \<noteq> 0"

text \<open>
  A node with leaves (the flag \<^verbatim>\<open>META_LEVEL1\<close>) has metadata items as children, any other node
  has nodes. The item of the sentinel entry is a null pointer, hence the option.
\<close>

datatype Node =
    LNode "32 word" "(Meta option) kids"
  | INode "32 word" "Node kids"

lemma size_child [termination_simp]:
  "i < length kids \<Longrightarrow> size (snd (kids ! i)) < Suc (size_list (\<lambda>x. Suc (size (snd x))) kids)"
  by (rule less_SucI, rule size_list_estimation [where x = "kids ! i"]) auto

fun hasleaves :: "Node \<Rightarrow> bool" where
  "hasleaves (LNode f kids) = True"
| "hasleaves (INode f kids) = False"

fun children :: "Node \<Rightarrow> nat" where
  "children (LNode f kids) = length kids"
| "children (INode f kids) = length kids"

fun node_keys :: "Node \<Rightarrow> Key list" where
  "node_keys (LNode f kids) = map fst kids"
| "node_keys (INode f kids) = map fst kids"

fun nflags :: "Node \<Rightarrow> 32 word" where
  "nflags (LNode f kids) = f"
| "nflags (INode f kids) = f"

fun set_nflags :: "32 word \<Rightarrow> Node \<Rightarrow> Node" where
  "set_nflags g (LNode f kids) = LNode g kids"
| "set_nflags g (INode f kids) = INode g kids"

definition isfull :: "Node \<Rightarrow> bool" where
  "isfull n \<longleftrightarrow> children n = NKEY"

definition isdepleted :: "Node \<Rightarrow> bool" where
  "isdepleted n \<longleftrightarrow> children n < NFEWEST"

text \<open>The largest key; reading \<^verbatim>\<open>childKey[count - 1]\<close> of an empty node is out of range.\<close>

definition node_key :: "Node \<Rightarrow> Key option" where
  "node_key n = (if children n = 0 then None else Some (last (node_keys n)))"

text \<open>Binary search: the position of the first key that is not less than \<^verbatim>\<open>test\<close>.\<close>

definition findplace :: "Key \<Rightarrow> Key list \<Rightarrow> nat" where
  "findplace test keys = length (takeWhile (\<lambda>k. key_lt k test) keys)"

section \<open>Moving children\<close>

text \<open>\<^verbatim>\<open>openHole\<close> returns what is left and right of the hole; the caller fills it.\<close>

definition openHole :: "nat \<Rightarrow> nat \<Rightarrow> 'c kids \<Rightarrow> ('c kids \<times> 'c kids) option" where
  "openHole pos skip kids =
     assert_then (length kids + skip \<le> NKEY) (Some (take pos kids, drop pos kids))"

definition closeHole :: "nat \<Rightarrow> nat \<Rightarrow> 'c kids \<Rightarrow> 'c kids option" where
  "closeHole pos skip kids =
     assert_then (skip < length kids) (Some (take pos kids @ drop (pos + skip) kids))"

definition addChild :: "Key \<Rightarrow> 'c \<Rightarrow> nat \<Rightarrow> 'c kids \<Rightarrow> 'c kids option" where
  "addChild k c pos kids =
     (case openHole pos 1 kids of None \<Rightarrow> None | Some (l, r) \<Rightarrow> Some (l @ (k, c) # r))"

text \<open>
  \<^verbatim>\<open>moveChildren\<close> appends to \<^verbatim>\<open>dest\<close> the \<^verbatim>\<open>n\<close> children from \<^verbatim>\<open>start\<close> on; its callers cut them
  off the source.
\<close>

definition moveChildren :: "'c kids \<Rightarrow> 'c kids \<Rightarrow> nat \<Rightarrow> nat \<Rightarrow> 'c kids" where
  "moveChildren this dest start n = dest @ take n (drop start this)"

definition split_kids :: "'c kids \<Rightarrow> 'c kids \<times> 'c kids" where
  "split_kids this =
     (take (length this - NSPLIT) this, moveChildren this [] (length this - NSPLIT) NSPLIT)"

definition absorb :: "'c kids \<Rightarrow> 'c kids \<Rightarrow> 'c kids option" where
  "absorb this l =
     assert_then (length this + length l \<le> NKEY) (Some (moveChildren this l 0 (length this)))"

text \<open>\<^verbatim>\<open>shiftRight\<close> and \<^verbatim>\<open>shiftLeft\<close> return the new children of \<^verbatim>\<open>this\<close> and of \<^verbatim>\<open>dest\<close>.\<close>

definition shiftRight :: "'c kids \<Rightarrow> 'c kids \<Rightarrow> nat \<Rightarrow> ('c kids \<times> 'c kids) option" where
  "shiftRight this dest nshift =
     (case openHole 0 nshift dest of None \<Rightarrow> None
      | Some (l, r) \<Rightarrow>
          Some (take (length this - nshift) this,
                l @ take nshift (drop (length this - nshift) this) @ r))"

definition shiftLeft :: "'c kids \<Rightarrow> 'c kids \<Rightarrow> nat \<Rightarrow> ('c kids \<times> 'c kids) option" where
  "shiftLeft this dest nshift =
     (case closeHole 0 nshift this of None \<Rightarrow> None
      | Some this' \<Rightarrow> Some (this', moveChildren this dest 0 nshift))"

text \<open>The same on nodes; the two nodes of a move are siblings, hence of the same kind.\<close>

fun node_split :: "Node \<Rightarrow> Node \<times> Node" where
  "node_split (LNode f kids) = (let (a, b) = split_kids kids in (LNode f a, LNode f b))"
| "node_split (INode f kids) = (let (a, b) = split_kids kids in (INode f a, INode f b))"

fun node_absorb :: "Node \<Rightarrow> Node \<Rightarrow> Node option" where
  "node_absorb (LNode f kids) (LNode g l) = map_option (LNode g) (absorb kids l)"
| "node_absorb (INode f kids) (INode g l) = map_option (INode g) (absorb kids l)"
| "node_absorb _ _ = None"

fun node_shiftRight :: "Node \<Rightarrow> Node \<Rightarrow> nat \<Rightarrow> (Node \<times> Node) option" where
  "node_shiftRight (LNode f kids) (LNode g d) n =
     map_option (map_prod (LNode f) (LNode g)) (shiftRight kids d n)"
| "node_shiftRight (INode f kids) (INode g d) n =
     map_option (map_prod (INode f) (INode g)) (shiftRight kids d n)"
| "node_shiftRight _ _ _ = None"

fun node_shiftLeft :: "Node \<Rightarrow> Node \<Rightarrow> nat \<Rightarrow> (Node \<times> Node) option" where
  "node_shiftLeft (LNode f kids) (LNode g d) n =
     map_option (map_prod (LNode f) (LNode g)) (shiftLeft kids d n)"
| "node_shiftLeft (INode f kids) (INode g d) n =
     map_option (map_prod (INode f) (INode g)) (shiftLeft kids d n)"
| "node_shiftLeft _ _ _ = None"

section \<open>Repairing underfull children\<close>

definition leftNeighbor :: "nat \<Rightarrow> Node kids \<Rightarrow> Node option" where
  "leftNeighbor pos kids = (if pos = 0 then None else Some (snd (kids ! (pos - 1))))"

definition rightNeighbor :: "nat \<Rightarrow> Node kids \<Rightarrow> Node option" where
  "rightNeighbor pos kids =
     (if pos = length kids - 1 then None else Some (snd (kids ! (pos + 1))))"

definition resetKey :: "nat \<Rightarrow> Node kids \<Rightarrow> Node kids option" where
  "resetKey pos kids =
     (case node_key (snd (kids ! pos)) of None \<Rightarrow> None
      | Some k \<Rightarrow> Some (kids[pos := (k, snd (kids ! pos))]))"

text \<open>The end of \<^verbatim>\<open>mergeNeighbor\<close>: child \<^verbatim>\<open>base + 1\<close> was absorbed into child \<^verbatim>\<open>base\<close>.\<close>

definition merged_at :: "nat \<Rightarrow> Node \<Rightarrow> Node kids \<Rightarrow> (Node kids \<times> bool) option" where
  "merged_at base n kids =
     (case closeHole (base + 1) 1 (kids[base := (fst (kids ! (base + 1)), n)]) of
        None \<Rightarrow> None
      | Some kids' \<Rightarrow> Some (kids', True))"

definition mergeNeighbor :: "nat \<Rightarrow> Node kids \<Rightarrow> (Node kids \<times> bool) option" where
  "mergeNeighbor pos kids =
     (let left = leftNeighbor pos kids;
          right = rightNeighbor pos kids;
          middle = snd (kids ! pos);
          mkids = children middle
      in if left \<noteq> None \<and> mkids + children (the left) < NKEY
         then (case node_absorb middle (the left) of None \<Rightarrow> None
               | Some l \<Rightarrow> merged_at (pos - 1) l kids)
         else if right \<noteq> None \<and> mkids + children (the right) < NKEY
         then (case node_absorb (the right) middle of None \<Rightarrow> None
               | Some m \<Rightarrow> merged_at pos m kids)
         else Some (kids, False))"

text \<open>\<^verbatim>\<open>(count - NFEWEST) / 2\<close> on ints, rounding towards zero.\<close>

definition excess :: "Node \<Rightarrow> int" where
  "excess n =
     (let d = int (children n) - int NFEWEST in if d \<ge> 0 then d div 2 else - ((- d) div 2))"

definition balanceNeighbor :: "nat \<Rightarrow> Node kids \<Rightarrow> (Node kids \<times> bool) option" where
  "balanceNeighbor pos kids =
     (let left = leftNeighbor pos kids;
          right = rightNeighbor pos kids;
          middle = snd (kids ! pos);
          lc = (case left of None \<Rightarrow> -1 | Some n \<Rightarrow> int (children n));
          rc = (case right of None \<Rightarrow> -1 | Some n \<Rightarrow> int (children n))
      in case (if lc \<ge> rc then left else right) of
           None \<Rightarrow> Some (kids, False)
         | Some donor \<Rightarrow>
             let nmove = excess donor in
             if nmove \<le> 0 then Some (kids, False)
             else assert_then (nmove + int (children middle) \<le> int NKEY)
               (if lc \<ge> rc
                then (case node_shiftRight donor middle (nat nmove) of None \<Rightarrow> None
                      | Some (l, m) \<Rightarrow>
                          map_option (\<lambda>ks. (ks, True))
                            (resetKey (pos - 1)
                              (kids[pos - 1 := (fst (kids ! (pos - 1)), l),
                                    pos := (fst (kids ! pos), m)])))
                else (case node_shiftLeft donor middle (nat nmove) of None \<Rightarrow> None
                      | Some (r, m) \<Rightarrow>
                          map_option (\<lambda>ks. (ks, True))
                            (resetKey pos
                              (kids[pos + 1 := (fst (kids ! (pos + 1)), r),
                                    pos := (fst (kids ! pos), m)])))))"

section \<open>The tree and its cursors\<close>

record Tree =
  root :: Node
  hgt :: nat

definition new_Tree :: Tree where
  "new_Tree = \<lparr>root = LNode (META_ROOT OR META_LEVEL1) [(sentinel_key, None)], hgt = 1\<rparr>"

type_synonym position = "nat list"
type_synonym cursor = "(position \<times> (Key \<times> Meta option)) list"

text \<open>All level-1 positions below a node, from left to right.\<close>

fun iter :: "Node \<Rightarrow> cursor" where
  "iter (LNode f kids) = map (\<lambda>i. ([i], kids ! i)) [0..<length kids]"
| "iter (INode f kids) =
     concat (map (\<lambda>i. map (\<lambda>(q, e). (i # q, e)) (iter (snd (kids ! i)))) [0..<length kids])"

text \<open>
  Going down from a node by \<^verbatim>\<open>findplace\<close>: the position reached and those after it. \<^verbatim>\<open>None\<close> when
  the search runs off the end of a node.
\<close>

fun descend :: "Key \<Rightarrow> Node \<Rightarrow> cursor option" where
  "descend k (LNode f kids) =
     (let p = findplace k (map fst kids) in
      if p = length kids then None else Some (drop p (iter (LNode f kids))))"
| "descend k (INode f kids) =
     (let p = findplace k (map fst kids) in
      if p < length kids
      then (case descend k (snd (kids ! p)) of None \<Rightarrow> None
            | Some cs \<Rightarrow>
                Some (map (\<lambda>(q, e). (p # q, e)) cs @
                      concat (map (\<lambda>i. map (\<lambda>(q, e). (i # q, e)) (iter (snd (kids ! i))))
                                [Suc p..<length kids])))
      else None)"

definition findLeaf :: "Key \<Rightarrow> Tree \<Rightarrow> cursor option" where
  "findLeaf k t =
     (case descend k (root t) of
        Some ((q, (k', x)) # cs) \<Rightarrow> if key_eq k' k then Some ((q, (k', x)) # cs) else None
      | _ \<Rightarrow> None)"

text \<open>\<^verbatim>\<open>extractMeta\<close> and \<^verbatim>\<open>extractAll\<close> on the cursor that \<^verbatim>\<open>findLeaf\<close> returned.\<close>

definition extractMeta :: "cursor \<Rightarrow> Meta option" where
  "extractMeta cs = (case cs of [] \<Rightarrow> None | (q, (k, x)) # _ \<Rightarrow> x)"

fun extractAll :: "Key \<Rightarrow> cursor \<Rightarrow> Meta option list" where
  "extractAll k [] = []"
| "extractAll k ((q, (k', x)) # cs) = (if key_eq k k' then x # extractAll k cs else [])"

section \<open>Insertion\<close>

text \<open>The father's side of \<^verbatim>\<open>split\<close>: child \<^verbatim>\<open>pos\<close> was split into \<^verbatim>\<open>n\<close> and \<^verbatim>\<open>brother\<close>.\<close>

definition split_father :: "nat \<Rightarrow> Node \<Rightarrow> Node \<Rightarrow> Node kids \<Rightarrow> Node kids option" where
  "split_father pos n brother father =
     assert_then (length father \<noteq> NKEY)
       (case resetKey pos (father[pos := (fst (father ! pos), n)]) of None \<Rightarrow> None
        | Some father' \<Rightarrow>
            (case node_key brother of None \<Rightarrow> None
             | Some k \<Rightarrow> addChild k brother (1 + pos) father'))"

definition pushroot :: "Node \<Rightarrow> Node \<Rightarrow> (Node kids) option" where
  "pushroot old brother =
     (case (node_key old, node_key brother) of
        (Some k1, Some k2) \<Rightarrow>
          (case addChild k1 (set_nflags (clearflag META_ROOT (nflags old)) old) 0 [] of
             None \<Rightarrow> None
           | Some kids \<Rightarrow>
               addChild k2 (set_nflags (clearflag META_ROOT (nflags brother)) brother) 1 kids)
      | _ \<Rightarrow> None)"

fun depth :: "Node \<Rightarrow> nat" where
  "depth (LNode f kids) = 1"
| "depth (INode f kids) = Suc (fold max (map (\<lambda>kc. depth (snd kc)) kids) 0)"

lemma fold_max_ge: "(a::nat) \<le> fold max xs a"
proof (induction xs arbitrary: a)
  case (Cons x xs)
  have "a \<le> max x a" by simp
  also have "\<dots> \<le> fold max xs (max x a)" by (rule Cons.IH)
  finally show ?case by simp
qed simp

lemma fold_max_member: "x \<in> set xs \<Longrightarrow> (x::nat) \<le> fold max xs a"
proof (induction xs arbitrary: a)
  case (Cons y ys)
  show ?case
  proof (cases "x = y")
    case True
    have "y \<le> max y a" by simp
    also have "\<dots> \<le> fold max ys (max y a)" by (rule fold_max_ge)
    finally show ?thesis using True by simp
  next
    case False
    with Cons show ?thesis by simp
  qed
qed simp

lemma fold_max_le: "(\<And>x. x \<in> set xs \<Longrightarrow> x \<le> b) \<Longrightarrow> a \<le> b \<Longrightarrow> fold max xs a \<le> (b::nat)"
  by (induction xs arbitrary: a) auto

lemma depth_child: "kc \<in> set kids \<Longrightarrow> depth (snd kc) < depth (INode f kids)"
  by (auto simp: less_Suc_eq_le intro: fold_max_member)

lemma depth_subset: "set kids' \<subseteq> set kids \<Longrightarrow> depth (INode g kids') \<le> depth (INode f kids)"
  unfolding depth.simps Suc_le_mono by (rule fold_max_le) (force intro!: fold_max_member)+

lemma depth_node_split:
  "depth (fst (node_split n)) \<le> depth n" "depth (snd (node_split n)) \<le> depth n"
  by (cases n; simp only: node_split.simps split_kids_def moveChildren_def Let_def split_conv
        fst_conv snd_conv append_Nil depth.simps(1) order_refl;
      rule depth_subset; meson order_trans set_drop_subset set_take_subset)+

text \<open>
  The loop of \<^verbatim>\<open>Tree::insert\<close> from a node that is not full: full children are split on the way
  down. After a split the descent goes on in the brother when the place of the key is beyond the
  children that stayed.
\<close>

function insert_loop :: "Key \<Rightarrow> Meta \<Rightarrow> Node \<Rightarrow> Node option" where
  "insert_loop mkey item (LNode f kids) =
     map_option (LNode f) (addChild mkey (Some item) (findplace mkey (map fst kids)) kids)"
| "insert_loop mkey item (INode f kids) =
     (let dpos = findplace mkey (map fst kids) in
      if dpos < length kids then
        let n = snd (kids ! dpos) in
        if isfull n then
          (case split_father dpos (fst (node_split n)) (snd (node_split n)) kids of
             None \<Rightarrow> None
           | Some kids' \<Rightarrow>
               if findplace mkey (node_keys n) \<ge> children (fst (node_split n))
               then map_option (\<lambda>b. INode f (kids'[1 + dpos := (fst (kids' ! (1 + dpos)), b)]))
                      (insert_loop mkey item (snd (node_split n)))
               else map_option (\<lambda>m. INode f (kids'[dpos := (fst (kids' ! dpos), m)]))
                      (insert_loop mkey item (fst (node_split n))))
        else map_option (\<lambda>m. INode f (kids[dpos := (fst (kids ! dpos), m)]))
               (insert_loop mkey item n)
      else None)"
  by pat_completeness auto
termination
proof (relation "measure (\<lambda>(k, m, n). depth n)", goal_cases)
  case 1
  show ?case by simp
next
  case (2 mkey item f kids dpos n x2)
  then have "depth n < depth (INode f kids)"
    using depth_child [of "kids ! dpos" kids f] by simp
  then show ?case using depth_node_split(2) [of n] by simp
next
  case (3 mkey item f kids dpos n x2)
  then have "depth n < depth (INode f kids)"
    using depth_child [of "kids ! dpos" kids f] by simp
  then show ?case using depth_node_split(1) [of n] by simp
next
  case (4 mkey item f kids dpos n)
  then show ?case using depth_child [of "kids ! dpos" kids f] by simp
qed

definition insert_tree :: "Meta \<Rightarrow> Tree \<Rightarrow> Tree option" where
  "insert_tree item t =
     (let mkey = meta_key item; n = root t in
      if isfull n then
        (case pushroot (fst (node_split n)) (snd (node_split n)) of
           None \<Rightarrow> None
         | Some kids \<Rightarrow>
             let p = (if findplace mkey (node_keys n) \<ge> children (fst (node_split n))
                      then 1 else 0) in
             map_option (\<lambda>m. t\<lparr>root := INode META_ROOT (kids[p := (fst (kids ! p), m)]),
                               hgt := hgt t + 1\<rparr>)
               (insert_loop mkey item (snd (kids ! p))))
      else map_option (\<lambda>m. t\<lparr>root := m\<rparr>) (insert_loop mkey item n))"

section \<open>Deletion\<close>

text \<open>
  The search of \<^verbatim>\<open>Tree::del\<close> among the items with the key: the position of the first that
  matches, \<^verbatim>\<open>Some None\<close> when a different key comes first, and \<^verbatim>\<open>None\<close> when the process dies (an
  item is a null pointer, or the chain of nodes ends).
\<close>

fun scan :: "Meta \<Rightarrow> Key \<Rightarrow> cursor \<Rightarrow> position option option" where
  "scan m mkey [] = None"
| "scan m mkey ((q, (k, x)) # cs) =
     (if key_eq mkey k
      then (case x of None \<Rightarrow> None
            | Some y \<Rightarrow> if meta_match m y then Some (Some q) else scan m mkey cs)
      else Some None)"

fun remove_at :: "position \<Rightarrow> Node \<Rightarrow> Node option" where
  "remove_at [p] (LNode f kids) =
     assert_then (p < length kids) (map_option (LNode f) (closeHole p 1 kids))"
| "remove_at (p # q) (INode f kids) =
     (if p < length kids
      then map_option (\<lambda>c. INode f (kids[p := (fst (kids ! p), c)])) (remove_at q (snd (kids ! p)))
      else None)"
| "remove_at _ _ = None"

text \<open>Is the last index of the position now past the end of its node?\<close>

fun past_end :: "position \<Rightarrow> Node \<Rightarrow> bool" where
  "past_end [p] (LNode f kids) = (p = length kids)"
| "past_end (p # q) (INode f kids) = (p < length kids \<and> past_end q (snd (kids ! p)))"
| "past_end _ _ = False"

text \<open>
  The upward loop that corrects keys along the path, from the deepest node up; the flag says
  whether the loop is still running when it reaches the node.
\<close>

fun resetKeys :: "position \<Rightarrow> Node \<Rightarrow> (Node \<times> bool) option" where
  "resetKeys (p # q) (INode f kids) =
     (if p < length kids then
        (case resetKeys q (snd (kids ! p)) of None \<Rightarrow> None
         | Some (c, go) \<Rightarrow>
             if go
             then (case resetKey p (kids[p := (fst (kids ! p), c)]) of None \<Rightarrow> None
                   | Some kids' \<Rightarrow> Some (INode f kids', p = length kids - 1))
             else Some (INode f (kids[p := (fst (kids ! p), c)]), False))
      else None)"
| "resetKeys q (LNode f kids) = Some (LNode f kids, True)"
| "resetKeys [] (INode f kids) = None"

datatype balance = NotBalanced | BalancedBelow | BalancedHere

text \<open>
  The upward loop that repairs underfull nodes: it stops at the first node where a merge or a
  borrow succeeds. The result says whether that was here (then \<^verbatim>\<open>dad\<close> is this node), below, or
  nowhere.
\<close>

fun rebalance :: "position \<Rightarrow> Node \<Rightarrow> (Node \<times> balance) option" where
  "rebalance (p # q) (INode f kids) =
     (if p < length kids then
        (case rebalance q (snd (kids ! p)) of None \<Rightarrow> None
         | Some (c, b) \<Rightarrow>
             let kids1 = kids[p := (fst (kids ! p), c)] in
             if b \<noteq> NotBalanced then Some (INode f kids1, BalancedBelow)
             else if isdepleted c then
               (case mergeNeighbor p kids1 of None \<Rightarrow> None
                | Some (kids2, True) \<Rightarrow> Some (INode f kids2, BalancedHere)
                | Some (kids2, False) \<Rightarrow>
                    (case balanceNeighbor p kids2 of None \<Rightarrow> None
                     | Some (kids3, ok) \<Rightarrow>
                         Some (INode f kids3, if ok then BalancedHere else NotBalanced)))
             else Some (INode f kids1, NotBalanced))
      else None)"
| "rebalance q (LNode f kids) = Some (LNode f kids, NotBalanced)"
| "rebalance [] (INode f kids) = None"

definition poproot :: "Tree \<Rightarrow> Tree" where
  "poproot t =
     (case root t of
        INode f [(k, c)] \<Rightarrow> t\<lparr>root := c, hgt := hgt t - 1\<rparr>
      | _ \<Rightarrow> t)"

definition del :: "Meta \<Rightarrow> Tree \<Rightarrow> (Tree \<times> int) option" where
  "del m t =
     (case descend (meta_key m) (root t) of None \<Rightarrow> None
      | Some cs \<Rightarrow>
          (case scan m (meta_key m) cs of None \<Rightarrow> None
           | Some None \<Rightarrow> Some (t, -1)
           | Some (Some q) \<Rightarrow>
               (case remove_at q (root t) of None \<Rightarrow> None
                | Some n1 \<Rightarrow>
                    (case (if past_end q n1 then map_option fst (resetKeys q n1) else Some n1) of
                       None \<Rightarrow> None
                     | Some n2 \<Rightarrow>
                         (case rebalance q n2 of None \<Rightarrow> None
                          | Some (n3, b) \<Rightarrow>
                              let t' = t\<lparr>root := n3\<rparr> in
                              Some (if b = BalancedHere then poproot t' else t', 0))))))"

text \<open>Assigning to fields of the item at a position, through the pointer that a lookup returned.\<close>

fun update_at :: "position \<Rightarrow> (Meta \<Rightarrow> Meta) \<Rightarrow> Node \<Rightarrow> Node" where
  "update_at [p] g (LNode f kids) =
     (if p < length kids then LNode f (kids[p := (fst (kids ! p), map_option g (snd (kids ! p)))])
      else LNode f kids)"
| "update_at (p # q) g (INode f kids) =
     (if p < length kids
      then INode f (kids[p := (fst (kids ! p), update_at q g (snd (kids ! p)))])
      else INode f kids)"
| "update_at _ g n = n"

end
