(* ===== verification/Meta_Tree_Inv.thy ===== *)
theory Meta_Tree_Inv
  imports Meta_Tree
begin

text \<open>
  The well-formedness invariant of the search tree and its preservation. \<^verbatim>\<open>entries\<close> is the
  sequence of level-1 entries from left to right, the abstract value of a node. A node is
  well-formed at height \<^verbatim>\<open>h\<close> when all its paths have length \<^verbatim>\<open>h\<close>, no node is empty or has more
  than \<^verbatim>\<open>NKEY\<close> children, every internal key is the largest key below it, and the flag
  \<^verbatim>\<open>META_LEVEL1\<close> marks exactly the nodes with leaves. Searching, insertion and deletion are
  characterised as operations on the sequence of entries.
\<close>

section \<open>Entries and well-formed nodes\<close>

fun entries :: "Node \<Rightarrow> (Meta option) kids" where
  "entries (LNode f kids) = kids"
| "entries (INode f kids) = concat (map (\<lambda>kc. entries (snd kc)) kids)"

fun wf_node :: "nat \<Rightarrow> Node \<Rightarrow> bool" where
  "wf_node h (LNode f kids) \<longleftrightarrow>
     h = 1 \<and> kids \<noteq> [] \<and> length kids \<le> NKEY \<and> testflag META_LEVEL1 f"
| "wf_node h (INode f kids) \<longleftrightarrow>
     1 < h \<and> kids \<noteq> [] \<and> length kids \<le> NKEY \<and> \<not> testflag META_LEVEL1 f \<and>
     (\<forall>kc\<in>set kids. node_key (snd kc) = Some (fst kc) \<and> wf_node (h - 1) (snd kc))"

definition ok_entries :: "(Meta option) kids \<Rightarrow> bool" where
  "ok_entries es \<longleftrightarrow> sorted (map fst es) \<and> (\<forall>e\<in>set es. exact (fst e))"

abbreviation kids_entries :: "Node kids \<Rightarrow> (Meta option) kids" where
  "kids_entries kids \<equiv> concat (map (\<lambda>kc. entries (snd kc)) kids)"

abbreviation kids_ok :: "nat \<Rightarrow> Node kids \<Rightarrow> bool" where
  "kids_ok h kids \<equiv> \<forall>kc\<in>set kids. node_key (snd kc) = Some (fst kc) \<and> wf_node h (snd kc)"

lemma NKEY_simps [simp]: "NKEY = 32" "NSPLIT = 16" "NFEWEST = 16"
  by (simp_all add: NKEY_def NSPLIT_def NFEWEST_def)

lemma node_key_simps [simp]:
  "node_key (LNode f kids) = (if kids = [] then None else Some (fst (last kids)))"
  "node_key (INode f ikids) = (if ikids = [] then None else Some (fst (last ikids)))"
  by (simp_all add: node_key_def last_map)

lemma wf_node_children: "wf_node h n \<Longrightarrow> 0 < children n \<and> children n \<le> NKEY"
  by (cases n) auto

lemma wf_node_entries:
  "wf_node h n \<Longrightarrow> entries n \<noteq> [] \<and> node_key n = Some (fst (last (entries n)))"
proof (induction h n rule: wf_node.induct)
  case (2 h f kids)
  obtain ks kc where kids: "kids = ks @ [kc]"
    using "2.prems" by (cases kids rule: rev_cases) auto
  with "2.prems" have IH: "entries (snd kc) \<noteq> [] \<and> node_key (snd kc) = Some (fst (last (entries (snd kc))))"
    by (intro "2.IH") auto
  from "2.prems" kids have "node_key (snd kc) = Some (fst kc)" by simp
  with IH show ?case by (simp add: kids)
qed simp

lemma wf_node_hasleaves: "wf_node h n \<Longrightarrow> hasleaves n \<longleftrightarrow> testflag META_LEVEL1 (nflags n)"
  by (cases n) auto

lemma wf_node_hasleaves_height: "wf_node h n \<Longrightarrow> hasleaves n \<longleftrightarrow> h = 1"
  by (cases n) auto

lemma clearflag_root_level1 [simp]:
  "testflag META_LEVEL1 (clearflag META_ROOT f) = testflag META_LEVEL1 f"
proof -
  have "NOT 4 AND 8 = (8 :: 32 word)" by simp
  then have "(f AND NOT 4) AND 8 = f AND (8 :: 32 word)" by (simp add: and.assoc)
  then show ?thesis
    by (simp add: testflag_def clearflag_def META_ROOT_def META_LEVEL1_def)
qed

section \<open>Finding the place of a key\<close>

lemma key_lt_down: "exact a \<Longrightarrow> exact b \<Longrightarrow> a \<le> b \<Longrightarrow> key_lt b k \<Longrightarrow> key_lt a k"
  by (cases a; cases b; cases k)
    (auto simp: key_lt_def compare_def exact_def less_Key_def less_eq_Key_def Let_def
      split: if_splits)

lemma ok_entries_append:
  "ok_entries (xs @ ys) \<longleftrightarrow>
     ok_entries xs \<and> ok_entries ys \<and> (\<forall>x\<in>set xs. \<forall>y\<in>set ys. fst x \<le> fst y)"
  by (auto simp: ok_entries_def sorted_append)

lemma ok_entries_Cons:
  "ok_entries (x # ys) \<longleftrightarrow> exact (fst x) \<and> ok_entries ys \<and> (\<forall>y\<in>set ys. fst x \<le> fst y)"
  by (auto simp: ok_entries_def)

lemma ok_entries_all_lt:
  assumes "ok_entries es" "es \<noteq> []" "key_lt (fst (last es)) k" "e \<in> set es"
  shows "key_lt (fst e) k"
proof -
  obtain xs x where es: "es = xs @ [x]"
    using assms(2) by (cases es rule: rev_cases) auto
  with assms show ?thesis
    by (auto simp: ok_entries_def sorted_append intro: key_lt_down)
qed

lemma findplace_take:
  assumes "kc \<in> set (take (findplace k (map fst kids)) kids)"
  shows "key_lt (fst kc) k"
proof -
  have "take (findplace k (map fst kids)) kids = takeWhile (\<lambda>kc. key_lt (fst kc) k) kids"
    by (simp add: findplace_def takeWhile_map comp_def takeWhile_eq_take [symmetric])
  with assms show ?thesis by (auto dest: set_takeWhileD)
qed

lemma findplace_nth:
  "findplace k keys < length keys \<Longrightarrow> \<not> key_lt (keys ! findplace k keys) k"
  unfolding findplace_def by (rule nth_length_takeWhile)

lemma findplace_le: "findplace k keys \<le> length keys"
  by (simp add: findplace_def length_takeWhile_le)

lemma findplace_less_iff:
  "findplace k keys < length keys \<longleftrightarrow> (\<exists>x\<in>set keys. \<not> key_lt x k)"
  unfolding findplace_def by (rule length_takeWhile_less_iff)

lemma kids_entries_split:
  "p < length kids \<Longrightarrow>
   kids_entries kids =
     kids_entries (take p kids) @ entries (snd (kids ! p)) @ kids_entries (drop (Suc p) kids)"
  by (subst list_split3 [of p kids]) simp_all

text \<open>
  The children left of the place hold smaller entries only, and the child at the place holds one
  that is not smaller.
\<close>

lemma place_left:
  assumes ok: "kids_ok h kids" and srt: "ok_entries (kids_entries kids)"
    and p: "p \<le> findplace k (map fst kids)"
    and e: "e \<in> set (kids_entries (take p kids))"
  shows "key_lt (fst e) k"
proof -
  obtain kc where kc: "kc \<in> set (take p kids)" and e': "e \<in> set (entries (snd kc))"
    using e by auto
  from kc p have kc': "kc \<in> set (take (findplace k (map fst kids)) kids)"
    using set_take_subset_set_take [OF p, of kids] by (simp add: subset_eq)
  from kc have mem: "kc \<in> set kids" by (auto dest: in_set_takeD)
  then obtain us vs where us: "kids = us @ kc # vs" by (auto simp: in_set_conv_decomp)
  have "entries (snd kc) \<noteq> []" "fst (last (entries (snd kc))) = fst kc"
    using ok mem wf_node_entries [of h "snd kc"] by auto
  moreover have "ok_entries (entries (snd kc))"
    using srt by (simp add: us ok_entries_append)
  moreover have "key_lt (fst kc) k" using kc' by (rule findplace_take)
  ultimately show ?thesis using e' by (metis ok_entries_all_lt)
qed

lemma place_here:
  assumes ok: "kids_ok h kids" and p: "findplace k (map fst kids) < length kids"
  shows "\<exists>e\<in>set (entries (snd (kids ! findplace k (map fst kids)))). \<not> key_lt (fst e) k"
proof -
  let ?c = "kids ! findplace k (map fst kids)"
  have mem: "?c \<in> set kids" using p by simp
  then have ne: "entries (snd ?c) \<noteq> []" "fst (last (entries (snd ?c))) = fst ?c"
    using ok wf_node_entries [of h "snd ?c"] by auto
  have "\<not> key_lt (fst ?c) k"
    using p findplace_nth [of k "map fst kids"] by simp
  then show ?thesis using ne by (intro bexI [of _ "last (entries (snd ?c))"]) auto
qed

lemma place_exists:
  assumes ok: "kids_ok h kids" and srt: "ok_entries (kids_entries kids)"
    and e: "e \<in> set (kids_entries kids)" "\<not> key_lt (fst e) k"
  shows "findplace k (map fst kids) < length kids"
proof (rule ccontr)
  assume "\<not> ?thesis"
  then have "findplace k (map fst kids) = length kids"
    using findplace_le [of k "map fst kids"] by simp
  then have "key_lt (fst e) k"
    using place_left [OF ok srt, of "length kids" k e] e(1) by simp
  with e(2) show False by simp
qed

lemma takeWhile_kids:
  assumes ok: "kids_ok h kids" and srt: "ok_entries (kids_entries kids)"
    and p: "p = findplace k (map fst kids)" "p < length kids"
  shows "takeWhile (\<lambda>e. key_lt (fst e) k) (kids_entries kids) =
           kids_entries (take p kids) @ takeWhile (\<lambda>e. key_lt (fst e) k) (entries (snd (kids ! p)))"
    and "dropWhile (\<lambda>e. key_lt (fst e) k) (kids_entries kids) =
           dropWhile (\<lambda>e. key_lt (fst e) k) (entries (snd (kids ! p))) @ kids_entries (drop (Suc p) kids)"
proof -
  have l: "\<And>e. e \<in> set (kids_entries (take p kids)) \<Longrightarrow> key_lt (fst e) k"
    using place_left [OF ok srt, of p k] p(1) by blast
  obtain e where e: "e \<in> set (entries (snd (kids ! p)))" "\<not> key_lt (fst e) k"
    using place_here [OF ok, of k] p by auto
  show "takeWhile (\<lambda>e. key_lt (fst e) k) (kids_entries kids) =
      kids_entries (take p kids) @ takeWhile (\<lambda>e. key_lt (fst e) k) (entries (snd (kids ! p)))"
    unfolding kids_entries_split [OF p(2)]
    using takeWhile_append_all [of "kids_entries (take p kids)" "\<lambda>e. key_lt (fst e) k", OF l]
      takeWhile_append1 [of e _ "\<lambda>e. key_lt (fst e) k", OF e]
    by simp
  show "dropWhile (\<lambda>e. key_lt (fst e) k) (kids_entries kids) =
      dropWhile (\<lambda>e. key_lt (fst e) k) (entries (snd (kids ! p))) @ kids_entries (drop (Suc p) kids)"
    unfolding kids_entries_split [OF p(2)]
    using dropWhile_append_all [of "kids_entries (take p kids)" "\<lambda>e. key_lt (fst e) k", OF l]
      dropWhile_append1 [of e _ "\<lambda>e. key_lt (fst e) k", OF e]
    by simp
qed

section \<open>Cursors\<close>

lemma iter_entries [simp]: "map snd (iter n) = entries n"
proof (induction n rule: iter.induct)
  case (1 f kids)
  then show ?case by (simp add: comp_def map_nth)
next
  case (2 f kids)
  have "map snd (iter (INode f kids)) = concat (map (\<lambda>i. map snd (iter (snd (kids ! i)))) [0..<length kids])"
    by (simp add: map_concat comp_def case_prod_unfold)
  also have "\<dots> = concat (map (\<lambda>i. entries (snd (kids ! i))) [0..<length kids])"
    using "2.IH" by (intro arg_cong [of _ _ concat] map_cong) auto
  also have "map (\<lambda>i. entries (snd (kids ! i))) [0..<length kids] = map (\<lambda>kc. entries (snd kc)) kids"
    by (rule nth_equalityI) auto
  finally show ?case by simp
qed

lemma length_iter: "length (iter n) = length (entries n)"
  using iter_entries [of n] by (metis length_map)

lemma iter_kids_suffix:
  "map snd (concat (map (\<lambda>i. map (\<lambda>(q, e). (i # q, e)) (iter (snd (kids ! i)))) [p..<length kids])) =
   kids_entries (drop p kids)"
proof -
  have "map (\<lambda>i. entries (snd (kids ! i))) [p..<length kids] = map (\<lambda>kc. entries (snd kc)) (drop p kids)"
    by (rule nth_equalityI) auto
  then show ?thesis
    by (simp add: map_concat comp_def case_prod_unfold)
qed

text \<open>The descent reaches the first entry that is not less than the key, and its cursor is the rest.\<close>

lemma descend_entries:
  assumes "wf_node h n" "ok_entries (entries n)" "e \<in> set (entries n)" "\<not> key_lt (fst e) k"
  shows "\<exists>cs. descend k n = Some cs \<and> cs = drop (length (takeWhile (\<lambda>e. key_lt (fst e) k) (entries n))) (iter n)"
  using assms
proof (induction k n arbitrary: h e rule: descend.induct)
  case (1 k f kids)
  then have "findplace k (map fst kids) < length kids"
    using findplace_less_iff [of k "map fst kids"] by auto
  then show ?case
    by (simp add: Let_def findplace_def takeWhile_map comp_def)
next
  case (2 k f kids)
  let ?p = "findplace k (map fst kids)"
  let ?P = "\<lambda>e. key_lt (fst e) k"
  let ?f = "\<lambda>i. map (\<lambda>(q, e). (i # q, e)) (iter (snd (kids ! i)))"
  have ok: "kids_ok (h - 1) kids" and srt: "ok_entries (kids_entries kids)"
    using "2.prems" by auto
  have p: "?p < length kids"
    using place_exists [OF ok srt] "2.prems"(3,4) by simp
  obtain e' where e': "e' \<in> set (entries (snd (kids ! ?p)))" "\<not> ?P e'"
    using place_here [OF ok p] by auto
  have wf': "wf_node (h - 1) (snd (kids ! ?p))" using ok p by simp
  have srt': "ok_entries (entries (snd (kids ! ?p)))"
    using srt unfolding kids_entries_split [OF p] by (simp add: ok_entries_append)
  obtain cs where cs: "descend k (snd (kids ! ?p)) = Some cs"
      "cs = drop (length (takeWhile ?P (entries (snd (kids ! ?p))))) (iter (snd (kids ! ?p)))"
    using "2.IH" [OF refl p wf' srt' e'] by blast
  have len: "length (concat (map ?f [0..<?p])) = length (kids_entries (take ?p kids))"
  proof -
    have "map (\<lambda>i. length (iter (snd (kids ! i)))) [0..<?p] =
        map (\<lambda>kc. length (entries (snd kc))) (take ?p kids)"
      using p by (intro nth_equalityI) (auto simp: length_iter)
    then show ?thesis by (simp add: length_concat comp_def)
  qed
  have upt: "[0..<length kids] = [0..<?p] @ ?p # [Suc ?p..<length kids]"
    using p upt_add_eq_append [of 0 ?p "length kids - ?p"] by (simp add: upt_conv_Cons)
  have le: "length (takeWhile ?P (entries (snd (kids ! ?p)))) \<le> length (iter (snd (kids ! ?p)))"
    by (simp add: length_iter length_takeWhile_le)
  have "drop (length (takeWhile ?P (kids_entries kids))) (concat (map ?f [0..<length kids])) =
      map (\<lambda>(q, e). (?p # q, e)) cs @ concat (map ?f [Suc ?p..<length kids])"
    unfolding upt takeWhile_kids(1) [OF ok srt refl p] using le
    by (simp add: len [symmetric] cs(2) drop_map)
  then show ?case using p cs(1) by (simp add: Let_def)
qed

section \<open>Insertion\<close>

lemma node_split_ok:
  assumes "wf_node h n" "isfull n"
  shows "wf_node h (fst (node_split n))" "wf_node h (snd (node_split n))"
    "entries n = entries (fst (node_split n)) @ entries (snd (node_split n))"
    "node_keys n = node_keys (fst (node_split n)) @ node_keys (snd (node_split n))"
    "children (fst (node_split n)) = 16" "children (snd (node_split n)) = 16"
    "node_key (snd (node_split n)) = node_key n"
    "hasleaves (fst (node_split n)) = hasleaves n"
  using assms
  by (cases n; auto simp: isfull_def split_kids_def moveChildren_def map_append [symmetric]
        concat_append [symmetric] dest: in_set_takeD in_set_dropD
      simp del: map_append concat_append)+

lemma split_father_ok:
  assumes "p < length kids" "length kids < 32" "node_key a = Some ka" "node_key b = Some kb"
  shows "split_father p a b kids =
    Some (take p kids @ (ka, a) # (kb, b) # drop (Suc p) kids)"
proof -
  have "resetKey p (kids[p := (fst (kids ! p), a)]) = Some (kids[p := (ka, a)])"
    using assms by (simp add: resetKey_def)
  then show ?thesis
    using assms
    by (simp add: split_father_def addChild_def openHole_def list_update_split assert_then_def)
qed

text \<open>Insertion puts the item in front of the first entry that is not smaller.\<close>

definition put_entry :: "Key \<Rightarrow> Meta \<Rightarrow> (Meta option) kids \<Rightarrow> (Meta option) kids" where
  "put_entry mkey item es =
     takeWhile (\<lambda>e. key_lt (fst e) mkey) es @ (mkey, Some item) #
     dropWhile (\<lambda>e. key_lt (fst e) mkey) es"

lemma put_entry_kids:
  assumes "kids_ok h kids" "ok_entries (kids_entries kids)"
    "p = findplace mkey (map fst kids)" "p < length kids"
  shows "put_entry mkey item (kids_entries kids) =
    kids_entries (take p kids) @ put_entry mkey item (entries (snd (kids ! p))) @
    kids_entries (drop (Suc p) kids)"
  by (simp only: put_entry_def takeWhile_kids [OF assms] append_assoc append_Cons)

lemma put_entry_append_left:
  "e \<in> set xs \<Longrightarrow> \<not> key_lt (fst e) mkey \<Longrightarrow>
   put_entry mkey item (xs @ ys) = put_entry mkey item xs @ ys"
  by (simp add: put_entry_def takeWhile_append1 dropWhile_append1)

lemma put_entry_append_right:
  "(\<And>e. e \<in> set xs \<Longrightarrow> key_lt (fst e) mkey) \<Longrightarrow>
   put_entry mkey item (xs @ ys) = xs @ put_entry mkey item ys"
  by (simp add: put_entry_def takeWhile_append2 dropWhile_append2)

lemma findplace_append_ge:
  "findplace k (xs @ ys) \<ge> length xs \<Longrightarrow> x \<in> set xs \<Longrightarrow> key_lt x k"
  by (induction xs) (auto simp: findplace_def split: if_splits)

lemma findplace_append_lt:
  "findplace k (xs @ ys) < length xs \<Longrightarrow> \<exists>x\<in>set xs. \<not> key_lt x k"
  by (induction xs) (auto simp: findplace_def split: if_splits)

lemma node_keys_entries:
  "wf_node h n \<Longrightarrow> x \<in> set (node_keys n) \<Longrightarrow> \<exists>e\<in>set (entries n). fst e = x"
proof (cases n)
  case (INode f kids)
  assume "wf_node h n" "x \<in> set (node_keys n)"
  then obtain kc where kc: "kc \<in> set kids" "x = fst kc" "node_key (snd kc) = Some x"
      "wf_node (h - 1) (snd kc)"
    using INode by auto
  then have "entries (snd kc) \<noteq> []" "fst (last (entries (snd kc))) = x"
    using wf_node_entries [of "h - 1" "snd kc"] by auto
  with kc INode show ?thesis by (auto intro!: bexI [of _ "last (entries (snd kc))"] bexI [of _ kc])
qed auto

lemma node_keys_all_lt:
  assumes wf: "wf_node h n" and srt: "ok_entries (entries n)"
    and lt: "\<And>x. x \<in> set (node_keys n) \<Longrightarrow> key_lt x k" and e: "e \<in> set (entries n)"
  shows "key_lt (fst e) k"
proof -
  have "last (node_keys n) \<in> set (node_keys n)" "node_key n = Some (last (node_keys n))"
    using wf by (cases n; auto simp: last_map)+
  with lt wf_node_entries [OF wf] have "entries n \<noteq> []" "key_lt (fst (last (entries n))) k"
    by auto
  with srt e show ?thesis by (metis ok_entries_all_lt)
qed

lemma wf_INode_replace:
  assumes "wf_node h (INode f kids)" "p < length kids" "wf_node (h - 1) c"
    "node_key c = Some k" "k = fst (kids ! p)"
  shows "wf_node h (INode f (kids[p := (k, c)]))"
    "node_key (INode f (kids[p := (k, c)])) = node_key (INode f kids)"
proof -
  show "wf_node h (INode f (kids[p := (k, c)]))"
    using assms by (auto dest: set_update_subset_insert [THEN subsetD])
  have "map fst (kids[p := (k, c)]) = map fst kids"
    using assms(2,5) by (simp add: map_update) (metis list_update_id nth_map)
  then show "node_key (INode f (kids[p := (k, c)])) = node_key (INode f kids)"
    by (simp only: node_key_def children.simps node_keys.simps length_list_update)
qed

lemma entries_INode_replace:
  "p < length kids \<Longrightarrow> entries (INode f (kids[p := (k, c)])) =
     kids_entries (take p kids) @ entries c @ kids_entries (drop (Suc p) kids)"
  by (simp add: list_update_split)

lemma wf_INode_split:
  assumes "wf_node h (INode f kids)" "p < length kids" "length kids < 32"
    "wf_node (h - 1) a" "wf_node (h - 1) b" "node_key a = Some ka" "node_key b = Some kb"
    "kb = fst (kids ! p)"
  shows "wf_node h (INode f (take p kids @ (ka, a) # (kb, b) # drop (Suc p) kids))"
    "node_key (INode f (take p kids @ (ka, a) # (kb, b) # drop (Suc p) kids)) =
       node_key (INode f kids)"
proof -
  show "wf_node h (INode f (take p kids @ (ka, a) # (kb, b) # drop (Suc p) kids))"
    using assms by (auto dest: in_set_takeD in_set_dropD)
  have lst: "last kids = last (kids ! p # drop (Suc p) kids)"
    by (rule trans [OF arg_cong [OF list_split3 [OF assms(2)], of last]]) simp
  have ne: "kids \<noteq> []" using assms(2) by auto
  show "node_key (INode f (take p kids @ (ka, a) # (kb, b) # drop (Suc p) kids)) =
       node_key (INode f kids)"
    using assms(8) lst ne by (cases "drop (Suc p) kids") simp_all
qed

lemma insert_loop_ok:
  assumes "wf_node h n" "\<not> isfull n" "ok_entries (entries n)"
    "e \<in> set (entries n)" "\<not> key_lt (fst e) mkey"
  shows "\<exists>n'. insert_loop mkey item n = Some n' \<and> wf_node h n' \<and> node_key n' = node_key n \<and>
    entries n' = put_entry mkey item (entries n)"
  using assms
proof (induction mkey item n arbitrary: h e rule: insert_loop.induct)
  case (1 mkey item f kids)
  let ?p = "findplace mkey (map fst kids)"
  have p: "?p < length kids"
    using "1.prems" findplace_less_iff [of mkey "map fst kids"] by auto
  have add: "addChild mkey (Some item) ?p kids = Some (take ?p kids @ (mkey, Some item) # drop ?p kids)"
    using "1.prems"(1,2) by (simp add: addChild_def openHole_def isfull_def assert_then_def)
  have "takeWhile (\<lambda>e. key_lt (fst e) mkey) kids = take ?p kids"
    "dropWhile (\<lambda>e. key_lt (fst e) mkey) kids = drop ?p kids"
    by (simp_all add: findplace_def takeWhile_map comp_def takeWhile_eq_take [symmetric]
        dropWhile_eq_drop [symmetric])
  then show ?case
    using "1.prems"(1,2) p add by (auto simp: put_entry_def isfull_def)
next
  case (2 mkey item f kids)
  let ?p = "findplace mkey (map fst kids)"
  let ?n = "snd (kids ! ?p)"
  have ok: "kids_ok (h - 1) kids" and srt: "ok_entries (kids_entries kids)"
    using "2.prems" by auto
  have p: "?p < length kids" using place_exists [OF ok srt] "2.prems"(4,5) by simp
  have wfn: "wf_node (h - 1) ?n" and keyn: "node_key ?n = Some (fst (kids ! ?p))"
    using ok p by auto
  have srtn: "ok_entries (entries ?n)"
    using srt unfolding kids_entries_split [OF p] by (simp add: ok_entries_append)
  obtain e' where e': "e' \<in> set (entries ?n)" "\<not> key_lt (fst e') mkey"
    using place_here [OF ok p] by auto
  have len: "length kids < 32" using "2.prems"(1,2) by (simp add: isfull_def)
  note put = put_entry_kids [OF ok srt refl p, of item]
  show ?case
  proof (cases "isfull ?n")
    case False
    obtain n' where n': "insert_loop mkey item ?n = Some n'" "wf_node (h - 1) n'"
        "node_key n' = node_key ?n" "entries n' = put_entry mkey item (entries ?n)"
      using "2.IH"(3) [OF refl p refl False wfn False srtn e'] by blast
    have "insert_loop mkey item (INode f kids) = Some (INode f (kids[?p := (fst (kids ! ?p), n')]))"
      using p False n'(1) by (simp add: Let_def)
    then show ?thesis
      using wf_INode_replace [OF "2.prems"(1) p n'(2) n'(3) [unfolded keyn] refl]
        entries_INode_replace [OF p] put n'(4) by auto
  next
    case True
    let ?a = "fst (node_split ?n)" and ?b = "snd (node_split ?n)"
    note sp = node_split_ok [OF wfn True]
    obtain ka where ka: "node_key ?a = Some ka" using wf_node_entries [OF sp(1)] by blast
    have kb: "node_key ?b = Some (fst (kids ! ?p))" using sp(7) keyn by simp
    note sf = split_father_ok [OF p len ka kb]
    let ?kids' = "take ?p kids @ (ka, ?a) # (fst (kids ! ?p), ?b) # drop (Suc ?p) kids"
    have full: "\<not> isfull ?a" "\<not> isfull ?b" using sp(5,6) by (simp_all add: isfull_def)
    have srt2: "ok_entries (entries ?a)" "ok_entries (entries ?b)"
      using srtn unfolding sp(3) by (simp_all add: ok_entries_append)
    have tk: "length (take ?p kids) = ?p" using p by simp
    show ?thesis
    proof (cases "findplace mkey (node_keys ?n) \<ge> children ?a")
      case ge: True
      have lt: "key_lt (fst e) mkey" if "e \<in> set (entries ?a)" for e
      proof (rule node_keys_all_lt [OF sp(1) srt2(1) _ that])
        fix x assume "x \<in> set (node_keys ?a)"
        then show "key_lt x mkey"
          using ge findplace_append_ge [of "node_keys ?a" mkey "node_keys ?b" x] unfolding sp(4)
          by (cases ?a) auto
      qed
      have eb: "e' \<in> set (entries ?b)" using e' lt [of e'] unfolding sp(3) by auto
      obtain b' where b': "insert_loop mkey item ?b = Some b'" "wf_node (h - 1) b'"
          "node_key b' = node_key ?b" "entries b' = put_entry mkey item (entries ?b)"
        using "2.IH"(1) [OF refl p refl True sf ge sp(2) full(2) srt2(2) eb e'(2)] by blast
      have "insert_loop mkey item (INode f kids) =
          Some (INode f (take ?p kids @ (ka, ?a) # (fst (kids ! ?p), b') # drop (Suc ?p) kids))"
        using p True ge sf b'(1) tk by (simp add: Let_def list_update_append nth_append)
      then show ?thesis
        using wf_INode_split [OF "2.prems"(1) p len sp(1) b'(2) ka b'(3) [unfolded kb] refl]
          put b'(4) put_entry_append_right [OF lt, of "entries ?a"] unfolding sp(3) by auto
    next
      case lt: False
      obtain x where "x \<in> set (node_keys ?a)" "\<not> key_lt x mkey"
        using lt findplace_append_lt [of mkey "node_keys ?a" "node_keys ?b"] unfolding sp(4)
        by (cases ?a) auto
      then obtain ea where ea: "ea \<in> set (entries ?a)" "\<not> key_lt (fst ea) mkey"
        using node_keys_entries [OF sp(1)] by blast
      obtain a' where a': "insert_loop mkey item ?a = Some a'" "wf_node (h - 1) a'"
          "node_key a' = node_key ?a" "entries a' = put_entry mkey item (entries ?a)"
        using "2.IH"(2) [OF refl p refl True sf lt sp(1) full(1) srt2(1) ea] by blast
      have "insert_loop mkey item (INode f kids) =
          Some (INode f (take ?p kids @ (ka, a') # (fst (kids ! ?p), ?b) # drop (Suc ?p) kids))"
        using p True lt sf a'(1) tk by (simp add: Let_def list_update_append nth_append)
      then show ?thesis
        using wf_INode_split [OF "2.prems"(1) p len a'(2) sp(2) a'(3) [unfolded ka] kb refl]
          put a'(4) put_entry_append_left [OF ea, of item "entries ?b"] unfolding sp(3) by auto
    qed
  qed
qed

text \<open>The invariant of the whole tree, and the items it holds.\<close>

definition tree_inv :: "Tree \<Rightarrow> bool" where
  "tree_inv t \<longleftrightarrow>
     wf_node (hgt t) (root t) \<and> ok_entries (entries (root t)) \<and>
     last (entries (root t)) = (sentinel_key, None) \<and>
     (\<forall>e\<in>set (butlast (entries (root t))). \<exists>m. e = (meta_key m, Some m))"

definition contents :: "Tree \<Rightarrow> Meta list" where
  "contents t = map (\<lambda>e. the (snd e)) (butlast (entries (root t)))"

definition store_insert :: "Meta \<Rightarrow> Meta list \<Rightarrow> Meta list" where
  "store_insert m s =
     takeWhile (\<lambda>x. meta_key x < meta_key m) s @ m # dropWhile (\<lambda>x. meta_key x < meta_key m) s"

lemma tree_inv_entries:
  assumes "tree_inv t"
  shows "entries (root t) = map (\<lambda>m. (meta_key m, Some m)) (contents t) @ [(sentinel_key, None)]"
proof -
  have "entries (root t) \<noteq> []" using assms wf_node_entries by (auto simp: tree_inv_def)
  then have "entries (root t) = butlast (entries (root t)) @ [(sentinel_key, None)]"
    using assms append_butlast_last_id [of "entries (root t)"] by (simp add: tree_inv_def)
  moreover have "butlast (entries (root t)) = map (\<lambda>m. (meta_key m, Some m)) (contents t)"
    using assms by (fastforce simp: contents_def tree_inv_def comp_def intro!: map_idI [symmetric])
  ultimately show ?thesis by simp
qed

lemma contents_unique:
  "entries (root t) = map (\<lambda>m. (meta_key m, Some m)) ms @ [(sentinel_key, None)] \<Longrightarrow> contents t = ms"
  by (simp add: contents_def comp_def)

lemma tree_invI:
  assumes "wf_node (hgt t) (root t)"
    "entries (root t) = map (\<lambda>m. (meta_key m, Some m)) ms @ [(sentinel_key, None)]"
    "sorted (map meta_key ms)" "\<forall>m\<in>set ms. exact (meta_key m)"
  shows "tree_inv t" "contents t = ms"
proof -
  have "meta_key m \<le> sentinel_key" for m
    using key_lt_sentinel [of "meta_key m"] by (simp add: less_imp_le)
  with assms show "tree_inv t"
    by (auto simp: tree_inv_def ok_entries_def sorted_append comp_def)
  show "contents t = ms" using assms(2) by (rule contents_unique)
qed

lemma tree_inv_contents:
  assumes "tree_inv t"
  shows "sorted (map meta_key (contents t))" "\<forall>m\<in>set (contents t). exact (meta_key m)"
  using assms tree_inv_entries [OF assms]
  by (auto simp: tree_inv_def ok_entries_def sorted_append comp_def)

lemma new_Tree_ok: "tree_inv new_Tree" "contents new_Tree = []"
proof -
  have "wf_node (hgt new_Tree) (root new_Tree)"
    by (simp add: new_Tree_def testflag_def META_ROOT_def META_LEVEL1_def)
  then show "tree_inv new_Tree" "contents new_Tree = []"
    using tree_invI [of new_Tree "[]"] by (simp_all add: new_Tree_def)
qed

lemma store_insert_sorted:
  assumes "sorted (map meta_key s)"
  shows "sorted (map meta_key (store_insert m s))"
  using assms
  by (auto simp: store_insert_def sorted_append sorted_map_takeWhile_less
      sorted_map_dropWhile_less sorted_filter not_less)

lemma set_store_insert [simp]: "set (store_insert m s) = insert m (set s)"
proof -
  have "set s = set (takeWhile (\<lambda>x. meta_key x < meta_key m) s @ dropWhile (\<lambda>x. meta_key x < meta_key m) s)"
    by simp
  then show ?thesis unfolding store_insert_def set_append list.set by blast
qed

lemma put_entry_store:
  assumes "exact (meta_key m)" "\<forall>x\<in>set s. exact (meta_key x)"
  shows "put_entry (meta_key m) m (map (\<lambda>m. (meta_key m, Some m)) s @ [(sentinel_key, None)]) =
    map (\<lambda>m. (meta_key m, Some m)) (store_insert m s) @ [(sentinel_key, None)]"
proof -
  have sen: "\<not> key_lt sentinel_key (meta_key m)"
    using key_lt_sentinel [of "meta_key m"] assms(1) by (simp add: key_lt_exact less_imp_not_less)
  show ?thesis using assms sen
    by (induction s) (auto simp: put_entry_def store_insert_def key_lt_exact)
qed

section \<open>Inserting into the tree\<close>

lemma set_nflags_simps [simp]:
  "entries (set_nflags g n) = entries n" "node_key (set_nflags g n) = node_key n"
  "children (set_nflags g n) = children n" "node_keys (set_nflags g n) = node_keys n"
  by (cases n; simp)+

lemma wf_clear_root [simp]:
  "wf_node h (set_nflags (clearflag META_ROOT (nflags n)) n) \<longleftrightarrow> wf_node h n"
  by (cases n) auto

lemma root_flag_level1 [simp]: "\<not> testflag META_LEVEL1 META_ROOT"
  by (simp add: testflag_def META_ROOT_def META_LEVEL1_def)

lemma wf_node_pos: "wf_node h n \<Longrightarrow> 0 < h"
  by (cases n) auto

text \<open>
  After a split of the root the code descends straight into one of the halves; that is the child
  at the place of the key in the new root.
\<close>

lemma pushroot_ok:
  assumes wf: "wf_node h n" and full: "isfull n" and srt: "ok_entries (entries n)"
    and e: "e \<in> set (entries n)" "\<not> key_lt (fst e) mkey"
  shows "\<exists>kids. pushroot (fst (node_split n)) (snd (node_split n)) = Some kids \<and> length kids = 2 \<and>
    wf_node (h + 1) (INode META_ROOT kids) \<and> entries (INode META_ROOT kids) = entries n \<and>
    (\<forall>kc\<in>set kids. \<not> isfull (snd kc)) \<and>
    findplace mkey (map fst kids) =
      (if findplace mkey (node_keys n) \<ge> children (fst (node_split n)) then 1 else 0)"
proof -
  let ?a = "fst (node_split n)" and ?b = "snd (node_split n)"
  note sp = node_split_ok [OF wf full]
  have srt2: "ok_entries (entries ?a)" "ok_entries (entries ?b)"
    using srt unfolding sp(3) by (simp_all add: ok_entries_append)
  obtain ka kb where k: "node_key ?a = Some ka" "node_key ?b = Some kb"
    using wf_node_entries [OF sp(1)] wf_node_entries [OF sp(2)] by blast
  have len: "length (node_keys ?a) = children ?a" by (cases ?a) auto
  then have "last (node_keys ?a) \<in> set (node_keys ?a)" using sp(5) by (intro last_in_set) auto
  then have ka: "entries ?a \<noteq> []" "ka = fst (last (entries ?a))" "ka \<in> set (node_keys ?a)"
    using k(1) wf_node_entries [OF sp(1)] by (auto simp: node_key_def split: if_splits)
  have kb: "entries ?b \<noteq> []" "kb = fst (last (entries ?b))"
    using k(2) wf_node_entries [OF sp(2)] by auto
  let ?kids = "[(ka, set_nflags (clearflag META_ROOT (nflags ?a)) ?a),
                (kb, set_nflags (clearflag META_ROOT (nflags ?b)) ?b)]"
  have push: "pushroot ?a ?b = Some ?kids"
    using k by (simp add: pushroot_def addChild_def openHole_def)
  have wfr: "wf_node (h + 1) (INode META_ROOT ?kids)"
    using sp(1,2) k wf_node_pos [OF wf] by simp
  have nlt: "key_lt ka mkey \<Longrightarrow> \<not> key_lt kb mkey"
  proof
    assume lt: "key_lt ka mkey" "key_lt kb mkey"
    have "e \<in> set (entries ?a) \<or> e \<in> set (entries ?b)" using e(1) sp(3) by simp
    then show False
      using ok_entries_all_lt [OF srt2(1) ka(1) lt(1) [unfolded ka(2)]]
        ok_entries_all_lt [OF srt2(2) kb(1) lt(2) [unfolded kb(2)]] e(2) by blast
  qed
  have fp: "findplace mkey (map fst ?kids) =
      (if findplace mkey (node_keys n) \<ge> children ?a then 1 else 0)"
  proof (cases "findplace mkey (node_keys n) \<ge> children ?a")
    case True
    then have "key_lt ka mkey"
      using ka(3) len findplace_append_ge [of "node_keys ?a" mkey "node_keys ?b" ka] unfolding sp(4) by simp
    with nlt True show ?thesis by (simp add: findplace_def)
  next
    case False
    then obtain x where "x \<in> set (node_keys ?a)" "\<not> key_lt x mkey"
      using len findplace_append_lt [of mkey "node_keys ?a" "node_keys ?b"] unfolding sp(4) by auto
    then have "\<not> key_lt ka mkey"
      using node_keys_entries [OF sp(1)] ok_entries_all_lt [OF srt2(1) ka(1)] ka(2) by metis
    with False show ?thesis by (simp add: findplace_def)
  qed
  have "entries (INode META_ROOT ?kids) = entries n" using sp(3) by simp
  then show ?thesis using push wfr fp sp(5,6) by (intro exI [of _ ?kids]) (simp add: isfull_def)
qed

lemma insert_root_ok:
  assumes wf: "wf_node (hgt t) (root t)" and srt: "ok_entries (entries (root t))"
    and e: "e \<in> set (entries (root t))" "\<not> key_lt (fst e) (meta_key item)"
  shows "\<exists>t'. insert_tree item t = Some t' \<and> wf_node (hgt t') (root t') \<and>
    entries (root t') = put_entry (meta_key item) item (entries (root t))"
proof (cases "isfull (root t)")
  case False
  then show ?thesis
    using insert_loop_ok [OF wf False srt e, of item] by (auto simp: insert_tree_def Let_def)
next
  case True
  let ?a = "fst (node_split (root t))"
  let ?p = "if findplace (meta_key item) (node_keys (root t)) \<ge> children ?a then 1 else 0"
  obtain kids where kids: "pushroot ?a (snd (node_split (root t))) = Some kids" "length kids = 2"
      "wf_node (hgt t + 1) (INode META_ROOT kids)" "entries (INode META_ROOT kids) = entries (root t)"
      "\<forall>kc\<in>set kids. \<not> isfull (snd kc)" "findplace (meta_key item) (map fst kids) = ?p"
    using pushroot_ok [OF wf True srt e] by blast
  have "\<not> isfull (INode META_ROOT kids)" using kids(2) by (simp add: isfull_def)
  then obtain n' where n': "insert_loop (meta_key item) item (INode META_ROOT kids) = Some n'"
      "wf_node (hgt t + 1) n'" "entries n' = put_entry (meta_key item) item (entries (root t))"
    using insert_loop_ok [OF kids(3), of e "meta_key item" item] srt e kids(4) by metis
  have p: "?p < length kids" using kids(2) by simp
  then have "\<not> isfull (snd (kids ! ?p))" using kids(5) nth_mem by blast
  with n'(1) p kids(6) obtain m where
      "insert_loop (meta_key item) item (snd (kids ! ?p)) = Some m"
      "n' = INode META_ROOT (kids[?p := (fst (kids ! ?p), m)])"
    unfolding insert_loop.simps Let_def kids(6) by (auto simp del: One_nat_def split: if_split_asm)
  then have "insert_tree item t = Some (t\<lparr>root := n', hgt := hgt t + 1\<rparr>)"
    using True kids(1) unfolding insert_tree_def Let_def by (simp del: One_nat_def)
  with n' show ?thesis by simp
qed

lemma insert_tree_ok:
  assumes inv: "tree_inv t" and ex: "exact (meta_key m)"
  shows "\<exists>t'. insert_tree m t = Some t' \<and> tree_inv t' \<and> contents t' = store_insert m (contents t)"
proof -
  note es = tree_inv_entries [OF inv] and cs = tree_inv_contents [OF inv]
  have "\<not> key_lt (fst (sentinel_key, None :: Meta option)) (meta_key m)"
    using key_lt_sentinel [of "meta_key m"] ex by (simp add: key_lt_exact less_imp_not_less)
  moreover have "(sentinel_key, None) \<in> set (entries (root t))" using es by simp
  ultimately obtain t' where t': "insert_tree m t = Some t'" "wf_node (hgt t') (root t')"
      "entries (root t') = put_entry (meta_key m) m (entries (root t))"
    using insert_root_ok [of t "(sentinel_key, None)" m] inv by (auto simp: tree_inv_def)
  have "entries (root t') =
      map (\<lambda>m. (meta_key m, Some m)) (store_insert m (contents t)) @ [(sentinel_key, None)]"
    using t'(3) put_entry_store [OF ex cs(2)] es by simp
  from tree_invI [OF t'(2) this] store_insert_sorted [OF cs(1)] cs(2) ex t'(1)
  show ?thesis by auto
qed

end
