(* ===== verification/Meta_Tree_Del.thy ===== *)
theory Meta_Tree_Del
  imports Meta_Tree_Inv
begin

text \<open>
  Deletion from the search tree: removing an entry, correcting the keys on the path, and
  repairing underfull nodes by merging or borrowing. The repair never fails an assert and keeps
  the entries; removal fails an assert only when it would empty a level-1 node.
\<close>

section \<open>Positions\<close>

fun vpath :: "position \<Rightarrow> Node \<Rightarrow> bool" where
  "vpath (p # q) (INode f kids) = (p < length kids \<and> vpath q (snd (kids ! p)))"
| "vpath [] (INode f kids) = False"
| "vpath q (LNode f kids) = True"

text \<open>The number of entries in the level-1 node that a position lies in.\<close>

fun leaf_size :: "position \<Rightarrow> Node \<Rightarrow> nat" where
  "leaf_size (p # q) (INode f kids) = (if p < length kids then leaf_size q (snd (kids ! p)) else 0)"
| "leaf_size [] (INode f kids) = 0"
| "leaf_size q (LNode f kids) = length kids"

lemma iter_LNode_split:
  assumes "iter (LNode f kids) = xs @ (q, e) # ys"
  obtains i where "q = [i]" "i < length kids" "e = kids ! i"
    "map snd xs = take i kids" "map snd ys = drop (Suc i) kids"
proof -
  let ?i = "length xs"
  have len: "?i < length kids"
    using arg_cong [OF assms, of length] by simp
  have "(q, e) = iter (LNode f kids) ! ?i" by (simp only: assms nth_append_length)
  then have qe: "q = [?i]" "e = kids ! ?i" using len by simp_all
  have "map snd xs @ e # map snd ys = kids"
    using arg_cong [OF assms, of "map snd"] by (simp only: iter_entries entries.simps map_append list.map snd_conv)
  then have "map snd xs = take ?i kids" "map snd ys = drop (Suc ?i) kids"
    by (metis append_eq_conv_conj length_map, metis append_eq_conv_conj drop_Suc_Cons drop_drop
        length_map list.sel(3) plus_1_eq_Suc tl_drop drop_Suc drop0)
  with qe len show ?thesis using that by blast
qed

lemma iter_INode_split:
  assumes "iter (INode f kids) = xs @ (q, e) # ys"
  obtains i q' us vs where "q = i # q'" "i < length kids"
    "iter (snd (kids ! i)) = us @ (q', e) # vs"
    "map snd xs = kids_entries (take i kids) @ map snd us"
    "map snd ys = map snd vs @ kids_entries (drop (Suc i) kids)"
proof -
  let ?f = "\<lambda>i. map (\<lambda>(q, e). (i # q, e)) (iter (snd (kids ! i)))"
  from assms have "concat (map ?f [0..<length kids]) = xs @ (q, e) # ys" by simp
  from concat_eq_append_Cons [OF this] obtain i us vs where
    i: "i < length kids" and us: "?f i = us @ (q, e) # vs" and
    xs: "xs = concat (take i (map ?f [0..<length kids])) @ us" and
    ys: "ys = vs @ concat (drop (Suc i) (map ?f [0..<length kids]))"
    by auto
  from us obtain us' vs' q' where it: "iter (snd (kids ! i)) = us' @ (q', e) # vs'" and
    us': "us = map (\<lambda>(q, e). (i # q, e)) us'" and vs': "vs = map (\<lambda>(q, e). (i # q, e)) vs'" and
    q: "q = i # q'"
    by (auto simp: map_eq_append_conv map_eq_Cons_conv case_prod_unfold)
  have snds: "map snd (map (\<lambda>(q, e). (i # q, e)) zs) = map snd zs" for zs :: cursor and i
    by (simp add: case_prod_unfold comp_def)
  have "take i (map ?f [0..<length kids]) = map ?f [0..<length (take i kids)]"
    using i by (simp add: take_map)
  then have "map snd (concat (take i (map ?f [0..<length kids]))) =
      concat (map (\<lambda>j. entries (snd (kids ! j))) [0..<i])"
    using i by (simp add: map_concat comp_def case_prod_unfold)
  also have "map (\<lambda>j. entries (snd (kids ! j))) [0..<i] = map (\<lambda>kc. entries (snd kc)) (take i kids)"
    using i by (intro nth_equalityI) auto
  finally have x: "map snd xs = kids_entries (take i kids) @ map snd us'"
    unfolding xs us' map_append snds by simp
  have "drop (Suc i) (map ?f [0..<length kids]) = map ?f [Suc i..<length kids]"
    by (simp add: drop_map)
  then have y: "map snd ys = map snd vs' @ kids_entries (drop (Suc i) kids)"
    unfolding ys vs' map_append snds by (simp add: iter_kids_suffix)
  show ?thesis using that [OF q i it x y] .
qed

lemma iter_split_vpath: "iter n = xs @ (q, e) # ys \<Longrightarrow> vpath q n"
proof (induction n arbitrary: xs q ys rule: iter.induct)
  case (1 f kids)
  then show ?case by (cases q) auto
next
  case (2 f kids)
  from "2.prems" show ?case
    by (rule iter_INode_split) (use "2.IH" in auto)
qed

section \<open>Removing an entry\<close>

lemma remove_ok:
  assumes "wf_node h n" "iter n = xs @ (q, e) # ys" "2 \<le> leaf_size q n"
  shows "\<exists>n1. remove_at q n = Some n1 \<and> entries n1 = map snd xs @ map snd ys \<and>
    (if past_end q n1
     then \<exists>n2 go. resetKeys q n1 = Some (n2, go) \<and> wf_node h n2 \<and> entries n2 = entries n1 \<and>
            vpath q n2 \<and> (\<not> go \<longrightarrow> node_key n2 = node_key n)
     else wf_node h n1 \<and> vpath q n1 \<and> node_key n1 = node_key n)"
  using assms
proof (induction n arbitrary: h xs q ys rule: iter.induct)
  case (1 f kids)
  from "1.prems"(2) obtain i where i: "q = [i]" "i < length kids"
      "map snd xs = take i kids" "map snd ys = drop (Suc i) kids"
    by (rule iter_LNode_split)
  have len: "2 \<le> length kids" using "1.prems"(3) i(1) by simp
  let ?k = "take i kids @ drop (Suc i) kids"
  have rm: "remove_at q (LNode f kids) = Some (LNode f ?k)"
    using i len by (simp add: closeHole_def)
  have wf1: "wf_node h (LNode f ?k)" using "1.prems"(1) i(2) len by auto
  have lst: "last ?k = last kids" if "i \<noteq> length kids - 1"
    using that i(2) by (simp add: last_append)
  have ne: "?k \<noteq> []" "kids \<noteq> []" using len i(2) by auto
  have "length ?k = length kids - 1" using i(2) by simp
  then have pe: "past_end q (LNode f ?k) \<longleftrightarrow> i = length kids - 1"
    unfolding i(1) past_end.simps by simp
  have key: "node_key (LNode f ?k) = node_key (LNode f kids)" if "i \<noteq> length kids - 1"
    using lst [OF that] ne by (simp only: node_key_simps if_False)
  define m where "m = LNode f ?k"
  have "resetKeys q m = Some (m, True)" "vpath q m" "entries m = map snd xs @ map snd ys"
    using i(3,4) by (simp_all add: m_def)
  with rm wf1 pe key show ?case
    unfolding m_def [symmetric] by (intro exI [of _ m]) auto
next
  case (2 f kids)
  from "2.prems"(2) obtain i q' us vs where q: "q = i # q'" and i: "i < length kids" and
      it: "iter (snd (kids ! i)) = us @ (q', e) # vs" and
      xs: "map snd xs = kids_entries (take i kids) @ map snd us" and
      ys: "map snd ys = map snd vs @ kids_entries (drop (Suc i) kids)"
    by (rule iter_INode_split)
  let ?c = "snd (kids ! i)" and ?k = "fst (kids ! i)"
  have wfc: "wf_node (h - 1) ?c" and keyc: "node_key ?c = Some ?k" using "2.prems"(1) i by auto
  have ls: "2 \<le> leaf_size q' ?c" using "2.prems"(3) q i by simp
  have "i \<in> set [0..<length kids]" using i by simp
  from "2.IH" [OF this wfc it ls] obtain c1 where
    c1: "remove_at q' ?c = Some c1" "entries c1 = map snd us @ map snd vs" and
    rest: "if past_end q' c1
     then \<exists>n2 go. resetKeys q' c1 = Some (n2, go) \<and> wf_node (h - 1) n2 \<and> entries n2 = entries c1 \<and>
            vpath q' n2 \<and> (\<not> go \<longrightarrow> node_key n2 = node_key ?c)
     else wf_node (h - 1) c1 \<and> vpath q' c1 \<and> node_key c1 = node_key ?c"
    by blast
  let ?n1 = "INode f (kids[i := (?k, c1)])"
  have rm: "remove_at q (INode f kids) = Some ?n1" using q i c1(1) by simp
  have en: "entries (INode f (kids[i := (k, c)])) = map snd xs @ map snd ys"
    if "entries c = entries c1" for k c
    using entries_INode_replace [OF i] that c1(2) xs ys by simp
  have pe: "past_end q ?n1 = past_end q' c1" using q i by simp
  show ?case
  proof (cases "past_end q' c1")
    case False
    with rest have c: "wf_node (h - 1) c1" "vpath q' c1" "node_key c1 = Some ?k" by (simp_all add: keyc)
    show ?thesis
      using rm en [of c1 ?k] pe False c(2) q i wf_INode_replace [OF "2.prems"(1) i c(1,3) refl]
      by (intro exI [of _ ?n1]) simp
  next
    case True
    with rest obtain c2 go where c2: "resetKeys q' c1 = Some (c2, go)" "wf_node (h - 1) c2"
        "entries c2 = entries c1" "vpath q' c2" "\<not> go \<Longrightarrow> node_key c2 = node_key ?c"
      by auto
    obtain k2 where k2: "node_key c2 = Some k2" using wf_node_entries [OF c2(2)] by blast
    let ?n2 = "INode f (kids[i := (if go then k2 else ?k, c2)])"
    have rs: "resetKeys q ?n1 = Some (?n2, go \<and> i = length kids - 1)"
      using q i c2(1) k2 by (simp add: resetKey_def)
    have "kids_ok (h - 1) (kids[i := (k2, c2)])"
      using "2.prems"(1) c2(2) k2 by (auto dest: set_update_subset_insert [THEN subsetD])
    then have "wf_node h ?n2" if go
      using that "2.prems"(1) by simp
    moreover have "wf_node h ?n2" "node_key ?n2 = node_key (INode f kids)" if "\<not> go"
      using that wf_INode_replace [OF "2.prems"(1) i c2(2) _ refl] c2(5) keyc by simp_all
    moreover have "node_key ?n2 = node_key (INode f kids)" if "i \<noteq> length kids - 1"
      using that i by (auto simp: last_list_update)
    moreover have "vpath q ?n2" using q i c2(4) by simp
    ultimately show ?thesis
      using rm pe True rs en [of c1 ?k] en [of c2] c2(3)
      by (intro exI [of _ ?n1]) (auto simp del: node_key_simps wf_node.simps entries.simps)
  qed
qed

section \<open>Repairing underfull nodes\<close>

lemma node_absorb_ok:
  assumes "wf_node h l" "wf_node h m" "children l + children m \<le> 32"
  shows "\<exists>c. node_absorb m l = Some c \<and> wf_node h c \<and> entries c = entries l @ entries m \<and>
    node_key c = node_key m"
  using assms
  by (cases l; cases m) (auto simp: absorb_def moveChildren_def)

lemma append_take_drop_more: "take n xs @ drop n xs @ ys = xs @ ys"
  by (simp flip: append_assoc)

lemma node_shiftRight_ok:
  assumes "wf_node h l" "wf_node h m" "0 < n" "n < children l" "n + children m \<le> 32"
  shows "\<exists>l' m'. node_shiftRight l m n = Some (l', m') \<and> wf_node h l' \<and> wf_node h m' \<and>
    entries l' @ entries m' = entries l @ entries m \<and> node_key m' = node_key m"
  using assms
  by (cases l; cases m)
    (auto simp: shiftRight_def openHole_def assert_then_def add.commute append_take_drop_more map_append [symmetric]
        concat_append [symmetric] simp del: map_append concat_append
      dest: in_set_takeD in_set_dropD)

lemma node_shiftLeft_ok:
  assumes "wf_node h m" "wf_node h r" "0 < n" "n < children r" "n + children m \<le> 32"
  shows "\<exists>r' m'. node_shiftLeft r m n = Some (r', m') \<and> wf_node h r' \<and> wf_node h m' \<and>
    entries m' @ entries r' = entries m @ entries r \<and> node_key r' = node_key r"
  using assms
  by (cases m; cases r)
    (auto simp: shiftLeft_def closeHole_def moveChildren_def assert_then_def add.commute
        map_append [symmetric] concat_append [symmetric] simp del: map_append concat_append
      dest: in_set_takeD in_set_dropD)

text \<open>What a repair of a list of children keeps.\<close>

definition same_kids :: "nat \<Rightarrow> Node kids \<Rightarrow> Node kids \<Rightarrow> bool" where
  "same_kids h kids kids' \<longleftrightarrow>
     kids_ok h kids' \<and> kids' \<noteq> [] \<and> length kids' \<le> length kids \<and>
     kids_entries kids' = kids_entries kids \<and> fst (last kids') = fst (last kids)"

lemma same_kids_refl: "kids_ok h kids \<Longrightarrow> kids \<noteq> [] \<Longrightarrow> same_kids h kids kids"
  by (simp add: same_kids_def)

lemma merged_at_ok:
  assumes "wf_node h c" "entries c = entries a @ entries b" "node_key c = Some kb"
    "kids = us @ (ka, a) # (kb, b) # vs" "kids_ok h kids"
  shows "\<exists>kids'. merged_at (length us) c kids = Some (kids', True) \<and> same_kids h kids kids'"
proof -
  have "merged_at (length us) c kids = Some (us @ (kb, c) # vs, True)"
    by (simp add: merged_at_def closeHole_def assms(4) list_update_append nth_append)
  moreover have "same_kids h kids (us @ (kb, c) # vs)"
    using assms by (auto simp: same_kids_def)
  ultimately show ?thesis by blast
qed

lemma mergeNeighbor_ok:
  assumes ok: "kids_ok h kids" and p: "p < length kids"
  shows "\<exists>kids' b. mergeNeighbor p kids = Some (kids', b) \<and> same_kids h kids kids' \<and>
    (\<not> b \<longrightarrow> kids' = kids)"
proof -
  let ?m = "snd (kids ! p)"
  let ?l = "leftNeighbor p kids" and ?r = "rightNeighbor p kids"
  consider (left) "?l \<noteq> None" "children ?m + children (the ?l) < 32"
    | (right) "\<not> (?l \<noteq> None \<and> children ?m + children (the ?l) < 32)"
        "?r \<noteq> None" "children ?m + children (the ?r) < 32"
    | (none) "\<not> (?l \<noteq> None \<and> children ?m + children (the ?l) < 32)"
        "\<not> (?r \<noteq> None \<and> children ?m + children (the ?r) < 32)"
    by blast
  then show ?thesis
  proof cases
    case left
    then have "0 < p" and "Suc (p - 1) < length kids" using p by (auto simp: leftNeighbor_def split: if_splits)
    from this(2) obtain us x y vs where kids: "kids = us @ x # y # vs" "length us = p - 1"
      by (rule two_neighbours)
    then have pu: "p = Suc (length us)" using \<open>0 < p\<close> by simp
    have m: "?m = snd y" "the ?l = snd x"
      unfolding pu kids(1) by (simp_all add: leftNeighbor_def nth_append)
    have "node_key (snd y) = Some (fst y)" "wf_node h (snd x)" "wf_node h (snd y)"
      using ok by (simp_all add: kids(1))
    moreover from this left(2) obtain c where "node_absorb (snd y) (snd x) = Some c" "wf_node h c"
        "entries c = entries (snd x) @ entries (snd y)" "node_key c = node_key (snd y)"
      using node_absorb_ok [of h "snd x" "snd y"] m by auto
    moreover have "kids = us @ (fst x, snd x) # (fst y, snd y) # vs" using kids(1) by simp
    ultimately obtain kids' where "merged_at (p - 1) c kids = Some (kids', True)" "same_kids h kids kids'"
        "node_absorb (snd y) (snd x) = Some c"
      using merged_at_ok [of h c "snd x" "snd y" "fst y" kids us "fst x" vs] ok kids(2) by metis
    then show ?thesis using left m by (auto simp: mergeNeighbor_def Let_def)
  next
    case right
    then have "Suc p < length kids" using p by (auto simp: rightNeighbor_def split: if_splits)
    then obtain us x y vs where kids: "kids = us @ x # y # vs" "length us = p"
      by (rule two_neighbours)
    then have m: "?m = snd x" "the ?r = snd y"
      using right(2) by (auto simp: rightNeighbor_def nth_append split: if_splits)
    have "node_key (snd y) = Some (fst y)" "wf_node h (snd x)" "wf_node h (snd y)"
      using ok by (simp_all add: kids(1))
    moreover from this right(3) obtain c where "node_absorb (snd y) (snd x) = Some c" "wf_node h c"
        "entries c = entries (snd x) @ entries (snd y)" "node_key c = node_key (snd y)"
      using node_absorb_ok [of h "snd x" "snd y"] m by auto
    moreover have "kids = us @ (fst x, snd x) # (fst y, snd y) # vs" using kids(1) by simp
    ultimately obtain kids' where "merged_at p c kids = Some (kids', True)" "same_kids h kids kids'"
        "node_absorb (snd y) (snd x) = Some c"
      using merged_at_ok [of h c "snd x" "snd y" "fst y" kids us "fst x" vs] ok kids(2) by metis
    then show ?thesis using right m unfolding mergeNeighbor_def Let_def by auto
  next
    case none
    have "kids \<noteq> []" using p by auto
    then have "same_kids h kids kids" using ok by (intro same_kids_refl)
    moreover have "mergeNeighbor p kids = Some (kids, False)"
      using none by (auto simp: mergeNeighbor_def Let_def)
    ultimately show ?thesis by blast
  qed
qed

lemma same_kids_pair:
  assumes "kids_ok h (us @ (ka, a) # (kb, b) # vs)" "wf_node h a'" "wf_node h b'"
    "node_key a' = Some ka'" "node_key b' = node_key b" "entries a' @ entries b' = entries a @ entries b"
  shows "same_kids h (us @ (ka, a) # (kb, b) # vs) (us @ (ka', a') # (kb, b') # vs)"
  using assms unfolding same_kids_def
  by (auto simp flip: append_assoc)

lemma excess_pos: "0 < excess n \<Longrightarrow> wf_node h n \<Longrightarrow> nat (excess n) < children n \<and> excess n \<le> 8"
  using wf_node_children [of h n] by (auto simp: excess_def Let_def split: if_splits)

lemma balanceNeighbor_ok:
  assumes ok: "kids_ok h kids" and p: "p < length kids" and dep: "isdepleted (snd (kids ! p))"
  shows "\<exists>kids' b. balanceNeighbor p kids = Some (kids', b) \<and> same_kids h kids kids'"
proof -
  let ?m = "snd (kids ! p)"
  let ?l = "leftNeighbor p kids" and ?r = "rightNeighbor p kids"
  let ?lc = "case ?l of None \<Rightarrow> -1 | Some n \<Rightarrow> int (children n)"
  let ?rc = "case ?r of None \<Rightarrow> -1 | Some n \<Rightarrow> int (children n)"
  let ?d = "if ?lc \<ge> ?rc then ?l else ?r"
  have ne: "kids \<noteq> []" using p by auto
  then have refl: "same_kids h kids kids" using ok by (intro same_kids_refl)
  have dep': "children ?m < 16" using dep by (simp add: isdepleted_def)
  show ?thesis
  proof (cases "?d = None \<or> excess (the ?d) \<le> 0")
    case True
    have "balanceNeighbor p kids = Some (kids, False)"
    proof (cases ?d)
      case None
      then show ?thesis unfolding balanceNeighbor_def Let_def by (simp only: option.case)
    next
      case (Some d)
      with True have "excess d \<le> 0" by simp
      with Some show ?thesis unfolding balanceNeighbor_def Let_def by (simp only: option.case if_True)
    qed
    with refl show ?thesis by blast
  next
    case False
    then obtain d where d: "?d = Some d" "0 < excess d" by auto
    show ?thesis
    proof (cases "?lc \<ge> ?rc")
      case True
      with d have l: "?l = Some d" by simp
      then have "0 < p" and "Suc (p - 1) < length kids" using p by (auto simp: leftNeighbor_def split: if_splits)
      from this(2) obtain us x y vs where kids: "kids = us @ x # y # vs" "length us = p - 1"
        by (rule two_neighbours)
      then have pu: "p = Suc (length us)" using \<open>0 < p\<close> by simp
      obtain kx ky m where xy: "x = (kx, d)" "y = (ky, m)" and m: "?m = m"
        using l unfolding pu kids(1) by (cases x; cases y) (auto simp: leftNeighbor_def nth_append)
      have wf: "wf_node h d" "wf_node h m" using ok by (simp_all add: kids(1) xy)
      note ex = excess_pos [OF d(2) wf(1)]
      have sum: "nat (excess d) + children m \<le> 32" using ex dep' [unfolded m] by (simp add: nat_le_iff nat_plus_as_int)
      obtain l' m' where lm: "node_shiftRight d m (nat (excess d)) = Some (l', m')" "wf_node h l'" "wf_node h m'"
          "entries l' @ entries m' = entries d @ entries m" "node_key m' = node_key m"
        using node_shiftRight_ok [OF wf, of "nat (excess d)"] ex d(2) sum by auto
      obtain kl where kl: "node_key l' = Some kl" using wf_node_entries [OF lm(2)] by blast
      have "balanceNeighbor p kids = Some (us @ (kl, l') # (ky, m') # vs, True)"
        using l d(2) True lm(1) m ex dep' unfolding pu
        by (simp add: balanceNeighbor_def Let_def kids(1) xy resetKey_def kl list_update_append nth_append)
      moreover have "same_kids h kids (us @ (kl, l') # (ky, m') # vs)"
        using same_kids_pair [OF _ lm(2,3) kl lm(5,4), of us kx ky vs] ok by (simp add: kids(1) xy)
      ultimately show ?thesis by blast
    next
      case False
      with d have r: "?r = Some d" by simp
      then have "Suc p < length kids" using p by (auto simp: rightNeighbor_def split: if_splits)
      then obtain us x y vs where kids: "kids = us @ x # y # vs" "length us = p"
        by (rule two_neighbours)
      obtain kx ky m where xy: "x = (kx, m)" "y = (ky, d)" and m: "?m = m"
        using r kids by (cases x; cases y) (auto simp: rightNeighbor_def nth_append)
      have wf: "wf_node h m" "wf_node h d" using ok by (simp_all add: kids(1) xy)
      note ex = excess_pos [OF d(2) wf(2)]
      have sum: "nat (excess d) + children m \<le> 32" using ex dep' [unfolded m] by (simp add: nat_le_iff nat_plus_as_int)
      obtain r' m' where rm: "node_shiftLeft d m (nat (excess d)) = Some (r', m')" "wf_node h r'" "wf_node h m'"
          "entries m' @ entries r' = entries m @ entries d" "node_key r' = node_key d"
        using node_shiftLeft_ok [OF wf, of "nat (excess d)"] ex d(2) sum by auto
      obtain km where km: "node_key m' = Some km" using wf_node_entries [OF rm(3)] by blast
      have "balanceNeighbor p kids = Some (us @ (km, m') # (ky, r') # vs, True)"
        using r d(2) False rm(1) m ex dep' kids(2)
        by (simp add: balanceNeighbor_def Let_def kids(1) xy resetKey_def km list_update_append nth_append)
      moreover have "same_kids h kids (us @ (km, m') # (ky, r') # vs)"
        using same_kids_pair [OF _ rm(3,2) km rm(5,4), of us kx ky vs] ok by (simp add: kids(1) xy)
      ultimately show ?thesis by blast
    qed
  qed
qed

lemma rebalance_ok:
  assumes "wf_node h n" "vpath q n"
  shows "\<exists>n' b. rebalance q n = Some (n', b) \<and> wf_node h n' \<and> entries n' = entries n \<and>
    node_key n' = node_key n \<and> (b = NotBalanced \<longrightarrow> children n' = children n) \<and>
    (b = BalancedHere \<longrightarrow> \<not> hasleaves n')"
  using assms
proof (induction q n arbitrary: h rule: rebalance.induct)
  case (1 p q f kids)
  let ?c = "snd (kids ! p)" and ?k = "fst (kids ! p)"
  have p: "p < length kids" and vp: "vpath q ?c" using "1.prems"(2) by auto
  have wfc: "wf_node (h - 1) ?c" and keyc: "node_key ?c = Some ?k" using "1.prems"(1) p by auto
  obtain c b where c: "rebalance q ?c = Some (c, b)" "wf_node (h - 1) c" "entries c = entries ?c"
      "node_key c = node_key ?c"
    using "1.IH" [OF p wfc vp] by blast
  let ?kids1 = "kids[p := (?k, c)]"
  note wf1 = wf_INode_replace [OF "1.prems"(1) p c(2) c(4) [unfolded keyc] refl]
  have en1: "entries (INode f ?kids1) = entries (INode f kids)"
    using entries_INode_replace [OF p] c(3) kids_entries_split [OF p] by simp
  have lift: "wf_node h (INode f kids2) \<and> entries (INode f kids2) = entries (INode f kids) \<and>
      node_key (INode f kids2) = node_key (INode f kids)"
    if "same_kids (h - 1) ?kids1 kids2" for kids2
    using that wf1 en1 by (auto simp: same_kids_def split: if_splits)
  show ?case
  proof (cases "b = NotBalanced \<and> isdepleted c")
    case False
    then have "rebalance (p # q) (INode f kids) =
        Some (INode f ?kids1, if b \<noteq> NotBalanced then BalancedBelow else NotBalanced)"
      using p c(1) by (auto simp: Let_def)
    then show ?thesis using wf1 en1 by (auto simp del: wf_node.simps node_key_simps entries.simps)
  next
    case True
    have ok: "kids_ok (h - 1) ?kids1" and p1: "p < length ?kids1" using wf1(1) p by simp_all
    obtain kids2 m where m: "mergeNeighbor p ?kids1 = Some (kids2, m)" "same_kids (h - 1) ?kids1 kids2"
        "\<not> m \<longrightarrow> kids2 = ?kids1"
      using mergeNeighbor_ok [OF ok p1] by blast
    have dep: "isdepleted (snd (?kids1 ! p))" using True p by simp
    obtain kids3 ok3 where b: "balanceNeighbor p ?kids1 = Some (kids3, ok3)" "same_kids (h - 1) ?kids1 kids3"
      using balanceNeighbor_ok [OF ok p1 dep] by blast
    show ?thesis
    proof (cases m)
      case m': True
      have "rebalance (p # q) (INode f kids) = Some (INode f kids2, BalancedHere)"
        using p c(1) True m(1) m' by (simp add: Let_def)
      then show ?thesis using lift [OF m(2)] by (auto simp del: wf_node.simps node_key_simps entries.simps)
    next
      case m': False
      then have eq: "rebalance (p # q) (INode f kids) =
          Some (INode f kids3, if ok3 then BalancedHere else NotBalanced)"
        using p c(1) True m(1,3) b(1) by (simp add: Let_def)
      have "length kids3 = length kids" if "\<not> ok3"
        using b(1) that by (auto simp: balanceNeighbor_def Let_def split: option.splits if_splits prod.splits)
      then show ?thesis using eq lift [OF b(2)]
        by (auto simp del: wf_node.simps node_key_simps entries.simps)
    qed
  qed
qed auto

section \<open>Deleting from the tree\<close>

text \<open>Deletion on the sequence of items: the first that has the key and matches is removed.\<close>

fun store_del :: "Meta \<Rightarrow> Meta list \<Rightarrow> Meta list option" where
  "store_del m [] = None"
| "store_del m (x # s) =
     (if meta_key x = meta_key m \<and> meta_match m x then Some s
      else map_option (Cons x) (store_del m s))"

lemma store_del_None: "\<forall>y\<in>set s. meta_key y \<noteq> meta_key m \<Longrightarrow> store_del m s = None"
  by (induction s) auto

lemma poproot_ok:
  assumes "wf_node (hgt t) (root t)"
  shows "wf_node (hgt (poproot t)) (root (poproot t))" "entries (root (poproot t)) = entries (root t)"
  using assms by (fastforce simp: poproot_def split: Node.splits list.splits)+

lemma scan_store:
  assumes "\<forall>m\<in>set ms. exact (meta_key m)" "exact (meta_key m)" "sorted (map meta_key ms)"
    "\<forall>x\<in>set ms. meta_key m \<le> meta_key x"
    "map snd cs = map (\<lambda>m. (meta_key m, Some m)) ms @ [(sentinel_key, None)]"
  shows "case store_del m ms of
      None \<Rightarrow> scan m (meta_key m) cs = Some None
    | Some ms' \<Rightarrow> \<exists>us q e vs. cs = us @ (q, e) # vs \<and> scan m (meta_key m) cs = Some (Some q) \<and>
        map snd us @ map snd vs = map (\<lambda>m. (meta_key m, Some m)) ms' @ [(sentinel_key, None)]"
  using assms
proof (induction ms arbitrary: cs)
  case Nil
  then obtain q where "cs = [(q, (sentinel_key, None))]" by auto
  moreover have "\<not> key_eq (meta_key m) sentinel_key"
    using Nil.prems(2) key_lt_sentinel [of "meta_key m"] by (simp add: key_eq_exact)
  ultimately show ?case by simp
next
  case (Cons x ms)
  then obtain q cs' where cs: "cs = (q, (meta_key x, Some x)) # cs'"
      "map snd cs' = map (\<lambda>m. (meta_key m, Some m)) ms @ [(sentinel_key, None)]"
    by auto
  have eq: "key_eq (meta_key m) (meta_key x) \<longleftrightarrow> meta_key x = meta_key m"
    using Cons.prems(1,2) by (auto simp: key_eq_exact)
  have IH: "case store_del m ms of
      None \<Rightarrow> scan m (meta_key m) cs' = Some None
    | Some ms' \<Rightarrow> \<exists>us q e vs. cs' = us @ (q, e) # vs \<and> scan m (meta_key m) cs' = Some (Some q) \<and>
        map snd us @ map snd vs = map (\<lambda>m. (meta_key m, Some m)) ms' @ [(sentinel_key, None)]"
    using Cons.prems cs(2) by (intro Cons.IH) auto
  show ?case
  proof (cases "meta_key x = meta_key m")
    case False
    then have gt: "\<forall>y\<in>set (x # ms). meta_key y \<noteq> meta_key m"
      using Cons.prems(3,4) by (auto dest: antisym)
    then have "store_del m (x # ms) = None" by (rule store_del_None)
    then show ?thesis using cs(1) eq False by simp
  next
    case True
    show ?thesis
    proof (cases "meta_match m x")
      case match: True
      then show ?thesis using cs eq True by (auto intro!: exI [of _ "[]"])
    next
      case False
      show ?thesis
      proof (cases "store_del m ms")
        case None
        with IH show ?thesis using cs(1) eq True False by simp
      next
        case (Some ms')
        with IH obtain us q' e vs where "cs' = us @ (q', e) # vs" "scan m (meta_key m) cs' = Some (Some q')"
            "map snd us @ map snd vs = map (\<lambda>m. (meta_key m, Some m)) ms' @ [(sentinel_key, None)]"
          by auto
        then show ?thesis using cs(1) eq True False Some
          by (auto intro!: exI [of _ "(q, (meta_key x, Some x)) # us"])
      qed
    qed
  qed
qed

lemma store_del_append:
  "\<forall>x\<in>set xs. meta_key x \<noteq> meta_key m \<Longrightarrow> store_del m (xs @ ys) = map_option ((@) xs) (store_del m ys)"
  by (induction xs; cases "store_del m ys") auto

lemma store_del_SomeD:
  "store_del m s = Some s' \<Longrightarrow>
   \<exists>us x vs. s = us @ x # vs \<and> s' = us @ vs \<and> meta_key x = meta_key m \<and> meta_match m x"
proof (induction s arbitrary: s')
  case (Cons y s)
  show ?case
  proof (cases "meta_key y = meta_key m \<and> meta_match m y")
    case True
    with Cons.prems show ?thesis by (intro exI [of _ "[]"]) auto
  next
    case False
    with Cons obtain us x vs where "s = us @ x # vs" "s' = y # us @ vs"
        "meta_key x = meta_key m" "meta_match m x"
      by auto
    then show ?thesis by (intro exI [of _ "y # us"]) auto
  qed
qed simp

lemma takeWhile_store:
  assumes "\<forall>x\<in>set s. exact (meta_key x)" "exact (meta_key m)"
    "\<not> key_lt sentinel_key (meta_key m)"
  shows "takeWhile (\<lambda>e. key_lt (fst e) (meta_key m))
      (map (\<lambda>m. (meta_key m, Some m)) s @ [(sentinel_key, None :: Meta option)]) =
    map (\<lambda>m. (meta_key m, Some m)) (takeWhile (\<lambda>x. meta_key x < meta_key m) s)"
  using assms by (induction s) (auto simp: key_lt_exact)

text \<open>What the search of \<^verbatim>\<open>del\<close> finds.\<close>

lemma del_search:
  assumes inv: "tree_inv t" and ex: "exact (meta_key m)"
  shows "\<exists>cs. descend (meta_key m) (root t) = Some cs \<and>
    (case store_del m (contents t) of
       None \<Rightarrow> scan m (meta_key m) cs = Some None
     | Some s' \<Rightarrow> \<exists>us q e vs. iter (root t) = us @ (q, e) # vs \<and> scan m (meta_key m) cs = Some (Some q) \<and>
         map snd us @ map snd vs = map (\<lambda>m. (meta_key m, Some m)) s' @ [(sentinel_key, None)])"
proof -
  note es = tree_inv_entries [OF inv] and cont = tree_inv_contents [OF inv]
  let ?P = "\<lambda>e :: Key \<times> Meta option. key_lt (fst e) (meta_key m)"
  let ?e = "\<lambda>m. (meta_key m, Some m)"
  let ?lt = "takeWhile (\<lambda>x. meta_key x < meta_key m) (contents t)"
  let ?ge = "dropWhile (\<lambda>x. meta_key x < meta_key m) (contents t)"
  let ?n = "length ?lt"
  have sen: "\<not> key_lt (fst (sentinel_key, None :: Meta option)) (meta_key m)"
    using key_lt_sentinel [of "meta_key m"] ex by (simp add: key_lt_exact less_imp_not_less)
  have "(sentinel_key, None) \<in> set (entries (root t))" using es by simp
  then have d: "descend (meta_key m) (root t) =
      Some (drop (length (takeWhile ?P (entries (root t)))) (iter (root t)))"
    using descend_entries [of "hgt t" "root t" "(sentinel_key, None)" "meta_key m"] inv sen
    by (auto simp: tree_inv_def)
  have "takeWhile ?P (entries (root t)) = map ?e ?lt"
    unfolding es using cont(2) ex sen by (intro takeWhile_store) auto
  then have len: "length (takeWhile ?P (entries (root t))) = ?n" by simp
  define cs where "cs = drop ?n (iter (root t))"
  have ge: "?ge = drop ?n (contents t)" by (rule dropWhile_eq_drop)
  have "map snd cs = drop ?n (entries (root t))" by (simp add: cs_def drop_map [symmetric])
  also have "\<dots> = map ?e ?ge @ [(sentinel_key, None)]"
    unfolding es ge using length_takeWhile_le [of _ "contents t"] by (simp add: drop_map)
  finally have csm: "map snd cs = map ?e ?ge @ [(sentinel_key, None)]" .
  have srt: "sorted (map meta_key ?ge)" using cont(1) unfolding ge by (simp add: drop_map [symmetric] sorted_wrt_drop)
  have sc: "case store_del m ?ge of
      None \<Rightarrow> scan m (meta_key m) cs = Some None
    | Some ms' \<Rightarrow> \<exists>us q e vs. cs = us @ (q, e) # vs \<and> scan m (meta_key m) cs = Some (Some q) \<and>
        map snd us @ map snd vs = map ?e ms' @ [(sentinel_key, None)]"
  proof (rule scan_store [OF _ ex srt _ csm])
    show "\<forall>m\<in>set ?ge. exact (meta_key m)" using cont(2) by (auto dest: set_dropWhileD)
    show "\<forall>x\<in>set ?ge. meta_key m \<le> meta_key x"
      unfolding sorted_map_dropWhile_less [OF cont(1)] by auto
  qed
  have sd: "store_del m (contents t) = map_option ((@) ?lt) (store_del m ?ge)"
  proof -
    have "\<forall>x\<in>set ?lt. meta_key x \<noteq> meta_key m" by (auto dest: set_takeWhileD)
    from store_del_append [OF this, of ?ge] show ?thesis by simp
  qed
  have it: "iter (root t) = take ?n (iter (root t)) @ cs" by (simp add: cs_def)
  have tk: "map snd (take ?n (iter (root t))) = map ?e ?lt"
    unfolding take_map [symmetric] iter_entries es
    using length_takeWhile_le [of _ "contents t"] by (simp add: take_map takeWhile_eq_take [symmetric])
  have dcs: "descend (meta_key m) (root t) = Some cs" using d len by (simp add: cs_def)
  show ?thesis
  proof (cases "store_del m ?ge")
    case None
    with dcs sd sc show ?thesis by simp
  next
    case (Some ms')
    with sc obtain us q e vs where c: "cs = us @ (q, e) # vs" "scan m (meta_key m) cs = Some (Some q)"
        "map snd us @ map snd vs = map ?e ms' @ [(sentinel_key, None)]"
      by auto
    have "iter (root t) = (take ?n (iter (root t)) @ us) @ (q, e) # vs"
      using it c(1) by simp
    moreover have "map snd (take ?n (iter (root t)) @ us) @ map snd vs =
        map ?e (?lt @ ms') @ [(sentinel_key, None)]"
      using tk c(3) by simp
    ultimately have "\<exists>us q e vs. iter (root t) = us @ (q, e) # vs \<and>
        scan m (meta_key m) cs = Some (Some q) \<and>
        map snd us @ map snd vs = map ?e (?lt @ ms') @ [(sentinel_key, None)]"
      using c(2) by blast
    then show ?thesis using dcs sd Some by simp
  qed
qed

text \<open>The position that \<^verbatim>\<open>del\<close> removes, if any.\<close>

definition del_position :: "Meta \<Rightarrow> Tree \<Rightarrow> position option" where
  "del_position m t =
     (case descend (meta_key m) (root t) of None \<Rightarrow> None
      | Some cs \<Rightarrow> (case scan m (meta_key m) cs of Some (Some q) \<Rightarrow> Some q | _ \<Rightarrow> None))"

lemma remove_at_leaf_size: "remove_at q n = Some n1 \<Longrightarrow> 2 \<le> leaf_size q n"
  by (induction q n arbitrary: n1 rule: remove_at.induct)
    (auto simp: closeHole_def assert_then_def split: if_splits)

lemma del_absent:
  assumes "tree_inv t" "exact (meta_key m)" "store_del m (contents t) = None"
  shows "del m t = Some (t, -1)" "del_position m t = None"
proof -
  obtain cs where "descend (meta_key m) (root t) = Some cs" "scan m (meta_key m) cs = Some None"
    using del_search [OF assms(1,2)] assms(3) by auto
  then show "del m t = Some (t, -1)" "del_position m t = None"
    by (simp_all add: del_def del_position_def)
qed

lemma del_present:
  assumes inv: "tree_inv t" and ex: "exact (meta_key m)" and sd: "store_del m (contents t) = Some s'"
  shows "\<exists>q. del_position m t = Some q \<and>
    (if 2 \<le> leaf_size q (root t)
     then \<exists>t'. del m t = Some (t', 0) \<and> tree_inv t' \<and> contents t' = s'
     else del m t = None)"
proof -
  obtain cs where d: "descend (meta_key m) (root t) = Some cs" and
    found: "\<exists>us q e vs. iter (root t) = us @ (q, e) # vs \<and> scan m (meta_key m) cs = Some (Some q) \<and>
         map snd us @ map snd vs = map (\<lambda>m. (meta_key m, Some m)) s' @ [(sentinel_key, None)]"
    using del_search [OF inv ex] unfolding sd option.case by blast
  then obtain us q e vs where it: "iter (root t) = us @ (q, e) # vs"
      and sc: "scan m (meta_key m) cs = Some (Some q)"
      and es: "map snd us @ map snd vs = map (\<lambda>m. (meta_key m, Some m)) s' @ [(sentinel_key, None)]"
    by blast
  have pos: "del_position m t = Some q" by (simp add: del_position_def d sc)
  have wf: "wf_node (hgt t) (root t)" using inv by (simp add: tree_inv_def)
  note cont = tree_inv_contents [OF inv]
  have cont': "sorted (map meta_key s')" "\<forall>m\<in>set s'. exact (meta_key m)"
    using store_del_SomeD [OF sd] cont by (auto simp: sorted_append)
  show ?thesis
  proof (cases "2 \<le> leaf_size q (root t)")
    case False
    then have "remove_at q (root t) = None" using remove_at_leaf_size by (metis not_None_eq)
    then show ?thesis using pos False by (simp add: del_def d sc)
  next
    case True
    obtain n1 where n1: "remove_at q (root t) = Some n1" "entries n1 = map snd us @ map snd vs" and
      rest: "if past_end q n1
       then \<exists>n2 go. resetKeys q n1 = Some (n2, go) \<and> wf_node (hgt t) n2 \<and> entries n2 = entries n1 \<and>
            vpath q n2 \<and> (\<not> go \<longrightarrow> node_key n2 = node_key (root t))
       else wf_node (hgt t) n1 \<and> vpath q n1 \<and> node_key n1 = node_key (root t)"
      using remove_ok [OF wf it True] by blast
    then obtain n2 where n2: "(if past_end q n1 then map_option fst (resetKeys q n1) else Some n1) = Some n2"
        "wf_node (hgt t) n2" "entries n2 = entries n1" "vpath q n2"
      by (cases "past_end q n1") auto
    obtain n3 b where n3: "rebalance q n2 = Some (n3, b)" "wf_node (hgt t) n3" "entries n3 = entries n2"
      using rebalance_ok [OF n2(2,4)] by blast
    let ?t' = "if b = BalancedHere then poproot (t\<lparr>root := n3\<rparr>) else t\<lparr>root := n3\<rparr>"
    have "del m t = Some (?t', 0)"
      unfolding del_def d option.case sc n1(1) n2(1) n3(1) by (simp add: Let_def)
    moreover have "wf_node (hgt ?t') (root ?t')" "entries (root ?t') = entries n3"
      using poproot_ok [of "t\<lparr>root := n3\<rparr>"] n3(2) by auto
    then have "tree_inv ?t'" "contents ?t' = s'"
      using tree_invI [of ?t' s', OF _ _ cont'] n3(3) n2(3) n1(2) es by auto
    ultimately show ?thesis using pos True by auto
  qed
qed

text \<open>
  Every level-1 node holds at least two entries. A tree of height one always has this property
  when it holds anything, because of the sentinel entry.
\<close>

fun leaves_ge :: "nat \<Rightarrow> Node \<Rightarrow> bool" where
  "leaves_ge b (LNode f kids) \<longleftrightarrow> b \<le> length kids"
| "leaves_ge b (INode f kids) \<longleftrightarrow> (\<forall>kc\<in>set kids. leaves_ge b (snd kc))"

lemma leaves_ge_leaf_size: "vpath q n \<Longrightarrow> leaves_ge b n \<Longrightarrow> b \<le> leaf_size q n"
  by (induction q n rule: vpath.induct) auto

lemma del_position_vpath:
  assumes "tree_inv t" "exact (meta_key m)" "del_position m t = Some q"
  shows "vpath q (root t)"
proof (cases "store_del m (contents t)")
  case None
  with assms del_absent(2) show ?thesis by simp
next
  case (Some s')
  then obtain cs us q' e vs where "descend (meta_key m) (root t) = Some cs"
    "iter (root t) = us @ (q', e) # vs" "scan m (meta_key m) cs = Some (Some q')"
    using del_search [OF assms(1,2)] by auto
  then show ?thesis using assms(3) by (auto simp: del_position_def intro: iter_split_vpath)
qed

section \<open>Looking up\<close>

definition store_find :: "Key \<Rightarrow> Meta list \<Rightarrow> Meta list" where
  "store_find k s = filter (\<lambda>m. key_eq k (meta_key m)) s"

text \<open>
  Lookups give all the items with the key, in order. This includes keys with the wildcard
  \<^verbatim>\<open>MATCH_ANY\<close>, for which equality is not transitive.
\<close>

lemma key_eq_sym: "key_eq a b \<longleftrightarrow> key_eq b a"
  by (auto simp: key_eq_def compare_def Let_def split: if_splits)

lemma key_eq_not_lt: "key_eq k a \<Longrightarrow> \<not> key_lt a k"
  by (auto simp: key_eq_def key_lt_def compare_def Let_def split: if_splits)

lemma key_eq_between:
  "exact a \<Longrightarrow> exact b \<Longrightarrow> a \<le> b \<Longrightarrow> key_eq k b \<Longrightarrow> key_lt a k \<or> key_eq k a"
  by (cases a; cases b; cases k)
    (auto simp: key_eq_def key_lt_def compare_def exact_def less_eq_Key_def less_Key_def Let_def
      split: if_splits)

lemma key_eq_sentinel: "kind k \<noteq> KFS_SENTINEL \<Longrightarrow> \<not> key_eq k sentinel_key"
  by (cases "kind k") (auto simp: key_eq_def compare_def sentinel_key_def Let_def)

lemma key_lt_sentinel_any: "kind k \<noteq> KFS_SENTINEL \<Longrightarrow> \<not> key_lt sentinel_key k"
  by (cases "kind k") (auto simp: key_lt_def compare_def sentinel_key_def Let_def)

lemma extractAll_takeWhile:
  "extractAll k cs = map (\<lambda>c. snd (snd c)) (takeWhile (\<lambda>c. key_eq k (fst (snd c))) cs)"
  by (induction k cs rule: extractAll.induct) auto

lemma takeWhile_dropWhile_find:
  assumes "sorted (map meta_key s)" "\<forall>m\<in>set s. exact (meta_key m)"
  shows "takeWhile (\<lambda>x. key_eq k (meta_key x)) (dropWhile (\<lambda>x. key_lt (meta_key x) k) s) = store_find k s"
  using assms
proof (induction s)
  case (Cons x s)
  show ?case
  proof (cases "key_lt (meta_key x) k")
    case True
    then have "\<not> key_eq k (meta_key x)" using key_eq_not_lt by blast
    with True Cons show ?thesis by (simp add: store_find_def)
  next
    case False
    have nlt: "\<not> key_lt (meta_key y) k" if "y \<in> set s" for y
      using that False Cons.prems key_lt_down [of "meta_key x" "meta_key y" k] by auto
    have IH: "takeWhile (\<lambda>x. key_eq k (meta_key x)) s = store_find k s"
    proof -
      have "dropWhile (\<lambda>x. key_lt (meta_key x) k) s = s" using nlt by (cases s) auto
      with Cons show ?thesis by simp
    qed
    show ?thesis
    proof (cases "key_eq k (meta_key x)")
      case True
      with False IH show ?thesis by (simp add: store_find_def)
    next
      case neq: False
      have "\<not> key_eq k (meta_key y)" if "y \<in> set s" for y
        using that neq False Cons.prems key_eq_between [of "meta_key x" "meta_key y" k] by auto
      with neq False show ?thesis by (simp add: store_find_def)
    qed
  qed
qed (simp add: store_find_def)

text \<open>\<^verbatim>\<open>findLeaf\<close> and \<^verbatim>\<open>extractAll\<close> together return the items with the key, in order.\<close>

definition lookup_all :: "Key \<Rightarrow> Tree \<Rightarrow> Meta option list" where
  "lookup_all k t = (case findLeaf k t of None \<Rightarrow> [] | Some cs \<Rightarrow> extractAll k cs)"

lemma findLeaf_ok:
  assumes inv: "tree_inv t" and k: "kind k \<noteq> KFS_SENTINEL"
  shows "case findLeaf k t of
      None \<Rightarrow> store_find k (contents t) = []
    | Some cs \<Rightarrow> cs \<noteq> [] \<and> store_find k (contents t) \<noteq> [] \<and>
        extractAll k cs = map Some (store_find k (contents t)) \<and>
        extractMeta cs = Some (hd (store_find k (contents t)))"
proof -
  note es = tree_inv_entries [OF inv] and cont = tree_inv_contents [OF inv]
  let ?P = "\<lambda>e :: Key \<times> Meta option. key_lt (fst e) k"
  let ?e = "\<lambda>m. (meta_key m, Some m)"
  have sen: "\<not> key_lt (fst (sentinel_key, None :: Meta option)) k"
    using key_lt_sentinel_any [OF k] by simp
  have "(sentinel_key, None) \<in> set (entries (root t))" using es by simp
  then have d: "descend k (root t) = Some (drop (length (takeWhile ?P (entries (root t)))) (iter (root t)))"
    (is "_ = Some ?cs")
    using descend_entries [of "hgt t" "root t" "(sentinel_key, None)" k] inv sen
    by (auto simp: tree_inv_def)
  let ?ge = "dropWhile (\<lambda>x. key_lt (meta_key x) k) (contents t)"
  have "map snd ?cs = dropWhile ?P (entries (root t))"
    by (simp add: drop_map [symmetric] dropWhile_eq_drop)
  also have "\<dots> = map ?e ?ge @ [(sentinel_key, None)]"
  proof -
    have "dropWhile ?P (map ?e s @ [(sentinel_key, None)]) =
        map ?e (dropWhile (\<lambda>x. key_lt (meta_key x) k) s) @ [(sentinel_key, None)]" for s
      using sen by (induction s) auto
    then show ?thesis unfolding es by simp
  qed
  finally have cs: "map snd ?cs = map ?e ?ge @ [(sentinel_key, None)]" .
  have find: "takeWhile (\<lambda>x. key_eq k (meta_key x)) ?ge = store_find k (contents t)"
    by (rule takeWhile_dropWhile_find [OF cont])
  have ext: "extractAll k ?cs = map Some (store_find k (contents t))"
  proof -
    have "extractAll k ?cs = map snd (takeWhile (\<lambda>e. key_eq k (fst e)) (map snd ?cs))"
      by (simp add: extractAll_takeWhile takeWhile_map comp_def)
    also have "\<dots> = map Some (takeWhile (\<lambda>x. key_eq k (meta_key x)) s)"
      if "map snd ?cs = map ?e s @ [(sentinel_key, None)]" for s
    proof -
      have "map snd (takeWhile (\<lambda>e. key_eq k (fst e)) (map ?e s @ [(sentinel_key, None)])) =
          map Some (takeWhile (\<lambda>x. key_eq k (meta_key x)) s)"
        using key_eq_sentinel [OF k] by (induction s) auto
      then show ?thesis by (simp only: that)
    qed
    from this [OF cs] find calculation show ?thesis by simp
  qed
  obtain q k' x cs' where cons: "?cs = (q, (k', x)) # cs'" and hd: "(k', x) = hd (map ?e ?ge @ [(sentinel_key, None)])"
  proof (cases ?cs)
    case Nil
    then show ?thesis using cs by simp
  next
    case (Cons c cs')
    then have "snd c = hd (map ?e ?ge @ [(sentinel_key, None)])"
      using arg_cong [OF cs, of hd] by simp
    with Cons that show ?thesis by (cases c) auto
  qed
  show ?thesis
  proof (cases "key_eq k' k")
    case True
    then have fl: "findLeaf k t = Some ?cs"
      unfolding findLeaf_def d option.case unfolding cons by simp
    have "?ge \<noteq> []"
    proof
      assume "?ge = []"
      with hd have "k' = sentinel_key" by simp
      with True key_eq_sentinel [OF k] key_eq_sym show False by metis
    qed
    then obtain y ys where ge: "?ge = y # ys" by (cases ?ge) auto
    with hd have "k' = meta_key y" "x = Some y" by auto
    with True ge find key_eq_sym have "store_find k (contents t) = y # takeWhile (\<lambda>x. key_eq k (meta_key x)) ys"
      by (metis takeWhile.simps(2))
    then show ?thesis using fl ext \<open>x = Some y\<close> by (simp add: cons extractMeta_def)
  next
    case False
    then have "findLeaf k t = None"
      unfolding findLeaf_def d option.case unfolding cons by simp
    moreover have "store_find k (contents t) = []"
      using find hd False key_eq_sym by (cases ?ge) auto
    ultimately show ?thesis by simp
  qed
qed

end
