(* ===== verification/Meta_Store.thy ===== *)
theory Meta_Store
  imports Meta_Tree_Del
begin

text \<open>
  The interface between the metadata tree and the file-system operations that use it. A store
  holds a sequence of items in key order; the operations of kfsops.cc only insert, delete, look
  up by key and assign to fields of an item that a lookup returned. The locale \<^verbatim>\<open>meta_store\<close>
  states the laws of these four operations over the sequence, and is interpreted on the B+ tree
  of kfstree.cc and on the sequence itself. Its consequence \<^verbatim>\<open>run_refines\<close> says that any sequence
  of operations which the tree completes gives the answers that the sequence gives.
\<close>

section \<open>Assigning to an item\<close>

fun store_update :: "Key \<Rightarrow> (Meta \<Rightarrow> Meta) \<Rightarrow> Meta list \<Rightarrow> Meta list" where
  "store_update k g [] = []"
| "store_update k g (x # s) = (if key_eq k (meta_key x) then g x # s else x # store_update k g s)"

definition tree_update :: "Key \<Rightarrow> (Meta \<Rightarrow> Meta) \<Rightarrow> Tree \<Rightarrow> Tree" where
  "tree_update k g t =
     (case findLeaf k t of
        Some ((q, e) # _) \<Rightarrow> t\<lparr>root := update_at q g (root t)\<rparr>
      | _ \<Rightarrow> t)"

lemma node_key_update_at [simp]: "node_key (update_at q g n) = node_key n"
proof (induction q g n rule: update_at.induct)
  case (1 p g f kids)
  then show ?case by (auto simp: last_conv_nth nth_list_update)
next
  case (2 p q g f kids)
  then show ?case by (auto simp: last_conv_nth nth_list_update)
qed auto

lemma update_at_ok:
  assumes "wf_node h n" "iter n = xs @ (q, (k, Some m)) # ys"
  shows "wf_node h (update_at q g n) \<and>
    entries (update_at q g n) = map snd xs @ (k, Some (g m)) # map snd ys"
  using assms
proof (induction n arbitrary: h xs q ys rule: iter.induct)
  case (1 f kids)
  from "1.prems"(2) obtain i where i: "q = [i]" "i < length kids" "(k, Some m) = kids ! i"
      "map snd xs = take i kids" "map snd ys = drop (Suc i) kids"
    by (rule iter_LNode_split)
  then show ?case
    using "1.prems"(1) by (auto simp: upd_conv_take_nth_drop simp flip: i(3))
next
  case (2 f kids)
  from "2.prems"(2) obtain i q' us vs where q: "q = i # q'" and i: "i < length kids" and
      it: "iter (snd (kids ! i)) = us @ (q', (k, Some m)) # vs" and
      xs: "map snd xs = kids_entries (take i kids) @ map snd us" and
      ys: "map snd ys = map snd vs @ kids_entries (drop (Suc i) kids)"
    by (rule iter_INode_split)
  let ?c = "snd (kids ! i)"
  have wfc: "wf_node (h - 1) ?c" and keyc: "node_key ?c = Some (fst (kids ! i))"
    using "2.prems"(1) i by auto
  have IH: "wf_node (h - 1) (update_at q' g ?c)"
      "entries (update_at q' g ?c) = map snd us @ (k, Some (g m)) # map snd vs"
    using "2.IH" [OF _ wfc it] i by auto
  have upd: "update_at q g (INode f kids) = INode f (kids[i := (fst (kids ! i), update_at q' g ?c)])"
    using q i by simp
  have "node_key (update_at q' g ?c) = Some (fst (kids ! i))" using keyc by simp
  from wf_INode_replace [OF "2.prems"(1) i IH(1) this refl]
  have "wf_node h (update_at q g (INode f kids))" unfolding upd by blast
  moreover have "entries (update_at q g (INode f kids)) = map snd xs @ (k, Some (g m)) # map snd ys"
    unfolding upd entries_INode_replace [OF i] IH(2) xs ys by simp
  ultimately show ?case by blast
qed

lemma store_update_split:
  assumes "\<forall>x\<in>set us. \<not> key_eq k (meta_key x)" "key_eq k (meta_key y)"
  shows "store_update k g (us @ y # vs) = us @ g y # vs"
  using assms by (induction us) auto

lemma store_update_absent:
  assumes "store_find k s = []"
  shows "store_update k g s = s"
  using assms by (induction s) (auto simp: store_find_def split: if_splits)

lemma findLeaf_suffix:
  assumes inv: "tree_inv t" and k: "kind k \<noteq> KFS_SENTINEL" and f: "findLeaf k t = Some cs"
  obtains us where "iter (root t) = us @ cs" "\<forall>u\<in>set us. \<not> key_eq k (fst (snd u))"
proof -
  let ?P = "\<lambda>e :: Key \<times> Meta option. key_lt (fst e) k"
  let ?n = "length (takeWhile ?P (entries (root t)))"
  have "(sentinel_key, None) \<in> set (entries (root t))" using tree_inv_entries [OF inv] by simp
  then have "descend k (root t) = Some (drop ?n (iter (root t)))"
    using descend_entries [of "hgt t" "root t" "(sentinel_key, None)" k] inv key_lt_sentinel_any [OF k]
    by (auto simp: tree_inv_def)
  then obtain ds where ds: "descend k (root t) = Some ds" "ds = drop ?n (iter (root t))" by blast
  have "cs = ds"
  proof (cases ds)
    case (Cons c ds')
    then show ?thesis
      using f by (cases c) (auto simp: findLeaf_def ds(1) split: if_split_asm)
  qed (use f in \<open>simp add: findLeaf_def ds(1)\<close>)
  with ds(2) have cs: "cs = drop ?n (iter (root t))" by simp
  have "map snd (take ?n (iter (root t))) = takeWhile ?P (entries (root t))"
    unfolding take_map [symmetric] iter_entries by (rule takeWhile_eq_take [symmetric])
  then have "\<forall>e\<in>set (map snd (take ?n (iter (root t)))). ?P e"
    by (auto dest: set_takeWhileD)
  then have "\<forall>u\<in>set (take ?n (iter (root t))). \<not> key_eq k (fst (snd u))"
    using key_eq_not_lt by fastforce
  with that [of "take ?n (iter (root t))"] cs show ?thesis by simp
qed

section \<open>The interface\<close>

datatype store_op =
    Ins Meta
  | Del Meta
  | Find Key
  | Assign Key "Meta \<Rightarrow> Meta"

datatype store_answer =
    Status int
  | Items "Meta list"

text \<open>Requests that the callers make: keys without the wildcard for items, any key for lookups.\<close>

fun legal_op :: "store_op \<Rightarrow> bool" where
  "legal_op (Ins m) = exact (meta_key m)"
| "legal_op (Del m) = exact (meta_key m)"
| "legal_op (Find k) = (kind k \<noteq> KFS_SENTINEL)"
| "legal_op (Assign k g) = (kind k \<noteq> KFS_SENTINEL)"

locale meta_store =
  fixes ins :: "Meta \<Rightarrow> 's \<Rightarrow> 's option"
    and dele :: "Meta \<Rightarrow> 's \<Rightarrow> ('s \<times> int) option"
    and lookup :: "Key \<Rightarrow> 's \<Rightarrow> Meta list"
    and assign :: "Key \<Rightarrow> (Meta \<Rightarrow> Meta) \<Rightarrow> 's \<Rightarrow> 's"
    and items :: "'s \<Rightarrow> Meta list"
    and invar :: "'s \<Rightarrow> bool"
  assumes items_sorted: "invar s \<Longrightarrow> sorted (map meta_key (items s))"
    and items_exact: "invar s \<Longrightarrow> m \<in> set (items s) \<Longrightarrow> exact (meta_key m)"
    and ins_law: "invar s \<Longrightarrow> exact (meta_key m) \<Longrightarrow>
      \<exists>s'. ins m s = Some s' \<and> invar s' \<and> items s' = store_insert m (items s)"
    and del_law: "invar s \<Longrightarrow> exact (meta_key m) \<Longrightarrow> dele m s = Some (s', r) \<Longrightarrow>
      invar s' \<and> (case store_del m (items s) of
        None \<Rightarrow> items s' = items s \<and> r = -1 | Some l \<Rightarrow> items s' = l \<and> r = 0)"
    and lookup_law: "invar s \<Longrightarrow> kind k \<noteq> KFS_SENTINEL \<Longrightarrow> lookup k s = store_find k (items s)"
    and assign_law: "invar s \<Longrightarrow> kind k \<noteq> KFS_SENTINEL \<Longrightarrow> (\<And>m. meta_key (g m) = meta_key m) \<Longrightarrow>
      invar (assign k g s) \<and> items (assign k g s) = store_update k g (items s)"
begin

lemma lookup_after_ins:
  assumes "invar s" "exact (meta_key m)" "ins m s = Some s'" "exact k" "kind k \<noteq> KFS_SENTINEL"
  shows "set (lookup k s') = set (lookup k s) \<union> (if meta_key m = k then {m} else {})"
  using ins_law [OF assms(1,2)] assms key_eq_exact [OF assms(4)]
  by (auto simp: lookup_law store_find_def)

lemma ins_then_del:
  assumes "invar s" "exact (meta_key m)" "ins m s = Some s'" "dele m s' = Some (s'', r)"
    "\<forall>x\<in>set (items s). meta_key x = meta_key m \<longrightarrow> \<not> meta_match m x" "meta_match m m"
  shows "r = 0 \<and> items s'' = items s"
proof -
  let ?P = "\<lambda>x. meta_key x < meta_key m"
  obtain s1 where s1: "invar s'" "items s' = store_insert m (items s)"
    using ins_law [OF assms(1,2)] assms(3) by auto
  have "\<forall>x\<in>set (takeWhile ?P (items s)). meta_key x \<noteq> meta_key m"
    by (auto dest!: set_takeWhileD)
  from store_del_append [OF this, of "m # dropWhile ?P (items s)"]
  have "store_del m (items s') = Some (items s)"
    using assms(6) by (simp add: s1(2) store_insert_def)
  with del_law [OF s1(1) assms(2,4)] show ?thesis by simp
qed

end

text \<open>A store operation with its answer, given the four operations of a store.\<close>

fun store_step ::
  "(Meta \<Rightarrow> 's \<Rightarrow> 's option) \<Rightarrow> (Meta \<Rightarrow> 's \<Rightarrow> ('s \<times> int) option) \<Rightarrow> (Key \<Rightarrow> 's \<Rightarrow> Meta list) \<Rightarrow>
   (Key \<Rightarrow> (Meta \<Rightarrow> Meta) \<Rightarrow> 's \<Rightarrow> 's) \<Rightarrow> store_op \<Rightarrow> 's \<Rightarrow> ('s \<times> store_answer) option" where
  "store_step ins dele lookup assign (Ins m) s = map_option (\<lambda>s'. (s', Status 0)) (ins m s)"
| "store_step ins dele lookup assign (Del m) s = map_option (\<lambda>(s', r). (s', Status r)) (dele m s)"
| "store_step ins dele lookup assign (Find k) s = Some (s, Items (lookup k s))"
| "store_step ins dele lookup assign (Assign k g) s = Some (assign k g s, Status 0)"

fun store_run ::
  "(store_op \<Rightarrow> 's \<Rightarrow> ('s \<times> store_answer) option) \<Rightarrow> store_op list \<Rightarrow> 's \<Rightarrow> ('s \<times> store_answer list) option" where
  "store_run step [] s = Some (s, [])"
| "store_run step (p # ps) s =
     (case step p s of None \<Rightarrow> None
      | Some (s1, a) \<Rightarrow> map_option (\<lambda>(s2, as). (s2, a # as)) (store_run step ps s1))"

definition list_dele :: "Meta \<Rightarrow> Meta list \<Rightarrow> (Meta list \<times> int) option" where
  "list_dele m s = Some (case store_del m s of None \<Rightarrow> (s, -1) | Some s' \<Rightarrow> (s', 0))"

definition list_ins :: "Meta \<Rightarrow> Meta list \<Rightarrow> Meta list option" where
  "list_ins m s = Some (store_insert m s)"

definition list_inv :: "Meta list \<Rightarrow> bool" where
  "list_inv s \<longleftrightarrow> sorted (map meta_key s) \<and> (\<forall>m\<in>set s. exact (meta_key m))"

abbreviation list_step :: "store_op \<Rightarrow> Meta list \<Rightarrow> (Meta list \<times> store_answer) option" where
  "list_step \<equiv> store_step list_ins list_dele store_find store_update"

text \<open>Assignments must not change keys: the callers assign versions, counts, sizes and times.\<close>

definition keeps_key :: "store_op \<Rightarrow> bool" where
  "keeps_key p \<longleftrightarrow> (case p of Assign k g \<Rightarrow> (\<forall>m. meta_key (g m) = meta_key m) | _ \<Rightarrow> True)"

context meta_store
begin

lemma step_refines:
  assumes "invar s" "legal_op p" "keeps_key p" "store_step ins dele lookup assign p s = Some (s', a)"
  shows "invar s' \<and> list_step p (items s) = Some (items s', a)"
proof (cases p)
  case (Ins m)
  with assms ins_law [of s m] show ?thesis by (auto simp: list_ins_def)
next
  case (Del m)
  with assms obtain r where "dele m s = Some (s', r)" "a = Status r" by auto
  with assms Del del_law [of s m s' r] show ?thesis
    by (auto simp: list_dele_def split: option.splits)
next
  case (Find k)
  with assms show ?thesis by (auto simp: lookup_law)
next
  case (Assign k g)
  with assms assign_law [of s k g] show ?thesis by (auto simp: keeps_key_def)
qed

lemma run_refines:
  assumes "invar s" "\<forall>p\<in>set ps. legal_op p \<and> keeps_key p"
    "store_run (store_step ins dele lookup assign) ps s = Some (s', as)"
  shows "invar s' \<and> store_run list_step ps (items s) = Some (items s', as)"
  using assms
proof (induction ps arbitrary: s as)
  case (Cons p ps)
  from Cons.prems(3) obtain s1 a as' where
    st: "store_step ins dele lookup assign p s = Some (s1, a)"
      "store_run (store_step ins dele lookup assign) ps s1 = Some (s', as')" "as = a # as'"
    by (auto split: option.splits)
  then have "invar s1 \<and> list_step p (items s) = Some (items s1, a)"
    using step_refines [OF Cons.prems(1) _ _ st(1)] Cons.prems(2) by simp
  with Cons.IH [OF _ _ st(2)] Cons.prems(2) st(3) show ?case by simp
qed auto

end

section \<open>The sequence is a store\<close>

lemma store_del_sorted:
  assumes "store_del m s = Some s'" "list_inv s"
  shows "list_inv s'"
  using store_del_SomeD [OF assms(1)] assms(2) by (auto simp: list_inv_def sorted_append)

lemma map_key_store_update:
  assumes "\<And>m. meta_key (g m) = meta_key m"
  shows "map meta_key (store_update k g s) = map meta_key s"
  by (induction s) (auto simp: assms)

lemma list_inv_keys: "map meta_key s = map meta_key s' \<Longrightarrow> list_inv s \<longleftrightarrow> list_inv s'"
proof -
  have "(\<forall>m\<in>set s. exact (meta_key m)) \<longleftrightarrow> (\<forall>k\<in>set (map meta_key s). exact k)" for s by simp
  then show "map meta_key s = map meta_key s' \<Longrightarrow> list_inv s \<longleftrightarrow> list_inv s'"
    unfolding list_inv_def by metis
qed

interpretation ls: meta_store list_ins list_dele store_find store_update "\<lambda>s. s" list_inv
proof unfold_locales
  fix s :: "Meta list" and m k and g :: "Meta \<Rightarrow> Meta" and s' r
  show "sorted (map meta_key s)" if "list_inv s" using that by (simp add: list_inv_def)
  show "exact (meta_key m)" if "list_inv s" "m \<in> set s" using that by (simp add: list_inv_def)
  show "\<exists>s'. list_ins m s = Some s' \<and> list_inv s' \<and> s' = store_insert m s"
    if "list_inv s" "exact (meta_key m)"
    using that store_insert_sorted [of s m] by (simp add: list_ins_def list_inv_def)
  show "list_inv s' \<and> (case store_del m s of None \<Rightarrow> s' = s \<and> r = -1 | Some l \<Rightarrow> s' = l \<and> r = 0)"
    if "list_inv s" "exact (meta_key m)" "list_dele m s = Some (s', r)"
    using that store_del_sorted by (auto simp: list_dele_def split: option.splits)
  show "list_inv (store_update k g s) \<and> store_update k g s = store_update k g s"
    if "list_inv s" "kind k \<noteq> KFS_SENTINEL" "\<And>m. meta_key (g m) = meta_key m"
    using that list_inv_keys [OF map_key_store_update] by blast
qed simp

section \<open>The B+ tree is a store\<close>

definition tree_find :: "Key \<Rightarrow> Tree \<Rightarrow> Meta list" where
  "tree_find k t = map the (lookup_all k t)"

lemma del_ok:
  assumes inv: "tree_inv t" and ex: "exact (meta_key m)" and d: "del m t = Some (t', r)"
  shows "tree_inv t' \<and> (case store_del m (contents t) of
    None \<Rightarrow> contents t' = contents t \<and> r = -1 | Some l \<Rightarrow> contents t' = l \<and> r = 0)"
proof (cases "store_del m (contents t)")
  case None
  then show ?thesis using del_absent [OF inv ex None] inv d by simp
next
  case (Some l)
  then show ?thesis using del_present [OF inv ex Some] d by (auto split: if_splits)
qed

lemma tree_update_ok:
  assumes inv: "tree_inv t" and k: "kind k \<noteq> KFS_SENTINEL" and g: "\<And>m. meta_key (g m) = meta_key m"
  shows "tree_inv (tree_update k g t) \<and> contents (tree_update k g t) = store_update k g (contents t)"
proof (cases "findLeaf k t")
  case None
  then have "store_find k (contents t) = []" using findLeaf_ok [OF inv k] by simp
  then show ?thesis using inv None by (simp add: tree_update_def store_update_absent)
next
  case (Some cs)
  obtain us where us: "iter (root t) = us @ cs" "\<forall>u\<in>set us. \<not> key_eq k (fst (snd u))"
    using findLeaf_suffix [OF inv k Some] by blast
  note fl = findLeaf_ok [OF inv k, unfolded Some option.case]
  then obtain q k' m cs' where cs: "cs = (q, (k', Some m)) # cs'"
    by (cases cs) (auto simp: extractMeta_def)
  have eq: "key_eq k k'" using fl by (auto simp: cs split: if_splits)
  let ?e = "\<lambda>m. (meta_key m, Some m)"
  note es = tree_inv_entries [OF inv]
  have full: "map snd us @ (k', Some m) # map snd cs' = map ?e (contents t) @ [(sentinel_key, None)]"
    using arg_cong [OF us(1), of "map snd"] unfolding es iter_entries by (simp add: cs)
  have "cs' \<noteq> []" using full by (cases cs' rule: rev_cases) auto
  then obtain as z where "map snd cs' = as @ [z]" by (metis list.map_disc_iff rev_exhaust)
  with full have "map snd us @ (k', Some m) # as = map ?e (contents t)" and z: "z = (sentinel_key, None)"
    by (simp_all flip: append_Cons append_assoc)
  then obtain xs ys where c: "contents t = xs @ m # ys" "map snd us = map ?e xs" "as = map ?e ys"
      and k': "k' = meta_key m"
    by (auto simp: map_eq_append_conv map_eq_Cons_conv append_eq_map_conv Cons_eq_map_conv)
  have nokey: "\<forall>x\<in>set xs. \<not> key_eq k (meta_key x)"
  proof
    fix x assume "x \<in> set xs"
    then have "?e x \<in> set (map snd us)" unfolding c(2) by simp
    then obtain u where "u \<in> set us" "snd u = ?e x" by auto
    with us(2) show "\<not> key_eq k (meta_key x)" by (metis fst_conv)
  qed
  have su: "store_update k g (contents t) = xs @ g m # ys"
    unfolding c(1) using store_update_split [OF nokey] eq k' by simp
  have wf: "wf_node (hgt t) (root t)" using inv by (simp add: tree_inv_def)
  have tu: "tree_update k g t = t\<lparr>root := update_at q g (root t)\<rparr>"
    by (simp add: tree_update_def Some cs)
  from update_at_ok [OF wf us(1) [unfolded cs], of g]
  have u: "wf_node (hgt t) (update_at q g (root t))"
    "entries (update_at q g (root t)) = map ?e (xs @ g m # ys) @ [(sentinel_key, None)]"
    using c(2,3) \<open>map snd cs' = as @ [z]\<close> z k' g by auto
  have "map meta_key (xs @ g m # ys) = map meta_key (contents t)" by (simp add: c(1) g)
  then have li: "list_inv (xs @ g m # ys)"
    using list_inv_keys [of "xs @ g m # ys" "contents t"] tree_inv_contents [OF inv]
    by (simp add: list_inv_def)
  show ?thesis
    unfolding su tu using tree_invI [of "t\<lparr>root := update_at q g (root t)\<rparr>" "xs @ g m # ys"] u li
    by (simp add: list_inv_def)
qed

interpretation bt: meta_store insert_tree del tree_find tree_update contents tree_inv
proof unfold_locales
  fix t :: Tree and m k and g :: "Meta \<Rightarrow> Meta" and t' r
  show "sorted (map meta_key (contents t))" if "tree_inv t" using tree_inv_contents(1) [OF that] .
  show "exact (meta_key m)" if "tree_inv t" "m \<in> set (contents t)"
    using tree_inv_contents(2) [OF that(1)] that(2) by blast
  show "\<exists>t'. insert_tree m t = Some t' \<and> tree_inv t' \<and> contents t' = store_insert m (contents t)"
    if "tree_inv t" "exact (meta_key m)" using insert_tree_ok [OF that] .
  show "tree_inv t' \<and> (case store_del m (contents t) of
      None \<Rightarrow> contents t' = contents t \<and> r = -1 | Some l \<Rightarrow> contents t' = l \<and> r = 0)"
    if "tree_inv t" "exact (meta_key m)" "del m t = Some (t', r)" using del_ok [OF that] .
  show "tree_find k t = store_find k (contents t)" if "tree_inv t" "kind k \<noteq> KFS_SENTINEL"
    using findLeaf_ok [OF that] by (auto simp: tree_find_def lookup_all_def comp_def split: option.splits)
  show "tree_inv (tree_update k g t) \<and> contents (tree_update k g t) = store_update k g (contents t)"
    if "tree_inv t" "kind k \<noteq> KFS_SENTINEL" "\<And>m. meta_key (g m) = meta_key m"
    using tree_update_ok [OF that] .
qed

section \<open>What the tree promises\<close>

definition sample_item :: Meta where
  "sample_item = MetaDentry (new_dentry 2 ''a'' 5)"

definition sample_tree :: Tree where
  "sample_tree = the (insert_tree sample_item new_Tree)"

lemma sample_exact [simp]: "exact (meta_key sample_item)"
  by (simp add: sample_item_def exact_def new_dentry_def MATCH_ANY_def)

lemma sample_tree_ok:
  "insert_tree sample_item new_Tree = Some sample_tree" "tree_inv sample_tree" "contents sample_tree = [sample_item]"
  using insert_tree_ok [OF new_Tree_ok(1) sample_exact]
  by (auto simp: sample_tree_def new_Tree_ok(2) store_insert_def)

text \<open>
  C10. Inserting into the B+ tree never fails, keeps the tree well formed (heights, fan-out, keys
  of children, order of entries, the sentinel at the end), and inserts the item into the sequence
  of items in front of the items with the same or a greater key.
\<close>

theorem tree_insert_refines:
  assumes "tree_inv t" "exact (meta_key m)"
  shows "\<exists>t'. insert_tree m t = Some t' \<and> tree_inv t' \<and> contents t' = store_insert m (contents t)"
  using bt.ins_law [OF assms] .

theorem tree_insert_refines_witness:
  "\<exists>t'. insert_tree sample_item sample_tree = Some t' \<and> tree_inv t' \<and> contents t' = [sample_item, sample_item]"
  using tree_insert_refines [OF sample_tree_ok(2) sample_exact]
  by (simp add: sample_tree_ok(3) store_insert_def)

text \<open>
  C12. Deleting from the B+ tree: when no item has the key and matches, the tree is unchanged and
  the result is -1. When there is one, the first of them is removed from the sequence of items
  and the tree stays well formed with result 0, unless the leaf that holds it has only one entry:
  then the assert in \<^verbatim>\<open>closeHole\<close> stops the process.
\<close>

theorem tree_delete_refines:
  assumes "tree_inv t" "exact (meta_key m)"
  shows "case store_del m (contents t) of
      None \<Rightarrow> del m t = Some (t, -1)
    | Some s' \<Rightarrow> (\<exists>q. del_position m t = Some q \<and>
        (if 2 \<le> leaf_size q (root t)
         then \<exists>t'. del m t = Some (t', 0) \<and> tree_inv t' \<and> contents t' = s'
         else del m t = None))"
  using del_absent(1) [OF assms] del_present [OF assms] by (cases "store_del m (contents t)") simp_all

theorem tree_delete_refines_witness:
  "\<exists>t'. del sample_item sample_tree = Some (t', 0) \<and> tree_inv t' \<and> contents t' = []"
proof -
  have "del sample_item sample_tree \<noteq> None" by code_simp
  with tree_delete_refines [OF sample_tree_ok(2) sample_exact] show ?thesis
    by (auto simp: sample_tree_ok(3) sample_item_def split: if_splits)
qed

text \<open>
  C23. A lookup by key, with the wildcard in the second component or without, gives all the items
  of the sequence whose key compares equal, in order, and finds a leaf exactly when there is one.
\<close>

theorem tree_lookup_refines:
  assumes "tree_inv t" "kind k \<noteq> KFS_SENTINEL"
  shows "tree_find k t = store_find k (contents t) \<and>
    (findLeaf k t = None \<longleftrightarrow> store_find k (contents t) = [])"
  using bt.lookup_law [OF assms] findLeaf_ok [OF assms] by (auto split: option.splits)

theorem tree_lookup_refines_witness:
  "tree_find (Key KFS_DENTRY 2 0) sample_tree = [sample_item] \<and> findLeaf (Key KFS_DENTRY 3 0) sample_tree = None"
  using tree_lookup_refines [OF sample_tree_ok(2), of "Key KFS_DENTRY 2 0"]
    tree_lookup_refines [OF sample_tree_ok(2), of "Key KFS_DENTRY 3 0"]
  by (simp add: sample_tree_ok(3) store_find_def sample_item_def new_dentry_def key_eq_def compare_def)

text \<open>
  C14. Every sequence of insertions, deletions, lookups and assignments that the B+ tree completes
  gives exactly the answers that a plain sorted sequence of items gives, and ends in a well-formed
  tree that holds the same sequence.
\<close>

theorem tree_trace_refines:
  assumes "tree_inv t" "\<forall>p\<in>set ps. legal_op p \<and> keeps_key p"
    "store_run (store_step insert_tree del tree_find tree_update) ps t = Some (t', answers)"
  shows "tree_inv t' \<and> store_run list_step ps (contents t) = Some (contents t', answers)"
  using bt.run_refines [OF assms] .

definition sample_ops :: "store_op list" where
  "sample_ops = [Ins sample_item, Find (Key KFS_DENTRY 2 0), Del sample_item, Del sample_item]"

theorem tree_trace_refines_witness:
  "\<exists>t'. tree_inv t' \<and> contents t' = [] \<and>
     store_run (store_step insert_tree del tree_find tree_update) sample_ops new_Tree =
       Some (t', [Status 0, Items [sample_item], Status 0, Status (-1)])"
proof -
  let ?run = "store_run (store_step insert_tree del tree_find tree_update) sample_ops new_Tree"
  have "?run \<noteq> None" by code_simp
  then obtain t' as where r: "?run = Some (t', as)" by (cases ?run) auto
  have "\<forall>p\<in>set sample_ops. legal_op p \<and> keeps_key p"
    by (simp add: sample_ops_def keeps_key_def)
  from tree_trace_refines [OF new_Tree_ok(1) this r]
  have "tree_inv t' \<and> contents t' = [] \<and> as = [Status 0, Items [sample_item], Status 0, Status (-1)]"
    by (simp add: new_Tree_ok(2) sample_ops_def list_ins_def list_dele_def store_insert_def store_find_def
        sample_item_def new_dentry_def key_eq_def compare_def)
  with r show ?thesis by blast
qed

text \<open>
  C34. Insert, then look up: a key without wildcard finds what it found before and, when it is the
  key of the new item, the new item. No other key sees it.
\<close>

theorem tree_insert_lookup:
  assumes "tree_inv t" "exact (meta_key m)" "insert_tree m t = Some t'" "exact k" "kind k \<noteq> KFS_SENTINEL"
  shows "set (tree_find k t') = set (tree_find k t) \<union> (if meta_key m = k then {m} else {})"
  using bt.lookup_after_ins [OF assms] .

theorem tree_insert_lookup_witness:
  "set (tree_find (Key KFS_DENTRY 2 0) sample_tree) = {sample_item}"
  using tree_insert_lookup [OF new_Tree_ok(1) sample_exact sample_tree_ok(1), of "Key KFS_DENTRY 2 0"]
    bt.lookup_law [OF new_Tree_ok(1), of "Key KFS_DENTRY 2 0"]
  by (simp add: exact_def MATCH_ANY_def sample_item_def new_dentry_def new_Tree_ok(2) store_find_def)

end
