(* ===== verification/Meta_Lookup.thy ===== *)
theory Meta_Lookup
  imports Meta_Store "HOL-Library.Monad_Syntax"
begin

text \<open>
  The operations of src/src/cc/meta/kfsops.cc (and \<^verbatim>\<open>chunkStartOffset\<close> of util.cc) that read the
  metadata store without changing it: looking up attributes, directory entries, paths and chunk
  allocations. They work on the sequence of items of \<^verbatim>\<open>Meta_Store\<close>. A null pointer that the code
  returns is an inner \<^verbatim>\<open>None\<close>; the outer \<^verbatim>\<open>None\<close> of an operation is a failed assert.
\<close>

type_synonym store = "Meta list"

section \<open>Offsets and names\<close>

text \<open>
  The offset is signed and \<^verbatim>\<open>CHUNKSIZE\<close> a \<^verbatim>\<open>size_t\<close>, so the division is one of 64-bit unsigned
  numbers, and the result is read as a signed number again.
\<close>

definition chunkStartOffset :: "chunkOff_t \<Rightarrow> chunkOff_t" where
  "chunkStartOffset offset = sint ((word_of_int offset :: 64 word) div CHUNKSIZE * CHUNKSIZE)"

definition legalname :: "string \<Rightarrow> bool" where
  "legalname name \<longleftrightarrow> name \<noteq> [] \<and> CHR ''/'' \<notin> set name"

text \<open>\<^verbatim>\<open>path[0]\<close> of an empty string is the terminating null character.\<close>

definition absolute :: "string \<Rightarrow> bool" where
  "absolute path = (case path of [] \<Rightarrow> False | c # _ \<Rightarrow> c = CHR ''/'')"

section \<open>Attributes and directories\<close>

fun as_fattr :: "Meta \<Rightarrow> fattr option" where
  "as_fattr (MetaFattr f) = Some f"
| "as_fattr _ = None"

fun as_dentry :: "Meta \<Rightarrow> dentry option" where
  "as_dentry (MetaDentry d) = Some d"
| "as_dentry _ = None"

fun as_chunkinfo :: "Meta \<Rightarrow> chunkinfo option" where
  "as_chunkinfo (MetaChunkInfo c) = Some c"
| "as_chunkinfo _ = None"

definition getFattr :: "store \<Rightarrow> fid_t \<Rightarrow> fattr option" where
  "getFattr s fid =
     (case store_find (Key KFS_FATTR fid 0) s of [] \<Rightarrow> None | m # _ \<Rightarrow> as_fattr m)"

text \<open>\<^verbatim>\<open>readdir\<close> returns the status and the vector it filled; \<^verbatim>\<open>assert(v.size() >= 2)\<close> can fail.\<close>

definition readdir :: "store \<Rightarrow> fid_t \<Rightarrow> (int \<times> dentry list) option" where
  "readdir s dir =
     (let v = List.map_filter as_dentry (store_find (Key KFS_DENTRY dir 0) s) in
      if v = [] then Some (- ENOENT, []) else assert_then (2 \<le> length v) (Some (0, v)))"

definition getDentry :: "store \<Rightarrow> fid_t \<Rightarrow> string \<Rightarrow> dentry option option" where
  "getDentry s dir fname =
     do { (status, v) \<leftarrow> readdir s dir;
          Some (if status \<noteq> 0 then None else List.find (\<lambda>d. de_name d = fname) v) }"

definition lookup :: "store \<Rightarrow> fid_t \<Rightarrow> string \<Rightarrow> fattr option option" where
  "lookup s dir fname =
     do { d \<leftarrow> getDentry s dir fname;
          case d of
            None \<Rightarrow> Some None
          | Some d \<Rightarrow> (let fa = getFattr s (de_fid d) in assert_then (fa \<noteq> None) (Some fa)) }"

definition emptydir :: "store \<Rightarrow> fid_t \<Rightarrow> bool option" where
  "emptydir s dir = do { (status, v) \<leftarrow> readdir s dir; Some (length v = 2) }"

text \<open>
  The loop of \<^verbatim>\<open>lookupPath\<close>: \<^verbatim>\<open>rest\<close> is the path from \<^verbatim>\<open>cstart\<close> on. Up to each slash there is a
  component that must exist; the last component is what remains.
\<close>

function path_walk :: "store \<Rightarrow> fid_t \<Rightarrow> string \<Rightarrow> fattr option option" where
  "path_walk s dir rest =
     (if CHR ''/'' \<in> set rest
      then do { fa \<leftarrow> lookup s dir (takeWhile (\<lambda>c. c \<noteq> CHR ''/'') rest);
                case fa of
                  None \<Rightarrow> Some None
                | Some fa \<Rightarrow> path_walk s (fa_fid fa) (tl (dropWhile (\<lambda>c. c \<noteq> CHR ''/'') rest)) }
      else lookup s dir rest)"
  by pat_completeness auto
termination
proof (relation "measure (\<lambda>(s, dir, rest). length rest)", goal_cases)
  case (2 s dir rest fa x2)
  let ?d = "dropWhile (\<lambda>c. c \<noteq> CHR ''/'') rest"
  from 2 have "?d \<noteq> []" by (auto simp: dropWhile_eq_Nil_conv)
  moreover have "length ?d \<le> length rest" by (rule length_dropWhile_le)
  ultimately have "length (tl ?d) < length rest" by (cases ?d) simp_all
  then show ?case by simp
qed simp

declare path_walk.simps [simp del]

definition lookupPath :: "store \<Rightarrow> fid_t \<Rightarrow> string \<Rightarrow> fattr option option" where
  "lookupPath s rootdir path =
     (let isabs = absolute path;
          dir = (if rootdir = 0 \<or> isabs then ROOTFID else rootdir);
          rest = drop (if isabs then 1 else 0) path
      in if rest = [] then lookup s dir ''/'' else path_walk s dir rest)"

section \<open>Chunks\<close>

definition getalloc :: "store \<Rightarrow> fid_t \<Rightarrow> chunkinfo list" where
  "getalloc s file = List.map_filter as_chunkinfo (store_find (Key KFS_CHUNKINFO file MATCH_ANY) s)"

definition chunk_at :: "store \<Rightarrow> fid_t \<Rightarrow> chunkOff_t \<Rightarrow> chunkinfo option" where
  "chunk_at s file boundary =
     (case store_find (Key KFS_CHUNKINFO file boundary) s of [] \<Rightarrow> None | m # _ \<Rightarrow> as_chunkinfo m)"

text \<open>The second \<^verbatim>\<open>getalloc\<close>, for the chunk that holds an offset.\<close>

definition getalloc_at :: "store \<Rightarrow> fid_t \<Rightarrow> chunkOff_t \<Rightarrow> int \<times> chunkinfo option" where
  "getalloc_at s file offset =
     (case chunk_at s file (chunkStartOffset offset) of
        None \<Rightarrow> (- ENOENT, None)
      | Some c \<Rightarrow> (0, Some c))"

definition getChunkVersion :: "store \<Rightarrow> fid_t \<Rightarrow> chunkId_t \<Rightarrow> int \<times> seq_t" where
  "getChunkVersion s file chunkId =
     (case List.find (\<lambda>c. ci_chunkId c = chunkId) (getalloc s file) of
        None \<Rightarrow> (- ENOENT, 0)
      | Some m \<Rightarrow> (0, ci_chunkVersion m))"

section \<open>Ancestors\<close>

text \<open>
  The loop of \<^verbatim>\<open>is_descendant\<close>. Each turn moves to the parent; a missing \<^verbatim>\<open>..\<close> is a null
  pointer. The fuel is the number of items plus one: a loop that takes more turns has come to
  the same directory twice and never ends.
\<close>

fun ancestor_walk :: "nat \<Rightarrow> store \<Rightarrow> fid_t \<Rightarrow> fid_t \<Rightarrow> bool option" where
  "ancestor_walk 0 s src dst = None"
| "ancestor_walk (Suc n) s src dst =
     (if src = dst \<or> dst = ROOTFID then Some (src = dst)
      else do { dotdot \<leftarrow> lookup s dst ''..'';
                case dotdot of
                  None \<Rightarrow> None
                | Some fa \<Rightarrow> ancestor_walk n s src (fa_fid fa) })"

definition is_descendant :: "store \<Rightarrow> fid_t \<Rightarrow> fid_t \<Rightarrow> bool option" where
  "is_descendant s src dst = ancestor_walk (length s + 1) s src dst"

end
