(* ===== verification/Meta_Layout.thy ===== *)
theory Meta_Layout
  imports Complex_Main Meta_ChunkServer Meta_Lookup
begin

text \<open>
  The layout manager: src/src/cc/meta/LayoutManager.h and LayoutManager.cc. It keeps the connected
  chunkservers, the racks, the map from chunks to their servers and leases, and the chunks whose
  replication has to be checked. Chunkserver objects are shared by pointer, so they live in a
  heap \<^verbatim>\<open>srv\<close> indexed by address; everything else refers to them by address. The clock, the
  value of a quotient of floats and the permutations of \<^verbatim>\<open>random_shuffle\<close> are the fields of \<^verbatim>\<open>Env\<close>.
\<close>

section \<open>Data\<close>

abbreviation (input) ENOSPC :: int where "ENOSPC \<equiv> 28"
abbreviation (input) ELEASEEXPIRED :: int where "ELEASEEXPIRED \<equiv> 1001"
abbreviation (input) EDATAUNAVAIL :: int where "EDATAUNAVAIL \<equiv> 1003"

definition LEASE_INTERVAL_SECS :: int where
  "LEASE_INTERVAL_SECS = 60"

datatype LeaseType = READ_LEASE | WRITE_LEASE

record LeaseInfo =
  leaseType :: LeaseType
  leaseId :: int
  lease_server :: "ChunkServerPtr option"
  expires :: int

record ChunkPlacementInfo =
  cp_fid :: fid_t
  ongoingReplications :: int
  chunkServers :: "ChunkServerPtr list"
  chunkLeases :: "LeaseInfo list"

definition new_ChunkPlacementInfo :: ChunkPlacementInfo where
  "new_ChunkPlacementInfo =
     \<lparr>cp_fid = -1, ongoingReplications = 0, chunkServers = [], chunkLeases = []\<rparr>"

record RackInfo =
  rack_id :: int
  rack_total :: "64 word"
  rack_alloc :: "64 word"
  rack_servers :: "ChunkServerPtr list"

record HibernatingServerInfo =
  hs_location :: ServerLocation
  hs_blocks :: "chunkId_t set"
  hs_sleepEndTime :: int

type_synonym CSMap = "(chunkId_t \<times> ChunkPlacementInfo) list"

record LayoutManager =
  mLeaseId :: int
  mNumOngoingReplications :: int
  mLastChunkReplicated :: chunkId_t
  mRecoveryStartTime :: int
  mMinChunkserversToExitRecovery :: nat
  mChunkServers :: "ChunkServerPtr list"
  mHibernatingServers :: "HibernatingServerInfo list"
  mDownServers :: "(ServerLocation \<times> int \<times> string) list"
  mRacks :: "RackInfo list"
  mChunkToServerMap :: CSMap
  mChunkReplicationCandidates :: "chunkId_t set"
  mOngoingReplicationStats :: int
  mTotalReplicationStats :: int
  mFailedReplicationStats :: int
  mStaleChunkCount :: int
  srv :: "ChunkServerPtr \<Rightarrow> ChunkServer"

definition new_LayoutManager :: "(ChunkServerPtr \<Rightarrow> ChunkServer) \<Rightarrow> LayoutManager" where
  "new_LayoutManager h =
     \<lparr>mLeaseId = 1, mNumOngoingReplications = 0, mLastChunkReplicated = 1, mRecoveryStartTime = 0,
      mMinChunkserversToExitRecovery = 1, mChunkServers = [], mHibernatingServers = [],
      mDownServers = [], mRacks = [], mChunkToServerMap = [], mChunkReplicationCandidates = {},
      mOngoingReplicationStats = 0, mTotalReplicationStats = 0, mFailedReplicationStats = 0,
      mStaleChunkCount = 0, srv = h\<rparr>"

record Env =
  env_now :: int
  fdiv :: "64 word \<Rightarrow> 64 word \<Rightarrow> rat"
  shuffle_racks :: "RackInfo list \<Rightarrow> RackInfo list"
  shuffle_servers :: "nat \<Rightarrow> ChunkServerPtr list \<Rightarrow> ChunkServerPtr list"

text \<open>\<^verbatim>\<open>MAX_SERVER_SPACE_UTIL_THRESHOLD\<close> is the \<^verbatim>\<open>float\<close> nearest to 0.9.\<close>

definition MAX_SERVER_SPACE_UTIL_THRESHOLD :: rat where
  "MAX_SERVER_SPACE_UTIL_THRESHOLD = 15099494 / 16777216"

abbreviation (input) MAX_CONCURRENT_WRITE_REPLICATIONS_PER_NODE :: int where
  "MAX_CONCURRENT_WRITE_REPLICATIONS_PER_NODE \<equiv> 5"

abbreviation (input) MAX_CONCURRENT_READ_REPLICATIONS_PER_NODE :: int where
  "MAX_CONCURRENT_READ_REPLICATIONS_PER_NODE \<equiv> 10"

section \<open>The server heap\<close>

definition upd_server :: "ChunkServerPtr \<Rightarrow> (ChunkServer \<Rightarrow> ChunkServer) \<Rightarrow> LayoutManager \<Rightarrow> LayoutManager" where
  "upd_server p f L = L\<lparr>srv := (srv L)(p := f (srv L p))\<rparr>"

definition for_servers :: "(ChunkServer \<Rightarrow> ChunkServer) \<Rightarrow> ChunkServerPtr list \<Rightarrow> LayoutManager \<Rightarrow> LayoutManager" where
  "for_servers f ps L = fold (\<lambda>p. upd_server p f) ps L"

definition set_placement :: "chunkId_t \<Rightarrow> ChunkPlacementInfo \<Rightarrow> LayoutManager \<Rightarrow> LayoutManager" where
  "set_placement c v L = L\<lparr>mChunkToServerMap := omap_put c v (mChunkToServerMap L)\<rparr>"

abbreviation placement :: "LayoutManager \<Rightarrow> chunkId_t \<Rightarrow> ChunkPlacementInfo option" where
  "placement L \<equiv> map_of (mChunkToServerMap L)"

section \<open>Leases\<close>

definition new_lease :: "int \<Rightarrow> LeaseType \<Rightarrow> int \<Rightarrow> ChunkServerPtr option \<Rightarrow> LeaseInfo" where
  "new_lease now t i c =
     \<lparr>leaseType = t, leaseId = i, lease_server = c, expires = now + LEASE_INTERVAL_SECS\<rparr>"

definition IsValidLease :: "int \<Rightarrow> LeaseInfo \<Rightarrow> bool" where
  "IsValidLease now l \<longleftrightarrow> now \<le> expires l"

definition IsValidWriteLease :: "int \<Rightarrow> LeaseInfo \<Rightarrow> bool" where
  "IsValidWriteLease now l \<longleftrightarrow> leaseType l = WRITE_LEASE \<and> IsValidLease now l"

definition InRecovery :: "int \<Rightarrow> LayoutManager \<Rightarrow> bool" where
  "InRecovery now L \<longleftrightarrow>
     length (mChunkServers L) < mMinChunkserversToExitRecovery L \<or>
     now - mRecoveryStartTime L \<le> LEASE_INTERVAL_SECS"

definition ChangeChunkReplication :: "chunkId_t \<Rightarrow> LayoutManager \<Rightarrow> LayoutManager" where
  "ChangeChunkReplication c L =
     L\<lparr>mChunkReplicationCandidates := insert c (mChunkReplicationCandidates L)\<rparr>"

definition GetChunkToServerMapping :: "chunkId_t \<Rightarrow> LayoutManager \<Rightarrow> ChunkServerPtr list option" where
  "GetChunkToServerMapping c L =
     (case placement L c of
        None \<Rightarrow> None
      | Some v \<Rightarrow> if chunkServers v = [] then None else Some (chunkServers v))"

definition ValidServer :: "ChunkServerPtr \<Rightarrow> LayoutManager \<Rightarrow> bool" where
  "ValidServer p L \<longleftrightarrow> p \<in> set (mChunkServers L)"

definition UpdateChunkToServerMapping :: "chunkId_t \<Rightarrow> ChunkServerPtr \<Rightarrow> LayoutManager \<Rightarrow> LayoutManager \<times> int" where
  "UpdateChunkToServerMapping c p L =
     (case placement L c of
        None \<Rightarrow> (L, -1)
      | Some v \<Rightarrow> (set_placement c (v\<lparr>chunkServers := chunkServers v @ [p]\<rparr>) L, 0))"

definition AddChunkToServerMapping ::
  "chunkId_t \<Rightarrow> fid_t \<Rightarrow> ChunkServerPtr option \<Rightarrow> LayoutManager \<Rightarrow> LayoutManager option" where
  "AddChunkToServerMapping c fid p L =
     (case p of
        None \<Rightarrow> Some (set_placement c (new_ChunkPlacementInfo\<lparr>cp_fid := fid\<rparr>) L)
      | Some q \<Rightarrow>
          assert_then (ValidServer q L)
            (let (L1, status) = UpdateChunkToServerMapping c q L in
             Some (if status = 0 then L1
                   else set_placement c
                          (new_ChunkPlacementInfo\<lparr>cp_fid := fid, chunkServers := [q]\<rparr>) L1)))"

definition RemoveChunkToServerMapping :: "chunkId_t \<Rightarrow> LayoutManager \<Rightarrow> LayoutManager" where
  "RemoveChunkToServerMapping c L =
     (case placement L c of
        None \<Rightarrow> L
      | Some v \<Rightarrow> L\<lparr>mChunkToServerMap := omap_erase c (mChunkToServerMap L)\<rparr>)"

definition DeleteChunk :: "chunkId_t \<Rightarrow> LayoutManager \<Rightarrow> LayoutManager" where
  "DeleteChunk c L =
     (case GetChunkToServerMapping c L of
        None \<Rightarrow> L
      | Some ps \<Rightarrow>
          for_servers (DeleteChunk_rpc c) ps
            (L\<lparr>mChunkToServerMap := omap_erase c (mChunkToServerMap L)\<rparr>))"

definition TruncateChunk :: "chunkId_t \<Rightarrow> int \<Rightarrow> LayoutManager \<Rightarrow> LayoutManager" where
  "TruncateChunk c sz L =
     (case GetChunkToServerMapping c L of
        None \<Rightarrow> L
      | Some ps \<Rightarrow> for_servers (TruncateChunk_rpc c sz) ps L)"

definition ValidLeaseIssued :: "int \<Rightarrow> LayoutManager \<Rightarrow> chunkinfo \<Rightarrow> bool" where
  "ValidLeaseIssued now L c =
     (case placement L (ci_chunkId c) of
        None \<Rightarrow> False
      | Some v \<Rightarrow> list_ex (IsValidLease now) (chunkLeases v))"

definition IsValidLeaseIssued :: "int \<Rightarrow> LayoutManager \<Rightarrow> chunkinfo list \<Rightarrow> bool" where
  "IsValidLeaseIssued now L cs = list_ex (ValidLeaseIssued now L) cs"

text \<open>\<^verbatim>\<open>GetChunkReadLease\<close> returns the status and the id that it stores into the request.\<close>

definition GetChunkReadLease :: "int \<Rightarrow> chunkId_t \<Rightarrow> LayoutManager \<Rightarrow> LayoutManager \<times> int \<times> int option" where
  "GetChunkReadLease now c L =
     (if InRecovery now L then (L, - EBUSY, None)
      else case placement L c of
          None \<Rightarrow> (L, - EINVAL, None)
        | Some v \<Rightarrow>
            (let l = new_lease now READ_LEASE (mLeaseId L) None in
             (set_placement c (v\<lparr>chunkLeases := chunkLeases v @ [l]\<rparr>) (L\<lparr>mLeaseId := mLeaseId L + 1\<rparr>),
              0, Some (leaseId l))))"

text \<open>Assigning through the iterator that \<^verbatim>\<open>find_if\<close> returned: the first match is changed.\<close>

fun update_first :: "('a \<Rightarrow> bool) \<Rightarrow> ('a \<Rightarrow> 'a) \<Rightarrow> 'a list \<Rightarrow> 'a list" where
  "update_first P f [] = []"
| "update_first P f (x # xs) = (if P x then f x # xs else x # update_first P f xs)"

text \<open>
  \<^verbatim>\<open>LeaseRenew\<close>. On the expired branch the lease is erased from the local copy of the placement
  only, so the state does not change.
\<close>

definition LeaseRenew :: "int \<Rightarrow> LeaseType \<Rightarrow> chunkId_t \<Rightarrow> int \<Rightarrow> LayoutManager \<Rightarrow> LayoutManager \<times> int" where
  "LeaseRenew now t c i L =
     (case placement L c of
        None \<Rightarrow>
          (if InRecovery now L
           then let l = new_lease now t i None;
                    L1 = (if mLeaseId L < i then L\<lparr>mLeaseId := i + 1\<rparr> else L)
                in (set_placement c (new_ChunkPlacementInfo\<lparr>chunkLeases := [l]\<rparr>) L1, 0)
           else (L, - EINVAL))
      | Some v \<Rightarrow>
          (case List.find (\<lambda>l. leaseId l = i) (chunkLeases v) of
             None \<Rightarrow> (L, - EINVAL)
           | Some l \<Rightarrow>
               if expires l < now then (L, - ELEASEEXPIRED)
               else (set_placement c
                       (v\<lparr>chunkLeases := update_first (\<lambda>l. leaseId l = i)
                            (\<lambda>l. l\<lparr>expires := now + LEASE_INTERVAL_SECS\<rparr>) (chunkLeases v)\<rparr>) L, 0)))"

definition LeaseExpired :: "int \<Rightarrow> LeaseInfo \<Rightarrow> bool" where
  "LeaseExpired now l \<longleftrightarrow> expires l \<le> now"

definition DecChunkWriteCount :: "fid_t \<Rightarrow> chunkId_t \<Rightarrow> LeaseInfo \<Rightarrow> LayoutManager \<Rightarrow> LayoutManager" where
  "DecChunkWriteCount f c l L =
     (if leaseType l \<noteq> WRITE_LEASE then L
      else case GetChunkToServerMapping c L of
          None \<Rightarrow> L
        | Some ps \<Rightarrow> upd_server (hd ps) (GetChunkSize f c) (for_servers (UpdateNumChunkWrites (-1)) ps L))"

text \<open>
  \<^verbatim>\<open>LeaseExpirer\<close>. After \<^verbatim>\<open>remove_if\<close> the elements from the returned iterator on are not the
  removed ones: the kept elements were assigned forward and the tail still holds the values that
  stood at those positions before. \<^verbatim>\<open>DecChunkWriteCount\<close> runs over that tail.
\<close>

definition LeaseExpirer :: "int \<Rightarrow> chunkId_t \<times> ChunkPlacementInfo \<Rightarrow> LayoutManager \<Rightarrow> LayoutManager" where
  "LeaseExpirer now p L =
     (let (c, v) = p;
          kept = filter (\<lambda>l. \<not> LeaseExpired now l) (chunkLeases v);
          tail = drop (length kept) (chunkLeases v);
          L1 = fold (DecChunkWriteCount (cp_fid v) c) tail L
      in set_placement c (v\<lparr>chunkLeases := kept\<rparr>) L1)"

definition LeaseCleanup :: "int \<Rightarrow> LayoutManager \<Rightarrow> LayoutManager" where
  "LeaseCleanup now L = fold (LeaseExpirer now) (mChunkToServerMap L) L"

definition LeaseCleanup_chunk ::
  "chunkId_t \<Rightarrow> ChunkPlacementInfo \<Rightarrow> LayoutManager \<Rightarrow> LayoutManager \<times> ChunkPlacementInfo" where
  "LeaseCleanup_chunk c v L =
     (fold (DecChunkWriteCount (cp_fid v) c) (chunkLeases v) L, v\<lparr>chunkLeases := []\<rparr>)"

text \<open>
  The loop of \<^verbatim>\<open>GetChunkWriteLease\<close> that looks for a server without room for a chunk; each call of
  \<^verbatim>\<open>GetAvailSpace\<close> also refreshes the server's \<^verbatim>\<open>mAllocSpace\<close>.
\<close>

fun servers_have_room :: "ChunkServerPtr list \<Rightarrow> LayoutManager \<Rightarrow> LayoutManager \<times> bool" where
  "servers_have_room [] L = (L, True)"
| "servers_have_room (p # ps) L =
     (let (s, n) = GetAvailSpace (srv L p); L1 = upd_server p (\<lambda>_. s) L in
      if n < CHUNKSIZE then (L1, False) else servers_have_room ps L1)"

definition GetChunkWriteLease ::
  "int \<Rightarrow> seq_t \<Rightarrow> nat \<Rightarrow> MetaAllocate \<Rightarrow> LayoutManager \<Rightarrow> LayoutManager \<times> MetaAllocate \<times> int \<times> bool option" where
  "GetChunkWriteLease now chunkVersionInc a r L =
     (if InRecovery now L then (L, r, - EBUSY, None)
      else case placement L (ma_chunkId r) of
          None \<Rightarrow> (L, r, - EINVAL, None)
        | Some v \<Rightarrow>
            if chunkServers v = [] then (L, r, - EDATAUNAVAIL, None)
            else case List.find (IsValidWriteLease now) (chunkLeases v) of
                Some l \<Rightarrow> (L, r\<lparr>ma_servers := chunkServers v, ma_master := lease_server l\<rparr>, 0, Some False)
              | None \<Rightarrow>
                  if list_ex (IsValidLease now) (chunkLeases v) then (L, r, - EBUSY, None)
                  else
                    let (L1, v1) = LeaseCleanup_chunk (ma_chunkId r) v L;
                        r1 = r\<lparr>ma_servers := chunkServers v1\<rparr>;
                        (L2, room) = servers_have_room (chunkServers v1) L1
                    in if \<not> room then (L2, r1, - ENOSPC, None)
                       else
                         let l = new_lease now WRITE_LEASE (mLeaseId L2) (Some (hd (chunkServers v1)));
                             L3 = set_placement (ma_chunkId r) (v1\<lparr>chunkLeases := chunkLeases v1 @ [l]\<rparr>)
                                    (L2\<lparr>mLeaseId := mLeaseId L2 + 1\<rparr>);
                             r2 = r1\<lparr>ma_chunkVersion := ma_chunkVersion r1 + chunkVersionInc,
                                     ma_master := Some (hd (chunkServers v1))\<rparr>;
                             L4 = upd_server (hd (chunkServers v1)) (AllocateChunk_rpc a (leaseId l)) L3;
                             L5 = for_servers (AllocateChunk_rpc a (-1)) (tl (chunkServers v1)) L4
                         in (L5, r2, 0, Some True))"

definition ChunkCorrupt :: "fid_t \<Rightarrow> chunkId_t \<Rightarrow> ChunkServerPtr \<Rightarrow> LayoutManager \<Rightarrow> LayoutManager" where
  "ChunkCorrupt fid c p L =
     (let L0 = upd_server p IncCorruptChunks L in
      case placement L0 c of
        None \<Rightarrow> L0
      | Some v \<Rightarrow>
          if cp_fid v \<noteq> fid then L0
          else
            let L1 = set_placement c (v\<lparr>chunkServers := filter (\<lambda>q. q \<noteq> p) (chunkServers v)\<rparr>) L0;
                L2 = ChangeChunkReplication c L1;
                L3 = upd_server p (MovingChunkDone c) L2
            in if mIsRetiring (srv L3 p) then upd_server p (EvacuateChunkDone c) L3 else L3)"

end
