(* ===== verification/Meta_Placement.thy ===== *)
theory Meta_Placement
  imports Meta_Layout
begin

text \<open>
  Placement and membership in src/src/cc/meta/LayoutManager.cc: choosing racks and servers for a
  new chunk, and chunkservers that join, retire, hibernate and go down.
\<close>

section \<open>Racks\<close>

definition addServer :: "ChunkServerPtr \<Rightarrow> LayoutManager \<Rightarrow> RackInfo \<Rightarrow> RackInfo" where
  "addServer p L r =
     r\<lparr>rack_total := rack_total r + mTotalSpace (srv L p),
       rack_alloc := rack_alloc r + mUsedSpace (srv L p),
       rack_servers := rack_servers r @ [p]\<rparr>"

definition removeServer :: "ChunkServerPtr \<Rightarrow> LayoutManager \<Rightarrow> RackInfo \<Rightarrow> RackInfo" where
  "removeServer p L r =
     (if p \<in> set (rack_servers r)
      then r\<lparr>rack_total := rack_total r - mTotalSpace (srv L p),
             rack_alloc := rack_alloc r - mUsedSpace (srv L p),
             rack_servers := remove1 p (rack_servers r)\<rparr>
      else r)"

definition new_RackInfo :: "int \<Rightarrow> RackInfo" where
  "new_RackInfo i = \<lparr>rack_id = i, rack_total = 0, rack_alloc = 0, rack_servers = []\<rparr>"

definition FindCandidateRacks :: "Env \<Rightarrow> int set \<Rightarrow> LayoutManager \<Rightarrow> LayoutManager \<times> int list" where
  "FindCandidateRacks env excludes L =
     (let racks = shuffle_racks env (mRacks L) in
      (L\<lparr>mRacks := racks\<rparr>, filter (\<lambda>i. i \<notin> excludes) (map rack_id racks)))"

section \<open>Candidate servers\<close>

definition GetSpaceUtilization :: "Env \<Rightarrow> ChunkServer \<Rightarrow> rat" where
  "GetSpaceUtilization env s = (if mTotalSpace s = 0 then 0 else fdiv env (mUsedSpace s) (mTotalSpace s))"

definition IsCandidateServer :: "ChunkServerPtr \<Rightarrow> LayoutManager \<Rightarrow> LayoutManager \<times> bool" where
  "IsCandidateServer p L =
     (let (s, n) = GetAvailSpace (srv L p) in
      (upd_server p (\<lambda>_. s) L, \<not> (n < CHUNKSIZE \<or> \<not> IsResponsiveServer s \<or> mIsRetiring s)))"

fun scan_candidates ::
  "Env \<Rightarrow> ChunkServerPtr list \<Rightarrow> int \<Rightarrow> ChunkServerPtr list \<Rightarrow> LayoutManager \<Rightarrow> LayoutManager \<times> ChunkServerPtr list" where
  "scan_candidates env excludes rackId [] L = (L, [])"
| "scan_candidates env excludes rackId (c # cs) L =
     (if 0 \<le> rackId \<and> mRackId (srv L c) \<noteq> rackId then scan_candidates env excludes rackId cs L
      else
        let (L1, ok) = IsCandidateServer c L;
            (L2, rest) = scan_candidates env excludes rackId cs L1
        in if \<not> ok then (L2, rest)
           else if c \<in> set excludes then (L2, rest)
           else if MAX_SERVER_SPACE_UTIL_THRESHOLD < GetSpaceUtilization env (srv L1 c) then (L2, rest)
           else (L2, c # rest))"

text \<open>The two overloads of \<^verbatim>\<open>FindCandidateServers\<close>; \<^verbatim>\<open>i\<close> distinguishes the calls of the shuffle.\<close>

definition FindCandidateServers_from ::
  "Env \<Rightarrow> nat \<Rightarrow> ChunkServerPtr list \<Rightarrow> ChunkServerPtr list \<Rightarrow> int \<Rightarrow> LayoutManager \<Rightarrow> LayoutManager \<times> ChunkServerPtr list" where
  "FindCandidateServers_from env i sources excludes rackId L =
     (let (L1, candidates) = scan_candidates env excludes rackId sources L in
      (L1, if candidates = [] then [] else shuffle_servers env i candidates))"

definition FindCandidateServers ::
  "Env \<Rightarrow> nat \<Rightarrow> ChunkServerPtr list \<Rightarrow> int \<Rightarrow> LayoutManager \<Rightarrow> LayoutManager \<times> ChunkServerPtr list" where
  "FindCandidateServers env i excludes rackId L =
     (if mChunkServers L = [] then (L, [])
      else case (if 0 < rackId then List.find (\<lambda>r. rack_id r = rackId) (mRacks L) else None) of
          Some r \<Rightarrow> FindCandidateServers_from env i (rack_servers r) excludes rackId L
        | None \<Rightarrow> FindCandidateServers_from env i (mChunkServers L) excludes rackId L)"

section \<open>Allocating a chunk\<close>

text \<open>
  The inner loop takes up to \<^verbatim>\<open>perRack\<close> servers from the candidates of one rack, the outer one goes
  through the racks. \<^verbatim>\<open>n\<close> counts the servers taken from the rack, the local one included.
\<close>

fun fill_from_rack ::
  "nat \<Rightarrow> nat \<Rightarrow> ChunkServerPtr option \<Rightarrow> nat \<Rightarrow> ChunkServerPtr list \<Rightarrow> ChunkServerPtr list \<Rightarrow> ChunkServerPtr list" where
  "fill_from_rack want perRack local n [] servers = servers"
| "fill_from_rack want perRack local n (c # cs) servers =
     (if n < perRack \<and> length servers < want
      then (if Some c \<noteq> local then fill_from_rack want perRack local (n + 1) cs (servers @ [c])
            else fill_from_rack want perRack local n cs servers)
      else servers)"

fun fill_from_racks ::
  "Env \<Rightarrow> nat \<Rightarrow> nat \<Rightarrow> ChunkServerPtr option \<Rightarrow> nat \<Rightarrow> int list \<Rightarrow> ChunkServerPtr list \<Rightarrow> LayoutManager \<Rightarrow>
   LayoutManager \<times> ChunkServerPtr list" where
  "fill_from_racks env want perRack local idx [] servers L = (L, servers)"
| "fill_from_racks env want perRack local idx (rk # rks) servers L =
     (if want \<le> length servers then (L, servers)
      else
        let (L1, candidates) = FindCandidateServers env idx [] rk L in
        if candidates = [] then fill_from_racks env want perRack local (idx + 1) rks servers L1
        else
          let n = (case local of None \<Rightarrow> 0 | Some p \<Rightarrow> if rk = mRackId (srv L1 p) then 1 else 0)
          in fill_from_racks env want perRack local (idx + 1) rks
               (fill_from_rack want perRack local n candidates servers) L1)"

definition local_server :: "string \<Rightarrow> LayoutManager \<Rightarrow> LayoutManager \<times> ChunkServerPtr option" where
  "local_server host L =
     (case List.find (\<lambda>p. hostname (mLocation (srv L p)) = host) (mChunkServers L) of
        None \<Rightarrow> (L, None)
      | Some p \<Rightarrow> let (L1, ok) = IsCandidateServer p L in (L1, if ok then Some p else None))"

text \<open>\<^verbatim>\<open>servers.reserve\<close> with a negative number of replicas throws, which ends the process.\<close>

definition AllocateChunk :: "Env \<Rightarrow> nat \<Rightarrow> MetaAllocate \<Rightarrow> LayoutManager \<Rightarrow> (LayoutManager \<times> MetaAllocate \<times> int) option" where
  "AllocateChunk env a r L =
     (if ma_numReplicas r = 0 then Some (L, r, - EINVAL)
      else
        let (L1, racks) = FindCandidateRacks env {} L in
        if racks = [] then Some (L1, r, - ENOSPC)
        else assert_then (0 \<le> ma_numReplicas r)
          (let want = nat (ma_numReplicas r);
               perRack = want div length racks + (if want mod length racks = 0 then 0 else 1);
               (L2, local) = local_server (ma_clientHost r) L1;
               servers0 = ma_servers r @ (case local of None \<Rightarrow> [] | Some p \<Rightarrow> [p]);
               (L3, servers) = fill_from_racks env want perRack local 0 racks servers0 L2
           in if servers = [] then Some (L3, r, - ENOSPC)
              else
                let l = new_lease (env_now env) WRITE_LEASE (mLeaseId L3) (Some (hd servers));
                    L4 = L3\<lparr>mLeaseId := mLeaseId L3 + 1\<rparr>;
                    r1 = r\<lparr>ma_servers := servers, ma_master := Some (hd servers)\<rparr>;
                    L5 = upd_server (hd servers) (AllocateChunk_rpc a (leaseId l)) L4;
                    L6 = for_servers (AllocateChunk_rpc a (-1)) (tl servers) L5;
                    v = new_ChunkPlacementInfo\<lparr>cp_fid := ma_fid r, chunkServers := servers, chunkLeases := [l]\<rparr>;
                    L7 = set_placement (ma_chunkId r) v L6
                in Some (if length servers < want then ChangeChunkReplication (ma_chunkId r) L7 else L7,
                         r1, 0)))"

section \<open>Membership\<close>

text \<open>The loop restarts from the front after each removal, as the code does.\<close>

function hibernation_loop ::
  "int \<Rightarrow> LayoutManager \<Rightarrow> nat \<Rightarrow> HibernatingServerInfo list \<Rightarrow> chunkId_t set \<Rightarrow> HibernatingServerInfo list \<times> chunkId_t set" where
  "hibernation_loop now L i hs cands =
     (if length hs \<le> i then (hs, cands)
      else
        let h = hs ! i;
            back = list_ex (\<lambda>p. mLocation (srv L p) = hs_location h) (mChunkServers L)
        in if \<not> back \<and> now < hs_sleepEndTime h then hibernation_loop now L (i + 1) hs cands
           else hibernation_loop now L 0 (take i hs @ drop (i + 1) hs)
                  (if back then cands else cands \<union> hs_blocks h))"
  by pat_completeness auto
termination
  by (relation "measures [\<lambda>(now, L, i, hs, cands). length hs, \<lambda>(now, L, i, hs, cands). length hs - i]")
    auto

declare hibernation_loop.simps [simp del]

definition CheckHibernatingServersStatus :: "int \<Rightarrow> LayoutManager \<Rightarrow> LayoutManager" where
  "CheckHibernatingServersStatus now L =
     (let (hs, cands) = hibernation_loop now L 0 (mHibernatingServers L) (mChunkReplicationCandidates L)
      in L\<lparr>mHibernatingServers := hs, mChunkReplicationCandidates := cands\<rparr>)"

record ChunkInfo =
  hc_fileId :: fid_t
  hc_chunkId :: chunkId_t
  hc_chunkVersion :: seq_t

record MetaHello =
  mh_server :: ChunkServerPtr
  mh_location :: ServerLocation
  mh_totalSpace :: "64 word"
  mh_usedSpace :: "64 word"
  mh_rackId :: int
  mh_chunks :: "ChunkInfo list"

text \<open>
  One chunk of a HELLO message. The boolean says that the chunk is stale. \<^verbatim>\<open>fa->filesize\<close> follows a
  null pointer when the file has no attributes, and an assert checks the mapping.
\<close>

definition hello_chunk :: "store \<Rightarrow> ChunkServerPtr \<Rightarrow> ChunkInfo \<Rightarrow> LayoutManager \<Rightarrow> (LayoutManager \<times> bool) option" where
  "hello_chunk t p c L =
     (let v = getalloc t (hc_fileId c) in
      case List.find (\<lambda>m. ci_chunkId m = hc_chunkId c) v of
        None \<Rightarrow> Some (L, True)
      | Some mci \<Rightarrow>
          if ci_chunkVersion mci \<le> hc_chunkVersion c
          then
            let (L1, res) = UpdateChunkToServerMapping (hc_chunkId c) p (ChangeChunkReplication (hc_chunkId c) L)
            in assert_then (0 \<le> res)
                 (case getFattr t (hc_fileId c) of
                    None \<Rightarrow> None
                  | Some fa \<Rightarrow>
                      let L2 = (if fa_filesize fa < 0 \<and> ci_chunkId (last v) = hc_chunkId c
                                then upd_server p (GetChunkSize (hc_fileId c) (hc_chunkId c)) L1 else L1);
                          L3 = (if ci_chunkVersion mci < hc_chunkVersion c
                                then upd_server p (NotifyChunkVersChange (hc_fileId c) (hc_chunkId c)
                                       (ci_chunkVersion mci)) L2 else L2)
                      in Some (L3, False))
          else Some (L, True))"

fun hello_chunks :: "store \<Rightarrow> ChunkServerPtr \<Rightarrow> ChunkInfo list \<Rightarrow> LayoutManager \<Rightarrow> (LayoutManager \<times> chunkId_t list) option" where
  "hello_chunks t p [] L = Some (L, [])"
| "hello_chunks t p (c # cs) L =
     do { (L1, stale) \<leftarrow> hello_chunk t p c L;
          (L2, ids) \<leftarrow> hello_chunks t p cs
             (if stale then L1\<lparr>mStaleChunkCount := mStaleChunkCount L1 + 1\<rparr> else L1);
          Some (L2, if stale then hc_chunkId c # ids else ids) }"

definition join_rack :: "int \<Rightarrow> ChunkServerPtr \<Rightarrow> LayoutManager \<Rightarrow> LayoutManager" where
  "join_rack rid p L =
     (if list_ex (\<lambda>r. rack_id r = rid) (mRacks L)
      then L\<lparr>mRacks := update_first (\<lambda>r. rack_id r = rid) (addServer p L) (mRacks L)\<rparr>
      else L\<lparr>mRacks := mRacks L @ [addServer p L (new_RackInfo rid)]\<rparr>)"

definition hello_attributes :: "MetaHello \<Rightarrow> LayoutManager \<Rightarrow> LayoutManager" where
  "hello_attributes r L =
     upd_server (mh_server r) (\<lambda>s. (SetSpace (mh_totalSpace r) (mh_usedSpace r)
       (word_of_nat (length (mh_chunks r)) * CHUNKSIZE) (s\<lparr>mLocation := mh_location r\<rparr>))
         \<lparr>mRackId := mh_rackId r\<rparr>) L"

text \<open>The part of \<^verbatim>\<open>AddNewServer\<close> after the chunks were looked at, with the stale ones.\<close>

definition admit_server :: "int \<Rightarrow> MetaHello \<Rightarrow> chunkId_t list \<Rightarrow> LayoutManager \<Rightarrow> LayoutManager" where
  "admit_server now r stale L =
     (let p = mh_server r;
          L1 = (if stale = [] then L else upd_server p (NotifyStaleChunks stale) L);
          L2 = L1\<lparr>mChunkServers := mChunkServers L1 @ [p]\<rparr>
      in CheckHibernatingServersStatus now (join_rack (mh_rackId r) p L2))"

definition AddNewServer :: "int \<Rightarrow> store \<Rightarrow> MetaHello \<Rightarrow> LayoutManager \<Rightarrow> LayoutManager option" where
  "AddNewServer now t r L =
     (if mDown (srv L (mh_server r)) then Some L
      else
        let L0 = hello_attributes r L in
        if list_ex (\<lambda>q. mLocation (srv L0 q) = mh_location r) (mChunkServers L0) then Some L0
        else do { (L1, stale) \<leftarrow> hello_chunks t (mh_server r) (mh_chunks r) L0;
                  Some (admit_server now r stale L1) })"

text \<open>\<^verbatim>\<open>MapPurger\<close> takes the server out of every entry and puts every chunk of the map into the set.\<close>

definition purge_map :: "ChunkServerPtr \<Rightarrow> CSMap \<Rightarrow> CSMap" where
  "purge_map p m = map (\<lambda>(c, v). (c, v\<lparr>chunkServers := filter (\<lambda>q. q \<noteq> p) (chunkServers v)\<rparr>)) m"

definition ServerDown :: "int \<Rightarrow> ChunkServerPtr \<Rightarrow> LayoutManager \<Rightarrow> MainLoop \<Rightarrow> LayoutManager \<times> MainLoop" where
  "ServerDown now p L w =
     (if p \<notin> set (mChunkServers L) then (L, w)
      else
        let rid = mRackId (srv L p);
            L1 = L\<lparr>mRacks := update_first (\<lambda>r. rack_id r = rid) (removeServer p L) (mRacks L)\<rparr>;
            (s, w1) = FailPendingOps (srv L1 p) w;
            L2 = upd_server p (\<lambda>_. s) L1;
            loc = mLocation (srv L2 p);
            chunks = fst ` set (mChunkToServerMap L2);
            hib = list_ex (\<lambda>h. hs_location h = loc) (mHibernatingServers L2);
            L3 = L2\<lparr>mChunkToServerMap := purge_map p (mChunkToServerMap L2)\<rparr>;
            L4 = (if hib
                  then L3\<lparr>mHibernatingServers := update_first (\<lambda>h. hs_location h = loc)
                            (\<lambda>h. h\<lparr>hs_blocks := hs_blocks h \<union> chunks\<rparr>) (mHibernatingServers L3)\<rparr>
                  else L3\<lparr>mChunkReplicationCandidates := mChunkReplicationCandidates L3 \<union> chunks\<rparr>);
            reason = (if hib then ''Hibernated'' else if mIsRetiring (srv L4 p) then ''Retired'' else ''Unreachable'')
        in (L4\<lparr>mDownServers := mDownServers L4 @ [(loc, now, reason)],
              mChunkServers := remove1 p (mChunkServers L4)\<rparr>, w1))"

text \<open>\<^verbatim>\<open>MapRetirer\<close>: every chunk on the server is a candidate and has to be evacuated.\<close>

definition retire_entry :: "ChunkServerPtr \<Rightarrow> chunkId_t \<times> ChunkPlacementInfo \<Rightarrow> LayoutManager \<Rightarrow> LayoutManager" where
  "retire_entry p e L =
     (if p \<in> set (chunkServers (snd e))
      then upd_server p (EvacuateChunk (fst e)) (ChangeChunkReplication (fst e) L)
      else L)"

definition RetireServer :: "int \<Rightarrow> ServerLocation \<Rightarrow> int \<Rightarrow> LayoutManager \<Rightarrow> LayoutManager \<times> int" where
  "RetireServer now loc downtime L =
     (case List.find (\<lambda>p. mLocation (srv L p) = loc) (mChunkServers L) of
        None \<Rightarrow> (L, -1)
      | Some p \<Rightarrow>
          let L1 = upd_server p (SetRetiring now) L in
          if 0 < downtime
          then let h = \<lparr>hs_location = mLocation (srv L1 p), hs_blocks = {}, hs_sleepEndTime = now + downtime\<rparr>
               in (upd_server p Retire (L1\<lparr>mHibernatingServers := mHibernatingServers L1 @ [h]\<rparr>), 0)
          else (fold (retire_entry p) (mChunkToServerMap L1) L1, 0))"

end
