(* ===== verification/Meta_Lease.thy ===== *)
theory Meta_Lease
  imports Meta_Placement
begin

text \<open>
  Leases. A step relation collects the operations of the layout manager that touch the chunk map;
  in every reachable state a chunk has at most one write lease, a live write lease stays until it
  expires, and a new one is only issued when no lease on the chunk is live.
\<close>

section \<open>What the operations leave alone\<close>

lemma upd_server_fields [simp]:
  "mChunkToServerMap (upd_server p f L) = mChunkToServerMap L"
  "mLeaseId (upd_server p f L) = mLeaseId L"
  "mChunkServers (upd_server p f L) = mChunkServers L"
  "mRacks (upd_server p f L) = mRacks L"
  "mRecoveryStartTime (upd_server p f L) = mRecoveryStartTime L"
  "mMinChunkserversToExitRecovery (upd_server p f L) = mMinChunkserversToExitRecovery L"
  "mChunkReplicationCandidates (upd_server p f L) = mChunkReplicationCandidates L"
  "mHibernatingServers (upd_server p f L) = mHibernatingServers L"
  "srv (upd_server p f L) = (srv L)(p := f (srv L p))"
  by (simp_all add: upd_server_def)

lemma for_servers_simps [simp]:
  "for_servers f [] L = L"
  "for_servers f (p # ps) L = for_servers f ps (upd_server p f L)"
  by (simp_all add: for_servers_def)

lemma for_servers_fields [simp]:
  "mChunkToServerMap (for_servers f ps L) = mChunkToServerMap L"
  "mLeaseId (for_servers f ps L) = mLeaseId L"
  "mChunkServers (for_servers f ps L) = mChunkServers L"
  "mRacks (for_servers f ps L) = mRacks L"
  "mRecoveryStartTime (for_servers f ps L) = mRecoveryStartTime L"
  "mMinChunkserversToExitRecovery (for_servers f ps L) = mMinChunkserversToExitRecovery L"
  "mChunkReplicationCandidates (for_servers f ps L) = mChunkReplicationCandidates L"
  by (induction ps arbitrary: L) simp_all

lemma srv_for_servers:
  "distinct ps \<Longrightarrow> srv (for_servers f ps L) q = (if q \<in> set ps then f (srv L q) else srv L q)"
  by (induction ps arbitrary: L) auto

lemma set_placement_fields [simp]:
  "mChunkToServerMap (set_placement c v L) = omap_put c v (mChunkToServerMap L)"
  "mLeaseId (set_placement c v L) = mLeaseId L"
  "mChunkServers (set_placement c v L) = mChunkServers L"
  "srv (set_placement c v L) = srv L"
  by (simp_all add: set_placement_def)

lemma ChangeChunkReplication_fields [simp]:
  "mChunkToServerMap (ChangeChunkReplication c L) = mChunkToServerMap L"
  "mLeaseId (ChangeChunkReplication c L) = mLeaseId L"
  "mChunkServers (ChangeChunkReplication c L) = mChunkServers L"
  "srv (ChangeChunkReplication c L) = srv L"
  by (simp_all add: ChangeChunkReplication_def)

lemma DecChunkWriteCount_fields [simp]:
  "mChunkToServerMap (DecChunkWriteCount f c l L) = mChunkToServerMap L"
  "mLeaseId (DecChunkWriteCount f c l L) = mLeaseId L"
  "mChunkServers (DecChunkWriteCount f c l L) = mChunkServers L"
  by (simp_all add: DecChunkWriteCount_def split: option.split)

lemma fold_Dec_fields [simp]:
  "mChunkToServerMap (fold (DecChunkWriteCount f c) ls L) = mChunkToServerMap L"
  "mLeaseId (fold (DecChunkWriteCount f c) ls L) = mLeaseId L"
  "mChunkServers (fold (DecChunkWriteCount f c) ls L) = mChunkServers L"
  by (induction ls arbitrary: L) simp_all

lemma servers_have_room_fields [simp]:
  "mChunkToServerMap (fst (servers_have_room ps L)) = mChunkToServerMap L"
  "mLeaseId (fst (servers_have_room ps L)) = mLeaseId L"
  by (induction ps L rule: servers_have_room.induct) (auto simp: Let_def split: prod.splits)

section \<open>Cleaning up\<close>

lemma LeaseExpirer_map [simp]:
  "mChunkToServerMap (LeaseExpirer now (c, v) L) =
     omap_put c (v\<lparr>chunkLeases := filter (\<lambda>l. \<not> LeaseExpired now l) (chunkLeases v)\<rparr>) (mChunkToServerMap L)"
  by (simp add: LeaseExpirer_def Let_def)

lemma LeaseExpirer_fields [simp]:
  "mLeaseId (LeaseExpirer now e L) = mLeaseId L"
  "mChunkServers (LeaseExpirer now e L) = mChunkServers L"
  by (simp_all add: LeaseExpirer_def Let_def split: prod.splits)

lemma LeaseCleanup_fields [simp]:
  "mLeaseId (LeaseCleanup now L) = mLeaseId L"
  "mChunkServers (LeaseCleanup now L) = mChunkServers L"
proof -
  have "mLeaseId (fold (LeaseExpirer now) m L) = mLeaseId L \<and>
    mChunkServers (fold (LeaseExpirer now) m L) = mChunkServers L" for m
    by (induction m arbitrary: L) auto
  then show "mLeaseId (LeaseCleanup now L) = mLeaseId L" "mChunkServers (LeaseCleanup now L) = mChunkServers L"
    by (simp_all add: LeaseCleanup_def)
qed

definition live_leases :: "int \<Rightarrow> ChunkPlacementInfo \<Rightarrow> ChunkPlacementInfo" where
  "live_leases now v = v\<lparr>chunkLeases := filter (\<lambda>l. now < expires l) (chunkLeases v)\<rparr>"

lemma fold_LeaseExpirer_map:
  assumes "distinct (map fst m)"
  shows "map_of (mChunkToServerMap (fold (LeaseExpirer now) m L)) =
    (\<lambda>c. case map_of m c of None \<Rightarrow> placement L c | Some v \<Rightarrow> Some (live_leases now v))"
  using assms
proof (induction m arbitrary: L)
  case (Cons e m)
  obtain c v where e: "e = (c, v)" by (cases e)
  have "map_of m c = None" using Cons.prems by (simp add: e map_of_eq_None_iff)
  then show ?case
    using Cons by (auto simp: e fun_eq_iff live_leases_def LeaseExpired_def not_le split: option.splits)
qed simp

lemma LeaseCleanup_placement:
  assumes "omap_inv (mChunkToServerMap L)"
  shows "placement (LeaseCleanup now L) c = map_option (live_leases now) (placement L c)"
  using fold_LeaseExpirer_map [OF omap_inv_distinct [OF assms], of now L]
  by (simp add: LeaseCleanup_def split: option.splits)

lemma LeaseCleanup_omap_inv:
  assumes "omap_inv (mChunkToServerMap L)"
  shows "omap_inv (mChunkToServerMap (LeaseCleanup now L))"
proof -
  have "omap_inv (mChunkToServerMap (fold (LeaseExpirer now) m L))"
    if "omap_inv (mChunkToServerMap L)" for m and L :: LayoutManager
    using that by (induction m arbitrary: L) auto
  with assms show ?thesis by (simp add: LeaseCleanup_def)
qed


section \<open>The leases of a chunk\<close>

text \<open>
  Most operations only move replicas around; for each of the others one lemma says what becomes
  of the leases of every chunk. The order of the map is kept by all of them.
\<close>

definition leases :: "LayoutManager \<Rightarrow> chunkId_t \<Rightarrow> LeaseInfo list option" where
  "leases L c = map_option chunkLeases (placement L c)"

definition keeps_leases :: "LayoutManager \<Rightarrow> LayoutManager \<Rightarrow> bool" where
  "keeps_leases L L' \<longleftrightarrow>
     (omap_inv (mChunkToServerMap L) \<longrightarrow> omap_inv (mChunkToServerMap L')) \<and> leases L' = leases L"

lemma keeps_leases_refl [simp]: "keeps_leases L L"
  by (simp add: keeps_leases_def)

lemma keeps_leases_trans: "keeps_leases L L' \<Longrightarrow> keeps_leases L' L'' \<Longrightarrow> keeps_leases L L''"
  by (simp add: keeps_leases_def)

lemma keeps_leases_map: "mChunkToServerMap L' = mChunkToServerMap L \<Longrightarrow> keeps_leases L L'"
  by (simp add: keeps_leases_def leases_def fun_eq_iff)

lemma keeps_leases_servers:
  assumes "placement L c = Some v" "chunkLeases v' = chunkLeases v"
  shows "keeps_leases L (set_placement c v' L)"
  using assms by (auto simp: keeps_leases_def leases_def fun_eq_iff)

lemma keeps_UpdateChunkToServerMapping: "keeps_leases L (fst (UpdateChunkToServerMapping c p L))"
  by (auto simp: UpdateChunkToServerMapping_def keeps_leases_servers split: option.split)

lemma keeps_leases_put:
  assumes "placement L c = Some v" "chunkLeases v' = chunkLeases v"
    "mChunkToServerMap L' = omap_put c v' (mChunkToServerMap L)"
  shows "keeps_leases L L'"
  using assms by (auto simp: keeps_leases_def leases_def fun_eq_iff)

lemma ChunkCorrupt_map:
  "mChunkToServerMap (ChunkCorrupt fid c p L) =
     (case placement L c of
        None \<Rightarrow> mChunkToServerMap L
      | Some v \<Rightarrow>
          if cp_fid v \<noteq> fid then mChunkToServerMap L
          else omap_put c (v\<lparr>chunkServers := filter (\<lambda>q. q \<noteq> p) (chunkServers v)\<rparr>) (mChunkToServerMap L))"
  by (simp add: ChunkCorrupt_def Let_def split: option.split)

lemma keeps_ChunkCorrupt: "keeps_leases L (ChunkCorrupt fid c p L)"
proof (cases "placement L c")
  case (Some v)
  show ?thesis
  proof (cases "cp_fid v = fid")
    case True
    then show ?thesis
      by (intro keeps_leases_put [OF Some, of "v\<lparr>chunkServers := filter (\<lambda>q. q \<noteq> p) (chunkServers v)\<rparr>"])
        (simp_all add: ChunkCorrupt_map Some)
  qed (simp add: keeps_leases_map ChunkCorrupt_map Some)
qed (simp add: keeps_leases_map ChunkCorrupt_map)

lemma keeps_TruncateChunk: "keeps_leases L (TruncateChunk c sz L)"
  by (simp add: TruncateChunk_def keeps_leases_map split: option.split)

lemma keeps_CheckHibernating: "keeps_leases L (CheckHibernatingServersStatus now L)"
  by (rule keeps_leases_map) (simp add: CheckHibernatingServersStatus_def split: prod.split)

lemma map_of_purge_map:
  "map_of (purge_map p m) = (\<lambda>c. map_option (\<lambda>v. v\<lparr>chunkServers := filter (\<lambda>q. q \<noteq> p) (chunkServers v)\<rparr>) (map_of m c))"
  by (induction m) (auto simp: purge_map_def fun_eq_iff)

lemma keeps_ServerDown: "keeps_leases L (fst (ServerDown now p L w))"
proof -
  have "map fst (purge_map p m) = map fst m" for m
    by (simp add: purge_map_def case_prod_unfold comp_def)
  then have "keeps_leases L (L\<lparr>mChunkToServerMap := purge_map p (mChunkToServerMap L)\<rparr>)"
    by (auto simp: keeps_leases_def leases_def fun_eq_iff map_of_purge_map omap_inv_def option.map_comp comp_def)
  moreover have "mChunkToServerMap (fst (ServerDown now p L w)) =
      (if p \<in> set (mChunkServers L) then purge_map p (mChunkToServerMap L) else mChunkToServerMap L)"
    by (simp add: ServerDown_def Let_def split: prod.split)
  ultimately show ?thesis
    by (cases "p \<in> set (mChunkServers L)")
      (auto intro: keeps_leases_map keeps_leases_trans [OF _ keeps_leases_map])
qed

lemma keeps_RetireServer: "keeps_leases L (fst (RetireServer now loc downtime L))"
proof -
  have "mChunkToServerMap (fold (retire_entry p) m L) = mChunkToServerMap L" for p m and L :: LayoutManager
    by (induction m arbitrary: L) (auto simp: retire_entry_def)
  then show ?thesis by (intro keeps_leases_map) (auto simp: RetireServer_def Let_def split: option.split)
qed

lemma keeps_hello_chunk: "hello_chunk t p c L = Some (L', b) \<Longrightarrow> keeps_leases L L'"
proof -
  define L0 where "L0 = ChangeChunkReplication (hc_chunkId c) L"
  have 0: "keeps_leases L L0" by (simp add: L0_def keeps_leases_map)
  have 1: "keeps_leases L0 (fst (UpdateChunkToServerMapping (hc_chunkId c) p L0))"
    by (rule keeps_UpdateChunkToServerMapping)
  assume "hello_chunk t p c L = Some (L', b)"
  then have "L' = L \<or>
      mChunkToServerMap L' = mChunkToServerMap (fst (UpdateChunkToServerMapping (hc_chunkId c) p L0))"
    unfolding hello_chunk_def L0_def [symmetric] Let_def
    by (auto split: option.splits if_splits prod.splits)
  with 0 1 show ?thesis using keeps_leases_map keeps_leases_trans by blast
qed

lemma keeps_hello_chunks: "hello_chunks t p cs L = Some (L', ids) \<Longrightarrow> keeps_leases L L'"
proof (induction cs arbitrary: L ids)
  case (Cons c cs)
  then obtain L1 b ids' where "hello_chunk t p c L = Some (L1, b)"
    "hello_chunks t p cs (if b then L1\<lparr>mStaleChunkCount := mStaleChunkCount L1 + 1\<rparr> else L1) = Some (L', ids')"
    by (auto split: bind_splits if_splits)
  moreover have "keeps_leases L1 (if b then L1\<lparr>mStaleChunkCount := mStaleChunkCount L1 + 1\<rparr> else L1)"
    by (simp add: keeps_leases_map)
  ultimately show ?case
    by (intro keeps_leases_trans [OF keeps_leases_trans [OF keeps_hello_chunk] Cons.IH])
qed auto

lemma keeps_join_rack: "keeps_leases L (join_rack rid p L)"
  by (rule keeps_leases_map) (simp add: join_rack_def)

lemma keeps_admit_server: "keeps_leases L (admit_server now r stale L)"
  unfolding admit_server_def Let_def
  by (intro keeps_leases_trans [OF keeps_leases_trans [OF keeps_leases_map keeps_join_rack] keeps_CheckHibernating])
    simp

lemma keeps_AddNewServer:
  assumes "AddNewServer now t r L = Some L'"
  shows "keeps_leases L L'"
proof -
  have 0: "keeps_leases L (hello_attributes r L)"
    by (simp add: hello_attributes_def keeps_leases_map)
  from assms consider "L' = L" | "L' = hello_attributes r L" |
    L1 ids where "hello_chunks t (mh_server r) (mh_chunks r) (hello_attributes r L) = Some (L1, ids)"
      "L' = admit_server now r ids L1"
    by (auto simp: AddNewServer_def Let_def split: if_splits bind_splits)
  then show ?thesis
  proof cases
    case (3 L1 ids)
    then show ?thesis
      using keeps_leases_trans [OF 0 keeps_leases_trans [OF keeps_hello_chunks keeps_admit_server]] by simp
  qed (use 0 in simp_all)
qed


lemma IsCandidateServer_fields [simp]:
  "mChunkToServerMap (fst (IsCandidateServer p L)) = mChunkToServerMap L"
  "mLeaseId (fst (IsCandidateServer p L)) = mLeaseId L"
  "mChunkServers (fst (IsCandidateServer p L)) = mChunkServers L"
  "mRacks (fst (IsCandidateServer p L)) = mRacks L"
  by (simp_all add: IsCandidateServer_def split: prod.split)

lemma scan_candidates_fields [simp]:
  "mChunkToServerMap (fst (scan_candidates env ex rk cs L)) = mChunkToServerMap L"
  "mLeaseId (fst (scan_candidates env ex rk cs L)) = mLeaseId L"
  "mChunkServers (fst (scan_candidates env ex rk cs L)) = mChunkServers L"
  "mRacks (fst (scan_candidates env ex rk cs L)) = mRacks L"
proof -
  have "mChunkToServerMap (fst (scan_candidates env ex rk cs L)) = mChunkToServerMap L \<and>
    mLeaseId (fst (scan_candidates env ex rk cs L)) = mLeaseId L \<and>
    mChunkServers (fst (scan_candidates env ex rk cs L)) = mChunkServers L \<and>
    mRacks (fst (scan_candidates env ex rk cs L)) = mRacks L"
  proof (induction cs arbitrary: L)
    case (Cons c cs)
    then show ?case
      by (simp add: Let_def case_prod_unfold)
  qed simp
  then show "mChunkToServerMap (fst (scan_candidates env ex rk cs L)) = mChunkToServerMap L"
    "mLeaseId (fst (scan_candidates env ex rk cs L)) = mLeaseId L"
    "mChunkServers (fst (scan_candidates env ex rk cs L)) = mChunkServers L"
    "mRacks (fst (scan_candidates env ex rk cs L)) = mRacks L"
    by simp_all
qed

lemma FindCandidateServers_fields [simp]:
  "mChunkToServerMap (fst (FindCandidateServers env i ex rk L)) = mChunkToServerMap L"
  "mLeaseId (fst (FindCandidateServers env i ex rk L)) = mLeaseId L"
  "mChunkServers (fst (FindCandidateServers env i ex rk L)) = mChunkServers L"
  "mRacks (fst (FindCandidateServers env i ex rk L)) = mRacks L"
  by (simp_all add: FindCandidateServers_def FindCandidateServers_from_def case_prod_unfold Let_def
      split: option.split)

lemma fill_from_racks_fields [simp]:
  "mChunkToServerMap (fst (fill_from_racks env want per local idx rks servers L)) = mChunkToServerMap L"
  "mLeaseId (fst (fill_from_racks env want per local idx rks servers L)) = mLeaseId L"
  "mChunkServers (fst (fill_from_racks env want per local idx rks servers L)) = mChunkServers L"
proof -
  have "mChunkToServerMap (fst (fill_from_racks env want per local idx rks servers L)) = mChunkToServerMap L \<and>
    mLeaseId (fst (fill_from_racks env want per local idx rks servers L)) = mLeaseId L \<and>
    mChunkServers (fst (fill_from_racks env want per local idx rks servers L)) = mChunkServers L"
  proof (induction rks arbitrary: idx servers L)
    case (Cons rk rks)
    then show ?case by (simp add: Let_def case_prod_unfold)
  qed simp
  then show "mChunkToServerMap (fst (fill_from_racks env want per local idx rks servers L)) = mChunkToServerMap L"
    "mLeaseId (fst (fill_from_racks env want per local idx rks servers L)) = mLeaseId L"
    "mChunkServers (fst (fill_from_racks env want per local idx rks servers L)) = mChunkServers L"
    by simp_all
qed

lemma FindCandidateRacks_fields [simp]:
  "mChunkToServerMap (fst (FindCandidateRacks env ex L)) = mChunkToServerMap L"
  "mLeaseId (fst (FindCandidateRacks env ex L)) = mLeaseId L"
  "mChunkServers (fst (FindCandidateRacks env ex L)) = mChunkServers L"
  by (simp_all add: FindCandidateRacks_def Let_def)

lemma local_server_fields [simp]:
  "mChunkToServerMap (fst (local_server h L)) = mChunkToServerMap L"
  "mLeaseId (fst (local_server h L)) = mLeaseId L"
  "mChunkServers (fst (local_server h L)) = mChunkServers L"
  by (simp_all add: local_server_def case_prod_unfold Let_def split: option.split)

definition write_lease :: "int \<Rightarrow> LayoutManager \<Rightarrow> ChunkServerPtr list \<Rightarrow> LeaseInfo" where
  "write_lease now L ps = new_lease now WRITE_LEASE (mLeaseId L) (Some (hd ps))"

lemma AllocateChunk_result:
  assumes "AllocateChunk env a r L = Some (L', r', status)"
  shows "if status = 0
    then ma_servers r' \<noteq> [] \<and> ma_master r' = Some (hd (ma_servers r')) \<and> mLeaseId L' = mLeaseId L + 1 \<and>
      mChunkToServerMap L' = omap_put (ma_chunkId r)
        (new_ChunkPlacementInfo\<lparr>cp_fid := ma_fid r, chunkServers := ma_servers r',
           chunkLeases := [write_lease (env_now env) L (ma_servers r')]\<rparr>) (mChunkToServerMap L)
    else status \<in> {- EINVAL, - ENOSPC} \<and> r' = r \<and> mLeaseId L' = mLeaseId L \<and>
      mChunkToServerMap L' = mChunkToServerMap L"
  using assms
  by (auto simp: AllocateChunk_def Let_def case_prod_unfold write_lease_def split: if_splits)

lemma GetChunkReadLease_leases:
  assumes "GetChunkReadLease now c L = (L', status, i)"
  shows "if status = 0
    then \<not> InRecovery now L \<and> i = Some (mLeaseId L) \<and> mLeaseId L' = mLeaseId L + 1 \<and>
      (\<exists>v. placement L c = Some v \<and> mChunkToServerMap L' =
        omap_put c (v\<lparr>chunkLeases := chunkLeases v @ [new_lease now READ_LEASE (mLeaseId L) None]\<rparr>)
          (mChunkToServerMap L))
    else L' = L \<and> i = None \<and> status = (if InRecovery now L then - EBUSY else - EINVAL)"
  using assms
  by (auto simp: GetChunkReadLease_def Let_def new_lease_def split: if_splits option.splits)

text \<open>A new write lease is issued only when every lease on the chunk has run out.\<close>

lemma GetChunkWriteLease_result:
  assumes "GetChunkWriteLease now inc a r L = (L', r', status, new)"
  shows "case new of
      None \<Rightarrow> status \<noteq> 0 \<and> mLeaseId L' = mLeaseId L \<and> mChunkToServerMap L' = mChunkToServerMap L
    | Some False \<Rightarrow> status = 0 \<and> L' = L \<and>
        (\<exists>v l. placement L (ma_chunkId r) = Some v \<and> l \<in> set (chunkLeases v) \<and> IsValidWriteLease now l \<and>
          r' = r\<lparr>ma_servers := chunkServers v, ma_master := lease_server l\<rparr>)
    | Some True \<Rightarrow> status = 0 \<and> mLeaseId L' = mLeaseId L + 1 \<and>
        (\<exists>v. placement L (ma_chunkId r) = Some v \<and> chunkServers v \<noteq> [] \<and>
          (\<forall>l\<in>set (chunkLeases v). \<not> IsValidLease now l) \<and>
          r' = r\<lparr>ma_servers := chunkServers v, ma_master := Some (hd (chunkServers v)),
                 ma_chunkVersion := ma_chunkVersion r + inc\<rparr> \<and>
          mChunkToServerMap L' = omap_put (ma_chunkId r)
            (v\<lparr>chunkLeases := [write_lease now L (chunkServers v)]\<rparr>) (mChunkToServerMap L))"
proof -
  consider "InRecovery now L" | "\<not> InRecovery now L" "placement L (ma_chunkId r) = None"
    | v where "\<not> InRecovery now L" "placement L (ma_chunkId r) = Some v" "chunkServers v = []"
    | v l where "\<not> InRecovery now L" "placement L (ma_chunkId r) = Some v" "chunkServers v \<noteq> []"
        "List.find (IsValidWriteLease now) (chunkLeases v) = Some l"
    | v where "\<not> InRecovery now L" "placement L (ma_chunkId r) = Some v" "chunkServers v \<noteq> []"
        "List.find (IsValidWriteLease now) (chunkLeases v) = None" "list_ex (IsValidLease now) (chunkLeases v)"
    | v where "\<not> InRecovery now L" "placement L (ma_chunkId r) = Some v" "chunkServers v \<noteq> []"
        "List.find (IsValidWriteLease now) (chunkLeases v) = None" "\<not> list_ex (IsValidLease now) (chunkLeases v)"
    by (metis option.exhaust)
  then show ?thesis
  proof cases
    case (4 v l)
    then have "l \<in> set (chunkLeases v) \<and> IsValidWriteLease now l"
      by (auto simp: find_Some_iff in_set_conv_nth)
    with 4 assms show ?thesis by (auto simp: GetChunkWriteLease_def)
  next
    case (6 v)
    then have "\<forall>l\<in>set (chunkLeases v). \<not> IsValidLease now l" by (simp add: list_ex_iff)
    with 6 assms show ?thesis
      by (auto simp: GetChunkWriteLease_def LeaseCleanup_chunk_def Let_def case_prod_unfold
          write_lease_def split: if_splits)
  qed (use assms in \<open>auto simp: GetChunkWriteLease_def\<close>)
qed


section \<open>Reachable states\<close>

inductive lm_step :: "int \<Rightarrow> LayoutManager \<Rightarrow> LayoutManager \<Rightarrow> bool" where
  step_alloc: "AllocateChunk env a r L = Some (L', r', status) \<Longrightarrow> lm_step (env_now env) L L'"
| step_write: "GetChunkWriteLease now inc a r L = (L', r', status, new) \<Longrightarrow> lm_step now L L'"
| step_read: "GetChunkReadLease now c L = (L', status, i) \<Longrightarrow> lm_step now L L'"
| step_renew: "LeaseRenew now t c i L = (L', status) \<Longrightarrow> lm_step now L L'"
| step_cleanup: "lm_step now L (LeaseCleanup now L)"
| step_delete: "lm_step now L (DeleteChunk c L)"
| step_truncate: "lm_step now L (TruncateChunk c sz L)"
| step_corrupt: "lm_step now L (ChunkCorrupt fid c p L)"
| step_addmap: "AddChunkToServerMapping c fid p L = Some L' \<Longrightarrow> lm_step now L L'"
| step_removemap: "lm_step now L (RemoveChunkToServerMapping c L)"
| step_hello: "AddNewServer now t r L = Some L' \<Longrightarrow> lm_step now L L'"
| step_down: "lm_step now L (fst (ServerDown now p L w))"
| step_retire: "lm_step now L (fst (RetireServer now loc downtime L))"
| step_hibernating: "lm_step now L (CheckHibernatingServersStatus now L)"

inductive lm_reach :: "int \<Rightarrow> LayoutManager \<Rightarrow> bool" where
  reach_init: "lm_reach now (new_LayoutManager h)"
| reach_time: "lm_reach now L \<Longrightarrow> now \<le> now' \<Longrightarrow> lm_reach now' L"
| reach_step: "lm_reach now L \<Longrightarrow> lm_step now L L' \<Longrightarrow> lm_reach now L'"

definition ok_leases :: "int \<Rightarrow> LeaseInfo list \<Rightarrow> bool" where
  "ok_leases now ls \<longleftrightarrow>
     count_list (map leaseType ls) WRITE_LEASE \<le> 1 \<and> (\<forall>l\<in>set ls. expires l \<le> now + LEASE_INTERVAL_SECS)"

definition lease_inv :: "int \<Rightarrow> LayoutManager \<Rightarrow> bool" where
  "lease_inv now L \<longleftrightarrow>
     omap_inv (mChunkToServerMap L) \<and> (\<forall>c ls. leases L c = Some ls \<longrightarrow> ok_leases now ls)"

lemma lease_inv_keeps: "keeps_leases L L' \<Longrightarrow> lease_inv now L \<Longrightarrow> lease_inv now L'"
  by (auto simp: keeps_leases_def lease_inv_def)

lemma lease_inv_put:
  assumes "lease_inv now L" "mChunkToServerMap L' = omap_put c v (mChunkToServerMap L)"
    "ok_leases now (chunkLeases v)"
  shows "lease_inv now L'"
  using assms by (auto simp: lease_inv_def leases_def split: if_splits)

lemma lease_inv_erase:
  assumes "lease_inv now L" "mChunkToServerMap L' = omap_erase c (mChunkToServerMap L)"
  shows "lease_inv now L'"
  using assms by (auto simp: lease_inv_def leases_def split: if_splits)

lemma lease_inv_same: "lease_inv now L \<Longrightarrow> mChunkToServerMap L' = mChunkToServerMap L \<Longrightarrow> lease_inv now L'"
  by (simp add: lease_inv_def leases_def)

lemma ok_leases_single: "expires l \<le> now + LEASE_INTERVAL_SECS \<Longrightarrow> ok_leases now [l]"
  by (simp add: ok_leases_def)

lemma ok_leases_filter: "ok_leases now ls \<Longrightarrow> ok_leases now (filter P ls)"
proof -
  have "count_list (map leaseType (filter P ls)) t \<le> count_list (map leaseType ls) t" for t
    by (induction ls) auto
  then show "ok_leases now ls \<Longrightarrow> ok_leases now (filter P ls)"
    by (auto simp: ok_leases_def intro: le_trans)
qed

lemma map_update_first: "(\<And>x. g (f x) = g x) \<Longrightarrow> map g (update_first P f xs) = map g xs"
  by (induction xs) auto

lemma set_update_first: "y \<in> set (update_first P f xs) \<Longrightarrow> y \<in> set xs \<or> (\<exists>x\<in>set xs. P x \<and> y = f x)"
  by (induction xs) (auto split: if_splits)

lemma lease_inv_placement:
  "lease_inv now L \<Longrightarrow> placement L c = Some v \<Longrightarrow> ok_leases now (chunkLeases v)"
  by (auto simp: lease_inv_def leases_def)

lemma new_lease_expires [simp]: "expires (new_lease now t i p) = now + LEASE_INTERVAL_SECS"
  "leaseType (new_lease now t i p) = t" "leaseId (new_lease now t i p) = i"
  "lease_server (new_lease now t i p) = p"
  by (simp_all add: new_lease_def)

lemma LeaseRenew_inv:
  assumes "LeaseRenew now t c i L = (L', status)" "lease_inv now L"
  shows "lease_inv now L'"
proof (cases "placement L c")
  case None
  show ?thesis
  proof (cases "InRecovery now L")
    case True
    with None assms(1) show ?thesis
      by (intro lease_inv_put [OF assms(2), of _ c
            "new_ChunkPlacementInfo\<lparr>chunkLeases := [new_lease now t i None]\<rparr>"])
        (auto simp: LeaseRenew_def Let_def ok_leases_single)
  qed (use None assms in \<open>auto simp: LeaseRenew_def\<close>)
next
  case (Some v)
  let ?ls = "update_first (\<lambda>l. leaseId l = i) (\<lambda>l. l\<lparr>expires := now + LEASE_INTERVAL_SECS\<rparr>) (chunkLeases v)"
  have "ok_leases now ?ls"
    using lease_inv_placement [OF assms(2) Some]
    by (auto simp: ok_leases_def map_update_first dest!: set_update_first)
  then show ?thesis
    using assms Some lease_inv_put [OF assms(2), of _ c "v\<lparr>chunkLeases := ?ls\<rparr>"]
    by (auto simp: LeaseRenew_def split: option.splits if_splits)
qed

lemma GetChunkWriteLease_inv:
  assumes "GetChunkWriteLease now inc a r L = (L', r', status, new)" "lease_inv now L"
  shows "lease_inv now L'"
proof -
  note res = GetChunkWriteLease_result [OF assms(1)]
  consider "new = None" | "new = Some False" | "new = Some True" by (metis (full_types) option.exhaust)
  then show ?thesis
  proof cases
    case 3
    with res obtain v where "mChunkToServerMap L' = omap_put (ma_chunkId r)
        (v\<lparr>chunkLeases := [write_lease now L (chunkServers v)]\<rparr>) (mChunkToServerMap L)"
      by auto
    from lease_inv_put [OF assms(2) this] show ?thesis
      by (simp add: ok_leases_single write_lease_def)
  qed (use res assms(2) lease_inv_same in auto)
qed

lemma GetChunkReadLease_inv:
  assumes "GetChunkReadLease now c L = (L', status, i)" "lease_inv now L"
  shows "lease_inv now L'"
proof (cases "status = 0")
  case True
  with GetChunkReadLease_leases [OF assms(1)] obtain v where v: "placement L c = Some v"
    and m: "mChunkToServerMap L' = omap_put c (v\<lparr>chunkLeases := chunkLeases v @
        [new_lease now READ_LEASE (mLeaseId L) None]\<rparr>) (mChunkToServerMap L)"
    by auto
  have "ok_leases now (chunkLeases v @ [new_lease now READ_LEASE (mLeaseId L) None])"
    using lease_inv_placement [OF assms(2) v] by (auto simp: ok_leases_def)
  with lease_inv_put [OF assms(2) m] show ?thesis by simp
qed (use GetChunkReadLease_leases [OF assms(1)] assms(2) in auto)

lemma AllocateChunk_inv:
  assumes "AllocateChunk env a r L = Some (L', r', status)" "lease_inv (env_now env) L"
  shows "lease_inv (env_now env) L'"
  using AllocateChunk_result [OF assms(1)] lease_inv_put [OF assms(2)] lease_inv_same [OF assms(2)]
  by (auto simp: ok_leases_single write_lease_def split: if_splits)

lemma AddChunkToServerMapping_inv:
  assumes "AddChunkToServerMapping c fid p L = Some L'" "lease_inv now L"
  shows "lease_inv now L'"
proof (cases p)
  case None
  with assms show ?thesis
    by (auto simp: AddChunkToServerMapping_def new_ChunkPlacementInfo_def ok_leases_def
        intro!: lease_inv_put [OF assms(2)])
next
  case (Some q)
  have k: "lease_inv now (fst (UpdateChunkToServerMapping c q L))"
    by (rule lease_inv_keeps [OF keeps_UpdateChunkToServerMapping assms(2)])
  have "ok_leases now (chunkLeases (new_ChunkPlacementInfo\<lparr>cp_fid := fid, chunkServers := [q]\<rparr>))"
    by (simp add: new_ChunkPlacementInfo_def ok_leases_def)
  with lease_inv_put [OF k set_placement_fields(1)]
  have "lease_inv now (set_placement c (new_ChunkPlacementInfo\<lparr>cp_fid := fid, chunkServers := [q]\<rparr>)
      (fst (UpdateChunkToServerMapping c q L)))" .
  with k Some assms(1) show ?thesis
    by (auto simp: AddChunkToServerMapping_def case_prod_unfold Let_def split: if_splits)
qed

lemma lm_step_inv:
  assumes "lm_step now L L'" "lease_inv now L"
  shows "lease_inv now L'"
  using assms
proof (induction rule: lm_step.induct)
  case (step_alloc env a r L L' r' status)
  then show ?case by (rule AllocateChunk_inv)
next
  case (step_write now inc a r L L' r' status new)
  then show ?case by (rule GetChunkWriteLease_inv)
next
  case (step_read now c L L' status i)
  then show ?case by (rule GetChunkReadLease_inv)
next
  case (step_renew now t c i L L' status)
  then show ?case by (rule LeaseRenew_inv)
next
  case (step_cleanup now L)
  then have om: "omap_inv (mChunkToServerMap L)" by (simp add: lease_inv_def)
  then show ?case
    using lease_inv_placement [OF step_cleanup]
    by (auto simp: lease_inv_def leases_def LeaseCleanup_placement LeaseCleanup_omap_inv
        live_leases_def ok_leases_filter)
next
  case (step_delete now L c)
  then show ?case
    by (auto simp: DeleteChunk_def intro: lease_inv_erase split: option.split)
next
  case (step_addmap c fid p L L' now)
  then show ?case by (rule AddChunkToServerMapping_inv)
next
  case (step_removemap now L c)
  then show ?case
    by (auto simp: RemoveChunkToServerMapping_def intro: lease_inv_erase split: option.split)
next
  case (step_hello now t r L L')
  then show ?case using keeps_AddNewServer lease_inv_keeps by blast
qed (auto intro: lease_inv_keeps keeps_TruncateChunk keeps_ChunkCorrupt keeps_ServerDown
    keeps_RetireServer keeps_CheckHibernating)

lemma lm_reach_inv: "lm_reach now L \<Longrightarrow> lease_inv now L"
proof (induction rule: lm_reach.induct)
  case (reach_init now h)
  show ?case by (simp add: new_LayoutManager_def lease_inv_def leases_def omap_inv_def)
next
  case (reach_time now L now')
  then show ?case by (fastforce simp: lease_inv_def ok_leases_def)
next
  case (reach_step now L L')
  then show ?case using lm_step_inv by blast
qed


section \<open>A live write lease stays\<close>

text \<open>
  \<^verbatim>\<open>holds_lease L c i m e\<close>: chunk \<^verbatim>\<open>c\<close> has the write lease number \<^verbatim>\<open>i\<close> with master \<^verbatim>\<open>m\<close>, good until
  \<^verbatim>\<open>e\<close> at least. \<^verbatim>\<open>lease_step c\<close> are the operations that do not delete or reallocate chunk \<^verbatim>\<open>c\<close>
  itself.
\<close>

definition holds_lease ::
  "LayoutManager \<Rightarrow> chunkId_t \<Rightarrow> int \<Rightarrow> ChunkServerPtr option \<Rightarrow> int \<Rightarrow> bool" where
  "holds_lease L c i m e \<longleftrightarrow>
     (\<exists>ls. leases L c = Some ls \<and>
       (\<exists>l\<in>set ls. leaseType l = WRITE_LEASE \<and> leaseId l = i \<and> lease_server l = m \<and> e \<le> expires l))"

inductive lease_step :: "chunkId_t \<Rightarrow> int \<Rightarrow> LayoutManager \<Rightarrow> LayoutManager \<Rightarrow> bool" for c where
  ls_alloc: "AllocateChunk env a r L = Some (L', r', status) \<Longrightarrow> ma_chunkId r \<noteq> c \<Longrightarrow>
    lease_step c (env_now env) L L'"
| ls_write: "GetChunkWriteLease now inc a r L = (L', r', status, new) \<Longrightarrow> lease_step c now L L'"
| ls_read: "GetChunkReadLease now d L = (L', status, i) \<Longrightarrow> lease_step c now L L'"
| ls_renew: "LeaseRenew now t d i L = (L', status) \<Longrightarrow> lease_step c now L L'"
| ls_cleanup: "lease_step c now L (LeaseCleanup now L)"
| ls_delete: "d \<noteq> c \<Longrightarrow> lease_step c now L (DeleteChunk d L)"
| ls_truncate: "lease_step c now L (TruncateChunk d sz L)"
| ls_corrupt: "lease_step c now L (ChunkCorrupt fid d p L)"
| ls_hello: "AddNewServer now t r L = Some L' \<Longrightarrow> lease_step c now L L'"
| ls_down: "lease_step c now L (fst (ServerDown now p L w))"
| ls_retire: "lease_step c now L (fst (RetireServer now loc downtime L))"
| ls_hibernating: "lease_step c now L (CheckHibernatingServersStatus now L)"

inductive lease_run :: "chunkId_t \<Rightarrow> int \<Rightarrow> LayoutManager \<Rightarrow> int \<Rightarrow> LayoutManager \<Rightarrow> bool" for c where
  run_refl: "lease_run c now L now L"
| run_time: "lease_run c now L now' L' \<Longrightarrow> now' \<le> now'' \<Longrightarrow> lease_run c now L now'' L'"
| run_step: "lease_run c now L now' L' \<Longrightarrow> lease_step c now' L' L'' \<Longrightarrow> lease_run c now L now' L''"

lemma lease_step_lm_step: "lease_step c now L L' \<Longrightarrow> lm_step now L L'"
  by (induction rule: lease_step.induct) (auto intro: lm_step.intros)

lemma holds_keeps: "keeps_leases L L' \<Longrightarrow> holds_lease L c i m e \<Longrightarrow> holds_lease L' c i m e"
  by (simp add: keeps_leases_def holds_lease_def)

lemma holds_other:
  assumes "mChunkToServerMap L' = omap_put d v (mChunkToServerMap L)" "d \<noteq> c" "holds_lease L c i m e"
  shows "holds_lease L' c i m e"
  using assms by (simp add: holds_lease_def leases_def)

lemma holds_put:
  assumes "mChunkToServerMap L' = omap_put d v' (mChunkToServerMap L)" "placement L d = Some v"
    "\<And>l. l \<in> set (chunkLeases v) \<Longrightarrow> \<exists>l'\<in>set (chunkLeases v'). leaseType l' = leaseType l \<and>
      leaseId l' = leaseId l \<and> lease_server l' = lease_server l \<and> expires l \<le> expires l'"
    "holds_lease L c i m e"
  shows "holds_lease L' c i m e"
proof (cases "d = c")
  case True
  with assms(2,4) obtain l where "l \<in> set (chunkLeases v)" "leaseType l = WRITE_LEASE" "leaseId l = i"
      "lease_server l = m" "e \<le> expires l"
    by (auto simp: holds_lease_def leases_def)
  with assms(3) True assms(1) show ?thesis
    by (fastforce simp: holds_lease_def leases_def)
qed (use holds_other assms in blast)

lemma set_update_firstI: "x \<in> set xs \<Longrightarrow> x \<in> set (update_first P f xs) \<or> (P x \<and> f x \<in> set (update_first P f xs))"
  by (induction xs) auto

lemma lease_step_holds:
  assumes "lease_step c now L L'" "now < e" "holds_lease L c i m e" "lease_inv now L"
  shows "holds_lease L' c i m e"
  using assms
proof (induction rule: lease_step.induct)
  case (ls_alloc env a r L L' r' status)
  then show ?case
    using AllocateChunk_result [OF ls_alloc(1)] holds_other [OF _ ls_alloc(2) ls_alloc(4)]
      holds_keeps [OF keeps_leases_map ls_alloc(4)]
    by (cases "status = 0") auto
next
  case (ls_write now inc a r L L' r' status new)
  note res = GetChunkWriteLease_result [OF ls_write(1)]
  consider "new = None" | "new = Some False" | "new = Some True" by (metis (full_types) option.exhaust)
  then show ?case
  proof cases
    case 3
    with res obtain v where v: "placement L (ma_chunkId r) = Some v"
        "\<forall>l\<in>set (chunkLeases v). \<not> IsValidLease now l"
        "mChunkToServerMap L' = omap_put (ma_chunkId r)
          (v\<lparr>chunkLeases := [write_lease now L (chunkServers v)]\<rparr>) (mChunkToServerMap L)"
      by auto
    have "ma_chunkId r \<noteq> c"
      using v(1,2) ls_write(2,3) by (fastforce simp: holds_lease_def leases_def IsValidLease_def)
    with holds_other [OF v(3)] ls_write(3) show ?thesis by blast
  qed (use res ls_write holds_keeps [OF keeps_leases_map] in auto)
next
  case (ls_read now d L L' status j)
  show ?case
  proof (cases "status = 0")
    case True
    with GetChunkReadLease_leases [OF ls_read(1)] show ?thesis
      by (auto intro!: holds_put [OF _ _ _ ls_read(3)])
  qed (use GetChunkReadLease_leases [OF ls_read(1)] ls_read(3) in auto)
next
  case (ls_renew now t d j L L' status)
  show ?case
  proof (cases "placement L d")
    case None
    then have "d \<noteq> c" using ls_renew(3) by (auto simp: holds_lease_def leases_def)
    with None ls_renew holds_other [OF set_placement_fields(1)] holds_keeps [OF keeps_leases_map]
    show ?thesis
      by (force simp: LeaseRenew_def Let_def split: if_splits)
  next
    case (Some v)
    have "\<exists>l'\<in>set (update_first (\<lambda>l. leaseId l = j) (\<lambda>l. l\<lparr>expires := now + LEASE_INTERVAL_SECS\<rparr>)
          (chunkLeases v)). leaseType l' = leaseType l \<and> leaseId l' = leaseId l \<and>
          lease_server l' = lease_server l \<and> expires l \<le> expires l'"
      if "l \<in> set (chunkLeases v)" for l
    proof -
      let ?f = "\<lambda>l :: LeaseInfo. l\<lparr>expires := now + LEASE_INTERVAL_SECS\<rparr>"
      have "expires l \<le> expires (?f l)"
        using lease_inv_placement [OF ls_renew(4) Some] that by (simp add: ok_leases_def)
      with set_update_firstI [OF that, of "\<lambda>l. leaseId l = j" ?f] show ?thesis
        by (elim disjE) (auto intro: bexI [of _ l] bexI [of _ "?f l"])
    qed
    with Some ls_renew holds_put [OF set_placement_fields(1) Some] show ?thesis
      by (auto simp: LeaseRenew_def split: option.splits if_splits)
  qed
next
  case (ls_cleanup now L)
  then have "omap_inv (mChunkToServerMap L)" by (simp add: lease_inv_def)
  from LeaseCleanup_placement [OF this] ls_cleanup show ?case
    by (fastforce simp: holds_lease_def leases_def live_leases_def)
next
  case (ls_delete d now L)
  then show ?case
    by (auto simp: DeleteChunk_def holds_lease_def leases_def split: option.split)
next
  case (ls_hello now t r L L')
  then show ?case using keeps_AddNewServer holds_keeps by blast
qed (auto intro: holds_keeps keeps_TruncateChunk keeps_ChunkCorrupt keeps_ServerDown
    keeps_RetireServer keeps_CheckHibernating)

lemma lease_run_holds:
  assumes "lease_run c now L now' L'" "now' < e" "holds_lease L c i m e" "lease_inv now L"
  shows "holds_lease L' c i m e \<and> lease_inv now' L'"
  using assms
proof (induction rule: lease_run.induct)
  case (run_time now L now' L' now'')
  then have "holds_lease L' c i m e" "lease_inv now' L'" by auto
  with \<open>now' \<le> now''\<close> show ?case by (fastforce simp: lease_inv_def ok_leases_def)
next
  case (run_step now L now' L' L'')
  then show ?case using lease_step_holds lm_step_inv lease_step_lm_step by blast
qed auto

lemma writer_unique:
  assumes "count_list (map leaseType ls) WRITE_LEASE \<le> 1" "l \<in> set ls" "l' \<in> set ls"
    "leaseType l = WRITE_LEASE" "leaseType l' = WRITE_LEASE"
  shows "l = l'"
  using assms
proof (induction ls)
  case (Cons x ls)
  have "count_list (map leaseType ls) WRITE_LEASE \<noteq> 0" if "y \<in> set ls" "leaseType y = WRITE_LEASE" for y
    using that by (auto simp: count_list_0_iff intro: rev_image_eqI)
  with Cons show ?case by (fastforce split: if_splits)
qed simp

text \<open>While the lease is good, a client that asks for a write lease is sent to the same master.\<close>

lemma GetChunkWriteLease_live:
  assumes "holds_lease L c i m e" "now < e" "lease_inv now L"
    "GetChunkWriteLease now inc a r L = (L', r', status, new)" "ma_chunkId r = c"
  shows "new \<noteq> Some True \<and> (status = 0 \<longrightarrow> L' = L \<and> ma_master r' = m \<and> ma_chunkVersion r' = ma_chunkVersion r)"
proof -
  note res = GetChunkWriteLease_result [OF assms(4)]
  obtain v l where v: "placement L c = Some v" and l: "l \<in> set (chunkLeases v)" "leaseType l = WRITE_LEASE"
      "lease_server l = m" "e \<le> expires l"
    using assms(1) by (auto simp: holds_lease_def leases_def)
  have "IsValidLease now l" using l(4) assms(2) by (simp add: IsValidLease_def)
  with res v l(1) assms(5) have nt: "new \<noteq> Some True" by auto
  have "lease_server l' = m" if "l' \<in> set (chunkLeases v)" "IsValidWriteLease now l'" for l'
    using writer_unique [of "chunkLeases v" l l'] lease_inv_placement [OF assms(3) v] that l
    by (auto simp: ok_leases_def IsValidWriteLease_def)
  with nt res v assms(5) show ?thesis by (cases new) (auto split: bool.splits)
qed

section \<open>What leases promise\<close>

text \<open>A run of the layout manager for the witnesses: one server joins and gets one chunk.\<close>

definition sample_env :: "int \<Rightarrow> Env" where
  "sample_env now = \<lparr>env_now = now, fdiv = \<lambda>a b. 0, shuffle_racks = \<lambda>rs. rs, shuffle_servers = \<lambda>_ ps. ps\<rparr>"

definition sample_hello :: MetaHello where
  "sample_hello =
     \<lparr>mh_server = 0, mh_location = \<lparr>hostname = ''a'', port = 1\<rparr>, mh_totalSpace = 2 ^ 30, mh_usedSpace = 0,
      mh_rackId = 0, mh_chunks = []\<rparr>"

definition sample_request :: MetaAllocate where
  "sample_request =
     \<lparr>ma_fid = 5, ma_offset = 0, ma_chunkId = 7, ma_chunkVersion = 1, ma_clientHost = [], ma_numReplicas = 1,
      ma_layoutDone = False, ma_servers = [], ma_master = None, ma_numServerReplies = 0, ma_status = 0,
      ma_suspended = False\<rparr>"

definition sample_joined :: LayoutManager where
  "sample_joined = the (AddNewServer 0 [] sample_hello (new_LayoutManager (\<lambda>_. new_ChunkServer)))"

definition sample_layout :: LayoutManager where
  "sample_layout = fst (the (AllocateChunk (sample_env 0) 3 sample_request sample_joined))"

lemma sample_hello_ok:
  "AddNewServer 0 [] sample_hello (new_LayoutManager (\<lambda>_. new_ChunkServer)) = Some sample_joined"
proof -
  have "AddNewServer 0 [] sample_hello (new_LayoutManager (\<lambda>_. new_ChunkServer)) \<noteq> None" by code_simp
  then show ?thesis by (auto simp: sample_joined_def)
qed

lemma sample_allocate_ok:
  "\<exists>r. AllocateChunk (sample_env 0) 3 sample_request sample_joined = Some (sample_layout, r, 0)"
proof -
  let ?a = "AllocateChunk (sample_env 0) 3 sample_request sample_joined"
  have "map_option (\<lambda>(L, r, s). s) ?a = Some 0" by code_simp
  then show ?thesis by (auto simp: sample_layout_def)
qed

lemma sample_reach: "lm_reach 0 sample_layout"
proof -
  have "lm_reach 0 sample_joined"
    by (rule reach_step [OF reach_init step_hello]) (rule sample_hello_ok)
  moreover have "lm_step 0 sample_joined sample_layout"
    using sample_allocate_ok step_alloc [of "sample_env 0"] by (force simp: sample_env_def)
  ultimately show ?thesis by (rule reach_step)
qed

lemma sample_placement:
  "placement sample_layout 7 = Some (new_ChunkPlacementInfo\<lparr>cp_fid := 5, chunkServers := [0],
     chunkLeases := [new_lease 0 WRITE_LEASE 1 (Some 0)]\<rparr>)"
  by code_simp

text \<open>
  C1. In every state that the layout manager reaches, whatever the sequence of allocations, lease
  requests, renewals, clean-ups, deletions, hellos, failures and retirements: a chunk never has
  two write leases, and no lease outlives the present by more than the lease interval.
\<close>

theorem at_most_one_write_lease:
  assumes "lm_reach now L" "placement L c = Some v"
  shows "count_list (map leaseType (chunkLeases v)) WRITE_LEASE \<le> 1 \<and>
    (\<forall>l\<in>set (chunkLeases v). expires l \<le> now + LEASE_INTERVAL_SECS)"
  using lease_inv_placement [OF lm_reach_inv [OF assms(1)] assms(2)] by (simp add: ok_leases_def)

theorem at_most_one_write_lease_witness:
  "\<exists>v. placement sample_layout 7 = Some v \<and> chunkLeases v \<noteq> [] \<and>
     count_list (map leaseType (chunkLeases v)) WRITE_LEASE \<le> 1"
  using at_most_one_write_lease [OF sample_reach sample_placement] sample_placement by simp

text \<open>
  C5. Writers exclude each other in time. When a new write lease on a chunk has been granted and
  later, after any operations that neither delete nor reallocate that chunk, another one is
  granted, at least the lease interval has passed.
\<close>

theorem write_leases_exclusive:
  assumes "lm_reach now L" "GetChunkWriteLease now inc a r L = (L1, r1, status, Some True)"
    "lease_run (ma_chunkId r) now L1 now' L2" "ma_chunkId r' = ma_chunkId r"
    "GetChunkWriteLease now' inc' a' r' L2 = (L3, r3, status', Some True)"
  shows "now + LEASE_INTERVAL_SECS \<le> now'"
proof (rule ccontr)
  assume "\<not> ?thesis"
  then have less: "now' < now + LEASE_INTERVAL_SECS" by simp
  have inv: "lease_inv now L1"
    using lm_reach_inv [OF reach_step [OF assms(1) step_write [OF assms(2)]]] .
  from GetChunkWriteLease_result [OF assms(2)] obtain v where
    "mChunkToServerMap L1 = omap_put (ma_chunkId r)
      (v\<lparr>chunkLeases := [write_lease now L (chunkServers v)]\<rparr>) (mChunkToServerMap L)" by auto
  then have "holds_lease L1 (ma_chunkId r) (mLeaseId L) (Some (hd (chunkServers v))) (now + LEASE_INTERVAL_SECS)"
    by (simp add: holds_lease_def leases_def write_lease_def)
  from lease_run_holds [OF assms(3) less this inv]
  show False using GetChunkWriteLease_live [OF _ less _ assms(5,4)] by blast
qed

definition sample_later :: "LayoutManager \<times> MetaAllocate \<times> int \<times> bool option" where
  "sample_later = GetChunkWriteLease 61 1 3 sample_request sample_layout"

definition sample_last :: "LayoutManager \<times> MetaAllocate \<times> int \<times> bool option" where
  "sample_last = GetChunkWriteLease 122 1 4 sample_request (fst sample_later)"

theorem write_leases_exclusive_witness:
  "snd (snd (snd sample_later)) = Some True \<and> snd (snd (snd sample_last)) = Some True \<and>
   61 + LEASE_INTERVAL_SECS \<le> (122 :: int)"
proof -
  have a: "snd (snd (snd sample_later)) = Some True" by code_simp
  have b: "snd (snd (snd sample_last)) = Some True" by code_simp
  have r: "lm_reach 61 sample_layout" by (rule reach_time [OF sample_reach]) simp
  have "GetChunkWriteLease 61 1 3 sample_request sample_layout =
      (fst sample_later, fst (snd sample_later), fst (snd (snd sample_later)), Some True)"
    using a by (simp add: sample_later_def prod_eq_iff)
  moreover have "lease_run 7 61 (fst sample_later) 122 (fst sample_later)"
    by (rule run_time [OF run_refl]) simp
  moreover have "GetChunkWriteLease 122 1 4 sample_request (fst sample_later) =
      (fst sample_last, fst (snd sample_last), fst (snd (snd sample_last)), Some True)"
    using b by (simp add: sample_last_def prod_eq_iff)
  moreover have "ma_chunkId sample_request = 7" by (simp add: sample_request_def)
  ultimately show ?thesis using write_leases_exclusive [OF r] a b by metis
qed

text \<open>
  C19. While a write lease is good, it stays where it is: after any operations that neither delete
  nor reallocate the chunk, a client that asks to write it is never granted a new lease; when the
  call succeeds, the client is sent to the master that holds the lease, with the version of the
  chunk unchanged and no change of state.
\<close>

theorem live_lease_keeps_master:
  assumes "lm_reach now L" "holds_lease L c i m e" "lease_run c now L now' L'" "now' < e"
    "GetChunkWriteLease now' inc a r L' = (L'', r', status, new)" "ma_chunkId r = c"
  shows "holds_lease L' c i m e \<and> new \<noteq> Some True \<and>
    (status = 0 \<longrightarrow> L'' = L' \<and> ma_master r' = m \<and> ma_chunkVersion r' = ma_chunkVersion r)"
  using lease_run_holds [OF assms(3,4,2) lm_reach_inv [OF assms(1)]]
    GetChunkWriteLease_live [OF _ assms(4) _ assms(5,6)] by blast

theorem live_lease_keeps_master_witness:
  "\<exists>r'. GetChunkWriteLease 100 1 4 sample_request (fst sample_later) = (fst sample_later, r', 0, Some False) \<and>
     ma_master r' = Some 0 \<and> ma_chunkVersion r' = 1"
proof -
  have leases: "leases (fst sample_later) 7 = Some [new_lease 61 WRITE_LEASE 2 (Some 0)]" by code_simp
  then have h: "holds_lease (fst sample_later) 7 2 (Some 0) 121"
    by (simp add: holds_lease_def LEASE_INTERVAL_SECS_def)
  have "lm_step 61 sample_layout (fst sample_later)"
    using step_write [of 61 1 3 sample_request sample_layout] by (simp add: sample_later_def prod_eq_iff)
  then have reach: "lm_reach 61 (fst sample_later)"
    by (intro reach_step [OF reach_time [OF sample_reach]]) simp_all
  have run: "lease_run 7 61 (fst sample_later) 100 (fst sample_later)" by (rule run_time [OF run_refl]) simp
  let ?w = "GetChunkWriteLease 100 1 4 sample_request (fst sample_later)"
  have s: "snd (snd ?w) = (0, Some False)" by code_simp
  then have e: "?w = (fst ?w, fst (snd ?w), 0, Some False)" by (metis prod.collapse)
  from live_lease_keeps_master [OF reach h run _ e] show ?thesis
    using e by (auto simp: sample_request_def)
qed

text \<open>
  C25. A request for a write lease that does not succeed changes no lease and no lease number. A
  request that joins an existing lease changes nothing. A new lease is granted only when every
  lease on the chunk, for reading or writing, has run out, and then it replaces them all, goes to
  the first of the chunk's servers and raises the version of the chunk.
\<close>

theorem write_lease_cases:
  assumes "GetChunkWriteLease now inc a r L = (L', r', status, new)"
  shows "case new of
      None \<Rightarrow> status \<noteq> 0 \<and> mLeaseId L' = mLeaseId L \<and> mChunkToServerMap L' = mChunkToServerMap L
    | Some False \<Rightarrow> status = 0 \<and> L' = L \<and>
        (\<exists>v l. placement L (ma_chunkId r) = Some v \<and> l \<in> set (chunkLeases v) \<and> IsValidWriteLease now l \<and>
          r' = r\<lparr>ma_servers := chunkServers v, ma_master := lease_server l\<rparr>)
    | Some True \<Rightarrow> status = 0 \<and> mLeaseId L' = mLeaseId L + 1 \<and>
        (\<exists>v. placement L (ma_chunkId r) = Some v \<and> chunkServers v \<noteq> [] \<and>
          (\<forall>l\<in>set (chunkLeases v). \<not> IsValidLease now l) \<and>
          r' = r\<lparr>ma_servers := chunkServers v, ma_master := Some (hd (chunkServers v)),
                 ma_chunkVersion := ma_chunkVersion r + inc\<rparr> \<and>
          mChunkToServerMap L' = omap_put (ma_chunkId r)
            (v\<lparr>chunkLeases := [write_lease now L (chunkServers v)]\<rparr>) (mChunkToServerMap L))"
  using GetChunkWriteLease_result [OF assms] .

theorem write_lease_cases_witness:
  "\<exists>L' r'. GetChunkWriteLease 61 1 3 sample_request sample_layout = (L', r', 0, Some True) \<and>
     ma_chunkVersion r' = 2 \<and> ma_master r' = Some 0"
proof -
  have s: "snd (snd sample_later) = (0, Some True)" by code_simp
  obtain L' r' where "sample_later = (L', r', snd (snd sample_later))" by (metis prod.collapse)
  with s have e: "GetChunkWriteLease 61 1 3 sample_request sample_layout = (L', r', 0, Some True)"
    by (simp add: sample_later_def)
  from write_lease_cases [OF e] have "ma_chunkVersion r' = 2" "ma_master r' = Some 0"
    using sample_placement by (auto simp: sample_request_def)
  with e show ?thesis by blast
qed

text \<open>
  C32. The periodic clean-up drops from every chunk exactly the leases whose time has come, in a
  map in key order, and leaves servers, files and the other leases as they are.
\<close>

theorem lease_cleanup_exact:
  assumes "lm_reach t L"
  shows "placement (LeaseCleanup now L) c = map_option (live_leases now) (placement L c)"
  using LeaseCleanup_placement lm_reach_inv [OF assms] by (simp add: lease_inv_def)

theorem lease_cleanup_exact_witness:
  "placement (LeaseCleanup 60 sample_layout) 7 =
     Some (new_ChunkPlacementInfo\<lparr>cp_fid := 5, chunkServers := [0], chunkLeases := []\<rparr>)"
  using lease_cleanup_exact [OF sample_reach, of 60 7]
  by (simp add: sample_placement live_leases_def new_lease_def LEASE_INTERVAL_SECS_def)



end
