(* ===== verification/Meta_Ops.thy ===== *)
theory Meta_Ops
  imports Meta_Lease
begin

text \<open>
  The operations of src/src/cc/meta/kfsops.cc that change the name space. The state holds the
  metadata store, the two id generators, the chunk version increment, the counter of the
  dumpster and the layout manager. \<^verbatim>\<open>clk\<close> is the time of the call, for \<^verbatim>\<open>gettimeofday\<close> and \<^verbatim>\<open>time\<close>.
  An operation returns the new state and its status code, or \<^verbatim>\<open>None\<close> when the process aborts on
  an assert, a panic or a null pointer.
\<close>

record MetaState =
  metatree :: store
  fileID :: seq_t
  chunkID :: seq_t
  chunkVersionInc :: seq_t
  dumpster_counter :: int
  layout :: LayoutManager

definition DUMPSTERDIR :: string where
  "DUMPSTERDIR = ''dumpster''"

section \<open>Steps on the store\<close>

definition insert_meta :: "Meta \<Rightarrow> MetaState \<Rightarrow> MetaState" where
  "insert_meta m st = st\<lparr>metatree := store_insert m (metatree st)\<rparr>"

definition del_meta :: "Meta \<Rightarrow> MetaState \<Rightarrow> MetaState \<times> int" where
  "del_meta m st =
     (case store_del m (metatree st) of
        None \<Rightarrow> (st, -1)
      | Some t \<Rightarrow> (st\<lparr>metatree := t\<rparr>, 0))"

text \<open>\<^verbatim>\<open>del\<close> followed by \<^verbatim>\<open>assert(status == 0)\<close>.\<close>

definition del_assert :: "Meta \<Rightarrow> MetaState \<Rightarrow> MetaState option" where
  "del_assert m st = (let (st', status) = del_meta m st in assert_then (status = 0) (Some st'))"

fun on_fattr :: "(fattr \<Rightarrow> fattr) \<Rightarrow> Meta \<Rightarrow> Meta" where
  "on_fattr g (MetaFattr f) = MetaFattr (g f)"
| "on_fattr g m = m"

fun on_chunkinfo :: "(chunkinfo \<Rightarrow> chunkinfo) \<Rightarrow> Meta \<Rightarrow> Meta" where
  "on_chunkinfo g (MetaChunkInfo c) = MetaChunkInfo (g c)"
| "on_chunkinfo g m = m"

text \<open>Assignments through the pointers that \<^verbatim>\<open>getFattr\<close> and \<^verbatim>\<open>extractMeta\<close> returned.\<close>

definition set_fattr :: "fid_t \<Rightarrow> (fattr \<Rightarrow> fattr) \<Rightarrow> MetaState \<Rightarrow> MetaState" where
  "set_fattr fid g st =
     st\<lparr>metatree := store_update (Key KFS_FATTR fid 0) (on_fattr g) (metatree st)\<rparr>"

definition set_chunkinfo :: "fid_t \<Rightarrow> chunkOff_t \<Rightarrow> (chunkinfo \<Rightarrow> chunkinfo) \<Rightarrow> MetaState \<Rightarrow> MetaState" where
  "set_chunkinfo fid off g st =
     st\<lparr>metatree := store_update (Key KFS_CHUNKINFO fid off) (on_chunkinfo g) (metatree st)\<rparr>"

definition genid_file :: "MetaState \<Rightarrow> MetaState \<times> fid_t" where
  "genid_file st = (let n = fileID st + 1 in (st\<lparr>fileID := n\<rparr>, n))"

definition genid_chunk :: "MetaState \<Rightarrow> MetaState \<times> chunkId_t" where
  "genid_chunk st = (let n = chunkID st + 1 in (st\<lparr>chunkID := n\<rparr>, n))"

section \<open>Linking and unlinking\<close>

definition link :: "timeval \<Rightarrow> fid_t \<Rightarrow> string \<Rightarrow> FileType \<Rightarrow> fid_t \<Rightarrow> int \<Rightarrow> MetaState \<Rightarrow> (MetaState \<times> int) option" where
  "link clk dir fname type myID numReplicas st =
     assert_then (legalname fname)
       (let st1 = insert_meta (MetaDentry (new_dentry dir fname myID)) st in
        Some (if fname \<noteq> ''.'' \<and> fname \<noteq> ''..''
              then insert_meta (MetaFattr (new_fattr clk type myID numReplicas)) st1 else st1, 0))"

definition unlink :: "fid_t \<Rightarrow> string \<Rightarrow> fattr \<Rightarrow> bool \<Rightarrow> MetaState \<Rightarrow> MetaState option" where
  "unlink dir fname fa save_fa st =
     do { st1 \<leftarrow> del_assert (MetaDentry (new_dentry dir fname (fa_fid fa))) st;
          if save_fa then Some st1 else del_assert (MetaFattr fa) st1 }"

definition mkdir :: "timeval \<Rightarrow> fid_t \<Rightarrow> string \<Rightarrow> fid_t \<Rightarrow> MetaState \<Rightarrow> (MetaState \<times> int \<times> fid_t) option" where
  "mkdir clk dir dname newFid st =
     (if \<not> legalname dname \<and> dir \<noteq> ROOTFID \<and> dname \<noteq> ''/'' then Some (st, - EINVAL, newFid)
      else
        do { old \<leftarrow> lookup (metatree st) dir dname;
             if old \<noteq> None then Some (st, - EEXIST, newFid)
             else
               do { let (st1, myID) =
                      (if newFid = 0 then (if dname = ''/'' then (st, dir) else genid_file st)
                       else (st, newFid));
                    let st2 = insert_meta (MetaDentry (new_dentry dir dname myID)) st1;
                    let st3 = insert_meta (MetaFattr (new_fattr clk KFS_DIR myID 1)) st2;
                    (st4, s4) \<leftarrow> link clk myID ''.'' KFS_DIR myID 1 st3;
                    (st5, s5) \<leftarrow> assert_then (s4 = 0) (link clk myID ''..'' KFS_DIR dir 1 st4);
                    assert_then (s5 = 0) (Some (st5, 0, myID)) } })"

definition rmdir :: "fid_t \<Rightarrow> string \<Rightarrow> MetaState \<Rightarrow> (MetaState \<times> int) option" where
  "rmdir dir dname st =
     do { fa \<leftarrow> lookup (metatree st) dir dname;
          if dir = ROOTFID \<and> dname = DUMPSTERDIR then Some (st, - EPERM)
          else case fa of
              None \<Rightarrow> Some (st, - ENOENT)
            | Some fa \<Rightarrow>
                if fa_type fa \<noteq> KFS_DIR then Some (st, - ENOTDIR)
                else if dname = ''.'' \<or> dname = ''..'' then Some (st, - EPERM)
                else
                  do { empty \<leftarrow> emptydir (metatree st) (fa_fid fa);
                       if \<not> empty then Some (st, - ENOTEMPTY)
                       else
                         do { st1 \<leftarrow> unlink (fa_fid fa) ''.'' fa True st;
                              st2 \<leftarrow> unlink (fa_fid fa) ''..'' fa True st1;
                              st3 \<leftarrow> unlink dir dname fa False st2;
                              Some (st3, 0) } } }"

section \<open>Removing, renaming and the dumpster\<close>

text \<open>
  \<^verbatim>\<open>remove\<close> calls \<^verbatim>\<open>moveToDumpster\<close>, which calls \<^verbatim>\<open>rename\<close>, which calls \<^verbatim>\<open>remove\<close>. Each of the three is
  defined from the next one; \<^verbatim>\<open>remove_n\<close> ties the knot with a bound on the depth. A bound of two is
  enough: the inner \<^verbatim>\<open>remove\<close> works in the dumpster, and \<^verbatim>\<open>moveToDumpster\<close> refuses to go on from there.
\<close>

definition DeleteChunk_meta :: "chunkinfo \<Rightarrow> MetaState \<Rightarrow> MetaState option" where
  "DeleteChunk_meta c st =
     (let (st1, status) = del_meta (MetaChunkInfo c) st in
      assert_then (status = 0) (Some (st1\<lparr>layout := DeleteChunk (ci_chunkId c) (layout st1)\<rparr>)))"

fun delete_chunks :: "chunkinfo list \<Rightarrow> MetaState \<Rightarrow> MetaState option" where
  "delete_chunks [] st = Some st"
| "delete_chunks (c # cs) st = do { st1 \<leftarrow> DeleteChunk_meta c st; delete_chunks cs st1 }"

type_synonym mover = "fid_t \<Rightarrow> string \<Rightarrow> MetaState \<Rightarrow> (MetaState \<times> int) option"

definition remove_with :: "mover \<Rightarrow> timeval \<Rightarrow> fid_t \<Rightarrow> string \<Rightarrow> MetaState \<Rightarrow> (MetaState \<times> int) option" where
  "remove_with mv clk dir fname st =
     do { fa \<leftarrow> lookup (metatree st) dir fname;
          case fa of
            None \<Rightarrow> Some (st, - ENOENT)
          | Some fa \<Rightarrow>
              if fa_type fa \<noteq> KFS_FILE then Some (st, - EISDIR)
              else
                let chunkInfo = getalloc (metatree st) (fa_fid fa) in
                if 0 < fa_chunkcount fa
                then assert_then (fa_chunkcount fa = int (length chunkInfo))
                  (if IsValidLeaseIssued (tv_sec clk) (layout st) chunkInfo then mv dir fname st
                   else do { st1 \<leftarrow> delete_chunks chunkInfo st;
                             st2 \<leftarrow> unlink dir fname fa False st1;
                             Some (st2, 0) })
                else do { st2 \<leftarrow> unlink dir fname fa False st; Some (st2, 0) } }"

definition before_slash :: "string \<Rightarrow> string" where
  "before_slash path = rev (tl (dropWhile (\<lambda>c. c \<noteq> CHR ''/'') (rev path)))"

definition after_slash :: "string \<Rightarrow> string" where
  "after_slash path = rev (takeWhile (\<lambda>c. c \<noteq> CHR ''/'') (rev path))"

text \<open>The directory and name that the new name of \<^verbatim>\<open>rename\<close> stands for, or an error.\<close>

definition rename_target :: "store \<Rightarrow> fid_t \<Rightarrow> string \<Rightarrow> (int + fid_t \<times> string) option" where
  "rename_target s parent newname =
     (if CHR ''/'' \<notin> set newname then Some (Inr (parent, newname))
      else
        do { dd \<leftarrow> lookupPath s parent (before_slash newname);
             Some (case dd of
                 None \<Rightarrow> Inl (- ENOENT)
               | Some dd \<Rightarrow>
                   if fa_type dd \<noteq> KFS_DIR then Inl (- ENOTDIR)
                   else Inr (fa_fid dd, after_slash newname)) })"

text \<open>The end of \<^verbatim>\<open>rename\<close>, once the destination is free: the entry moves.\<close>

definition move_entry ::
  "timeval \<Rightarrow> dentry \<Rightarrow> fattr \<Rightarrow> fid_t \<Rightarrow> string \<Rightarrow> MetaState \<Rightarrow> (MetaState \<times> int) option" where
  "move_entry clk src sfattr ddir dname st =
     do { st1 \<leftarrow> (if fa_type sfattr = KFS_DIR then unlink (de_fid src) ''..'' sfattr True st else Some st);
          st2 \<leftarrow> del_assert (MetaDentry src) st1;
          let st3 = insert_meta (MetaDentry (new_dentry ddir dname (de_fid src))) st2;
          if fa_type sfattr = KFS_DIR
          then do { (st4, s4) \<leftarrow> link clk (de_fid src) ''..'' KFS_DIR ddir 1 st3;
                    assert_then (s4 = 0) (Some (st4, 0)) }
          else Some (st3, 0) }"

definition rename_with ::
  "mover \<Rightarrow> timeval \<Rightarrow> fid_t \<Rightarrow> string \<Rightarrow> string \<Rightarrow> bool \<Rightarrow> MetaState \<Rightarrow> (MetaState \<times> int) option" where
  "rename_with rm clk parent oldname newname overwrite st =
     do { src \<leftarrow> getDentry (metatree st) parent oldname;
          case src of
            None \<Rightarrow> Some (st, - ENOENT)
          | Some src \<Rightarrow>
              do { tgt \<leftarrow> rename_target (metatree st) parent newname;
                   case tgt of
                     Inl err \<Rightarrow> Some (st, err)
                   | Inr (ddir, dname) \<Rightarrow>
                       if \<not> legalname dname then Some (st, - EINVAL)
                       else if ddir = parent \<and> dname = oldname then Some (st, 0)
                       else
                         do { sf \<leftarrow> lookup (metatree st) parent oldname;
                              df \<leftarrow> lookup (metatree st) ddir dname;
                              case sf of
                                None \<Rightarrow> None
                              | Some sf \<Rightarrow>
                                  if \<not> overwrite \<and> df \<noteq> None then Some (st, - EEXIST)
                                  else if df \<noteq> None \<and> fa_type sf \<noteq> fa_type (the df)
                                  then Some (st, if fa_type sf = KFS_DIR then - ENOTDIR else - EISDIR)
                                  else
                                    do { full \<leftarrow> (if df \<noteq> None \<and> fa_type sf = KFS_DIR
                                                  then map_option Not (emptydir (metatree st) (fa_fid (the df)))
                                                  else Some False);
                                         if full then Some (st, - ENOTEMPTY)
                                         else
                                           do { loop \<leftarrow> (if fa_type sf = KFS_DIR
                                                         then is_descendant (metatree st) (fa_fid sf) ddir
                                                         else Some False);
                                                if loop then Some (st, - EINVAL)
                                                else
                                                  do { (st1, status) \<leftarrow>
                                                         (if df = None then Some (st, 0)
                                                          else if fa_type sf = KFS_DIR then rmdir ddir dname st
                                                          else rm ddir dname st);
                                                       if status \<noteq> 0 then Some (st1, status)
                                                       else move_entry clk src sf ddir dname st1 } } } } } }"

fun decimal_digits :: "nat \<Rightarrow> string" where
  "decimal_digits n =
     (if n < 10 then [char_of (n + 48)] else decimal_digits (n div 10) @ [char_of (n mod 10 + 48)])"

declare decimal_digits.simps [simp del]

text \<open>\<^verbatim>\<open>makeDumpsterDir\<close> ignores the status of \<^verbatim>\<open>mkdir\<close>.\<close>

definition makeDumpsterDir :: "timeval \<Rightarrow> MetaState \<Rightarrow> MetaState option" where
  "makeDumpsterDir clk st = map_option fst (mkdir clk ROOTFID DUMPSTERDIR 0 st)"

definition dumpster_name :: "string \<Rightarrow> int \<Rightarrow> string" where
  "dumpster_name fname n = ''/'' @ DUMPSTERDIR @ ''/'' @ fname @ decimal_digits (nat n)"

definition moveToDumpster_with ::
  "(fid_t \<Rightarrow> string \<Rightarrow> string \<Rightarrow> bool \<Rightarrow> MetaState \<Rightarrow> (MetaState \<times> int) option) \<Rightarrow>
   timeval \<Rightarrow> fid_t \<Rightarrow> string \<Rightarrow> MetaState \<Rightarrow> (MetaState \<times> int) option" where
  "moveToDumpster_with rn clk dir fname st =
     do { fa0 \<leftarrow> lookup (metatree st) ROOTFID DUMPSTERDIR;
          st1 \<leftarrow> (if fa0 = None then makeDumpsterDir clk st else Some st);
          fa \<leftarrow> lookup (metatree st1) ROOTFID DUMPSTERDIR;
          case fa of
            None \<Rightarrow> None
          | Some fa \<Rightarrow>
              if fa_fid fa = dir then Some (st1, - EEXIST)
              else rn dir fname (dumpster_name fname (dumpster_counter st1)) True
                     (st1\<lparr>dumpster_counter := (dumpster_counter st1 + 1) mod 2 ^ 64\<rparr>) }"

fun remove_n :: "nat \<Rightarrow> timeval \<Rightarrow> fid_t \<Rightarrow> string \<Rightarrow> MetaState \<Rightarrow> (MetaState \<times> int) option" where
  "remove_n 0 clk dir fname st = None"
| "remove_n (Suc n) clk dir fname st =
     remove_with (\<lambda>d f. moveToDumpster_with (rename_with (remove_n n clk) clk) clk d f) clk dir fname st"

definition remove :: "timeval \<Rightarrow> fid_t \<Rightarrow> string \<Rightarrow> MetaState \<Rightarrow> (MetaState \<times> int) option" where
  "remove clk = remove_n 2 clk"

definition rename :: "timeval \<Rightarrow> fid_t \<Rightarrow> string \<Rightarrow> string \<Rightarrow> bool \<Rightarrow> MetaState \<Rightarrow> (MetaState \<times> int) option" where
  "rename clk = rename_with (remove clk) clk"

definition moveToDumpster :: "timeval \<Rightarrow> fid_t \<Rightarrow> string \<Rightarrow> MetaState \<Rightarrow> (MetaState \<times> int) option" where
  "moveToDumpster clk = moveToDumpster_with (rename clk) clk"

text \<open>After making a missing dumpster, \<^verbatim>\<open>cleanupDumpster\<close> goes on with the null pointer.\<close>

fun remove_entries :: "timeval \<Rightarrow> fid_t \<Rightarrow> dentry list \<Rightarrow> MetaState \<Rightarrow> MetaState option" where
  "remove_entries clk dir [] st = Some st"
| "remove_entries clk dir (e # es) st =
     do { (st1, status) \<leftarrow> remove clk dir (de_name e) st; remove_entries clk dir es st1 }"

definition cleanupDumpster :: "timeval \<Rightarrow> MetaState \<Rightarrow> MetaState option" where
  "cleanupDumpster clk st =
     do { fa \<leftarrow> lookup (metatree st) ROOTFID DUMPSTERDIR;
          case fa of
            None \<Rightarrow> None
          | Some fa \<Rightarrow>
              do { (status, v) \<leftarrow> readdir (metatree st) (fa_fid fa);
                   remove_entries clk (fa_fid fa) v st } }"

definition emptyDumpsterDir :: "timeval \<Rightarrow> MetaState \<Rightarrow> MetaState option" where
  "emptyDumpsterDir clk st = do { st1 \<leftarrow> makeDumpsterDir clk st; cleanupDumpster clk st1 }"

section \<open>Files and chunks\<close>

definition create ::
  "timeval \<Rightarrow> fid_t \<Rightarrow> string \<Rightarrow> fid_t \<Rightarrow> int \<Rightarrow> bool \<Rightarrow> MetaState \<Rightarrow> (MetaState \<times> int \<times> fid_t) option" where
  "create clk dir fname newFid numReplicas exclusive st =
     (if \<not> legalname fname then Some (st, - EINVAL, newFid)
      else if numReplicas \<le> 0 then Some (st, - EINVAL, newFid)
      else
        do { fa \<leftarrow> lookup (metatree st) dir fname;
             if fa \<noteq> None \<and> fa_type (the fa) \<noteq> KFS_FILE then Some (st, - EISDIR, newFid)
             else if fa \<noteq> None \<and> exclusive then Some (st, - EEXIST, newFid)
             else
               do { (st1, status) \<leftarrow> (if fa = None then Some (st, 0) else remove clk dir fname st);
                    if status = - EBUSY then Some (st1, status, newFid)
                    else assert_then (status = 0)
                      (do { let (st2, fid) = (if newFid = 0 then genid_file st1 else (st1, newFid));
                            (st3, s3) \<leftarrow> link clk dir fname KFS_FILE fid numReplicas st2;
                            Some (st3, s3, fid) }) } })"

text \<open>\<^verbatim>\<open>numReplicas\<close> is an optional output; \<^verbatim>\<open>want\<close> says whether the caller passed a pointer.\<close>

definition allocateChunkId ::
  "bool \<Rightarrow> fid_t \<Rightarrow> chunkOff_t \<Rightarrow> chunkId_t \<Rightarrow> seq_t \<Rightarrow> MetaState \<Rightarrow>
   (MetaState \<times> int \<times> chunkId_t \<times> seq_t \<times> int option) option" where
  "allocateChunkId want file offset chunkId chunkVersion st =
     (case getFattr (metatree st) file of
        None \<Rightarrow> Some (st, - ENOENT, chunkId, chunkVersion, None)
      | Some fa \<Rightarrow>
          assert_then (want \<longrightarrow> fa_numReplicas fa \<noteq> 0)
            (assert_then ((word_of_int offset :: 64 word) mod CHUNKSIZE = 0)
              (let reps = (if want then Some (fa_numReplicas fa) else None) in
               case chunk_at (metatree st) file (chunkStartOffset offset) of
                 Some c \<Rightarrow> Some (st, - EEXIST, ci_chunkId c, ci_chunkVersion c, reps)
               | None \<Rightarrow>
                   if chunkId = 0
                   then let (st1, n) = genid_chunk st in Some (st1, 0, n, chunkVersionInc st1, reps)
                   else Some (st, 0, chunkId, chunkVersion, reps))))"

definition assignChunkId ::
  "timeval \<Rightarrow> fid_t \<Rightarrow> chunkOff_t \<Rightarrow> chunkId_t \<Rightarrow> seq_t \<Rightarrow> MetaState \<Rightarrow> MetaState \<times> int" where
  "assignChunkId clk file offset chunkId chunkVersion st =
     (let boundary = chunkStartOffset offset in
      case getFattr (metatree st) file of
        None \<Rightarrow> (st, - ENOENT)
      | Some fa \<Rightarrow>
          case chunk_at (metatree st) file boundary of
            Some c \<Rightarrow>
              if ci_chunkVersion c = chunkVersion then (st, - EEXIST)
              else (set_chunkinfo file boundary (\<lambda>c. c\<lparr>ci_chunkVersion := chunkVersion\<rparr>) st, 0)
          | None \<Rightarrow>
              (let st1 = insert_meta (MetaChunkInfo (new_chunkinfo file offset chunkId chunkVersion)) st in
               (set_fattr file (\<lambda>f. f\<lparr>fa_chunkcount := fa_chunkcount f + 1, fa_filesize := -1, fa_mtime := clk\<rparr>) st1, 0)))"

text \<open>
  \<^verbatim>\<open>truncate\<close>: the chunks are in order of offsets, so \<^verbatim>\<open>lower_bound\<close> is the first that is not below the
  last chunk to keep. A result of 1 asks the caller to allocate a chunk at the returned offset.
\<close>

definition truncate_tail ::
  "timeval \<Rightarrow> fid_t \<Rightarrow> chunkOff_t \<Rightarrow> chunkinfo list \<Rightarrow> MetaState \<Rightarrow> MetaState option" where
  "truncate_tail clk fid offset ms st =
     (let st1 = (if ci_offset (hd ms) \<le> offset
                 then st\<lparr>layout := TruncateChunk (ci_chunkId (hd ms)) (offset - ci_offset (hd ms)) (layout st)\<rparr>
                 else st);
          rest = (if ci_offset (hd ms) \<le> offset then tl ms else ms)
      in do { st2 \<leftarrow> delete_chunks rest st1;
              Some (set_fattr fid (\<lambda>f. f\<lparr>fa_chunkcount := fa_chunkcount f - int (length rest),
                                         fa_mtime := clk\<rparr>) st2) })"

definition truncate_file ::
  "timeval \<Rightarrow> fid_t \<Rightarrow> chunkOff_t \<Rightarrow> MetaState \<Rightarrow> (MetaState \<times> int \<times> chunkOff_t option) option" where
  "truncate_file clk file offset st =
     (case getFattr (metatree st) file of
        None \<Rightarrow> Some (st, - ENOENT, None)
      | Some fa \<Rightarrow>
          if fa_type fa \<noteq> KFS_FILE then Some (st, - EISDIR, None)
          else
            let chunkInfo = getalloc (metatree st) (fa_fid fa) in
            assert_then (fa_chunkcount fa = int (length chunkInfo))
              (let st1 = set_fattr (fa_fid fa) (\<lambda>f. f\<lparr>fa_filesize := -1\<rparr>) st;
                   lastStart = chunkStartOffset offset;
                   ms = dropWhile (\<lambda>c. ci_offset c < lastStart) chunkInfo
               in if ms = [] \<or> ci_offset (hd ms) \<noteq> lastStart then Some (st1, 1, Some lastStart)
                  else do { st2 \<leftarrow> truncate_tail clk (fa_fid fa) offset ms st1; Some (st2, 0, None) }))"

definition changeFileReplication :: "fid_t \<Rightarrow> int \<Rightarrow> MetaState \<Rightarrow> MetaState \<times> int" where
  "changeFileReplication fid numReplicas st =
     (case getFattr (metatree st) fid of
        None \<Rightarrow> (st, - ENOENT)
      | Some fa \<Rightarrow>
          let st1 = set_fattr fid (\<lambda>f. f\<lparr>fa_numReplicas := numReplicas\<rparr>) st;
              chunkInfo = getalloc (metatree st1) fid
          in (st1\<lparr>layout := fold (\<lambda>c. ChangeChunkReplication (ci_chunkId c)) chunkInfo (layout st1)\<rparr>, 0))"

definition initial_state :: "LayoutManager \<Rightarrow> MetaState" where
  "initial_state L =
     \<lparr>metatree = [], fileID = ROOTFID, chunkID = ROOTFID, chunkVersionInc = 0, dumpster_counter = 1,
      layout = L\<rparr>"

definition new_tree :: "timeval \<Rightarrow> MetaState \<Rightarrow> (MetaState \<times> int) option" where
  "new_tree clk st = map_option (\<lambda>(st', s, fid). (st', s)) (mkdir clk ROOTFID ''/'' 0 st)"

end
