(* ===== verification/Meta_Names.thy ===== *)
theory Meta_Names
  imports Meta_Ops
begin

text \<open>
  The store as a finite map. Items are identified by their key and, for directory entries, the
  name; in a store without duplicates insertion, deletion, assignment and every lookup of
  kfsops.cc are the corresponding operations on the map \<^verbatim>\<open>item\<close>. The name-space invariant is stated
  over this map.
\<close>

section \<open>Items by identity\<close>

type_synonym ident = "Key \<times> string"

fun ident :: "Meta \<Rightarrow> ident" where
  "ident (MetaDentry d) = (Key KFS_DENTRY (de_dir d) 0, de_name d)"
| "ident (MetaFattr f) = (Key KFS_FATTR (fa_fid f) 0, [])"
| "ident (MetaChunkInfo c) = (Key KFS_CHUNKINFO (ci_fid c) (ci_offset c), [])"

definition item :: "store \<Rightarrow> ident \<Rightarrow> Meta option" where
  "item s i = List.find (\<lambda>m. ident m = i) s"

definition uniq :: "store \<Rightarrow> bool" where
  "uniq s \<longleftrightarrow> distinct (map ident s)"

lemma fst_ident [simp]: "fst (ident m) = meta_key m"
  by (cases m) simp_all

lemma ident_match: "ident x = ident m \<longleftrightarrow> meta_key x = meta_key m \<and> meta_match m x"
  by (cases x; cases m) auto

lemma item_mem: "item s i = Some m \<Longrightarrow> m \<in> set s \<and> ident m = i"
  by (auto simp: item_def find_Some_iff in_set_conv_nth)

lemma item_eq_iff:
  assumes "uniq s"
  shows "item s i = Some m \<longleftrightarrow> m \<in> set s \<and> ident m = i"
proof
  assume m: "m \<in> set s \<and> ident m = i"
  from assms m show "item s i = Some m"
    by (induction s) (auto simp: item_def uniq_def)
qed (rule item_mem)

lemma item_ident [simp]: "uniq s \<Longrightarrow> m \<in> set s \<Longrightarrow> item s (ident m) = Some m"
  by (simp add: item_eq_iff)

lemma item_None_iff: "item s i = None \<longleftrightarrow> i \<notin> ident ` set s"
  by (auto simp: item_def find_None_iff)

lemma map_eqI:
  assumes "\<And>i m. f i = Some m \<longleftrightarrow> g i = Some m"
  shows "f = g"
proof
  fix i
  show "f i = g i" using assms [of i] by (metis option.exhaust)
qed

lemma mset_store_insert: "mset (store_insert m s) = add_mset m (mset s)"
proof -
  let ?P = "\<lambda>x. meta_key x < meta_key m"
  have "mset (takeWhile ?P s) + mset (dropWhile ?P s) = mset s"
    unfolding mset_append [symmetric] takeWhile_dropWhile_id ..
  then show ?thesis by (simp add: store_insert_def)
qed

lemma uniq_same: "uniq s \<Longrightarrow> x \<in> set s \<Longrightarrow> y \<in> set s \<Longrightarrow> ident x = ident y \<Longrightarrow> x = y"
  by (auto simp: uniq_def distinct_map inj_on_def)

lemma uniq_mset: "uniq s \<longleftrightarrow> uniq s'" if "mset s = mset s'"
  using that unfolding uniq_def by (metis mset_eq_imp_distinct_iff mset_map)

lemma uniq_Cons: "uniq (m # s) \<longleftrightarrow> item s (ident m) = None \<and> uniq s"
  by (auto simp: uniq_def item_None_iff)

lemma uniq_store_insert: "uniq (store_insert m s) \<longleftrightarrow> item s (ident m) = None \<and> uniq s"
  using uniq_mset [of "store_insert m s" "m # s"] by (simp add: mset_store_insert uniq_Cons)

lemma item_store_insert:
  assumes "uniq s" "item s (ident m) = None"
  shows "item (store_insert m s) = (item s)(ident m \<mapsto> m)"
proof
  have u: "uniq (store_insert m s)" using assms by (simp add: uniq_store_insert)
  fix i
  show "item (store_insert m s) i = ((item s)(ident m \<mapsto> m)) i"
  proof (cases "i = ident m")
    case True
    then show ?thesis using item_ident [OF u, of m] by simp
  next
    case False
    then show ?thesis
      using item_eq_iff [OF u, of i] item_eq_iff [OF assms(1), of i] item_None_iff [of s i]
        item_None_iff [of "store_insert m s" i]
      by (cases "item s i") auto
  qed
qed

lemma store_del_item:
  assumes "uniq s"
  shows "case item s (ident m) of
      None \<Rightarrow> store_del m s = None
    | Some x \<Rightarrow> store_del m s = Some (remove1 x s)"
  using assms
proof (induction s)
  case (Cons y s)
  show ?case
  proof (cases "ident y = ident m")
    case True
    then show ?thesis using ident_match [of y m] by (simp add: item_def)
  next
    case False
    then have "item (y # s) (ident m) = item s (ident m)" by (simp add: item_def)
    moreover have "x \<noteq> y" if "item s (ident m) = Some x" for x
      using item_mem [OF that] False by auto
    ultimately show ?thesis
      using Cons False ident_match [of y m] by (auto simp: uniq_Cons split: option.splits)
  qed
qed (simp add: item_def)

lemma item_remove1:
  assumes "uniq s" "item s (ident m) = Some x"
  shows "item (remove1 x s) = (item s)(ident m := None)" "uniq (remove1 x s)"
proof -
  have d: "distinct s" using assms(1) by (simp add: uniq_def distinct_map)
  have x: "x \<in> set s" "ident x = ident m" using item_mem [OF assms(2)] by auto
  show u: "uniq (remove1 x s)"
    using assms(1) by (auto simp: uniq_def distinct_map distinct_remove1 intro: inj_on_subset set_remove1_subset)
  show "item (remove1 x s) = (item s)(ident m := None)"
  proof (rule map_eqI)
    fix i z
    have "z = x" if "z \<in> set s" "ident z = ident m" using uniq_same [OF assms(1) that(1) x(1)] that x by simp
    then show "item (remove1 x s) i = Some z \<longleftrightarrow> ((item s)(ident m := None)) i = Some z"
      using item_eq_iff [OF u, of i z] item_eq_iff [OF assms(1), of i z] x d by auto
  qed
qed

lemma store_del_Some:
  assumes "uniq s" "item s (ident m) = Some x"
  obtains s' where "store_del m s = Some s'" "item s' = (item s)(ident m := None)" "uniq s'"
  using store_del_item [OF assms(1), of m] item_remove1 [OF assms] assms(2) that by simp

lemma store_update_item:
  assumes "uniq s" "exact k" "\<forall>m\<in>set s. exact (meta_key m)"
    "\<And>m. ident (g m) = ident m" "\<And>m. meta_key m = k \<Longrightarrow> ident m = (k, [])"
  shows "item (store_update k g s) = (item s)((k, []) := map_option g (item s (k, [])))"
    "uniq (store_update k g s)"
proof -
  have ids: "map ident (store_update k g s) = map ident s"
    by (induction s) (auto simp: assms(4))
  then show "uniq (store_update k g s)" using assms(1) by (simp add: uniq_def)
  show "item (store_update k g s) = (item s)((k, []) := map_option g (item s (k, [])))"
    using assms(1,3)
  proof (induction s)
    case (Cons x s)
    have eq: "key_eq k (meta_key x) \<longleftrightarrow> ident x = (k, [])"
      using key_eq_exact [OF assms(2), of "meta_key x"] Cons.prems(2) assms(5) [of x]
        fst_ident [of x] by (metis fst_conv list.set_intros(1))
    show ?case
    proof (cases "ident x = (k, [])")
      case True
      then show ?thesis using eq assms(4) [of x] by (simp add: item_def fun_eq_iff)
    next
      case False
      then have "item (store_update k g (x # s)) i = (if ident x = i then Some x else item (store_update k g s) i)" for i
        using eq by (simp add: item_def)
      moreover have "item (store_update k g s) = (item s)((k, []) := map_option g (item s (k, [])))"
        using Cons by (simp add: uniq_Cons fun_upd_def)
      ultimately show ?thesis using False by (auto simp: item_def fun_eq_iff)
    qed
  qed (simp add: item_def fun_eq_iff)
qed


section \<open>Views\<close>

text \<open>Attributes by file id, entries by directory and name, chunks by file and offset.\<close>

definition fattr_of :: "store \<Rightarrow> fid_t \<Rightarrow> fattr option" where
  "fattr_of s fid = Option.bind (item s (Key KFS_FATTR fid 0, [])) as_fattr"

definition entry_of :: "store \<Rightarrow> fid_t \<times> string \<Rightarrow> fid_t option" where
  "entry_of s p = map_option de_fid (Option.bind (item s (Key KFS_DENTRY (fst p) 0, snd p)) as_dentry)"

definition chunk_of :: "store \<Rightarrow> fid_t \<times> chunkOff_t \<Rightarrow> chunkinfo option" where
  "chunk_of s p = Option.bind (item s (Key KFS_CHUNKINFO (fst p) (snd p), [])) as_chunkinfo"

definition store_ok :: "store \<Rightarrow> bool" where
  "store_ok s \<longleftrightarrow> list_inv s \<and> uniq s"

lemma store_ok_uniq [simp]: "store_ok s \<Longrightarrow> uniq s"
  by (simp add: store_ok_def)

lemma dentry_eq: "d = new_dentry (de_dir d) (de_name d) (de_fid d)"
  by (simp add: new_dentry_def)

lemma new_dentry_sel [simp]:
  "de_dir (new_dentry dir n fid) = dir" "de_name (new_dentry dir n fid) = n" "de_fid (new_dentry dir n fid) = fid"
  by (simp_all add: new_dentry_def)

lemma new_fattr_sel [simp]:
  "fa_fid (new_fattr clk t fid n) = fid" "fa_type (new_fattr clk t fid n) = t"
  "fa_chunkcount (new_fattr clk t fid n) = 0" "fa_numReplicas (new_fattr clk t fid n) = n"
  by (simp_all add: new_fattr_def)

lemma new_chunkinfo_sel [simp]:
  "ci_fid (new_chunkinfo f off c v) = f" "ci_offset (new_chunkinfo f off c v) = off"
  "ci_chunkId (new_chunkinfo f off c v) = c" "ci_chunkVersion (new_chunkinfo f off c v) = v"
  by (simp_all add: new_chunkinfo_def)

lemma exact_zero [simp]: "exact (Key k a 0)"
  by (simp add: exact_def MATCH_ANY_def)

lemma fattr_of_iff:
  assumes "uniq s"
  shows "fattr_of s fid = Some f \<longleftrightarrow> MetaFattr f \<in> set s \<and> fa_fid f = fid"
proof -
  have "Option.bind x as_fattr = Some f \<longleftrightarrow> x = Some (MetaFattr f)" for x
    by (cases x) (auto elim: as_fattr.elims)
  then show ?thesis using item_eq_iff [OF assms] by (simp add: fattr_of_def)
qed

lemma entry_of_iff:
  assumes "uniq s"
  shows "entry_of s (dir, n) = Some fid \<longleftrightarrow> MetaDentry (new_dentry dir n fid) \<in> set s"
proof -
  have "Option.bind x as_dentry = Some d \<longleftrightarrow> x = Some (MetaDentry d)" for x d
    by (cases x) (auto elim: as_dentry.elims)
  then have "entry_of s (dir, n) = Some fid \<longleftrightarrow>
      (\<exists>d. MetaDentry d \<in> set s \<and> de_dir d = dir \<and> de_name d = n \<and> de_fid d = fid)"
    using item_eq_iff [OF assms] by (auto simp: entry_of_def)
  also have "\<dots> \<longleftrightarrow> MetaDentry (new_dentry dir n fid) \<in> set s"
    by (auto simp flip: dentry_eq)
  finally show ?thesis .
qed

lemma chunk_of_iff:
  assumes "uniq s"
  shows "chunk_of s (fid, off) = Some c \<longleftrightarrow> MetaChunkInfo c \<in> set s \<and> ci_fid c = fid \<and> ci_offset c = off"
proof -
  have "Option.bind x as_chunkinfo = Some c \<longleftrightarrow> x = Some (MetaChunkInfo c)" for x
    by (cases x) (auto elim: as_chunkinfo.elims)
  then show ?thesis using item_eq_iff [OF assms] by (simp add: chunk_of_def)
qed

lemma views_of_item:
  "item s' = item s \<Longrightarrow> fattr_of s' = fattr_of s \<and> entry_of s' = entry_of s \<and> chunk_of s' = chunk_of s"
  by (simp add: fattr_of_def entry_of_def chunk_of_def fun_eq_iff)

text \<open>The effect of the primitive steps on the views.\<close>

lemma views_put_dentry:
  assumes "item s' = (item s)(ident (MetaDentry d) := x)" "x = None \<or> x = Some (MetaDentry d)"
  shows "entry_of s' = (entry_of s)((de_dir d, de_name d) := map_option (\<lambda>_. de_fid d) x)"
    "fattr_of s' = fattr_of s" "chunk_of s' = chunk_of s"
  using assms by (auto simp: entry_of_def fattr_of_def chunk_of_def fun_eq_iff)

lemma views_put_fattr:
  assumes "item s' = (item s)((Key KFS_FATTR fid 0, []) := x)"
  shows "fattr_of s' = (fattr_of s)(fid := Option.bind x as_fattr)"
    "entry_of s' = entry_of s" "chunk_of s' = chunk_of s"
  using assms by (auto simp: entry_of_def fattr_of_def chunk_of_def fun_eq_iff)

lemma views_put_chunk:
  assumes "item s' = (item s)((Key KFS_CHUNKINFO fid off, []) := x)"
  shows "chunk_of s' = (chunk_of s)((fid, off) := Option.bind x as_chunkinfo)"
    "entry_of s' = entry_of s" "fattr_of s' = fattr_of s"
  using assms by (auto simp: entry_of_def fattr_of_def chunk_of_def fun_eq_iff)

lemma item_of_views:
  "uniq s \<Longrightarrow> item s (ident (MetaFattr f)) = None \<longleftrightarrow> fattr_of s (fa_fid f) = None"
  "uniq s \<Longrightarrow> item s (ident (MetaDentry d)) = None \<longleftrightarrow> entry_of s (de_dir d, de_name d) = None"
  "uniq s \<Longrightarrow> item s (ident (MetaChunkInfo c)) = None \<longleftrightarrow> chunk_of s (ci_fid c, ci_offset c) = None"
proof -
  assume u: "uniq s"
  have f: "\<exists>f'. m = MetaFattr f'" if "item s (ident (MetaFattr f)) = Some m" for m
    using item_mem [OF that] by (cases m) auto
  have d: "\<exists>d'. m = MetaDentry d'" if "item s (ident (MetaDentry d)) = Some m" for m
    using item_mem [OF that] by (cases m) auto
  have c: "\<exists>c'. m = MetaChunkInfo c'" if "item s (ident (MetaChunkInfo c)) = Some m" for m
    using item_mem [OF that] by (cases m) auto
  show "item s (ident (MetaFattr f)) = None \<longleftrightarrow> fattr_of s (fa_fid f) = None"
    using f by (cases "item s (ident (MetaFattr f))") (auto simp: fattr_of_def)
  show "item s (ident (MetaDentry d)) = None \<longleftrightarrow> entry_of s (de_dir d, de_name d) = None"
    using d by (cases "item s (ident (MetaDentry d))") (auto simp: entry_of_def)
  show "item s (ident (MetaChunkInfo c)) = None \<longleftrightarrow> chunk_of s (ci_fid c, ci_offset c) = None"
    using c by (cases "item s (ident (MetaChunkInfo c))") (auto simp: chunk_of_def)
qed

lemma store_ok_insert:
  "store_ok s \<Longrightarrow> item s (ident m) = None \<Longrightarrow> exact (meta_key m) \<Longrightarrow> store_ok (store_insert m s)"
  by (simp add: store_ok_def uniq_store_insert list_inv_def store_insert_sorted)

lemma insert_dentry_views:
  assumes "store_ok s" "entry_of s (de_dir d, de_name d) = None"
  shows "store_ok (store_insert (MetaDentry d) s)"
    "entry_of (store_insert (MetaDentry d) s) = (entry_of s)((de_dir d, de_name d) \<mapsto> de_fid d)"
    "fattr_of (store_insert (MetaDentry d) s) = fattr_of s"
    "chunk_of (store_insert (MetaDentry d) s) = chunk_of s"
proof -
  have i: "item s (ident (MetaDentry d)) = None" using assms item_of_views(2) by simp
  show "store_ok (store_insert (MetaDentry d) s)"
    using store_ok_insert [OF assms(1) i] by simp
  from item_store_insert [OF _ i] assms(1)
  have "item (store_insert (MetaDentry d) s) = (item s)(ident (MetaDentry d) := Some (MetaDentry d))" by simp
  from views_put_dentry [OF this] show
    "entry_of (store_insert (MetaDentry d) s) = (entry_of s)((de_dir d, de_name d) \<mapsto> de_fid d)"
    "fattr_of (store_insert (MetaDentry d) s) = fattr_of s"
    "chunk_of (store_insert (MetaDentry d) s) = chunk_of s" by simp_all
qed

lemma insert_fattr_views:
  assumes "store_ok s" "fattr_of s (fa_fid f) = None"
  shows "store_ok (store_insert (MetaFattr f) s)"
    "fattr_of (store_insert (MetaFattr f) s) = (fattr_of s)(fa_fid f \<mapsto> f)"
    "entry_of (store_insert (MetaFattr f) s) = entry_of s"
    "chunk_of (store_insert (MetaFattr f) s) = chunk_of s"
proof -
  have i: "item s (ident (MetaFattr f)) = None" using assms item_of_views(1) by simp
  show "store_ok (store_insert (MetaFattr f) s)"
    using store_ok_insert [OF assms(1) i] by simp
  from item_store_insert [OF _ i] assms(1)
  have "item (store_insert (MetaFattr f) s) = (item s)((Key KFS_FATTR (fa_fid f) 0, []) := Some (MetaFattr f))"
    by simp
  from views_put_fattr [OF this] show
    "fattr_of (store_insert (MetaFattr f) s) = (fattr_of s)(fa_fid f \<mapsto> f)"
    "entry_of (store_insert (MetaFattr f) s) = entry_of s"
    "chunk_of (store_insert (MetaFattr f) s) = chunk_of s" by simp_all
qed

lemma insert_chunk_views:
  assumes "store_ok s" "chunk_of s (ci_fid c, ci_offset c) = None" "ci_offset c \<noteq> MATCH_ANY"
  shows "store_ok (store_insert (MetaChunkInfo c) s)"
    "chunk_of (store_insert (MetaChunkInfo c) s) = (chunk_of s)((ci_fid c, ci_offset c) \<mapsto> c)"
    "entry_of (store_insert (MetaChunkInfo c) s) = entry_of s"
    "fattr_of (store_insert (MetaChunkInfo c) s) = fattr_of s"
proof -
  have i: "item s (ident (MetaChunkInfo c)) = None" using assms item_of_views(3) by simp
  show "store_ok (store_insert (MetaChunkInfo c) s)"
    using store_ok_insert [OF assms(1) i] assms(3) by (simp add: exact_def)
  from item_store_insert [OF _ i] assms(1)
  have "item (store_insert (MetaChunkInfo c) s) =
      (item s)((Key KFS_CHUNKINFO (ci_fid c) (ci_offset c), []) := Some (MetaChunkInfo c))" by simp
  from views_put_chunk [OF this] show
    "chunk_of (store_insert (MetaChunkInfo c) s) = (chunk_of s)((ci_fid c, ci_offset c) \<mapsto> c)"
    "entry_of (store_insert (MetaChunkInfo c) s) = entry_of s"
    "fattr_of (store_insert (MetaChunkInfo c) s) = fattr_of s" by simp_all
qed

lemma store_del_ok:
  assumes "store_ok s" "item s (ident m) \<noteq> None"
  obtains s' where "store_del m s = Some s'" "item s' = (item s)(ident m := None)" "store_ok s'"
proof -
  obtain x where "item s (ident m) = Some x" using assms(2) by auto
  from store_del_Some [OF _ this] assms(1) obtain s' where
    s': "store_del m s = Some s'" "item s' = (item s)(ident m := None)" "uniq s'"
    by auto
  with that store_del_sorted [OF s'(1)] assms(1) show ?thesis by (simp add: store_ok_def)
qed

lemma del_dentry_views:
  assumes "store_ok s" "entry_of s (de_dir d, de_name d) \<noteq> None"
  obtains s' where "store_del (MetaDentry d) s = Some s'" "store_ok s'"
    "entry_of s' = (entry_of s)((de_dir d, de_name d) := None)" "fattr_of s' = fattr_of s" "chunk_of s' = chunk_of s"
proof -
  have "item s (ident (MetaDentry d)) \<noteq> None" using assms item_of_views(2) by simp
  from store_del_ok [OF assms(1) this] obtain s' where
    s': "store_del (MetaDentry d) s = Some s'" "item s' = (item s)(ident (MetaDentry d) := None)" "store_ok s'"
    by blast
  from views_put_dentry [OF s'(2)] that s' show ?thesis by simp
qed

lemma del_fattr_views:
  assumes "store_ok s" "fattr_of s (fa_fid f) \<noteq> None"
  obtains s' where "store_del (MetaFattr f) s = Some s'" "store_ok s'"
    "fattr_of s' = (fattr_of s)(fa_fid f := None)" "entry_of s' = entry_of s" "chunk_of s' = chunk_of s"
proof -
  have "item s (ident (MetaFattr f)) \<noteq> None" using assms item_of_views(1) by simp
  from store_del_ok [OF assms(1) this] obtain s' where
    s': "store_del (MetaFattr f) s = Some s'" "item s' = (item s)(ident (MetaFattr f) := None)" "store_ok s'"
    by blast
  from views_put_fattr [OF s'(2) [unfolded ident.simps]] that s' show ?thesis by simp
qed

lemma del_chunk_views:
  assumes "store_ok s" "chunk_of s (ci_fid c, ci_offset c) \<noteq> None"
  obtains s' where "store_del (MetaChunkInfo c) s = Some s'" "store_ok s'"
    "chunk_of s' = (chunk_of s)((ci_fid c, ci_offset c) := None)" "entry_of s' = entry_of s" "fattr_of s' = fattr_of s"
proof -
  have "item s (ident (MetaChunkInfo c)) \<noteq> None" using assms item_of_views(3) by simp
  from store_del_ok [OF assms(1) this] obtain s' where
    s': "store_del (MetaChunkInfo c) s = Some s'" "item s' = (item s)(ident (MetaChunkInfo c) := None)" "store_ok s'"
    by blast
  from views_put_chunk [OF s'(2) [unfolded ident.simps]] that s' show ?thesis by simp
qed

end
