(* ===== verification/Meta_Namespace.thy ===== *)
theory Meta_Namespace
  imports Meta_Names
begin

text \<open>
  The name space as three finite maps (attributes by file id, entries by directory and name,
  chunks by file and offset), its invariant, and for each operation of kfsops.cc what it does to
  the maps. The lookups of kfsops.cc never fail an assert in a store that satisfies the invariant.
\<close>

section \<open>Lookups read the views\<close>

lemma find_filter: "List.find P xs = (case filter P xs of [] \<Rightarrow> None | x # _ \<Rightarrow> Some x)"
  by (induction xs) auto

lemma store_find_exact:
  assumes "list_inv s" "exact k"
  shows "store_find k s = filter (\<lambda>m. meta_key m = k) s"
  unfolding store_find_def
  by (rule filter_cong) (use assms key_eq_exact [OF assms(2)] in \<open>auto simp: list_inv_def\<close>)

lemma first_item:
  assumes "store_ok s" "exact k" "\<And>m. meta_key m = k \<longleftrightarrow> ident m = (k, [])"
  shows "(case store_find k s of [] \<Rightarrow> None | m # _ \<Rightarrow> g m) = Option.bind (item s (k, [])) g"
  using assms store_find_exact [of s k]
  by (auto simp: item_def find_filter store_ok_def split: list.split)

lemma getFattr_view: "store_ok s \<Longrightarrow> getFattr s fid = fattr_of s fid"
proof -
  have "meta_key m = Key KFS_FATTR fid 0 \<longleftrightarrow> ident m = (Key KFS_FATTR fid 0, [])" for m
    by (cases m) auto
  then show "store_ok s \<Longrightarrow> getFattr s fid = fattr_of s fid"
    by (simp add: getFattr_def fattr_of_def first_item)
qed

lemma chunk_at_view: "store_ok s \<Longrightarrow> off \<noteq> MATCH_ANY \<Longrightarrow> chunk_at s fid off = chunk_of s (fid, off)"
proof -
  have "meta_key m = Key KFS_CHUNKINFO fid off \<longleftrightarrow> ident m = (Key KFS_CHUNKINFO fid off, [])" for m
    by (cases m) auto
  then show "store_ok s \<Longrightarrow> off \<noteq> MATCH_ANY \<Longrightarrow> chunk_at s fid off = chunk_of s (fid, off)"
    by (simp add: chunk_at_def chunk_of_def first_item exact_def)
qed

definition dir_list :: "store \<Rightarrow> fid_t \<Rightarrow> dentry list" where
  "dir_list s dir = List.map_filter as_dentry (store_find (Key KFS_DENTRY dir 0) s)"

lemma map_filter_as_dentry:
  "List.map_filter as_dentry (filter (\<lambda>m. meta_key m = Key KFS_DENTRY dir 0) s) =
   filter (\<lambda>d. de_dir d = dir) (List.map_filter as_dentry s)"
proof (induction s)
  case (Cons m s)
  then show ?case by (cases m) (simp_all add: map_filter_simps)
qed (simp add: map_filter_simps)

lemma set_map_filter: "set (List.map_filter f xs) = {y. \<exists>x\<in>set xs. f x = Some y}"
  by (induction xs) (auto simp: map_filter_simps split: option.splits)

lemma dir_list_eq:
  "store_ok s \<Longrightarrow> dir_list s dir = filter (\<lambda>d. de_dir d = dir) (List.map_filter as_dentry s)"
  by (simp add: dir_list_def store_ok_def store_find_exact map_filter_as_dentry)

lemma set_dir_list:
  assumes "store_ok s"
  shows "d \<in> set (dir_list s dir) \<longleftrightarrow> de_dir d = dir \<and> entry_of s (dir, de_name d) = Some (de_fid d)"
proof -
  have "d \<in> set (List.map_filter as_dentry s) \<longleftrightarrow> MetaDentry d \<in> set s"
    by (auto simp: set_map_filter elim: as_dentry.elims intro: bexI [of _ "MetaDentry d"])
  then show ?thesis
    using assms by (auto simp: dir_list_eq entry_of_iff simp flip: dentry_eq)
qed

lemma distinct_dir_list: "store_ok s \<Longrightarrow> distinct (map de_name (dir_list s dir))"
proof -
  assume ok: "store_ok s"
  have "distinct (map ident (map MetaDentry (List.map_filter as_dentry s)))"
    if "distinct (map ident s)" for s :: store
    using that
  proof (induction s)
    case (Cons m s)
    then show ?case
      by (cases m) (auto simp: map_filter_simps set_map_filter image_iff elim!: as_dentry.elims
        dest: bspec [of _ _ "MetaDentry _"])
  qed (simp add: map_filter_simps)
  then have "distinct (map (\<lambda>d. (de_dir d, de_name d)) (List.map_filter as_dentry s))"
    using ok by (auto simp: store_ok_def uniq_def distinct_map inj_on_def comp_def)
  then show "distinct (map de_name (dir_list s dir))"
    using ok by (auto simp: dir_list_eq distinct_map inj_on_def)
qed

definition names_in :: "store \<Rightarrow> fid_t \<Rightarrow> string set" where
  "names_in s dir = {n. entry_of s (dir, n) \<noteq> None}"

lemma names_dir_list: "store_ok s \<Longrightarrow> names_in s dir = set (map de_name (dir_list s dir))"
proof -
  assume ok: "store_ok s"
  have "n \<in> set (map de_name (dir_list s dir))" if "entry_of s (dir, n) = Some f" for n f
    using set_dir_list [OF ok, of "new_dentry dir n f" dir] that by (force intro: rev_image_eqI)
  then show ?thesis using set_dir_list [OF ok] by (auto simp: names_in_def)
qed

lemma finite_names_in: "store_ok s \<Longrightarrow> finite (names_in s dir)"
  by (simp add: names_dir_list)

lemma card_dir_list: "store_ok s \<Longrightarrow> length (dir_list s dir) = card (names_in s dir)"
  using distinct_card [OF distinct_dir_list, of s dir] by (simp add: names_dir_list)

lemma dir_list_Nil: "store_ok s \<Longrightarrow> dir_list s dir = [] \<longleftrightarrow> names_in s dir = {}"
  by (simp add: names_dir_list)

lemma find_dir_list:
  assumes "store_ok s"
  shows "List.find (\<lambda>d. de_name d = n) (dir_list s dir) = map_option (new_dentry dir n) (entry_of s (dir, n))"
proof (cases "entry_of s (dir, n)")
  case None
  then show ?thesis using set_dir_list [OF assms] by (auto simp: find_None_iff)
next
  case (Some f)
  have "List.find (\<lambda>d. de_name d = de_name x) ds = Some x" if "x \<in> set ds" "distinct (map de_name ds)" for x ds
    using that by (induction ds) auto
  from this [of "new_dentry dir n f" "dir_list s dir"] show ?thesis
    using Some set_dir_list [OF assms, of "new_dentry dir n f" dir] distinct_dir_list [OF assms, of dir] by simp
qed

text \<open>A directory is sane when it has no entries at all or both of the dot entries.\<close>

definition dots_ok :: "(fid_t \<times> string \<Rightarrow> fid_t option) \<Rightarrow> fid_t \<Rightarrow> bool" where
  "dots_ok en dir \<longleftrightarrow> (\<forall>n. en (dir, n) = None) \<or> (en (dir, ''.'') \<noteq> None \<and> en (dir, ''..'') \<noteq> None)"

lemma readdir_view:
  assumes "store_ok s" "dots_ok (entry_of s) dir"
  shows "readdir s dir = Some (if dir_list s dir = [] then (- ENOENT, []) else (0, dir_list s dir))"
proof -
  have "2 \<le> length (dir_list s dir)" if "dir_list s dir \<noteq> []"
  proof -
    have "{''.'', ''..''} \<subseteq> names_in s dir"
      using assms(2) that dir_list_Nil [OF assms(1)] by (auto simp: dots_ok_def names_in_def)
    from card_mono [OF finite_names_in [OF assms(1)] this] show ?thesis
      using card_dir_list [OF assms(1)] by simp
  qed
  then show ?thesis by (auto simp: readdir_def Let_def assert_then_def simp flip: dir_list_def)
qed

lemma getDentry_view:
  assumes "store_ok s" "dots_ok (entry_of s) dir"
  shows "getDentry s dir n = Some (map_option (new_dentry dir n) (entry_of s (dir, n)))"
  using readdir_view [OF assms] find_dir_list [OF assms(1), of n dir]
  by (cases "dir_list s dir = []") (simp_all add: getDentry_def)

lemma lookup_view:
  assumes "store_ok s" "dots_ok (entry_of s) dir"
    "\<And>f. entry_of s (dir, n) = Some f \<Longrightarrow> fattr_of s f \<noteq> None"
  shows "lookup s dir n = Some (Option.bind (entry_of s (dir, n)) (fattr_of s))"
  using assms getDentry_view [OF assms(1,2)]
  by (cases "entry_of s (dir, n)") (auto simp: lookup_def getFattr_view Let_def assert_then_def)

lemma card_two_dots: "card {''.'', ''..''} = 2"
  by simp

lemma emptydir_view:
  assumes "store_ok s" "entry_of s (dir, ''.'') \<noteq> None" "entry_of s (dir, ''..'') \<noteq> None"
  shows "emptydir s dir = Some (\<forall>n. entry_of s (dir, n) \<noteq> None \<longrightarrow> n \<in> {''.'', ''..''})"
proof -
  have sub: "{''.'', ''..''} \<subseteq> names_in s dir" using assms(2,3) by (auto simp: names_in_def)
  then have "card (names_in s dir) = 2 \<longleftrightarrow> names_in s dir = {''.'', ''..''}"
    using card_subset_eq [OF finite_names_in [OF assms(1)] sub] by (metis card_two_dots)
  also have "\<dots> \<longleftrightarrow> (\<forall>n. entry_of s (dir, n) \<noteq> None \<longrightarrow> n \<in> {''.'', ''..''})"
    using sub by (auto simp: names_in_def)
  finally have card: "card (names_in s dir) = 2 \<longleftrightarrow> \<dots>" .
  have "dir_list s dir \<noteq> []" using sub dir_list_Nil [OF assms(1)] by auto
  moreover have "dots_ok (entry_of s) dir" using assms by (simp add: dots_ok_def)
  ultimately show ?thesis
    by (simp add: emptydir_def readdir_view [OF assms(1)] card_dir_list [OF assms(1)] card)
qed

section \<open>The chunks of a file\<close>

lemma key_eq_any_offset: "key_eq (Key KFS_CHUNKINFO fid MATCH_ANY) k \<longleftrightarrow> kind k = KFS_CHUNKINFO \<and> kdata1 k = fid"
  by (cases k) (auto simp: key_eq_def compare_def Let_def elim: metatype_val.elims)

lemma getalloc_eq: "getalloc s fid = filter (\<lambda>c. ci_fid c = fid) (List.map_filter as_chunkinfo s)"
proof (induction s)
  case (Cons m s)
  then show ?case
    by (cases m) (simp_all add: getalloc_def store_find_def map_filter_simps key_eq_any_offset)
qed (simp add: getalloc_def store_find_def map_filter_simps)

lemma set_getalloc:
  assumes "store_ok s"
  shows "c \<in> set (getalloc s fid) \<longleftrightarrow> ci_fid c = fid \<and> chunk_of s (fid, ci_offset c) = Some c"
proof -
  have "c \<in> set (List.map_filter as_chunkinfo s) \<longleftrightarrow> MetaChunkInfo c \<in> set s"
    by (auto simp: set_map_filter elim: as_chunkinfo.elims intro: bexI [of _ "MetaChunkInfo c"])
  then show ?thesis using assms by (auto simp: getalloc_eq chunk_of_iff)
qed

lemma sorted_getalloc: "store_ok s \<Longrightarrow> sorted_wrt (<) (map ci_offset (getalloc s fid))"
proof -
  assume ok: "store_ok s"
  have "sorted_wrt (<) (map ci_offset (getalloc s fid))"
    if "sorted (map meta_key s)" "uniq s" for s :: store
    using that
  proof (induction s)
    case (Cons m s)
    show ?case
    proof (cases m)
      case (MetaChunkInfo c)
      have "ci_offset c < ci_offset d" if d: "MetaChunkInfo d \<in> set s" "ci_fid d = ci_fid c" for d
      proof -
        have "meta_key (MetaChunkInfo c) \<le> meta_key (MetaChunkInfo d)" using Cons.prems(1) d(1) MetaChunkInfo by auto
        moreover have "ident (MetaChunkInfo d) \<noteq> ident (MetaChunkInfo c)"
        proof
          assume "ident (MetaChunkInfo d) = ident (MetaChunkInfo c)"
          then have "ident m \<in> ident ` set s" using imageI [OF d(1), of ident] MetaChunkInfo by simp
          then show False using Cons.prems(2) by (simp add: uniq_def)
        qed
        ultimately show ?thesis using d(2) by (auto simp: less_eq_Key_def less_Key_def)
      qed
      then have "ci_offset c < ci_offset d" if "d \<in> set (getalloc s (ci_fid c))" for d
        using that by (auto simp: getalloc_eq set_map_filter elim!: as_chunkinfo.elims)
      then show ?thesis
        using Cons MetaChunkInfo by (auto simp: getalloc_eq map_filter_simps uniq_Cons)
    qed (use Cons in \<open>simp_all add: getalloc_eq map_filter_simps uniq_Cons\<close>)
  qed (simp add: getalloc_def store_find_def map_filter_simps)
  then show ?thesis using ok by (simp add: store_ok_def list_inv_def)
qed

definition chunk_offsets :: "(fid_t \<times> chunkOff_t \<Rightarrow> chunkinfo option) \<Rightarrow> fid_t \<Rightarrow> chunkOff_t set" where
  "chunk_offsets ch fid = {off. ch (fid, off) \<noteq> None}"

lemma offsets_getalloc:
  assumes "store_ok s"
  shows "set (map ci_offset (getalloc s fid)) = chunk_offsets (chunk_of s) fid"
proof -
  have "off \<in> set (map ci_offset (getalloc s fid))" if "chunk_of s (fid, off) = Some c" for off c
    using that set_getalloc [OF assms, of c fid] assms by (auto simp: chunk_of_iff)
  then show ?thesis using set_getalloc [OF assms, of _ fid] by (auto simp: chunk_offsets_def)
qed

lemma length_getalloc: "store_ok s \<Longrightarrow> length (getalloc s fid) = card (chunk_offsets (chunk_of s) fid)"
  using distinct_card [of "map ci_offset (getalloc s fid)"] sorted_getalloc [of s fid] offsets_getalloc [of s fid]
  by (simp add: strict_sorted_iff)

lemma finite_offsets: "store_ok s \<Longrightarrow> finite (chunk_offsets (chunk_of s) fid)"
  by (simp flip: offsets_getalloc)

section \<open>The name space and its invariant\<close>

record NameSpace =
  ns_fattr :: "fid_t \<Rightarrow> fattr option"
  ns_entry :: "fid_t \<times> string \<Rightarrow> fid_t option"
  ns_chunk :: "fid_t \<times> chunkOff_t \<Rightarrow> chunkinfo option"

definition names :: "MetaState \<Rightarrow> NameSpace" where
  "names st =
     \<lparr>ns_fattr = fattr_of (metatree st), ns_entry = entry_of (metatree st), ns_chunk = chunk_of (metatree st)\<rparr>"

abbreviation dots :: "string set" where
  "dots \<equiv> {''.'', ''..''}"

definition dir_in :: "NameSpace \<Rightarrow> fid_t \<Rightarrow> bool" where
  "dir_in N d \<longleftrightarrow> (\<exists>a. ns_fattr N d = Some a \<and> fa_type a = KFS_DIR)"

definition file_in :: "NameSpace \<Rightarrow> fid_t \<Rightarrow> bool" where
  "file_in N d \<longleftrightarrow> (\<exists>a. ns_fattr N d = Some a \<and> fa_type a = KFS_FILE)"

text \<open>Going up from a directory ends at the root.\<close>

inductive rooted :: "(fid_t \<times> string \<Rightarrow> fid_t option) \<Rightarrow> fid_t \<Rightarrow> bool" for en where
  rooted_root: "rooted en ROOTFID"
| rooted_up: "en (d, ''..'') = Some p \<Longrightarrow> rooted en p \<Longrightarrow> rooted en d"

definition links_ok :: "NameSpace \<Rightarrow> bool" where
  "links_ok N \<longleftrightarrow> (\<forall>d n f. ns_entry N (d, n) = Some f \<longrightarrow> dir_in N d \<and> ns_fattr N f \<noteq> None)"

definition dirs_ok :: "NameSpace \<Rightarrow> bool" where
  "dirs_ok N \<longleftrightarrow> (\<forall>d. dir_in N d \<longrightarrow>
     ns_entry N (d, ''.'') = Some d \<and> (\<exists>p. ns_entry N (d, ''..'') = Some p \<and> dir_in N p))"

definition parents_ok :: "NameSpace \<Rightarrow> bool" where
  "parents_ok N \<longleftrightarrow> (\<forall>d n f. ns_entry N (d, n) = Some f \<longrightarrow> n \<notin> dots \<longrightarrow> dir_in N f \<longrightarrow>
     ns_entry N (f, ''..'') = Some d)"

definition one_name :: "NameSpace \<Rightarrow> bool" where
  "one_name N \<longleftrightarrow> (\<forall>f. ns_fattr N f \<noteq> None \<longrightarrow> (\<exists>!p. ns_entry N p = Some f \<and> snd p \<notin> dots))"

definition chunks_ok :: "NameSpace \<Rightarrow> bool" where
  "chunks_ok N \<longleftrightarrow> (\<forall>f off c. ns_chunk N (f, off) = Some c \<longrightarrow> file_in N f)"

definition fattrs_ok :: "NameSpace \<Rightarrow> bool" where
  "fattrs_ok N \<longleftrightarrow> (\<forall>f a. ns_fattr N f = Some a \<longrightarrow> fa_fid a = f \<and> fa_type a \<in> {KFS_FILE, KFS_DIR} \<and>
     finite (chunk_offsets (ns_chunk N) f) \<and>
     fa_chunkcount a = int (card (chunk_offsets (ns_chunk N) f)))"

definition root_ok :: "NameSpace \<Rightarrow> bool" where
  "root_ok N \<longleftrightarrow> dir_in N ROOTFID \<and> ns_entry N (ROOTFID, ''/'') = Some ROOTFID \<and>
     (\<forall>d. dir_in N d \<longrightarrow> rooted (ns_entry N) d)"

definition ns_ok :: "NameSpace \<Rightarrow> bool" where
  "ns_ok N \<longleftrightarrow> links_ok N \<and> dirs_ok N \<and> parents_ok N \<and> one_name N \<and> chunks_ok N \<and> fattrs_ok N \<and> root_ok N"

lemmas ns_defs = links_ok_def dirs_ok_def parents_ok_def one_name_def chunks_ok_def fattrs_ok_def root_ok_def

text \<open>The state is in name space \<^verbatim>\<open>N\<close>; two states differ in the store only.\<close>

definition in_ns :: "MetaState \<Rightarrow> NameSpace \<Rightarrow> bool" where
  "in_ns st N \<longleftrightarrow> store_ok (metatree st) \<and> names st = N"

definition frame :: "MetaState \<Rightarrow> MetaState \<Rightarrow> bool" where
  "frame st st' \<longleftrightarrow> st' = st\<lparr>metatree := metatree st'\<rparr>"

lemma frame_refl [simp]: "frame st st"
  by (simp add: frame_def)

lemma frame_trans: "frame st st1 \<Longrightarrow> frame st1 st2 \<Longrightarrow> frame st st2"
  by (simp add: frame_def) (metis MetaState.update_convs(1) MetaState.surjective)

lemma frame_fields:
  assumes "frame st st'"
  shows "fileID st' = fileID st" "chunkID st' = chunkID st" "chunkVersionInc st' = chunkVersionInc st"
    "dumpster_counter st' = dumpster_counter st" "layout st' = layout st"
proof -
  from assms have e: "st' = st\<lparr>metatree := metatree st'\<rparr>" by (simp add: frame_def)
  show "fileID st' = fileID st" by (subst e) simp
  show "chunkID st' = chunkID st" by (subst e) simp
  show "chunkVersionInc st' = chunkVersionInc st" by (subst e) simp
  show "dumpster_counter st' = dumpster_counter st" by (subst e) simp
  show "layout st' = layout st" by (subst e) simp
qed

lemma in_ns_self: "store_ok (metatree st) \<Longrightarrow> in_ns st (names st)"
  by (simp add: in_ns_def)

section \<open>Primitive steps\<close>

lemma insert_meta_fields [simp]:
  "metatree (insert_meta m st) = store_insert m (metatree st)" "frame st (insert_meta m st)"
  by (simp_all add: insert_meta_def frame_def)

lemma names_sel [simp]:
  "ns_fattr (names st) = fattr_of (metatree st)" "ns_entry (names st) = entry_of (metatree st)"
  "ns_chunk (names st) = chunk_of (metatree st)"
  by (simp_all add: names_def)

lemma in_ns_iff:
  "in_ns st N \<longleftrightarrow> store_ok (metatree st) \<and> fattr_of (metatree st) = ns_fattr N \<and>
     entry_of (metatree st) = ns_entry N \<and> chunk_of (metatree st) = ns_chunk N"
  by (cases N) (auto simp: in_ns_def names_def)

lemma insert_dentry_ns:
  assumes "in_ns st N" "ns_entry N (d, n) = None"
  shows "in_ns (insert_meta (MetaDentry (new_dentry d n f)) st) (N\<lparr>ns_entry := (ns_entry N)((d, n) \<mapsto> f)\<rparr>)"
  using insert_dentry_views [of "metatree st" "new_dentry d n f"] assms by (simp add: in_ns_iff)

lemma insert_fattr_ns:
  assumes "in_ns st N" "ns_fattr N (fa_fid a) = None"
  shows "in_ns (insert_meta (MetaFattr a) st) (N\<lparr>ns_fattr := (ns_fattr N)(fa_fid a \<mapsto> a)\<rparr>)"
  using insert_fattr_views [of "metatree st" a] assms by (simp add: in_ns_iff)

lemma insert_chunk_ns:
  assumes "in_ns st N" "ns_chunk N (ci_fid c, ci_offset c) = None" "ci_offset c \<noteq> MATCH_ANY"
  shows "in_ns (insert_meta (MetaChunkInfo c) st) (N\<lparr>ns_chunk := (ns_chunk N)((ci_fid c, ci_offset c) \<mapsto> c)\<rparr>)"
  using insert_chunk_views [of "metatree st" c] assms by (simp add: in_ns_iff)

lemma del_assert_frame: "store_del m (metatree st) = Some t \<Longrightarrow> del_assert m st = Some (st\<lparr>metatree := t\<rparr>)"
  by (simp add: del_assert_def del_meta_def)

lemma frame_metatree [simp]: "frame st (st\<lparr>metatree := t\<rparr>)"
  by (simp add: frame_def)

lemma del_dentry_ns:
  assumes "in_ns st N" "ns_entry N (de_dir d, de_name d) \<noteq> None"
  obtains st' where "del_assert (MetaDentry d) st = Some st'" "frame st st'"
    "in_ns st' (N\<lparr>ns_entry := (ns_entry N)((de_dir d, de_name d) := None)\<rparr>)"
proof -
  obtain t where t: "store_del (MetaDentry d) (metatree st) = Some t" "store_ok t"
    "entry_of t = (ns_entry N)((de_dir d, de_name d) := None)" "fattr_of t = ns_fattr N" "chunk_of t = ns_chunk N"
    using del_dentry_views [of "metatree st" d] assms by (auto simp: in_ns_iff)
  then show ?thesis using that [OF del_assert_frame [OF t(1)]] by (simp add: in_ns_iff)
qed

lemma del_fattr_ns:
  assumes "in_ns st N" "ns_fattr N (fa_fid a) \<noteq> None"
  obtains st' where "del_assert (MetaFattr a) st = Some st'" "frame st st'"
    "in_ns st' (N\<lparr>ns_fattr := (ns_fattr N)(fa_fid a := None)\<rparr>)"
proof -
  obtain t where t: "store_del (MetaFattr a) (metatree st) = Some t" "store_ok t"
    "entry_of t = ns_entry N" "fattr_of t = (ns_fattr N)(fa_fid a := None)" "chunk_of t = ns_chunk N"
    using del_fattr_views [of "metatree st" a] assms by (auto simp: in_ns_iff)
  then show ?thesis using that [OF del_assert_frame [OF t(1)]] by (simp add: in_ns_iff)
qed

text \<open>Assignments to attributes and to chunks.\<close>

lemma store_ok_update:
  assumes "store_ok s" "exact k" "\<And>m. ident (g m) = ident m" "\<And>m. meta_key m = k \<Longrightarrow> ident m = (k, [])"
  shows "store_ok (store_update k g s)"
    "item (store_update k g s) = (item s)((k, []) := map_option g (item s (k, [])))"
proof -
  have "\<forall>m\<in>set s. exact (meta_key m)" using assms(1) by (simp add: store_ok_def list_inv_def)
  note upd = store_update_item [OF _ assms(2) this assms(3,4)]
  have "meta_key (g m) = meta_key m" for m using assms(3) [of m] by (metis fst_ident)
  then have "list_inv (store_update k g s)"
    using list_inv_keys [OF map_key_store_update] assms(1) by (auto simp: store_ok_def)
  with upd(2) assms(1) show "store_ok (store_update k g s)" by (simp add: store_ok_def)
  show "item (store_update k g s) = (item s)((k, []) := map_option g (item s (k, [])))"
    using upd(1) assms(1) by simp
qed

lemma on_fattr_ident: "(\<And>a. fa_fid (g a) = fa_fid a) \<Longrightarrow> ident (on_fattr g m) = ident m"
  by (cases m) simp_all

lemma on_chunkinfo_ident:
  "(\<And>c. ci_fid (g c) = ci_fid c \<and> ci_offset (g c) = ci_offset c) \<Longrightarrow> ident (on_chunkinfo g m) = ident m"
  by (cases m) simp_all

lemma ident_of_key:
  "meta_key m = Key KFS_FATTR f 0 \<Longrightarrow> ident m = (Key KFS_FATTR f 0, [])"
  "meta_key m = Key KFS_CHUNKINFO f off \<Longrightarrow> ident m = (Key KFS_CHUNKINFO f off, [])"
  by (cases m; simp)+

lemma set_fattr_frame [simp]: "frame st (set_fattr f g st)" "frame st (set_chunkinfo f off h st)"
  by (simp_all add: set_fattr_def set_chunkinfo_def)

lemma set_fattr_ns:
  assumes "in_ns st N" "\<And>a. fa_fid (g a) = fa_fid a"
  shows "in_ns (set_fattr f g st) (N\<lparr>ns_fattr := (ns_fattr N)(f := map_option g (ns_fattr N f))\<rparr>)"
proof -
  have ok: "store_ok (metatree st)" using assms(1) by (simp add: in_ns_def)
  note u = store_ok_update [OF ok, of "Key KFS_FATTR f 0" "on_fattr g", OF exact_zero
      on_fattr_ident [OF assms(2)] ident_of_key(1)]
  have "Option.bind (map_option (on_fattr g) x) as_fattr = map_option g (Option.bind x as_fattr)" for x
    by (cases x; simp) (metis as_fattr.elims option.simps(9) on_fattr.simps option.simps(8) as_fattr.simps)
  then show ?thesis
    using u(1) views_put_fattr [OF u(2)] assms(1)
    by (auto simp: in_ns_iff set_fattr_def fattr_of_def fun_eq_iff)
qed

lemma set_chunkinfo_ns:
  assumes "in_ns st N" "\<And>c. ci_fid (g c) = ci_fid c \<and> ci_offset (g c) = ci_offset c" "off \<noteq> MATCH_ANY"
  shows "in_ns (set_chunkinfo f off g st)
    (N\<lparr>ns_chunk := (ns_chunk N)((f, off) := map_option g (ns_chunk N (f, off)))\<rparr>)"
proof -
  have ok: "store_ok (metatree st)" using assms(1) by (simp add: in_ns_def)
  have ex: "exact (Key KFS_CHUNKINFO f off)" using assms(3) by (simp add: exact_def)
  note u = store_ok_update [OF ok ex, of "on_chunkinfo g", OF on_chunkinfo_ident [OF assms(2)] ident_of_key(2)]
  have "Option.bind (map_option (on_chunkinfo g) x) as_chunkinfo = map_option g (Option.bind x as_chunkinfo)" for x
    by (cases x; simp) (metis as_chunkinfo.elims option.simps(9) on_chunkinfo.simps option.simps(8) as_chunkinfo.simps)
  then show ?thesis
    using u(1) views_put_chunk [OF u(2)] assms(1)
    by (auto simp: in_ns_iff set_chunkinfo_def chunk_of_def fun_eq_iff)
qed

section \<open>Lookups in a sound name space\<close>

lemma ns_okD:
  assumes "ns_ok N"
  shows "ns_entry N (d, n) = Some f \<Longrightarrow> dir_in N d" "ns_entry N (d, n) = Some f \<Longrightarrow> \<exists>a. ns_fattr N f = Some a"
    "dir_in N d \<Longrightarrow> ns_entry N (d, ''.'') = Some d"
    "dir_in N d \<Longrightarrow> \<exists>p. ns_entry N (d, ''..'') = Some p \<and> dir_in N p"
    "ns_entry N (d, n) = Some f \<Longrightarrow> n \<notin> dots \<Longrightarrow> dir_in N f \<Longrightarrow> ns_entry N (f, ''..'') = Some d"
    "ns_chunk N (f, off) = Some c \<Longrightarrow> file_in N f"
    "ns_fattr N f = Some a \<Longrightarrow> fa_fid a = f"
    "ns_fattr N f = Some a \<Longrightarrow> fa_type a = KFS_FILE \<or> fa_type a = KFS_DIR"
    "ns_fattr N f = Some a \<Longrightarrow> fa_chunkcount a = int (card (chunk_offsets (ns_chunk N) f))"
    "dir_in N d \<Longrightarrow> rooted (ns_entry N) d"
    "dir_in N ROOTFID" "ns_entry N (ROOTFID, ''/'') = Some ROOTFID"
  using assms by (auto simp: ns_ok_def ns_defs) blast

lemma ns_ok_one_name:
  assumes "ns_ok N" "ns_entry N (d, n) = Some f" "n \<notin> dots" "ns_entry N (d', n') = Some f" "n' \<notin> dots"
  shows "d' = d \<and> n' = n"
proof -
  have "ns_fattr N f \<noteq> None" using ns_okD(2) [OF assms(1,2)] by auto
  then have "\<exists>!p. ns_entry N p = Some f \<and> snd p \<notin> dots" using assms(1) by (simp add: ns_ok_def one_name_def)
  then have "(d', n') = (d, n)" using assms(2-5) by (metis snd_conv)
  then show ?thesis by simp
qed

lemma ns_dots_ok: "ns_ok N \<Longrightarrow> dots_ok (ns_entry N) d"
proof -
  assume ok: "ns_ok N"
  show "dots_ok (ns_entry N) d"
  proof (cases "dir_in N d")
    case True
    with ns_okD(3,4) [OF ok] show ?thesis by (fastforce simp: dots_ok_def)
  next
    case False
    with ns_okD(1) [OF ok] have "ns_entry N (d, n) = None" for n by (metis option.exhaust)
    then show ?thesis by (simp add: dots_ok_def)
  qed
qed

lemma lookup_ns:
  assumes "in_ns st N" "ns_ok N"
  shows "lookup (metatree st) d n = Some (Option.bind (ns_entry N (d, n)) (ns_fattr N))"
  using lookup_view [of "metatree st" d n] assms ns_dots_ok [OF assms(2), of d] ns_okD(2) [OF assms(2)]
  by (auto simp: in_ns_iff)

lemma getDentry_ns:
  assumes "in_ns st N" "ns_ok N"
  shows "getDentry (metatree st) d n = Some (map_option (new_dentry d n) (ns_entry N (d, n)))"
  using getDentry_view [of "metatree st" d n] assms ns_dots_ok [OF assms(2), of d]
  by (auto simp: in_ns_iff)

lemma getFattr_ns: "in_ns st N \<Longrightarrow> getFattr (metatree st) f = ns_fattr N f"
  using getFattr_view by (simp add: in_ns_iff)

definition empty_in :: "NameSpace \<Rightarrow> fid_t \<Rightarrow> bool" where
  "empty_in N d \<longleftrightarrow> (\<forall>n. ns_entry N (d, n) \<noteq> None \<longrightarrow> n \<in> dots)"

lemma emptydir_ns:
  assumes "in_ns st N" "ns_ok N" "dir_in N d"
  shows "emptydir (metatree st) d = Some (empty_in N d)"
  using emptydir_view [of "metatree st" d] ns_okD(3,4) [OF assms(2,3)] assms(1)
  by (auto simp: in_ns_iff empty_in_def)

lemma root_not_empty: "ns_ok N \<Longrightarrow> \<not> empty_in N ROOTFID"
  using ns_okD(12) [of N] by (force simp: empty_in_def)

end
