(* ===== verification/Meta_Changes.thy ===== *)
theory Meta_Changes
  imports Meta_Namespace
begin

text \<open>
  Changes of the name space that keep it sound: a new file, a new directory, a file or an empty
  directory that goes away, an entry that moves. Moving a directory is safe when the way from the
  new parent up to the root avoids it; the walk up that \<^verbatim>\<open>is_descendant\<close> takes decides exactly this
  and always ends.
\<close>

section \<open>Changes that keep the name space sound\<close>

lemma rooted_mono:
  assumes "rooted en d" "\<And>x p. en (x, ''..'') = Some p \<Longrightarrow> en' (x, ''..'') = Some p"
  shows "rooted en' d"
  using assms(1) by induction (auto intro: rooted.intros assms(2))

lemma ex1_name_upd:
  assumes "\<exists>!p. en p = Some g \<and> snd p \<notin> dots" "en q \<noteq> Some g" "v \<noteq> Some g"
  shows "\<exists>!p. (en(q := v)) p = Some g \<and> snd p \<notin> dots"
  using assms by (metis fun_upd_apply)

text \<open>A new file.\<close>

definition ns_add_file :: "fid_t \<Rightarrow> string \<Rightarrow> fattr \<Rightarrow> NameSpace \<Rightarrow> NameSpace" where
  "ns_add_file d n a N =
     N\<lparr>ns_fattr := (ns_fattr N)(fa_fid a \<mapsto> a), ns_entry := (ns_entry N)((d, n) \<mapsto> fa_fid a)\<rparr>"

lemma fresh_fid:
  assumes "ns_ok N" "ns_fattr N f = None"
  shows "ns_entry N p \<noteq> Some f" "ns_entry N (f, n) = None" "ns_chunk N (f, off) = None"
    "chunk_offsets (ns_chunk N) f = {}"
proof -
  show "ns_entry N p \<noteq> Some f" using ns_okD(2) [OF assms(1)] assms(2) by (cases p) fastforce
  show "ns_entry N (f, n) = None" using ns_okD(1) [OF assms(1), of f n] assms(2) by (cases "ns_entry N (f, n)") (auto simp: dir_in_def)
  show "ns_chunk N (f, off) = None" for off
    using ns_okD(6) [OF assms(1), of f off] assms(2) by (cases "ns_chunk N (f, off)") (auto simp: file_in_def)
  then show "chunk_offsets (ns_chunk N) f = {}" by (simp add: chunk_offsets_def)
qed

lemma ns_add_file_ok:
  assumes ok: "ns_ok N" and d: "dir_in N d" "ns_entry N (d, n) = None" "n \<notin> dots"
    and a: "ns_fattr N (fa_fid a) = None" "fa_type a = KFS_FILE" "fa_chunkcount a = 0"
  shows "ns_ok (ns_add_file d n a N)"
proof -
  let ?N = "ns_add_file d n a N" and ?f = "fa_fid a"
  note fresh = fresh_fid [OF ok a(1)]
  have dir: "dir_in ?N x \<longleftrightarrow> dir_in N x" for x using a by (auto simp: dir_in_def ns_add_file_def)
  have fil: "file_in N x \<Longrightarrow> file_in ?N x" for x using a by (auto simp: file_in_def ns_add_file_def)
  have en: "ns_entry ?N = (ns_entry N)((d, n) \<mapsto> ?f)" and fa: "ns_fattr ?N = (ns_fattr N)(?f \<mapsto> a)"
    and ch: "ns_chunk ?N = ns_chunk N"
    by (simp_all add: ns_add_file_def)
  have "links_ok ?N" using ok d by (auto simp: ns_ok_def links_ok_def dir en fa)
  moreover have "dirs_ok ?N" using ok d by (auto simp: ns_ok_def dirs_ok_def dir en)
  moreover have "\<not> dir_in N ?f" using a(1) by (simp add: dir_in_def)
  then have "parents_ok ?N"
    unfolding parents_ok_def using ns_okD(5) [OF ok] d by (auto simp: dir en split: if_splits)
  moreover have "one_name ?N"
    unfolding one_name_def
  proof (intro allI impI)
    fix g assume g: "ns_fattr ?N g \<noteq> None"
    show "\<exists>!p. ns_entry ?N p = Some g \<and> snd p \<notin> dots"
    proof (cases "g = ?f")
      case True
      then show ?thesis using fresh(1) d(3) by (auto simp: en)
    next
      case False
      then have "\<exists>!p. ns_entry N p = Some g \<and> snd p \<notin> dots"
        using ok g by (simp add: ns_ok_def one_name_def fa)
      then show ?thesis unfolding en using False d(2) by (intro ex1_name_upd) auto
    qed
  qed
  moreover have "chunks_ok ?N" using ok fil by (auto simp: ns_ok_def chunks_ok_def ch)
  moreover have "fattrs_ok ?N" using ok a fresh by (auto simp: ns_ok_def fattrs_ok_def fa ch)
  moreover have "rooted (ns_entry ?N) x" if "dir_in N x" for x
    by (rule rooted_mono [OF ns_okD(10) [OF ok that]]) (use d in \<open>auto simp: en\<close>)
  then have "root_ok ?N" using ok d by (auto simp: ns_ok_def root_ok_def dir en)
  ultimately show ?thesis by (simp add: ns_ok_def)
qed

text \<open>A new directory.\<close>

definition ns_add_dir :: "fid_t \<Rightarrow> string \<Rightarrow> fattr \<Rightarrow> NameSpace \<Rightarrow> NameSpace" where
  "ns_add_dir d n a N =
     N\<lparr>ns_fattr := (ns_fattr N)(fa_fid a \<mapsto> a),
       ns_entry := (ns_entry N)((d, n) \<mapsto> fa_fid a, (fa_fid a, ''.'') \<mapsto> fa_fid a, (fa_fid a, ''..'') \<mapsto> d)\<rparr>"

lemma ns_add_dir_ok:
  assumes ok: "ns_ok N" and d: "dir_in N d" "ns_entry N (d, n) = None" "n \<notin> dots"
    and a: "ns_fattr N (fa_fid a) = None" "fa_type a = KFS_DIR" "fa_chunkcount a = 0"
  shows "ns_ok (ns_add_dir d n a N)"
proof -
  let ?N = "ns_add_dir d n a N" and ?f = "fa_fid a"
  note fresh = fresh_fid [OF ok a(1)]
  have df: "d \<noteq> ?f" using d(1) a(1) by (auto simp: dir_in_def)
  have dir: "dir_in ?N x \<longleftrightarrow> dir_in N x \<or> x = ?f" for x using a by (auto simp: dir_in_def ns_add_dir_def)
  have fil: "file_in N x \<Longrightarrow> file_in ?N x" for x using a by (auto simp: file_in_def ns_add_dir_def)
  have en: "ns_entry ?N = (ns_entry N)((d, n) \<mapsto> ?f, (?f, ''.'') \<mapsto> ?f, (?f, ''..'') \<mapsto> d)"
    and fa: "ns_fattr ?N = (ns_fattr N)(?f \<mapsto> a)" and ch: "ns_chunk ?N = ns_chunk N"
    by (simp_all add: ns_add_dir_def)
  have "ns_fattr N d \<noteq> None" using d(1) by (auto simp: dir_in_def)
  then have "links_ok ?N" using ok d by (auto simp: ns_ok_def links_ok_def dir en fa)
  moreover have "dirs_ok ?N" using ok d by (auto simp: ns_ok_def dirs_ok_def dir en)
  moreover have "parents_ok ?N"
    unfolding parents_ok_def using ns_okD(5) [OF ok] ns_okD(1) [OF ok] d df fresh(1,2)
    by (auto simp: dir en split: if_splits)
  moreover have "one_name ?N"
    unfolding one_name_def
  proof (intro allI impI)
    fix g assume g: "ns_fattr ?N g \<noteq> None"
    show "\<exists>!p. ns_entry ?N p = Some g \<and> snd p \<notin> dots"
    proof (cases "g = ?f")
      case True
      then show ?thesis using fresh(1) d(3) df by (auto simp: en)
    next
      case False
      then have "\<exists>!p. ns_entry N p = Some g \<and> snd p \<notin> dots"
        using ok g by (simp add: ns_ok_def one_name_def fa)
      moreover have "ns_entry ?N p = Some g \<and> snd p \<notin> dots \<longleftrightarrow> ns_entry N p = Some g \<and> snd p \<notin> dots" for p
        using False d fresh(2) by (cases p) (auto simp: en split: if_splits)
      ultimately show ?thesis by simp
    qed
  qed
  moreover have "chunks_ok ?N" using ok fil by (auto simp: ns_ok_def chunks_ok_def ch)
  moreover have "fattrs_ok ?N" using ok a fresh by (auto simp: ns_ok_def fattrs_ok_def fa ch)
  note parts = calculation this
  have r: "rooted (ns_entry ?N) x" if "dir_in N x" for x
    by (rule rooted_mono [OF ns_okD(10) [OF ok that]]) (use d fresh in \<open>auto simp: en\<close>)
  then have "rooted (ns_entry ?N) ?f" using rooted_up [of "ns_entry ?N" ?f d] d(1) by (simp add: en)
  moreover have "ns_entry ?N (ROOTFID, ''/'') = Some ROOTFID" using ns_okD(12) [OF ok] d(2) by (auto simp: en)
  ultimately have "root_ok ?N" using r ns_okD(11) [OF ok] by (auto simp: root_ok_def dir)
  with parts show ?thesis by (simp add: ns_ok_def)
qed

text \<open>A file goes away with its chunks.\<close>

definition ns_del_file :: "fid_t \<Rightarrow> string \<Rightarrow> fid_t \<Rightarrow> NameSpace \<Rightarrow> NameSpace" where
  "ns_del_file d n f N =
     N\<lparr>ns_fattr := (ns_fattr N)(f := None), ns_entry := (ns_entry N)((d, n) := None),
       ns_chunk := (\<lambda>p. if fst p = f then None else ns_chunk N p)\<rparr>"

lemma dot_entries_dirs:
  assumes "ns_ok N" "ns_entry N (x, n) = Some f" "n \<in> dots"
  shows "dir_in N f"
proof -
  have "dir_in N x" by (rule ns_okD(1) [OF assms(1,2)])
  with ns_okD(3,4) [OF assms(1) this] assms(2,3) show ?thesis by auto
qed

lemma file_not_dir: "file_in N f \<Longrightarrow> \<not> dir_in N f"
  by (auto simp: file_in_def dir_in_def)

lemma ns_del_file_ok:
  assumes ok: "ns_ok N" and e: "ns_entry N (d, n) = Some f" and f: "file_in N f"
  shows "ns_ok (ns_del_file d n f N)"
proof -
  let ?N = "ns_del_file d n f N"
  have nd: "\<not> dir_in N f" using f by (rule file_not_dir)
  have n: "n \<notin> dots" using dot_entries_dirs [OF ok e] nd by blast
  have dir: "dir_in ?N x \<longleftrightarrow> dir_in N x" for x using nd by (auto simp: dir_in_def ns_del_file_def)
  have fil: "file_in ?N x \<longleftrightarrow> file_in N x \<and> x \<noteq> f" for x by (auto simp: file_in_def ns_del_file_def)
  have en: "ns_entry ?N = (ns_entry N)((d, n) := None)" and fa: "ns_fattr ?N = (ns_fattr N)(f := None)"
    and ch: "ns_chunk ?N p = (if fst p = f then None else ns_chunk N p)" for p
    by (simp_all add: ns_del_file_def)
  have only: "ns_entry N (x, m) = Some f \<Longrightarrow> x = d \<and> m = n" for x m
    using ns_ok_one_name [OF ok e n, of x m] dot_entries_dirs [OF ok, of x m f] nd by blast
  have "links_ok ?N" using ns_okD(1,2) [OF ok] only by (fastforce simp: links_ok_def dir en fa)
  moreover have "dirs_ok ?N" using ok n by (auto simp: ns_ok_def dirs_ok_def dir en)
  moreover have "parents_ok ?N" using ns_okD(5) [OF ok] n by (auto simp: parents_ok_def dir en)
  moreover have "one_name ?N"
    unfolding one_name_def
  proof (intro allI impI)
    fix g assume g: "ns_fattr ?N g \<noteq> None"
    then have "\<exists>!p. ns_entry N p = Some g \<and> snd p \<notin> dots" and "g \<noteq> f"
      using ok by (auto simp: ns_ok_def one_name_def fa split: if_splits)
    then show "\<exists>!p. ns_entry ?N p = Some g \<and> snd p \<notin> dots"
      unfolding en using e by (intro ex1_name_upd) auto
  qed
  moreover have "chunks_ok ?N" using ok by (auto simp: ns_ok_def chunks_ok_def ch fil)
  moreover have "chunk_offsets (ns_chunk ?N) g = chunk_offsets (ns_chunk N) g" if "g \<noteq> f" for g
    using that by (simp add: chunk_offsets_def ch)
  then have "fattrs_ok ?N" using ok by (auto simp: ns_ok_def fattrs_ok_def fa)
  moreover have "rooted (ns_entry ?N) x" if "dir_in N x" for x
    by (rule rooted_mono [OF ns_okD(10) [OF ok that]]) (use n in \<open>auto simp: en\<close>)
  moreover have "(d, n) \<noteq> (ROOTFID, ''/'')" using e nd ns_okD(11,12) [OF ok] by auto
  ultimately show ?thesis
    using ns_okD(11,12) [OF ok] by (auto simp: ns_ok_def root_ok_def dir en)
qed

text \<open>An empty directory goes away.\<close>

definition ns_del_dir :: "fid_t \<Rightarrow> string \<Rightarrow> fid_t \<Rightarrow> NameSpace \<Rightarrow> NameSpace" where
  "ns_del_dir d n f N =
     N\<lparr>ns_fattr := (ns_fattr N)(f := None),
       ns_entry := (ns_entry N)((f, ''.'') := None, (f, ''..'') := None, (d, n) := None)\<rparr>"

lemma empty_has_no_children:
  assumes "ns_ok N" "empty_in N f" "dir_in N x" "ns_entry N (x, ''..'') = Some f"
  shows "False"
proof -
  have "ns_fattr N x \<noteq> None" using assms(3) by (auto simp: dir_in_def)
  then obtain p where p: "ns_entry N p = Some x" "snd p \<notin> dots"
    using assms(1) unfolding ns_ok_def one_name_def by blast
  then have "ns_entry N (x, ''..'') = Some (fst p)"
    using ns_okD(5) [OF assms(1), of "fst p" "snd p" x] assms(3) by simp
  with assms(4) have "fst p = f" by simp
  with p(1) have "ns_entry N (f, snd p) \<noteq> None" by (cases p) simp
  with p(2) assms(2) show False unfolding empty_in_def by blast
qed

lemma ns_del_dir_ok:
  assumes ok: "ns_ok N" and e: "ns_entry N (d, n) = Some f" "n \<notin> dots" and f: "dir_in N f" "empty_in N f"
  shows "ns_ok (ns_del_dir d n f N)"
proof -
  let ?N = "ns_del_dir d n f N"
  have df: "d \<noteq> f" using empty_has_no_children [OF ok f(2,1)] ns_okD(5) [OF ok e f(1)] by auto
  have fr: "f \<noteq> ROOTFID" using root_not_empty [OF ok] f(2) by auto
  have dir: "dir_in ?N x \<longleftrightarrow> dir_in N x \<and> x \<noteq> f" for x by (auto simp: dir_in_def ns_del_dir_def)
  have fil: "file_in N x \<Longrightarrow> file_in ?N x" for x
    using f(1) by (auto simp: file_in_def dir_in_def ns_del_dir_def)
  have en: "ns_entry ?N = (ns_entry N)((f, ''.'') := None, (f, ''..'') := None, (d, n) := None)"
    and fa: "ns_fattr ?N = (ns_fattr N)(f := None)" and ch: "ns_chunk ?N = ns_chunk N"
    by (simp_all add: ns_del_dir_def)
  have inside: "ns_entry ?N (f, m) = None" for m
    using f(2) df by (auto simp: empty_in_def en)
  have onto: "ns_entry ?N (x, m) \<noteq> Some f" for x m
  proof
    assume "ns_entry ?N (x, m) = Some f"
    moreover from this have "x \<noteq> f" using inside by auto
    ultimately have x: "ns_entry N (x, m) = Some f" "(x, m) \<noteq> (d, n)" "x \<noteq> f"
      by (auto simp: en split: if_splits)
    then have "m \<in> dots" using ns_ok_one_name [OF ok e x(1)] by auto
    moreover have "dir_in N x" by (rule ns_okD(1) [OF ok x(1)])
    ultimately show False using x(1,3) ns_okD(3) [OF ok] empty_has_no_children [OF ok f(2)] by auto
  qed
  have keep: "ns_entry ?N p = ns_entry N p" if "fst p \<noteq> f" "p \<noteq> (d, n)" for p
    using that by (cases p) (auto simp: en)
  have "links_ok ?N"
    unfolding links_ok_def
  proof (intro allI impI)
    fix x m g assume g: "ns_entry ?N (x, m) = Some g"
    then have "x \<noteq> f" "g \<noteq> f" using inside onto by auto
    moreover have "ns_entry N (x, m) = Some g" using g by (auto simp: en split: if_splits)
    ultimately show "dir_in ?N x \<and> ns_fattr ?N g \<noteq> None" using ns_okD(1,2) [OF ok] by (simp add: dir fa)
  qed
  moreover have "dirs_ok ?N"
    unfolding dirs_ok_def
  proof (intro allI impI)
    fix x assume "dir_in ?N x"
    then have x: "dir_in N x" "x \<noteq> f" by (simp_all add: dir)
    then obtain p where p: "ns_entry N (x, ''..'') = Some p" "dir_in N p" using ns_okD(4) [OF ok] by blast
    then have "p \<noteq> f" using empty_has_no_children [OF ok f(2) x(1)] by auto
    with p x ns_okD(3) [OF ok x(1)] e(2)
    show "ns_entry ?N (x, ''.'') = Some x \<and> (\<exists>p. ns_entry ?N (x, ''..'') = Some p \<and> dir_in ?N p)"
      by (auto simp: keep dir)
  qed
  moreover have "parents_ok ?N"
    unfolding parents_ok_def using ns_okD(5) [OF ok] e(2) by (auto simp: dir en split: if_splits)
  moreover have "one_name ?N"
    unfolding one_name_def
  proof (intro allI impI)
    fix g assume g: "ns_fattr ?N g \<noteq> None"
    then have "\<exists>!p. ns_entry N p = Some g \<and> snd p \<notin> dots" and "g \<noteq> f"
      using ok by (auto simp: ns_ok_def one_name_def fa split: if_splits)
    moreover have "ns_entry ?N p = Some g \<and> snd p \<notin> dots \<longleftrightarrow> ns_entry N p = Some g \<and> snd p \<notin> dots" for p
      using e \<open>g \<noteq> f\<close> by (cases p) (auto simp: en split: if_splits)
    ultimately show "\<exists>!p. ns_entry ?N p = Some g \<and> snd p \<notin> dots" by simp
  qed
  moreover have "chunks_ok ?N" using ok fil by (auto simp: ns_ok_def chunks_ok_def ch)
  moreover have "fattrs_ok ?N" using ok by (auto simp: ns_ok_def fattrs_ok_def fa ch)
  moreover have "rooted (ns_entry ?N) x" if "dir_in N x" "x \<noteq> f" for x
    using ns_okD(10) [OF ok that(1)] that
  proof induction
    case (rooted_up x p)
    then have "p \<noteq> f" "dir_in N p"
      using empty_has_no_children [OF ok f(2)] ns_okD(4) [OF ok rooted_up.prems(1)] by auto
    then show ?case using rooted_up e(2) by (intro rooted.rooted_up [of _ x p]) (auto simp: en)
  qed (rule rooted_root)
  moreover have "(d, n) \<noteq> (ROOTFID, ''/'')" using e fr ns_okD(12) [OF ok] by auto
  ultimately show ?thesis
    using ns_okD(11,12) [OF ok] fr by (auto simp: ns_ok_def root_ok_def dir en)
qed

text \<open>An entry moves; for a directory the way up moves along.\<close>

definition ns_move :: "fid_t \<Rightarrow> string \<Rightarrow> fid_t \<Rightarrow> string \<Rightarrow> fid_t \<Rightarrow> NameSpace \<Rightarrow> NameSpace" where
  "ns_move d n d' n' f N =
     (let en = (ns_entry N)((d, n) := None, (d', n') \<mapsto> f) in
      N\<lparr>ns_entry := if dir_in N f then en((f, ''..'') \<mapsto> d') else en\<rparr>)"

text \<open>\<^verbatim>\<open>d\<close> reaches the root without passing \<^verbatim>\<open>f\<close>.\<close>

definition avoids :: "NameSpace \<Rightarrow> fid_t \<Rightarrow> fid_t \<Rightarrow> bool" where
  "avoids N f d \<longleftrightarrow> d \<noteq> f \<and> f \<noteq> ROOTFID \<and> rooted ((ns_entry N)((f, ''..'') := None)) d"

lemma rooted_via:
  assumes "rooted en x" "rooted en' f" "\<And>x p. x \<noteq> f \<Longrightarrow> en (x, ''..'') = Some p \<Longrightarrow> en' (x, ''..'') = Some p"
  shows "rooted en' x"
  using assms(1)
proof induction
  case (rooted_up x p)
  then show ?case using assms(2,3) by (cases "x = f") (auto intro: rooted.rooted_up)
qed (rule rooted_root)

lemma free_name_no_dots: "ns_ok N \<Longrightarrow> dir_in N d \<Longrightarrow> ns_entry N (d, n) = None \<Longrightarrow> n \<notin> dots"
  using ns_okD(3,4) [of N d] by auto

lemma ns_move_ok:
  assumes ok: "ns_ok N" and e: "ns_entry N (d, n) = Some f" "n \<notin> dots"
    and d': "dir_in N d'" "ns_entry N (d', n') = None" and av: "dir_in N f \<Longrightarrow> avoids N f d'"
    and nr: "f \<noteq> ROOTFID"
  shows "ns_ok (ns_move d n d' n' f N)"
proof -
  let ?N = "ns_move d n d' n' f N"
  have n': "n' \<notin> dots" by (rule free_name_no_dots [OF ok d'])
  have ne: "(d', n') \<noteq> (d, n)" using e(1) d'(2) by auto
  have dir: "dir_in ?N x \<longleftrightarrow> dir_in N x" and fil: "file_in ?N x \<longleftrightarrow> file_in N x" for x
    by (simp_all add: dir_in_def file_in_def ns_move_def Let_def)
  have fa: "ns_fattr ?N = ns_fattr N" and ch: "ns_chunk ?N = ns_chunk N"
    by (simp_all add: ns_move_def Let_def)
  have en: "ns_entry ?N p = (if dir_in N f \<and> p = (f, ''..'') then Some d' else if p = (d', n') then Some f
      else if p = (d, n) then None else ns_entry N p)" for p
    using n' ne by (auto simp: ns_move_def Let_def)
  have "ns_fattr N f \<noteq> None" using ns_okD(2) [OF ok e(1)] by auto
  moreover have "ns_fattr N d' \<noteq> None" using d'(1) by (auto simp: dir_in_def)
  ultimately have "links_ok ?N"
    using ns_okD(1,2) [OF ok] d'(1) by (auto simp: links_ok_def dir fa en)
  moreover have "dirs_ok ?N"
    unfolding dirs_ok_def using ns_okD(3,4) [OF ok] d'(1) n' e(2) by (auto simp: dir en)
  moreover have "parents_ok ?N"
    unfolding parents_ok_def
  proof (intro allI impI)
    fix x m g assume g: "ns_entry ?N (x, m) = Some g" "m \<notin> dots" "dir_in ?N g"
    show "ns_entry ?N (g, ''..'') = Some x"
    proof (cases "(x, m) = (d', n')")
      case True
      moreover from this have "g = f" using g(1) n' by (auto simp: en split: if_splits)
      ultimately show ?thesis using g(3) by (simp add: en dir)
    next
      case False
      then have *: "ns_entry N (x, m) = Some g" "(x, m) \<noteq> (d, n)" using g by (auto simp: en split: if_splits)
      then have "g \<noteq> f" using ns_ok_one_name [OF ok e, of x m] g(2) by auto
      then show ?thesis using ns_okD(5) [OF ok *(1) g(2)] g(3) n' e(2) by (auto simp: en dir)
    qed
  qed
  moreover have "one_name ?N"
    unfolding one_name_def
  proof (intro allI impI)
    fix g assume "ns_fattr ?N g \<noteq> None"
    then have ex: "\<exists>!p. ns_entry N p = Some g \<and> snd p \<notin> dots"
      using ok by (simp add: ns_ok_def one_name_def fa)
    show "\<exists>!p. ns_entry ?N p = Some g \<and> snd p \<notin> dots"
    proof (cases "g = f")
      case True
      have "p = (d', n')" if "ns_entry ?N p = Some f" "snd p \<notin> dots" for p
        using that ns_ok_one_name [OF ok e, of "fst p" "snd p"] by (auto simp: en split: if_splits)
      then show ?thesis using True n' by (intro ex1I [of _ "(d', n')"]) (auto simp: en)
    next
      case False
      then have "ns_entry ?N p = Some g \<and> snd p \<notin> dots \<longleftrightarrow> ns_entry N p = Some g \<and> snd p \<notin> dots" for p
        using e(1) d'(2) by (auto simp: en)
      then show ?thesis using ex by simp
    qed
  qed
  moreover have "chunks_ok ?N" "fattrs_ok ?N"
    using ok by (simp_all add: ns_ok_def chunks_ok_def fattrs_ok_def fil fa ch)
  moreover have "rooted (ns_entry ?N) x" if "dir_in N x" for x
  proof (cases "dir_in N f")
    case True
    then have "rooted ((ns_entry N)((f, ''..'') := None)) d'" using av by (simp add: avoids_def)
    then have "rooted (ns_entry ?N) d'"
      by (rule rooted_mono) (use n' e(2) in \<open>auto simp: en split: if_splits\<close>)
    then have "rooted (ns_entry ?N) f" using rooted_up [of "ns_entry ?N" f d'] True by (simp add: en)
    with ns_okD(10) [OF ok that] show ?thesis
      by (rule rooted_via) (use n' e(2) in \<open>auto simp: en\<close>)
  next
    case False
    then show ?thesis
      by (intro rooted_mono [OF ns_okD(10) [OF ok that]]) (use n' e(2) in \<open>auto simp: en\<close>)
  qed
  moreover have "ns_entry ?N (ROOTFID, ''/'') = Some ROOTFID"
    using ns_okD(12) [OF ok] d'(2) e(1) nr by (auto simp: en)
  ultimately show ?thesis using ns_okD(11) [OF ok] by (auto simp: ns_ok_def root_ok_def dir)
qed

section \<open>Going up\<close>

fun up_path :: "(fid_t \<times> string \<Rightarrow> fid_t option) \<Rightarrow> fid_t list \<Rightarrow> bool" where
  "up_path en [] = False"
| "up_path en [x] = (x = ROOTFID)"
| "up_path en (x # y # xs) = (en (x, ''..'') = Some y \<and> up_path en (y # xs))"

lemma up_path_suffix: "up_path en (xs @ y # ys) \<Longrightarrow> up_path en (y # ys)"
proof (induction xs)
  case (Cons x xs)
  then show ?case by (cases xs) auto
qed simp

lemma rooted_distinct_path: "rooted en d \<Longrightarrow> \<exists>xs. up_path en (d # xs) \<and> distinct (d # xs)"
proof (induction rule: rooted.induct)
  case rooted_root
  show ?case by (rule exI [of _ "[]"]) simp
next
  case (rooted_up d p)
  then obtain xs where xs: "up_path en (p # xs)" "distinct (p # xs)" by blast
  show ?case
  proof (cases "d \<in> set (p # xs)")
    case True
    then obtain as bs where ab: "p # xs = as @ d # bs" by (metis split_list)
    with xs up_path_suffix [of en as d bs] show ?thesis by (metis distinct_append)
  next
    case False
    then show ?thesis using xs rooted_up by (intro exI [of _ "p # xs"]) auto
  qed
qed

lemma up_path_rooted: "up_path en (d # xs) \<Longrightarrow> rooted en d"
  by (induction en "d # xs" arbitrary: d xs rule: up_path.induct) (auto intro: rooted.intros)

lemma up_path_length:
  assumes "in_ns st N" "ns_ok N" "up_path (ns_entry N) xs" "distinct xs"
  shows "length xs \<le> length (metatree st)"
proof -
  let ?s = "metatree st"
  have en: "entry_of ?s = ns_entry N" "uniq ?s" using assms(1) by (simp_all add: in_ns_iff)
  have "\<exists>p. ns_entry N (x, ''..'') = Some p" if "x \<in> set xs" for x
    using assms(3) that
  proof (induction "ns_entry N" xs rule: up_path.induct)
    case (2 x)
    then show ?case using ns_okD(4,11) [OF assms(2)] by auto
  qed auto
  then have "\<forall>x\<in>set xs. \<exists>p. MetaDentry (new_dentry x ''..'' p) \<in> set ?s"
    using entry_of_iff [OF en(2)] by (simp add: en(1))
  then obtain g where g: "\<And>x. x \<in> set xs \<Longrightarrow> MetaDentry (new_dentry x ''..'' (g x)) \<in> set ?s" by metis
  have "inj_on (\<lambda>x. MetaDentry (new_dentry x ''..'' (g x))) (set xs)"
    by (auto simp: inj_on_def new_dentry_def)
  from card_inj_on_le [OF this, of "set ?s"] g have "card (set xs) \<le> card (set ?s)" by auto
  with card_length [of ?s] show ?thesis using distinct_card [OF assms(4)] by simp
qed

lemma root_parent: "ns_ok N \<Longrightarrow> ns_entry N (ROOTFID, ''..'') = Some ROOTFID"
  using ns_okD(5) [of N ROOTFID "''/''" ROOTFID] ns_okD(11,12) [of N] by simp

lemma ancestor_walk_path:
  assumes "in_ns st N" "ns_ok N" "up_path (ns_entry N) (dst # xs)" "distinct (dst # xs)" "length (dst # xs) \<le> k"
  shows "ancestor_walk k (metatree st) src dst = Some (src \<in> set (dst # xs))"
  using assms(3-5)
proof (induction xs arbitrary: dst k)
  case Nil
  then obtain k' where "k = Suc k'" by (cases k) auto
  with Nil show ?case by auto
next
  case (Cons y ys)
  obtain k' where k: "k = Suc k'" using Cons.prems(3) by (cases k) auto
  have "dst \<noteq> ROOTFID" using Cons.prems(1,2) root_parent [OF assms(2)] by auto
  obtain a where a: "ns_fattr N y = Some a" "fa_fid a = y"
    using Cons.prems(1) ns_okD(2) [OF assms(2), of dst "''..''" y] ns_okD(7) [OF assms(2)] by auto
  have "lookup (metatree st) dst ''..'' = Some (Some a)"
    using lookup_ns [OF assms(1,2), of dst "''..''"] Cons.prems(1) a by simp
  then show ?case
    using Cons.IH [of y k'] Cons.prems a \<open>dst \<noteq> ROOTFID\<close> by (auto simp: k)
qed

lemma up_path_cong:
  "up_path en xs \<Longrightarrow> (\<And>x. x \<in> set xs \<Longrightarrow> en' (x, ''..'') = en (x, ''..'')) \<Longrightarrow> up_path en' xs"
  by (induction en xs rule: up_path.induct) auto

lemma up_path_root: "up_path en xs \<Longrightarrow> ROOTFID \<in> set xs"
  by (induction en xs rule: up_path.induct) auto

lemma up_path_unique:
  assumes "ns_entry N (ROOTFID, ''..'') = Some ROOTFID" "up_path (ns_entry N) (d # xs)"
    "up_path (ns_entry N) (d # ys)" "distinct (d # xs)" "distinct (d # ys)"
  shows "xs = ys"
  using assms(2-5)
proof (induction xs arbitrary: d ys)
  case Nil
  with assms(1) show ?case by (cases ys) auto
next
  case (Cons x xs)
  with assms(1) obtain y zs where "ys = y # zs" by (cases ys) auto
  with Cons show ?case by auto
qed

lemma avoids_path:
  assumes "ns_ok N" "up_path (ns_entry N) (dst # xs)" "distinct (dst # xs)"
  shows "avoids N src dst \<longleftrightarrow> src \<notin> set (dst # xs)"
proof
  let ?en = "(ns_entry N)((src, ''..'') := None)"
  assume "src \<notin> set (dst # xs)"
  moreover from this have "up_path ?en (dst # xs)" by (intro up_path_cong [OF assms(2)]) auto
  ultimately show "avoids N src dst"
    using up_path_rooted up_path_root [OF assms(2)] by (auto simp: avoids_def)
next
  let ?en = "(ns_entry N)((src, ''..'') := None)"
  assume av: "avoids N src dst"
  then obtain ys where ys: "up_path ?en (dst # ys)" "distinct (dst # ys)"
    using rooted_distinct_path [of ?en dst] by (auto simp: avoids_def)
  have no: "src \<notin> set zs" if "up_path ?en zs" for zs
    using that av by (induction ?en zs rule: up_path.induct) (auto simp: avoids_def)
  have "up_path (ns_entry N) (dst # ys)" by (rule up_path_cong [OF ys(1)]) (use no [OF ys(1)] in auto)
  from up_path_unique [OF root_parent [OF assms(1)] assms(2) this assms(3) ys(2)] no [OF ys(1)]
  show "src \<notin> set (dst # xs)" by simp
qed

lemma is_descendant_ns:
  assumes "in_ns st N" "ns_ok N" "dir_in N dst"
  shows "is_descendant (metatree st) src dst = Some (\<not> avoids N src dst)"
proof -
  obtain xs where xs: "up_path (ns_entry N) (dst # xs)" "distinct (dst # xs)"
    using rooted_distinct_path [OF ns_okD(10) [OF assms(2,3)]] by blast
  have "length (dst # xs) \<le> length (metatree st) + 1"
    using up_path_length [OF assms(1,2) xs] by simp
  from ancestor_walk_path [OF assms(1,2) xs this, of src] show ?thesis
    by (simp add: is_descendant_def avoids_path [OF assms(2) xs])
qed

end
