(* ===== verification/Meta_FileOps.thy ===== *)
theory Meta_FileOps
  imports Meta_Changes
begin

text \<open>
  What the operations of kfsops.cc do to the name space: \<^verbatim>\<open>create\<close>, \<^verbatim>\<open>mkdir\<close>, \<^verbatim>\<open>rmdir\<close>, \<^verbatim>\<open>remove\<close>,
  \<^verbatim>\<open>rename\<close>, the dumpster, \<^verbatim>\<open>assignChunkId\<close>, \<^verbatim>\<open>truncate\<close> and \<^verbatim>\<open>changeFileReplication\<close>. Each lemma gives
  the result of the operation and the new name space as one of the changes of \<^verbatim>\<open>Meta_Changes\<close>.
\<close>

section \<open>Creating\<close>

lemma ns_upd_order [simp]:
  "N\<lparr>ns_entry := e, ns_fattr := f\<rparr> = N\<lparr>ns_fattr := f, ns_entry := e\<rparr>"
  "N\<lparr>ns_chunk := c, ns_fattr := f\<rparr> = N\<lparr>ns_fattr := f, ns_chunk := c\<rparr>"
  "N\<lparr>ns_chunk := c, ns_entry := e\<rparr> = N\<lparr>ns_entry := e, ns_chunk := c\<rparr>"
  by simp_all

definition ids_below :: "NameSpace \<Rightarrow> seq_t \<Rightarrow> bool" where
  "ids_below N k \<longleftrightarrow> (\<forall>f. ns_fattr N f \<noteq> None \<longrightarrow> f \<le> k)"

lemma ids_below_fresh: "ids_below N k \<Longrightarrow> ns_fattr N (k + 1) = None"
  by (cases "ns_fattr N (k + 1)") (auto simp: ids_below_def)

lemma in_ns_fields [simp]:
  "in_ns (st\<lparr>fileID := k\<rparr>) N \<longleftrightarrow> in_ns st N" "in_ns (st\<lparr>dumpster_counter := c\<rparr>) N \<longleftrightarrow> in_ns st N"
  "in_ns (st\<lparr>layout := L\<rparr>) N \<longleftrightarrow> in_ns st N" "in_ns (st\<lparr>chunkID := k\<rparr>) N \<longleftrightarrow> in_ns st N"
  by (simp_all add: in_ns_iff)

lemma link_file_ns:
  assumes "in_ns st N" "legalname n" "n \<notin> dots" "ns_entry N (d, n) = None" "ns_fattr N f = None"
  obtains st' where "link clk d n t f k st = Some (st', 0)" "frame st st'"
    "in_ns st' (N\<lparr>ns_fattr := (ns_fattr N)(f \<mapsto> new_fattr clk t f k), ns_entry := (ns_entry N)((d, n) \<mapsto> f)\<rparr>)"
proof -
  let ?st1 = "insert_meta (MetaDentry (new_dentry d n f)) st"
  let ?st2 = "insert_meta (MetaFattr (new_fattr clk t f k)) ?st1"
  have "link clk d n t f k st = Some (?st2, 0)"
    using assms(2,3) by (simp add: link_def Let_def)
  moreover have "frame st ?st2" using frame_trans [OF insert_meta_fields(2) insert_meta_fields(2)] .
  moreover have "in_ns ?st2 (N\<lparr>ns_entry := (ns_entry N)((d, n) \<mapsto> f),
      ns_fattr := (ns_fattr N)(f \<mapsto> new_fattr clk t f k)\<rparr>)"
    using insert_fattr_ns [OF insert_dentry_ns [OF assms(1,4), of f], of "new_fattr clk t f k"] assms(5) by simp
  ultimately show ?thesis using that by simp
qed

lemma link_dot_ns:
  assumes "in_ns st N" "n \<in> dots" "ns_entry N (d, n) = None"
  obtains st' where "link clk d n t f k st = Some (st', 0)" "frame st st'"
    "in_ns st' (N\<lparr>ns_entry := (ns_entry N)((d, n) \<mapsto> f)\<rparr>)"
proof -
  have "link clk d n t f k st = Some (insert_meta (MetaDentry (new_dentry d n f)) st, 0)"
    using assms(2) by (auto simp: link_def Let_def legalname_def)
  with that insert_dentry_ns [OF assms(1,3)] show ?thesis by simp
qed

lemma create_new_ns:
  assumes "in_ns st N" "ns_ok N" "ids_below N (fileID st)" "dir_in N d"
    "legalname n" "0 < k" "ns_entry N (d, n) = None"
  defines "fid \<equiv> fileID st + 1"
  shows "\<exists>st'. create clk d n 0 k ex st = Some (st', 0, fid) \<and> frame (st\<lparr>fileID := fid\<rparr>) st' \<and>
    in_ns st' (ns_add_file d n (new_fattr clk KFS_FILE fid k) N)"
proof -
  have n: "n \<notin> dots" by (rule free_name_no_dots [OF assms(2,4,7)])
  have fresh: "ns_fattr N fid = None" using ids_below_fresh [OF assms(3)] by (simp add: fid_def)
  obtain st' where "link clk d n KFS_FILE fid k (st\<lparr>fileID := fid\<rparr>) = Some (st', 0)"
      "frame (st\<lparr>fileID := fid\<rparr>) st'"
      "in_ns st' (N\<lparr>ns_fattr := (ns_fattr N)(fid \<mapsto> new_fattr clk KFS_FILE fid k),
        ns_entry := (ns_entry N)((d, n) \<mapsto> fid)\<rparr>)"
    using link_file_ns [of "st\<lparr>fileID := fid\<rparr>" N n d fid clk KFS_FILE k] assms(1,5,7) n fresh by auto
  then show ?thesis
    using lookup_ns [OF assms(1,2), of d n] assms(5,6,7)
    by (auto simp: create_def genid_file_def Let_def fid_def ns_add_file_def)
qed

lemma create_existing_ns:
  assumes "in_ns st N" "ns_ok N" "legalname n" "0 < k" "ns_entry N (d, n) = Some f"
  shows "dir_in N f \<Longrightarrow> create clk d n new k ex st = Some (st, - EISDIR, new)"
    "file_in N f \<Longrightarrow> create clk d n new k True st = Some (st, - EEXIST, new)"
  using lookup_ns [OF assms(1,2), of d n] assms(3,4,5) by (auto simp: create_def dir_in_def file_in_def)

lemma mkdir_new_ns:
  assumes "in_ns st N" "ns_ok N" "ids_below N (fileID st)" "dir_in N d"
    "legalname n \<or> d = ROOTFID" "n \<noteq> ''/''" "ns_entry N (d, n) = None"
  defines "fid \<equiv> fileID st + 1"
  shows "\<exists>st'. mkdir clk d n 0 st = Some (st', 0, fid) \<and> frame (st\<lparr>fileID := fid\<rparr>) st' \<and>
    in_ns st' (ns_add_dir d n (new_fattr clk KFS_DIR fid 1) N)"
proof -
  let ?st0 = "st\<lparr>fileID := fid\<rparr>" and ?a = "new_fattr clk KFS_DIR fid 1"
  let ?st2 = "insert_meta (MetaFattr ?a) (insert_meta (MetaDentry (new_dentry d n fid)) ?st0)"
  have n: "n \<notin> dots" by (rule free_name_no_dots [OF assms(2,4,7)])
  have fresh: "ns_fattr N fid = None" using ids_below_fresh [OF assms(3)] by (simp add: fid_def)
  have df: "d \<noteq> fid" using assms(4) fresh by (auto simp: dir_in_def)
  note noent = fresh_fid(2) [OF assms(2) fresh]
  define N2 where "N2 = N\<lparr>ns_entry := (ns_entry N)((d, n) \<mapsto> fid), ns_fattr := (ns_fattr N)(fid \<mapsto> ?a)\<rparr>"
  have 2: "in_ns ?st2 N2" "frame ?st0 ?st2"
    using insert_fattr_ns [OF insert_dentry_ns [of ?st0 N d n fid], of ?a] assms(1,7) fresh
      frame_trans [OF insert_meta_fields(2) insert_meta_fields(2)]
    by (simp_all add: N2_def)
  have free: "ns_entry N2 (fid, ''.'') = None" "ns_entry N2 (fid, ''..'') = None"
    using noent df by (simp_all add: N2_def)
  from link_dot_ns [OF 2(1) _ free(1), of clk KFS_DIR fid 1]
  obtain st3 where 3: "link clk fid ''.'' KFS_DIR fid 1 ?st2 = Some (st3, 0)" "frame ?st2 st3"
    "in_ns st3 (N2\<lparr>ns_entry := (ns_entry N2)((fid, ''.'') \<mapsto> fid)\<rparr>)"
    by auto
  from link_dot_ns [OF 3(3), of "''..''" fid clk KFS_DIR d 1] free(2)
  obtain st4 where 4: "link clk fid ''..'' KFS_DIR d 1 st3 = Some (st4, 0)" "frame st3 st4"
    "in_ns st4 (N2\<lparr>ns_entry := (ns_entry N2)((fid, ''.'') \<mapsto> fid, (fid, ''..'') \<mapsto> d)\<rparr>)"
    by auto
  have "mkdir clk d n 0 st = Some (st4, 0, fid)"
    using lookup_ns [OF assms(1,2), of d n] assms(5-7) 3(1) 4(1)
    by (auto simp: mkdir_def genid_file_def Let_def fid_def)
  moreover have "frame ?st0 st4" using frame_trans [OF frame_trans [OF 2(2) 3(2)] 4(2)] .
  moreover have "in_ns st4 (ns_add_dir d n ?a N)" using 4(3) by (simp add: N2_def ns_add_dir_def)
  ultimately show ?thesis by blast
qed

lemma mkdir_existing_ns:
  assumes "in_ns st N" "ns_ok N" "ns_entry N (d, n) \<noteq> None" "legalname n \<or> d = ROOTFID"
  shows "mkdir clk d n new st = Some (st, - EEXIST, new)"
  using lookup_ns [OF assms(1,2), of d n] assms(3,4) ns_okD(2) [OF assms(2), of d n]
  by (auto simp: mkdir_def)

section \<open>Removing\<close>

lemma unlink_ns:
  assumes "in_ns st N" "ns_entry N (d, n) \<noteq> None"
  obtains st' where "unlink d n a True st = Some st'" "frame st st'"
    "in_ns st' (N\<lparr>ns_entry := (ns_entry N)((d, n) := None)\<rparr>)"
  using del_dentry_ns [of st N "new_dentry d n (fa_fid a)"] assms by (auto simp: unlink_def)

lemma unlink_fattr_ns:
  assumes "in_ns st N" "ns_entry N (d, n) \<noteq> None" "ns_fattr N (fa_fid a) \<noteq> None"
  obtains st' where "unlink d n a False st = Some st'" "frame st st'"
    "in_ns st' (N\<lparr>ns_fattr := (ns_fattr N)(fa_fid a := None), ns_entry := (ns_entry N)((d, n) := None)\<rparr>)"
proof -
  obtain st1 where 1: "unlink d n a True st = Some st1" "frame st st1"
    "in_ns st1 (N\<lparr>ns_entry := (ns_entry N)((d, n) := None)\<rparr>)"
    using unlink_ns [OF assms(1,2)] by blast
  obtain st2 where 2: "del_assert (MetaFattr a) st1 = Some st2" "frame st1 st2"
    "in_ns st2 (N\<lparr>ns_entry := (ns_entry N)((d, n) := None), ns_fattr := (ns_fattr N)(fa_fid a := None)\<rparr>)"
    using del_fattr_ns [OF 1(3), of a] assms(3) by auto
  have "unlink d n a False st = Some st2" using 1(1) 2(1) by (simp add: unlink_def bind_eq_Some_conv)
  with that frame_trans [OF 1(2) 2(2)] 2(3) show ?thesis by simp
qed

lemma rmdir_empty_ns:
  assumes "in_ns st N" "ns_ok N" "ns_entry N (d, n) = Some f" "dir_in N f" "empty_in N f" "n \<notin> dots"
    "\<not> (d = ROOTFID \<and> n = DUMPSTERDIR)"
  shows "\<exists>st'. rmdir d n st = Some (st', 0) \<and> frame st st' \<and> in_ns st' (ns_del_dir d n f N)"
proof -
  obtain a where a: "ns_fattr N f = Some a" "fa_type a = KFS_DIR" "fa_fid a = f"
    using assms(4) ns_okD(7) [OF assms(2)] by (auto simp: dir_in_def)
  have "d \<noteq> f"
    using empty_has_no_children [OF assms(2,5,4)] ns_okD(5) [OF assms(2,3,6,4)] by auto
  obtain st1 where 1: "unlink f ''.'' a True st = Some st1" "frame st st1"
    "in_ns st1 (N\<lparr>ns_entry := (ns_entry N)((f, ''.'') := None)\<rparr>)"
    using unlink_ns [OF assms(1), of f "''.''" a] ns_okD(3) [OF assms(2,4)] by auto
  obtain st2 where 2: "unlink f ''..'' a True st1 = Some st2" "frame st1 st2"
    "in_ns st2 (N\<lparr>ns_entry := (ns_entry N)((f, ''.'') := None, (f, ''..'') := None)\<rparr>)"
    using unlink_ns [OF 1(3), of f "''..''" a] ns_okD(4) [OF assms(2,4)] by auto
  obtain st3 where 3: "unlink d n a False st2 = Some st3" "frame st2 st3"
    "in_ns st3 (ns_del_dir d n f N)"
    using unlink_fattr_ns [OF 2(3), of d n a] assms(3,6) a \<open>d \<noteq> f\<close> by (auto simp: ns_del_dir_def)
  have "rmdir d n st = Some (st3, 0)"
    using lookup_ns [OF assms(1,2), of d n] emptydir_ns [OF assms(1,2,4)] assms(3,5,6,7) a 1(1) 2(1) 3(1)
    by (auto simp: rmdir_def)
  then show ?thesis using frame_trans [OF frame_trans [OF 1(2) 2(2)] 3(2)] 3(3) by blast
qed

text \<open>The error branches of \<^verbatim>\<open>rmdir\<close> leave everything as it was.\<close>

lemma rmdir_error_ns:
  assumes "in_ns st N" "ns_ok N"
  shows "d = ROOTFID \<Longrightarrow> n = DUMPSTERDIR \<Longrightarrow> rmdir d n st = Some (st, - EPERM)"
    "\<not> (d = ROOTFID \<and> n = DUMPSTERDIR) \<Longrightarrow> ns_entry N (d, n) = None \<Longrightarrow> rmdir d n st = Some (st, - ENOENT)"
    "\<not> (d = ROOTFID \<and> n = DUMPSTERDIR) \<Longrightarrow> ns_entry N (d, n) = Some f \<Longrightarrow> file_in N f \<Longrightarrow>
       rmdir d n st = Some (st, - ENOTDIR)"
    "\<not> (d = ROOTFID \<and> n = DUMPSTERDIR) \<Longrightarrow> ns_entry N (d, n) = Some f \<Longrightarrow> dir_in N f \<Longrightarrow> n \<notin> dots \<Longrightarrow>
       \<not> empty_in N f \<Longrightarrow> rmdir d n st = Some (st, - ENOTEMPTY)"
    "ns_entry N (d, n) = Some f \<Longrightarrow> dir_in N f \<Longrightarrow> n \<in> dots \<Longrightarrow> rmdir d n st = Some (st, - EPERM)"
  using lookup_ns [OF assms, of d n] emptydir_ns [OF assms, of f] ns_okD(7) [OF assms(2), of f]
  by (auto simp: rmdir_def dir_in_def file_in_def DUMPSTERDIR_def)

text \<open>Like \<^verbatim>\<open>frame\<close>, but the layout may change too.\<close>

definition frame_layout :: "LayoutManager \<Rightarrow> MetaState \<Rightarrow> MetaState \<Rightarrow> bool" where
  "frame_layout L st st' \<longleftrightarrow> st' = st\<lparr>metatree := metatree st', layout := L\<rparr>"

lemma frame_layout_trans:
  assumes "frame_layout L st st1" "frame_layout L' st1 st2"
  shows "frame_layout L' st st2"
  using assms by (cases st) (simp add: frame_layout_def, metis MetaState.update_convs(1,6))

lemma frame_to_layout: "frame st st' \<Longrightarrow> frame_layout (layout st) st st'"
  using frame_fields(5) [of st st'] by (cases st) (simp add: frame_layout_def frame_def)

lemma frame_layout_layout: "frame_layout L st st' \<Longrightarrow> layout st' = L"
  by (metis frame_layout_def MetaState.select_convs(6) MetaState.surjective MetaState.update_convs(6))

lemma frame_layout_fields:
  assumes "frame_layout L st st'"
  shows "fileID st' = fileID st" "chunkID st' = chunkID st" "chunkVersionInc st' = chunkVersionInc st"
    "dumpster_counter st' = dumpster_counter st"
proof -
  from assms have e: "st' = st\<lparr>metatree := metatree st', layout := L\<rparr>" by (simp add: frame_layout_def)
  show "fileID st' = fileID st" by (subst e) simp
  show "chunkID st' = chunkID st" by (subst e) simp
  show "chunkVersionInc st' = chunkVersionInc st" by (subst e) simp
  show "dumpster_counter st' = dumpster_counter st" by (subst e) simp
qed

lemma DeleteChunk_meta_ns:
  assumes "in_ns st N" "ns_chunk N (ci_fid c, ci_offset c) \<noteq> None"
  obtains st' where "DeleteChunk_meta c st = Some st'"
    "frame_layout (DeleteChunk (ci_chunkId c) (layout st)) st st'"
    "in_ns st' (N\<lparr>ns_chunk := (ns_chunk N)((ci_fid c, ci_offset c) := None)\<rparr>)"
proof -
  obtain t where t: "store_del (MetaChunkInfo c) (metatree st) = Some t" "store_ok t" "entry_of t = ns_entry N"
    "fattr_of t = ns_fattr N" "chunk_of t = (ns_chunk N)((ci_fid c, ci_offset c) := None)"
    using del_chunk_views [of "metatree st" c] assms by (auto simp: in_ns_iff)
  then have "DeleteChunk_meta c st = Some (st\<lparr>metatree := t, layout := DeleteChunk (ci_chunkId c) (layout st)\<rparr>)"
    by (simp add: DeleteChunk_meta_def del_meta_def)
  with t that show ?thesis by (simp add: in_ns_iff frame_layout_def)
qed

lemma delete_chunks_ns:
  assumes "in_ns st N" "distinct (map ci_offset cs)"
    "\<forall>c\<in>set cs. ci_fid c = f \<and> ns_chunk N (f, ci_offset c) \<noteq> None"
  shows "\<exists>st'. delete_chunks cs st = Some st' \<and>
    frame_layout (fold (\<lambda>c. DeleteChunk (ci_chunkId c)) cs (layout st)) st st' \<and>
    in_ns st' (N\<lparr>ns_chunk := (\<lambda>p. if fst p = f \<and> snd p \<in> ci_offset ` set cs then None else ns_chunk N p)\<rparr>)"
  using assms
proof (induction cs arbitrary: st N)
  case Nil
  then show ?case by (simp add: frame_layout_def)
next
  case (Cons c cs)
  obtain st1 where 1: "DeleteChunk_meta c st = Some st1"
    "frame_layout (DeleteChunk (ci_chunkId c) (layout st)) st st1"
    "in_ns st1 (N\<lparr>ns_chunk := (ns_chunk N)((f, ci_offset c) := None)\<rparr>)"
    using DeleteChunk_meta_ns [OF Cons.prems(1), of c] Cons.prems(3) by auto
  have prem: "\<forall>x\<in>set cs. ci_fid x = f \<and>
      ns_chunk (N\<lparr>ns_chunk := (ns_chunk N)((f, ci_offset c) := None)\<rparr>) (f, ci_offset x) \<noteq> None"
    using Cons.prems(2,3) by (simp add: image_iff) metis
  from Cons.IH [OF 1(3) _ prem] Cons.prems(2) obtain st' where 2: "delete_chunks cs st1 = Some st'"
    "frame_layout (fold (\<lambda>c. DeleteChunk (ci_chunkId c)) cs (layout st1)) st1 st'"
    "in_ns st' (N\<lparr>ns_chunk := (\<lambda>p. if fst p = f \<and> snd p \<in> ci_offset ` set cs then None
       else ((ns_chunk N)((f, ci_offset c) := None)) p)\<rparr>)"
    by (auto cong: if_cong)
  have eq: "(\<lambda>p. if fst p = f \<and> snd p \<in> ci_offset ` set cs then None else ((ns_chunk N)((f, ci_offset c) := None)) p) =
      (\<lambda>p. if fst p = f \<and> snd p \<in> ci_offset ` set (c # cs) then None else ns_chunk N p)"
    by (auto simp: fun_eq_iff)
  show ?case
    using 1(1) 2(1) frame_layout_trans [OF 1(2) 2(2)] 2(3) unfolding eq
    by (simp add: frame_layout_layout [OF 1(2)])
qed

lemma getalloc_ns:
  assumes "in_ns st N"
  shows "\<forall>c\<in>set (getalloc (metatree st) f). ci_fid c = f \<and> ns_chunk N (f, ci_offset c) = Some c"
    "distinct (map ci_offset (getalloc (metatree st) f))"
    "ci_offset ` set (getalloc (metatree st) f) = chunk_offsets (ns_chunk N) f"
    "length (getalloc (metatree st) f) = card (chunk_offsets (ns_chunk N) f)"
  using assms set_getalloc [of "metatree st" _ f] sorted_getalloc [of "metatree st" f]
    offsets_getalloc [of "metatree st" f] length_getalloc [of "metatree st" f]
  by (auto simp: in_ns_iff strict_sorted_iff)

text \<open>No live lease on any chunk of the file.\<close>

definition lease_free :: "timeval \<Rightarrow> MetaState \<Rightarrow> fid_t \<Rightarrow> bool" where
  "lease_free clk st f \<longleftrightarrow> \<not> IsValidLeaseIssued (tv_sec clk) (layout st) (getalloc (metatree st) f)"

definition drop_chunks :: "MetaState \<Rightarrow> fid_t \<Rightarrow> LayoutManager" where
  "drop_chunks st f = fold (\<lambda>c. DeleteChunk (ci_chunkId c)) (getalloc (metatree st) f) (layout st)"

lemma remove_ns:
  assumes "in_ns st N" "ns_ok N" "ns_entry N (d, n) = Some f" "file_in N f" "lease_free clk st f"
  shows "\<exists>st'. remove_with mv clk d n st = Some (st', 0) \<and> frame_layout (drop_chunks st f) st st' \<and>
    in_ns st' (ns_del_file d n f N)"
proof -
  let ?cs = "getalloc (metatree st) f"
  obtain a where a: "ns_fattr N f = Some a" "fa_type a = KFS_FILE" "fa_fid a = f"
    using assms(4) ns_okD(7) [OF assms(2)] by (auto simp: file_in_def)
  have cc: "fa_chunkcount a = int (length ?cs)"
    using ns_okD(9) [OF assms(2) a(1)] getalloc_ns(4) [OF assms(1)] by simp
  note g = getalloc_ns(1-3) [OF assms(1), of f]
  from delete_chunks_ns [OF assms(1) g(2), of f] g(1) obtain st1 where
    1: "delete_chunks ?cs st = Some st1" "frame_layout (drop_chunks st f) st st1"
       "in_ns st1 (N\<lparr>ns_chunk := (\<lambda>p. if fst p = f \<and> snd p \<in> chunk_offsets (ns_chunk N) f then None else ns_chunk N p)\<rparr>)"
    by (auto simp: drop_chunks_def g(3))
  have ch: "(\<lambda>p. if fst p = f \<and> snd p \<in> chunk_offsets (ns_chunk N) f then None else ns_chunk N p) =
      (\<lambda>p. if fst p = f then None else ns_chunk N p)"
    by (auto simp: fun_eq_iff chunk_offsets_def)
  from unlink_fattr_ns [OF 1(3), of d n a] assms(3) a obtain st2 where
    2: "unlink d n a False st1 = Some st2" "frame st1 st2" "in_ns st2 (ns_del_file d n f N)"
    by (auto simp: ns_del_file_def ch)
  have fr: "frame_layout (drop_chunks st f) st st2"
    using frame_layout_trans [OF 1(2) frame_to_layout [OF 2(2)]] frame_layout_layout [OF 1(2)] by simp
  have lk: "lookup (metatree st) d n = Some (Some a)" using lookup_ns [OF assms(1,2), of d n] assms(3) a by simp
  have "remove_with mv clk d n st = Some (st2, 0)"
  proof (cases "?cs = []")
    case True
    then have "st1 = st" using 1(1) by simp
    then show ?thesis using True lk a cc 2(1) by (simp add: remove_with_def)
  next
    case False
    then show ?thesis
      using lk a cc 1(1) 2(1) assms(5) by (simp add: remove_with_def Let_def lease_free_def)
  qed
  with fr 2(3) show ?thesis by blast
qed

lemma remove_error_ns:
  assumes "in_ns st N" "ns_ok N"
  shows "ns_entry N (d, n) = None \<Longrightarrow> remove_with mv clk d n st = Some (st, - ENOENT)"
    "ns_entry N (d, n) = Some f \<Longrightarrow> dir_in N f \<Longrightarrow> remove_with mv clk d n st = Some (st, - EISDIR)"
  using lookup_ns [OF assms, of d n] by (auto simp: remove_with_def dir_in_def)

lemma remove_leased_ns:
  assumes "in_ns st N" "ns_ok N" "ns_entry N (d, n) = Some f" "file_in N f" "\<not> lease_free clk st f"
  shows "remove_with mv clk d n st = mv d n st"
proof -
  let ?cs = "getalloc (metatree st) f"
  obtain a where a: "ns_fattr N f = Some a" "fa_type a = KFS_FILE" "fa_fid a = f"
    using assms(4) ns_okD(7) [OF assms(2)] by (auto simp: file_in_def)
  have cc: "fa_chunkcount a = int (length ?cs)"
    using ns_okD(9) [OF assms(2) a(1)] getalloc_ns(4) [OF assms(1)] by simp
  have "?cs \<noteq> []" using assms(5) by (auto simp: lease_free_def IsValidLeaseIssued_def)
  then show ?thesis
    using lookup_ns [OF assms(1,2), of d n] assms(3,5) a cc by (simp add: remove_with_def Let_def lease_free_def)
qed

section \<open>Renaming\<close>

text \<open>Any entry but the one that leads up can be moved; \<^verbatim>\<open>rename\<close> moves the dot entry of a directory, too.\<close>

lemma move_any_entry_ns:
  assumes "in_ns st N" "ns_ok N" "ns_entry N (d, n) = Some f" "n \<noteq> ''..''" "ns_fattr N f = Some a"
    "dir_in N d'" "ns_entry N (d', n') = None"
  shows "\<exists>st'. move_entry clk (new_dentry d n f) a d' n' st = Some (st', 0) \<and> frame st st' \<and>
    in_ns st' (ns_move d n d' n' f N)"
proof -
  have n': "n' \<notin> dots" by (rule free_name_no_dots [OF assms(2,6,7)])
  have ne: "(d', n') \<noteq> (d, n)" using assms(3,7) by auto
  have af: "fa_fid a = f" using ns_okD(7) [OF assms(2,5)] .
  show ?thesis
  proof (cases "fa_type a = KFS_DIR")
    case False
    then have nd: "\<not> dir_in N f" using assms(5) by (simp add: dir_in_def)
    obtain st1 where 1: "del_assert (MetaDentry (new_dentry d n f)) st = Some st1" "frame st st1"
      "in_ns st1 (N\<lparr>ns_entry := (ns_entry N)((d, n) := None)\<rparr>)"
      using del_dentry_ns [OF assms(1), of "new_dentry d n f"] assms(3) by auto
    let ?st2 = "insert_meta (MetaDentry (new_dentry d' n' f)) st1"
    have "in_ns ?st2 (ns_move d n d' n' f N)"
      using insert_dentry_ns [OF 1(3), of d' n' f] assms(7) nd by (simp add: ns_move_def Let_def)
    moreover have "move_entry clk (new_dentry d n f) a d' n' st = Some (?st2, 0)"
      using False 1(1) by (simp add: move_entry_def)
    ultimately show ?thesis using frame_trans [OF 1(2) insert_meta_fields(2)] by blast
  next
    case True
    then have dd: "dir_in N f" using assms(5) by (simp add: dir_in_def)
    obtain st0 where 0: "unlink f ''..'' a True st = Some st0" "frame st st0"
      "in_ns st0 (N\<lparr>ns_entry := (ns_entry N)((f, ''..'') := None)\<rparr>)"
      using unlink_ns [OF assms(1), of f "''..''" a] ns_okD(4) [OF assms(2) dd] by auto
    obtain st1 where 1: "del_assert (MetaDentry (new_dentry d n f)) st0 = Some st1" "frame st0 st1"
      "in_ns st1 (N\<lparr>ns_entry := (ns_entry N)((f, ''..'') := None, (d, n) := None)\<rparr>)"
      using del_dentry_ns [OF 0(3), of "new_dentry d n f"] assms(3,4) by auto
    let ?st2 = "insert_meta (MetaDentry (new_dentry d' n' f)) st1"
    let ?N2 = "N\<lparr>ns_entry := (ns_entry N)((f, ''..'') := None, (d, n) := None, (d', n') \<mapsto> f)\<rparr>"
    have 2: "in_ns ?st2 ?N2" using insert_dentry_ns [OF 1(3), of d' n' f] assms(7) by simp
    have free: "ns_entry ?N2 (f, ''..'') = None" using n' assms(4) by auto
    obtain st3 where 3: "link clk f ''..'' KFS_DIR d' 1 ?st2 = Some (st3, 0)" "frame ?st2 st3"
      "in_ns st3 (?N2\<lparr>ns_entry := (ns_entry ?N2)((f, ''..'') \<mapsto> d')\<rparr>)"
      by (rule link_dot_ns [OF 2 _ free, of clk KFS_DIR d' 1]) simp_all
    have "(ns_entry ?N2)((f, ''..'') \<mapsto> d') = (ns_entry N)((d, n) := None, (d', n') \<mapsto> f, (f, ''..'') \<mapsto> d')"
      using n' assms(4) by (auto simp: fun_eq_iff)
    then have "in_ns st3 (ns_move d n d' n' f N)" using 3(3) dd by (simp add: ns_move_def Let_def)
    moreover have "move_entry clk (new_dentry d n f) a d' n' st = Some (st3, 0)"
      using True 0(1) 1(1) 3(1) by (simp add: move_entry_def Let_def)
    moreover have "frame st st3"
      by (rule frame_trans [OF frame_trans [OF frame_trans [OF 0(2) 1(2)] insert_meta_fields(2)] 3(2)])
    ultimately show ?thesis by blast
  qed
qed

lemma move_entry_ns:
  assumes "in_ns st N" "ns_ok N" "ns_entry N (d, n) = Some f" "n \<notin> dots" "ns_fattr N f = Some a"
    "dir_in N d'" "ns_entry N (d', n') = None"
  shows "\<exists>st'. move_entry clk (new_dentry d n f) a d' n' st = Some (st', 0) \<and> frame st st' \<and>
    in_ns st' (ns_move d n d' n' f N)"
  using move_any_entry_ns [OF assms(1-3) _ assms(5-7)] assms(4) by simp

text \<open>A path lookup never fails an assert, and what it finds is in the name space.\<close>

lemma path_walk_ns:
  assumes "in_ns st N" "ns_ok N"
  shows "\<exists>r. path_walk (metatree st) d p = Some r \<and> (\<forall>a. r = Some a \<longrightarrow> ns_fattr N (fa_fid a) = Some a)"
proof (induction "metatree st" d p rule: path_walk.induct)
  case (1 d p)
  let ?c = "takeWhile (\<lambda>c. c \<noteq> CHR ''/'') p"
  have found: "ns_fattr N (fa_fid a) = Some a" if "Option.bind (ns_entry N (d, n)) (ns_fattr N) = Some a" for n a
    using that ns_okD(7) [OF assms(2)] by (cases "ns_entry N (d, n)") auto
  show ?case
  proof (cases "CHR ''/'' \<in> set p")
    case False
    then show ?thesis using lookup_ns [OF assms, of d p] found by (simp add: path_walk.simps [of _ d p])
  next
    case True
    note lk = lookup_ns [OF assms, of d ?c]
    show ?thesis
    proof (cases "Option.bind (ns_entry N (d, ?c)) (ns_fattr N)")
      case None
      then show ?thesis using True lk by (simp add: path_walk.simps [of _ d p])
    next
      case (Some a)
      with 1 [OF True] lk show ?thesis using True by (simp add: path_walk.simps [of _ d p])
    qed
  qed
qed

lemma lookupPath_ns:
  assumes "in_ns st N" "ns_ok N"
  shows "\<exists>r. lookupPath (metatree st) d p = Some r \<and> (\<forall>a. r = Some a \<longrightarrow> ns_fattr N (fa_fid a) = Some a)"
proof -
  have "\<exists>r. lookup (metatree st) d n = Some r \<and> (\<forall>a. r = Some a \<longrightarrow> ns_fattr N (fa_fid a) = Some a)" for d n
    using lookup_ns [OF assms, of d n] ns_okD(7) [OF assms(2)] by (cases "ns_entry N (d, n)") auto
  then show ?thesis using path_walk_ns [OF assms] by (simp add: lookupPath_def Let_def)
qed

lemma rename_target_ns:
  assumes "in_ns st N" "ns_ok N" "dir_in N d"
  obtains (error) r where "rename_target (metatree st) d new = Some (Inl r)" "r < 0"
  | (found) d' n' where "rename_target (metatree st) d new = Some (Inr (d', n'))" "dir_in N d'"
proof (cases "CHR ''/'' \<in> set new")
  case False
  then show ?thesis using found [of d new] assms(3) by (simp add: rename_target_def)
next
  case True
  obtain r where r: "lookupPath (metatree st) d (before_slash new) = Some r"
    "\<And>a. r = Some a \<Longrightarrow> ns_fattr N (fa_fid a) = Some a"
    using lookupPath_ns [OF assms(1,2), of d "before_slash new"] by blast
  show ?thesis
  proof (cases r)
    case None
    then show ?thesis using error [of "- ENOENT"] True r by (simp add: rename_target_def)
  next
    case (Some a)
    show ?thesis
    proof (cases "fa_type a = KFS_DIR")
      case True': True
      then have "dir_in N (fa_fid a)" using r(2) [OF Some] by (auto simp: dir_in_def)
      then show ?thesis using found True True' r(1) Some by (simp add: rename_target_def)
    next
      case False
      then show ?thesis using error [of "- ENOTDIR"] True r(1) Some by (simp add: rename_target_def)
    qed
  qed
qed

text \<open>The destination of a rename once what stood there is gone.\<close>

definition ns_clear :: "fid_t \<Rightarrow> string \<Rightarrow> NameSpace \<Rightarrow> NameSpace" where
  "ns_clear d n N =
     (case ns_entry N (d, n) of
        None \<Rightarrow> N
      | Some g \<Rightarrow> if dir_in N g then ns_del_dir d n g N else ns_del_file d n g N)"

text \<open>The errors of \<^verbatim>\<open>rename\<close> after the names have been resolved, in the order of the checks.\<close>

definition rename_error :: "NameSpace \<Rightarrow> bool \<Rightarrow> fid_t \<Rightarrow> fid_t \<Rightarrow> string \<Rightarrow> int option" where
  "rename_error N overwrite f d' n' =
     (case ns_entry N (d', n') of
        None \<Rightarrow> if dir_in N f \<and> \<not> avoids N f d' then Some (- EINVAL) else None
      | Some g \<Rightarrow>
          if \<not> overwrite then Some (- EEXIST)
          else if dir_in N f \<noteq> dir_in N g then Some (if dir_in N f then - ENOTDIR else - EISDIR)
          else if dir_in N f \<and> \<not> empty_in N g then Some (- ENOTEMPTY)
          else if dir_in N f \<and> \<not> avoids N f d' then Some (- EINVAL)
          else if dir_in N f \<and> (n' \<in> dots \<or> d' = ROOTFID \<and> n' = DUMPSTERDIR) then Some (- EPERM)
          else None)"

lemma file_or_dir: "ns_ok N \<Longrightarrow> ns_fattr N f \<noteq> None \<Longrightarrow> file_in N f \<longleftrightarrow> \<not> dir_in N f"
  using ns_okD(8) [of N f] by (auto simp: file_in_def dir_in_def)


lemma avoids_del_dir:
  assumes ok: "ns_ok N" and e: "ns_entry N (d', n') = Some g" "n' \<notin> dots" "dir_in N g" "empty_in N g"
    and av: "avoids N f d'"
  shows "avoids (ns_del_dir d' n' g N) f d'"
proof -
  let ?en = "(ns_entry N)((f, ''..'') := None)" and ?N = "ns_del_dir d' n' g N"
  have d': "dir_in N d'" "d' \<noteq> g"
    using ns_okD(1) [OF ok e(1)] ns_okD(5) [OF ok e(1-3)] empty_has_no_children [OF ok e(4,3)] by auto
  have "rooted ((ns_entry ?N)((f, ''..'') := None)) x" if "rooted ?en x" "dir_in N x" "x \<noteq> g" for x
    using that
  proof induction
    case (rooted_up x p)
    then have x: "ns_entry N (x, ''..'') = Some p" "x \<noteq> f" by (auto split: if_splits)
    then have "p \<noteq> g" "dir_in N p"
      using empty_has_no_children [OF ok e(4) rooted_up.prems(1)] ns_okD(4) [OF ok rooted_up.prems(1)] by auto
    then show ?case
      using rooted_up x e(2) by (intro rooted.rooted_up [of _ x p]) (auto simp: ns_del_dir_def)
  qed (rule rooted_root)
  then show ?thesis using av d' by (auto simp: avoids_def)
qed

lemma ns_clear_ok:
  assumes ok: "ns_ok N" and s: "ns_entry N (d, n) = Some f" "n \<notin> dots" "ns_fattr N f = Some a"
    and d': "dir_in N d'" "(d', n') \<noteq> (d, n)"
    and g: "\<And>g. ns_entry N (d', n') = Some g \<Longrightarrow> dir_in N g \<Longrightarrow> empty_in N g \<and> n' \<notin> dots"
    and av: "dir_in N f \<Longrightarrow> avoids N f d'"
  defines "M \<equiv> ns_clear d' n' N"
  shows "ns_ok M" "ns_entry M (d, n) = Some f" "ns_fattr M f = Some a" "dir_in M d'" "ns_entry M (d', n') = None"
    "dir_in M f \<Longrightarrow> avoids M f d'"
proof -
  have "ns_ok M \<and> ns_entry M (d, n) = Some f \<and> ns_fattr M f = Some a \<and> dir_in M d' \<and>
    ns_entry M (d', n') = None \<and> (dir_in M f \<longrightarrow> avoids M f d')"
  proof (cases "ns_entry N (d', n')")
    case None
    then show ?thesis using ok s d' av by (simp add: M_def ns_clear_def)
  next
    case (Some g)
    have a_g: "ns_fattr N g \<noteq> None" using ns_okD(2) [OF ok Some] by auto
    show ?thesis
    proof (cases "dir_in N g")
      case True
      then have g': "empty_in N g" "n' \<notin> dots" using assms(7) [OF Some] by auto
      have M: "M = ns_del_dir d' n' g N" using True Some by (simp add: M_def ns_clear_def)
      have "d' \<noteq> g" using empty_has_no_children [OF ok g'(1) True] ns_okD(5) [OF ok Some g'(2) True] by auto
      moreover have "d \<noteq> g" using g'(1) s(1,2) by (auto simp: empty_in_def)
      moreover have "f \<noteq> g" using ns_ok_one_name [OF ok s(1,2), of d' n'] Some g'(2) d'(2) by auto
      moreover have "avoids M f d'" if "dir_in N f" unfolding M
        using avoids_del_dir [OF ok Some g'(2) True g'(1) av [OF that]] .
      ultimately show ?thesis
        using ns_del_dir_ok [OF ok Some g'(2) True g'(1)] s d' by (auto simp: M ns_del_dir_def dir_in_def)
    next
      case False
      then have fg: "file_in N g" using file_or_dir [OF ok a_g] by simp
      have M: "M = ns_del_file d' n' g N" using False Some by (simp add: M_def ns_clear_def)
      have n': "n' \<notin> dots" using dot_entries_dirs [OF ok Some] False by blast
      have fg': "f \<noteq> g" using ns_ok_one_name [OF ok s(1,2), of d' n'] Some n' d'(2) by auto
      have "avoids M f d'" if "dir_in N f"
      proof -
        have "rooted ((ns_entry M)((f, ''..'') := None)) d'"
          by (rule rooted_mono [of "(ns_entry N)((f, ''..'') := None)"])
            (use av [OF that] n' in \<open>auto simp: avoids_def M ns_del_file_def split: if_splits\<close>)
        then show ?thesis using av [OF that] by (simp add: avoids_def)
      qed
      with fg' show ?thesis
        using ns_del_file_ok [OF ok Some fg] s d' False by (auto simp: M ns_del_file_def dir_in_def)
    qed
  qed
  then show "ns_ok M" "ns_entry M (d, n) = Some f" "ns_fattr M f = Some a" "dir_in M d'"
    "ns_entry M (d', n') = None" "dir_in M f \<Longrightarrow> avoids M f d'" by blast+
qed

definition cleared_layout :: "MetaState \<Rightarrow> NameSpace \<Rightarrow> fid_t \<Rightarrow> string \<Rightarrow> LayoutManager" where
  "cleared_layout st N d n =
     (case ns_entry N (d, n) of None \<Rightarrow> layout st | Some g \<Rightarrow> if file_in N g then drop_chunks st g else layout st)"

text \<open>What \<^verbatim>\<open>rename\<close> needs: the moved name is not a dot name, and a file that would be overwritten has no live lease.\<close>

definition rename_pre :: "timeval \<Rightarrow> MetaState \<Rightarrow> NameSpace \<Rightarrow> fid_t \<Rightarrow> string \<Rightarrow> fid_t \<Rightarrow> fid_t \<Rightarrow> string \<Rightarrow> bool" where
  "rename_pre clk st N d n f d' n' \<longleftrightarrow>
     ns_entry N (d, n) = Some f \<and> n \<notin> dots \<and> dir_in N d' \<and> legalname n' \<and> (d', n') \<noteq> (d, n) \<and>
     (\<forall>g. ns_entry N (d', n') = Some g \<longrightarrow> file_in N g \<longrightarrow> lease_free clk st g)"

lemma clear_ns:
  assumes ns: "in_ns st N" "ns_ok N" and pre: "rename_pre clk st N d n f d' n'" "ns_fattr N f = Some a"
    and ok: "rename_error N overwrite f d' n' = None"
  shows "\<exists>st1. (if ns_entry N (d', n') = None then Some (st, 0)
      else if fa_type a = KFS_DIR then rmdir d' n' st else remove_with mv clk d' n' st) = Some (st1, 0) \<and>
    in_ns st1 (ns_clear d' n' N) \<and> frame_layout (cleared_layout st N d' n') st st1"
proof (cases "ns_entry N (d', n')")
  case None
  then show ?thesis using ns by (simp add: ns_clear_def cleared_layout_def frame_layout_def)
next
  case (Some g)
  have g: "ns_fattr N g \<noteq> None" using ns_okD(2) [OF ns(2) Some] by auto
  have fd: "fa_type a = KFS_DIR \<longleftrightarrow> dir_in N f" using pre(2) by (simp add: dir_in_def)
  have types: "file_in N f \<longleftrightarrow> \<not> dir_in N f" "file_in N g \<longleftrightarrow> \<not> dir_in N g"
    using file_or_dir [OF ns(2)] g pre(2) by auto
  have same: "dir_in N f \<longleftrightarrow> dir_in N g"
    using ok types by (auto simp: rename_error_def Some split: if_splits)
  show ?thesis
  proof (cases "dir_in N g")
    case True
    then have "empty_in N g" "n' \<notin> dots" "\<not> (d' = ROOTFID \<and> n' = DUMPSTERDIR)"
      using ok same by (auto simp: rename_error_def Some split: if_splits)
    from rmdir_empty_ns [OF ns Some True this] True same fd types show ?thesis
      by (auto simp: Some ns_clear_def cleared_layout_def dest: frame_to_layout)
  next
    case False
    then have "lease_free clk st g" using pre(1) types Some by (auto simp: rename_pre_def)
    from remove_ns [OF ns Some _ this, of mv] False same fd types show ?thesis
      by (auto simp: Some ns_clear_def cleared_layout_def)
  qed
qed

lemma rename_with_resolved:
  assumes ns: "in_ns st N" "ns_ok N" and pre: "rename_pre clk st N d n f d' n'" "ns_fattr N f = Some a"
    and tgt: "rename_target (metatree st) d new = Some (Inr (d', n'))"
  shows "case rename_error N overwrite f d' n' of
      Some r \<Rightarrow> rename_with (remove_with mv clk) clk d n new overwrite st = Some (st, r)
    | None \<Rightarrow> rename_with (remove_with mv clk) clk d n new overwrite st =
      do { (st1, status) \<leftarrow> (if ns_entry N (d', n') = None then Some (st, 0)
             else if fa_type a = KFS_DIR then rmdir d' n' st else remove_with mv clk d' n' st);
           if status \<noteq> 0 then Some (st1, status) else move_entry clk (new_dentry d n f) a d' n' st1 }"
proof -
  have pre': "ns_entry N (d, n) = Some f" "dir_in N d'" "legalname n'" "\<not> (d' = d \<and> n' = n)"
    using pre(1) by (auto simp: rename_pre_def)
  note facts = getDentry_ns [OF ns, of d n] lookup_ns [OF ns, of d n] lookup_ns [OF ns, of d' n'] pre' pre(2) tgt
    is_descendant_ns [OF ns pre'(2), of f]
  have fd: "fa_type a = KFS_DIR \<longleftrightarrow> dir_in N f" using pre(2) by (simp add: dir_in_def)
  have ff: "fa_fid a = f" using ns_okD(7) [OF ns(2) pre(2)] .
  show ?thesis
  proof (cases "ns_entry N (d', n')")
    case None
    then show ?thesis
      using facts fd ff by (auto simp: rename_with_def rename_error_def)
  next
    case (Some g)
    then obtain b where b: "ns_fattr N g = Some b" "fa_fid b = g" using ns_okD(2,7) [OF ns(2)] by blast
    have gd: "fa_type b = KFS_DIR \<longleftrightarrow> dir_in N g" using b by (simp add: dir_in_def)
    have types: "file_in N f \<longleftrightarrow> \<not> dir_in N f" "file_in N g \<longleftrightarrow> \<not> dir_in N g"
      using file_or_dir [OF ns(2)] b pre(2) by auto
    have eqt: "fa_type a = fa_type b \<longleftrightarrow> (dir_in N f \<longleftrightarrow> dir_in N g)"
      using ns_okD(8) [OF ns(2) pre(2)] ns_okD(8) [OF ns(2) b(1)] fd gd by auto
    consider (err) "\<not> overwrite \<or> (dir_in N f \<longleftrightarrow> \<not> dir_in N g)"
      | (files) "overwrite = True" "\<not> dir_in N f" "\<not> dir_in N g"
      | (dirs) "overwrite = True" "dir_in N f" "dir_in N g" by blast
    then show ?thesis
    proof cases
      case err
      then show ?thesis
        using facts fd gd ff b types eqt Some
        by (auto simp: rename_with_def rename_error_def)
    next
      case files
      then show ?thesis
        using facts fd gd ff b types eqt Some
        by (auto simp: rename_with_def rename_error_def)
    next
      case dirs
      note em = emptydir_ns [OF ns dirs(3)]
      let ?special = "n' \<in> dots \<or> d' = ROOTFID \<and> n' = DUMPSTERDIR"
      consider (full) "\<not> empty_in N g" | (loop) "empty_in N g" "\<not> avoids N f d'"
        | (special) "empty_in N g" "avoids N f d'" ?special
        | (fine) "empty_in N g" "avoids N f d'" "\<not> ?special" by blast
      then show ?thesis
      proof cases
        case special
        then have "rmdir d' n' st = Some (st, - EPERM)"
          using rmdir_error_ns(1,5) [OF ns, of d' n'] Some dirs(3) by blast
        then show ?thesis
          using facts fd gd ff b Some em dirs special by (simp add: rename_with_def rename_error_def)
      next
        case fine
        then have "rename_error N overwrite f d' n' = None" using dirs Some by (simp add: rename_error_def)
        then show ?thesis
          using facts fd gd ff b Some em dirs fine by (auto simp: rename_with_def)
      qed (use facts fd gd ff b Some em dirs in \<open>simp_all add: rename_with_def rename_error_def\<close>)
    qed
  qed
qed

lemma rename_ns:
  assumes ns: "in_ns st N" "ns_ok N" and pre: "rename_pre clk st N d n f d' n'"
    and tgt: "rename_target (metatree st) d new = Some (Inr (d', n'))"
    and ok: "rename_error N overwrite f d' n' = None"
  defines "M \<equiv> ns_move d n d' n' f (ns_clear d' n' N)"
  shows "\<exists>st'. rename_with (remove_with mv clk) clk d n new overwrite st = Some (st', 0) \<and> in_ns st' M \<and> ns_ok M \<and>
    frame_layout (cleared_layout st N d' n') st st'"
proof -
  have p: "ns_entry N (d, n) = Some f" "n \<notin> dots" "dir_in N d'" "(d', n') \<noteq> (d, n)"
    using pre by (auto simp: rename_pre_def)
  obtain a where a: "ns_fattr N f = Some a" using ns_okD(2) [OF ns(2) p(1)] by blast
  have av: "avoids N f d'" if "dir_in N f"
    using ok that by (auto simp: rename_error_def split: option.splits if_splits)
  have g: "empty_in N g \<and> n' \<notin> dots" if "ns_entry N (d', n') = Some g" "dir_in N g" for g
    using ok that by (simp add: rename_error_def split: if_splits)
  note cl = ns_clear_ok [OF ns(2) p(1,2) a p(3,4) g av]
  have nr: "f \<noteq> ROOTFID" using av ns_okD(11) [OF ns(2)] by (auto simp: avoids_def)
  obtain st1 where 1: "(if ns_entry N (d', n') = None then Some (st, 0)
      else if fa_type a = KFS_DIR then rmdir d' n' st else remove_with mv clk d' n' st) = Some (st1, 0)"
    "in_ns st1 (ns_clear d' n' N)" "frame_layout (cleared_layout st N d' n') st st1"
    using clear_ns [OF ns pre a ok] by blast
  obtain st2 where 2: "move_entry clk (new_dentry d n f) a d' n' st1 = Some (st2, 0)" "frame st1 st2" "in_ns st2 M"
    using move_entry_ns [OF 1(2) cl(1,2) p(2) cl(3-5)] by (auto simp: M_def)
  have "rename_with (remove_with mv clk) clk d n new overwrite st = Some (st2, 0)"
    using rename_with_resolved [OF ns pre a tgt, where overwrite = overwrite and mv = mv] ok 1(1) 2(1) by simp
  moreover have "ns_ok M" unfolding M_def by (rule ns_move_ok [OF cl(1,2) p(2) cl(4,5,6) nr])
  moreover have "frame_layout (cleared_layout st N d' n') st st2"
    using frame_layout_trans [OF 1(3) frame_to_layout [OF 2(2)]] frame_layout_layout [OF 1(3)] by simp
  ultimately show ?thesis using 2(3) by blast
qed

section \<open>The dumpster\<close>

lemma digit_not_slash: "n < 10 \<Longrightarrow> char_of (n + 48 :: nat) \<noteq> CHR ''/''"
proof
  assume "n < 10" "char_of (n + 48) = CHR ''/''"
  then have "of_char (char_of (n + 48 :: nat)) = (47 :: nat)" by simp
  with \<open>n < 10\<close> show False by (simp add: of_char_of)
qed

lemma decimal_digits_legal: "CHR ''/'' \<notin> set (decimal_digits n) \<and> decimal_digits n \<noteq> []"
proof (induction n rule: decimal_digits.induct)
  case (1 n)
  then show ?case
    using digit_not_slash [of n] digit_not_slash [of "n mod 10"]
    by (subst (1 2) decimal_digits.simps) (auto simp: eq_commute [of "CHR ''/''"])
qed

definition dump_name :: "string \<Rightarrow> int \<Rightarrow> string" where
  "dump_name n k = n @ decimal_digits (nat k)"

lemma dump_name_legal: "legalname n \<Longrightarrow> legalname (dump_name n k)"
  using decimal_digits_legal by (auto simp: legalname_def dump_name_def)

lemma split_last_slash:
  assumes "CHR ''/'' \<notin> set b"
  shows "before_slash (a @ CHR ''/'' # b) = a" "after_slash (a @ CHR ''/'' # b) = b"
proof -
  have "takeWhile (\<lambda>c. c \<noteq> CHR ''/'') (rev b @ CHR ''/'' # rev a) = rev b"
    "dropWhile (\<lambda>c. c \<noteq> CHR ''/'') (rev b @ CHR ''/'' # rev a) = CHR ''/'' # rev a"
    using assms by (auto simp: takeWhile_append dropWhile_append)
  then show "before_slash (a @ CHR ''/'' # b) = a" "after_slash (a @ CHR ''/'' # b) = b"
    by (simp_all add: before_slash_def after_slash_def)
qed

lemma dumpster_target:
  assumes ns: "in_ns st N" "ns_ok N" and D: "ns_entry N (ROOTFID, DUMPSTERDIR) = Some D" "dir_in N D"
    and n: "legalname n"
  shows "rename_target (metatree st) d (dumpster_name n k) = Some (Inr (D, dump_name n k))"
proof -
  have "dumpster_name n k = (''/'' @ DUMPSTERDIR) @ CHR ''/'' # dump_name n k"
    by (simp add: dumpster_name_def dump_name_def)
  moreover have "CHR ''/'' \<notin> set (dump_name n k)" using dump_name_legal [OF n] by (simp add: legalname_def)
  ultimately have s: "before_slash (dumpster_name n k) = ''/'' @ DUMPSTERDIR" "after_slash (dumpster_name n k) = dump_name n k"
    using split_last_slash by metis+
  obtain a where a: "ns_fattr N D = Some a" "fa_type a = KFS_DIR" "fa_fid a = D"
    using D(2) ns_okD(7) [OF ns(2)] by (auto simp: dir_in_def)
  have "lookupPath (metatree st) d (''/'' @ DUMPSTERDIR) = Some (Some a)"
    using lookup_ns [OF ns, of ROOTFID DUMPSTERDIR] D(1) a
    by (simp add: lookupPath_def absolute_def Let_def DUMPSTERDIR_def path_walk.simps)
  moreover have "CHR ''/'' \<in> set (dumpster_name n k)" by (simp add: dumpster_name_def)
  ultimately show ?thesis using a by (simp add: rename_target_def s)
qed

text \<open>A file with a live lease is not deleted but moved into the dumpster, chunks and all.\<close>

lemma moveToDumpster_ns:
  assumes ns: "in_ns st N" "ns_ok N" and D: "ns_entry N (ROOTFID, DUMPSTERDIR) = Some D" "dir_in N D" "D \<noteq> d"
    and f: "ns_entry N (d, n) = Some f" "file_in N f" and n: "legalname n"
    and free: "ns_entry N (D, dump_name n (dumpster_counter st)) = None"
  defines "M \<equiv> ns_move d n D (dump_name n (dumpster_counter st)) f N"
  shows "\<exists>st'. moveToDumpster_with (rename_with (remove_with mv clk) clk) clk d n st = Some (st', 0) \<and>
    frame (st\<lparr>dumpster_counter := (dumpster_counter st + 1) mod 2 ^ 64\<rparr>) st' \<and> in_ns st' M \<and> ns_ok M"
proof -
  let ?c = "dumpster_counter st" and ?st = "st\<lparr>dumpster_counter := (dumpster_counter st + 1) mod 2 ^ 64\<rparr>"
  have ns': "in_ns ?st N" using ns(1) by simp
  have nd: "\<not> dir_in N f" by (rule file_not_dir [OF f(2)])
  have "n \<notin> dots" using dot_entries_dirs [OF ns(2) f(1)] nd by blast
  then have pre: "rename_pre clk ?st N d n f D (dump_name n ?c)"
    using f D(2,3) dump_name_legal [OF n] free by (simp add: rename_pre_def)
  have nf: "rename_error N True f D (dump_name n ?c) = None"
    using free nd by (simp add: rename_error_def)
  have cl: "ns_clear D (dump_name n ?c) N = N" "cleared_layout ?st N D (dump_name n ?c) = layout st"
    using free by (simp_all add: ns_clear_def cleared_layout_def)
  obtain st' where st': "rename_with (remove_with mv clk) clk d n (dumpster_name n ?c) True ?st = Some (st', 0)"
    "in_ns st' M" "ns_ok M" "frame_layout (layout st) ?st st'"
    using rename_ns [OF ns' ns(2) pre dumpster_target [OF ns' ns(2) D(1,2) n] nf, of mv]
    unfolding cl M_def by auto
  have fr: "frame ?st st'"
    using st'(4) by (simp add: frame_layout_def frame_def)
  obtain a where "ns_fattr N D = Some a" "fa_fid a = D"
    using D(2) ns_okD(7) [OF ns(2)] by (auto simp: dir_in_def)
  then have "moveToDumpster_with (rename_with (remove_with mv clk) clk) clk d n st = Some (st', 0)"
    using lookup_ns [OF ns, of ROOTFID DUMPSTERDIR] D(1,3) st'(1) by (simp add: moveToDumpster_with_def)
  then show ?thesis using fr st'(2,3) by blast
qed

lemma remove_n_Suc: "remove_n (Suc k) clk =
    remove_with (moveToDumpster_with (rename_with (remove_n k clk) clk) clk) clk"
  by (simp add: fun_eq_iff)

section \<open>Files and chunks\<close>

lemma ns_file_upd_ok:
  assumes ok: "ns_ok N" and a: "ns_fattr N f = Some a" "fa_type a = KFS_FILE"
    and a': "fa_fid a' = f" "fa_type a' = KFS_FILE" "fa_chunkcount a' = int (card (chunk_offsets ch f))"
    and ch: "finite (chunk_offsets ch f)" "\<And>p. fst p \<noteq> f \<Longrightarrow> ch p = ns_chunk N p"
  shows "ns_ok (N\<lparr>ns_fattr := (ns_fattr N)(f \<mapsto> a'), ns_chunk := ch\<rparr>)"
proof -
  let ?N = "N\<lparr>ns_fattr := (ns_fattr N)(f \<mapsto> a'), ns_chunk := ch\<rparr>"
  have dir: "dir_in ?N x \<longleftrightarrow> dir_in N x" and fil: "file_in ?N x \<longleftrightarrow> file_in N x" for x
    using a a' by (auto simp: dir_in_def file_in_def)
  have f: "file_in N f" using a by (simp add: file_in_def)
  have some: "ns_fattr ?N x = None \<longleftrightarrow> ns_fattr N x = None" for x using a by simp
  have "chunk_offsets ch g = chunk_offsets (ns_chunk N) g" if "g \<noteq> f" for g
    using ch(2) that by (simp add: chunk_offsets_def)
  then have "fattrs_ok ?N" using ok a' ch(1) by (auto simp: ns_ok_def fattrs_ok_def)
  moreover have "chunks_ok ?N"
    unfolding chunks_ok_def fil
  proof (intro allI impI)
    fix g off c assume "ns_chunk ?N (g, off) = Some c"
    then show "file_in N g" using f ch(2) [of "(g, off)"] ns_okD(6) [OF ok, of g off] by (cases "g = f") auto
  qed
  moreover have "links_ok ?N" "one_name ?N"
    using ok unfolding ns_ok_def links_ok_def one_name_def some dir by simp_all
  moreover have "dirs_ok ?N" "parents_ok ?N" "root_ok ?N"
    using ok by (simp_all add: ns_ok_def dirs_ok_def parents_ok_def root_ok_def dir)
  ultimately show ?thesis by (simp add: ns_ok_def)
qed

definition ns_put_chunk :: "timeval \<Rightarrow> fid_t \<Rightarrow> chunkinfo \<Rightarrow> NameSpace \<Rightarrow> NameSpace" where
  "ns_put_chunk clk f c N =
     N\<lparr>ns_fattr := (ns_fattr N)(f := map_option (\<lambda>a. a\<lparr>fa_chunkcount := fa_chunkcount a + 1, fa_filesize := -1,
         fa_mtime := clk\<rparr>) (ns_fattr N f)),
       ns_chunk := (ns_chunk N)((f, ci_offset c) \<mapsto> c)\<rparr>"

lemma chunk_offsets_insert:
  "chunk_offsets (ch((f, off) \<mapsto> c)) f = insert off (chunk_offsets ch f)"
  by (auto simp: chunk_offsets_def)

lemma ns_put_chunk_ok:
  assumes "ns_ok N" "file_in N f" "ns_chunk N (f, ci_offset c) = None"
  shows "ns_ok (ns_put_chunk clk f c N)"
proof -
  obtain a where a: "ns_fattr N f = Some a" "fa_type a = KFS_FILE" using assms(2) by (auto simp: file_in_def)
  have fin: "finite (chunk_offsets (ns_chunk N) f)" using assms(1) a(1) by (auto simp: ns_ok_def fattrs_ok_def)
  have "ci_offset c \<notin> chunk_offsets (ns_chunk N) f" using assms(3) by (simp add: chunk_offsets_def)
  then show ?thesis
    using ns_file_upd_ok [OF assms(1) a, of "a\<lparr>fa_chunkcount := fa_chunkcount a + 1, fa_filesize := -1, fa_mtime := clk\<rparr>"
        "(ns_chunk N)((f, ci_offset c) \<mapsto> c)"] a fin ns_okD(7,9) [OF assms(1) a(1)]
    by (auto simp: ns_put_chunk_def chunk_offsets_insert)
qed

lemma aligned_not_any: "chunkStartOffset off = off \<Longrightarrow> off \<noteq> MATCH_ANY"
proof
  assume "chunkStartOffset off = off" "off = MATCH_ANY"
  moreover have "chunkStartOffset MATCH_ANY \<noteq> MATCH_ANY" by code_simp
  ultimately show False by simp
qed

text \<open>The three outcomes of \<^verbatim>\<open>assignChunkId\<close> for a file and an aligned offset.\<close>

lemma assignChunkId_ns:
  assumes ns: "in_ns st N" "ns_ok N" and f: "file_in N f" and al: "chunkStartOffset off = off"
  shows "case ns_chunk N (f, off) of
      None \<Rightarrow> \<exists>st'. assignChunkId clk f off i v st = (st', 0) \<and> frame st st' \<and>
        in_ns st' (ns_put_chunk clk f (new_chunkinfo f off i v) N) \<and> ns_ok (ns_put_chunk clk f (new_chunkinfo f off i v) N)
    | Some c \<Rightarrow>
        if ci_chunkVersion c = v then assignChunkId clk f off i v st = (st, - EEXIST)
        else \<exists>st'. assignChunkId clk f off i v st = (st', 0) \<and> frame st st' \<and>
          in_ns st' (N\<lparr>ns_chunk := (ns_chunk N)((f, off) \<mapsto> c\<lparr>ci_chunkVersion := v\<rparr>)\<rparr>) \<and>
          ns_ok (N\<lparr>ns_chunk := (ns_chunk N)((f, off) \<mapsto> c\<lparr>ci_chunkVersion := v\<rparr>)\<rparr>)"
proof -
  obtain a where a: "ns_fattr N f = Some a" "fa_type a = KFS_FILE" using f by (auto simp: file_in_def)
  have na: "off \<noteq> MATCH_ANY" by (rule aligned_not_any [OF al])
  have at: "chunk_at (metatree st) f off = ns_chunk N (f, off)"
    using chunk_at_view [of "metatree st" off f] ns(1) na by (simp add: in_ns_iff)
  note gf = getFattr_ns [OF ns(1), of f]
  show ?thesis
  proof (cases "ns_chunk N (f, off)")
    case None
    let ?c = "new_chunkinfo f off i v"
    let ?g = "\<lambda>a. a\<lparr>fa_chunkcount := fa_chunkcount a + 1, fa_filesize := -1, fa_mtime := clk\<rparr>"
    let ?st' = "set_fattr f ?g (insert_meta (MetaChunkInfo ?c) st)"
    have "in_ns (insert_meta (MetaChunkInfo ?c) st) (N\<lparr>ns_chunk := (ns_chunk N)((f, off) \<mapsto> ?c)\<rparr>)"
      using insert_chunk_ns [OF ns(1), of ?c] None na by simp
    from set_fattr_ns [OF this, of ?g f] have "in_ns ?st' (ns_put_chunk clk f ?c N)"
      by (simp add: ns_put_chunk_def)
    moreover have "frame st ?st'" using frame_trans [OF insert_meta_fields(2) set_fattr_frame(1)] .
    moreover have "assignChunkId clk f off i v st = (?st', 0)"
      using gf a at None al by (simp add: assignChunkId_def Let_def)
    moreover have "ns_ok (ns_put_chunk clk f ?c N)" using ns_put_chunk_ok [OF ns(2) f, of ?c] None by simp
    ultimately show ?thesis using None by simp
  next
    case (Some c)
    let ?st' = "set_chunkinfo f off (\<lambda>c. c\<lparr>ci_chunkVersion := v\<rparr>) st"
    let ?ch = "(ns_chunk N)((f, off) \<mapsto> c\<lparr>ci_chunkVersion := v\<rparr>)"
    have "in_ns ?st' (N\<lparr>ns_chunk := ?ch\<rparr>)"
      using set_chunkinfo_ns [OF ns(1), of "\<lambda>c. c\<lparr>ci_chunkVersion := v\<rparr>" off f] na Some by simp
    moreover have "chunk_offsets ?ch f = chunk_offsets (ns_chunk N) f"
      using Some by (auto simp: chunk_offsets_def)
    then have "ns_ok (N\<lparr>ns_chunk := ?ch\<rparr>)"
      using ns_file_upd_ok [OF ns(2) a, of a ?ch] ns_okD(7,9) [OF ns(2) a(1)] ns(2) a
      by (auto simp: ns_ok_def fattrs_ok_def fun_upd_idem)
    ultimately show ?thesis using gf a at al Some by (simp add: assignChunkId_def Let_def)
  qed
qed

lemma changeFileReplication_ns:
  fixes k :: int
  assumes ns: "in_ns st N" "ns_ok N" and f: "file_in N f"
  defines "M \<equiv> N\<lparr>ns_fattr := (ns_fattr N)(f := map_option (\<lambda>a. a\<lparr>fa_numReplicas := k\<rparr>) (ns_fattr N f))\<rparr>"
  shows "\<exists>st'. changeFileReplication f k st = (st', 0) \<and> in_ns st' M \<and> ns_ok M \<and>
    mChunkReplicationCandidates (layout st') =
      mChunkReplicationCandidates (layout st) \<union> ci_chunkId ` set (getalloc (metatree st) f)"
proof -
  obtain a where a: "ns_fattr N f = Some a" "fa_type a = KFS_FILE" using f by (auto simp: file_in_def)
  let ?st1 = "set_fattr f (\<lambda>a. a\<lparr>fa_numReplicas := k\<rparr>) st"
  have 1: "in_ns ?st1 M" using set_fattr_ns [OF ns(1), of "\<lambda>a. a\<lparr>fa_numReplicas := k\<rparr>" f] by (simp add: M_def)
  have "c \<in> set (getalloc (metatree ?st1) f) \<longleftrightarrow> c \<in> set (getalloc (metatree st) f)" for c
    using set_getalloc [of "metatree ?st1" c f] set_getalloc [of "metatree st" c f] 1 ns(1)
    by (simp add: in_ns_iff M_def)
  then have same: "set (getalloc (metatree ?st1) f) = set (getalloc (metatree st) f)" by blast
  have cand: "mChunkReplicationCandidates (fold (\<lambda>c. ChangeChunkReplication (ci_chunkId c)) cs L) =
      mChunkReplicationCandidates L \<union> ci_chunkId ` set cs" for cs L
    by (induction cs arbitrary: L) (auto simp: ChangeChunkReplication_def)
  have "layout ?st1 = layout st" by (rule frame_fields(5) [OF set_fattr_frame(1)])
  moreover have fin: "finite (chunk_offsets (ns_chunk N) f)" using ns(2) a(1) by (auto simp: ns_ok_def fattrs_ok_def)
  have "ns_ok M"
    using ns_file_upd_ok [OF ns(2) a, of "a\<lparr>fa_numReplicas := k\<rparr>" "ns_chunk N"] ns_okD(7,9) [OF ns(2) a(1)] fin a
    by (simp add: M_def)
  ultimately show ?thesis
    using getFattr_ns [OF ns(1), of f] a 1 by (simp add: changeFileReplication_def Let_def cand same)
qed


text \<open>Truncating to an offset whose chunk exists: the chunks after it go away.\<close>

definition ns_truncate :: "timeval \<Rightarrow> fid_t \<Rightarrow> chunkOff_t \<Rightarrow> NameSpace \<Rightarrow> NameSpace" where
  "ns_truncate clk f off N =
     (let ch = (\<lambda>p. if fst p = f \<and> off < snd p then None else ns_chunk N p) in
      N\<lparr>ns_fattr := (ns_fattr N)(f := map_option (\<lambda>a. a\<lparr>fa_filesize := -1,
          fa_chunkcount := int (card (chunk_offsets ch f)), fa_mtime := clk\<rparr>) (ns_fattr N f)), ns_chunk := ch\<rparr>)"

lemma ns_truncate_ok:
  assumes "ns_ok N" "file_in N f"
  shows "ns_ok (ns_truncate clk f off N)"
proof -
  obtain a where a: "ns_fattr N f = Some a" "fa_type a = KFS_FILE" using assms(2) by (auto simp: file_in_def)
  let ?ch = "\<lambda>p. if fst p = f \<and> off < snd p then None else ns_chunk N p"
  have "finite (chunk_offsets (ns_chunk N) f)" using assms(1) a(1) by (auto simp: ns_ok_def fattrs_ok_def)
  then have "finite (chunk_offsets ?ch f)" by (rule rev_finite_subset) (auto simp: chunk_offsets_def)
  then show ?thesis
    using ns_file_upd_ok [OF assms(1) a, of "a\<lparr>fa_filesize := -1, fa_chunkcount := int (card (chunk_offsets ?ch f)),
        fa_mtime := clk\<rparr>" ?ch] a ns_okD(7) [OF assms(1) a(1)]
    by (auto simp: ns_truncate_def Let_def)
qed

lemma sorted_split_at:
  assumes "sorted_wrt (<) (map key xs)" "dropWhile (\<lambda>x. key x < b) xs = y # ys" "key y = (b :: int)"
  shows "set ys = {x \<in> set xs. b < key x}"
proof -
  let ?t = "takeWhile (\<lambda>x. key x < b) xs"
  have xs: "xs = ?t @ y # ys" using assms(2) takeWhile_dropWhile_id [of "\<lambda>x. key x < b" xs] by simp
  have "sorted_wrt (<) (map key (?t @ y # ys))" using assms(1) xs by simp
  then have "\<forall>z\<in>set ys. b < key z" using assms(3) by (simp add: sorted_wrt_append)
  moreover have "\<forall>z\<in>set ?t. key z < b" by (auto dest: set_takeWhileD)
  moreover have "set xs = set ?t \<union> {y} \<union> set ys" by (subst xs) auto
  ultimately show ?thesis using assms(3) by fastforce
qed

definition truncated_layout :: "MetaState \<Rightarrow> fid_t \<Rightarrow> chunkOff_t \<Rightarrow> chunkinfo \<Rightarrow> LayoutManager" where
  "truncated_layout st f off c =
     fold (\<lambda>x. DeleteChunk (ci_chunkId x)) (filter (\<lambda>x. ci_offset c < ci_offset x) (getalloc (metatree st) f))
       (TruncateChunk (ci_chunkId c) (off - ci_offset c) (layout st))"

lemma truncate_tail_ns:
  assumes ns: "in_ns st N" "ns_ok N" and f: "file_in N f"
    and c: "ci_fid c = f" "ci_offset c \<le> off"
    and rest: "set rest = {x \<in> set (getalloc (metatree st) f). ci_offset c < ci_offset x}" "distinct (map ci_offset rest)"
    and g: "\<And>a. fa_fid (g a) = fa_fid a" "\<And>a. g a = a\<lparr>fa_filesize := -1\<rparr>"
  shows "\<exists>st'. truncate_tail clk f off (c # rest) (set_fattr f g st) = Some st' \<and>
    in_ns st' (ns_truncate clk f (ci_offset c) N)"
proof -
  let ?L = "TruncateChunk (ci_chunkId c) (off - ci_offset c) (layout (set_fattr f g st))"
  let ?st1 = "(set_fattr f g st)\<lparr>layout := ?L\<rparr>"
  let ?F = "(ns_fattr N)(f := map_option g (ns_fattr N f))"
  let ?ch = "\<lambda>p. if fst p = f \<and> ci_offset c < snd p then None else ns_chunk N p"
  obtain a where a: "ns_fattr N f = Some a" "fa_type a = KFS_FILE" using f by (auto simp: file_in_def)
  note al = getalloc_ns [OF ns(1), of f]
  have 1: "in_ns ?st1 (N\<lparr>ns_fattr := ?F\<rparr>)" using set_fattr_ns [OF ns(1) g(1), of f] by simp
  have "\<forall>x\<in>set rest. ci_fid x = f \<and> ns_chunk (N\<lparr>ns_fattr := ?F\<rparr>) (f, ci_offset x) \<noteq> None"
    using rest(1) al(1) by auto
  from delete_chunks_ns [OF 1 rest(2) this] obtain st2 where 2: "delete_chunks rest ?st1 = Some st2"
    "in_ns st2 (N\<lparr>ns_fattr := ?F, ns_chunk := (\<lambda>p. if fst p = f \<and> snd p \<in> ci_offset ` set rest then None else ns_chunk N p)\<rparr>)"
    by (auto cong: if_cong)
  have offs: "ci_offset ` set rest = {x \<in> chunk_offsets (ns_chunk N) f. ci_offset c < x}"
    unfolding rest(1) al(3) [symmetric] by auto
  have ch: "(\<lambda>p. if fst p = f \<and> snd p \<in> ci_offset ` set rest then None else ns_chunk N p) = ?ch"
    unfolding offs by (auto simp: fun_eq_iff chunk_offsets_def)
  have fin: "finite (chunk_offsets (ns_chunk N) f)" using ns(2) a(1) by (auto simp: ns_ok_def fattrs_ok_def)
  have "chunk_offsets ?ch f = chunk_offsets (ns_chunk N) f - ci_offset ` set rest"
    unfolding offs by (auto simp: chunk_offsets_def)
  moreover have sub: "ci_offset ` set rest \<subseteq> chunk_offsets (ns_chunk N) f" unfolding offs by auto
  moreover have "card (ci_offset ` set rest) = length rest" using distinct_card [OF rest(2)] by simp
  ultimately have "int (card (chunk_offsets ?ch f)) = fa_chunkcount a - int (length rest)"
    using card_Diff_subset [of "ci_offset ` set rest" "chunk_offsets (ns_chunk N) f"] card_mono [OF fin sub]
      ns_okD(9) [OF ns(2) a(1)] by simp
  moreover have "in_ns (set_fattr f (\<lambda>a. a\<lparr>fa_chunkcount := fa_chunkcount a - int (length rest), fa_mtime := clk\<rparr>) st2)
     (N\<lparr>ns_fattr := ?F(f := map_option (\<lambda>a. a\<lparr>fa_chunkcount := fa_chunkcount a - int (length rest), fa_mtime := clk\<rparr>) (?F f)),
        ns_chunk := ?ch\<rparr>)"
    using set_fattr_ns [OF 2(2), of "\<lambda>a. a\<lparr>fa_chunkcount := fa_chunkcount a - int (length rest), fa_mtime := clk\<rparr>" f]
    unfolding ch by simp
  ultimately show ?thesis
    using 2(1) c(2) a g(2) by (simp add: truncate_tail_def Let_def ns_truncate_def)
qed

lemma truncate_ns:
  assumes ns: "in_ns st N" "ns_ok N" and f: "file_in N f" and b: "chunkStartOffset off \<le> off"
  shows "case ns_chunk N (f, chunkStartOffset off) of
      None \<Rightarrow> \<exists>st'. truncate_file clk f off st = Some (st', 1, Some (chunkStartOffset off)) \<and> frame st st' \<and>
        in_ns st' (N\<lparr>ns_fattr := (ns_fattr N)(f := map_option (\<lambda>a. a\<lparr>fa_filesize := -1\<rparr>) (ns_fattr N f))\<rparr>)
    | Some c \<Rightarrow> \<exists>st'. truncate_file clk f off st = Some (st', 0, None) \<and>
        in_ns st' (ns_truncate clk f (chunkStartOffset off) N) \<and> ns_ok (ns_truncate clk f (chunkStartOffset off) N)"
proof -
  let ?b = "chunkStartOffset off" and ?cs = "getalloc (metatree st) f"
  let ?ms = "dropWhile (\<lambda>c. ci_offset c < ?b) ?cs" and ?g = "\<lambda>a :: fattr. a\<lparr>fa_filesize := -1\<rparr>"
  obtain a where a: "ns_fattr N f = Some a" "fa_type a = KFS_FILE" "fa_fid a = f"
    using f ns_okD(7) [OF ns(2)] by (auto simp: file_in_def)
  note al = getalloc_ns [OF ns(1), of f]
  have srt: "sorted_wrt (<) (map ci_offset ?cs)"
    using sorted_getalloc ns(1) by (simp add: in_ns_iff)
  have cc: "fa_chunkcount a = int (length ?cs)" using ns_okD(9) [OF ns(2) a(1)] al(4) by simp
  have tr: "truncate_file clk f off st = (if ?ms = [] \<or> ci_offset (hd ?ms) \<noteq> ?b then Some (set_fattr f ?g st, 1, Some ?b)
      else do { st2 \<leftarrow> truncate_tail clk f off ?ms (set_fattr f ?g st); Some (st2, 0, None) })"
    using getFattr_ns [OF ns(1), of f] a cc by (simp add: truncate_file_def Let_def)
  have sub: "set ?ms \<subseteq> set ?cs" using set_dropWhileD by fast
  show ?thesis
  proof (cases "ns_chunk N (f, ?b)")
    case None
    have "\<not> (?ms \<noteq> [] \<and> ci_offset (hd ?ms) = ?b)"
    proof
      assume "?ms \<noteq> [] \<and> ci_offset (hd ?ms) = ?b"
      moreover from this have "hd ?ms \<in> set ?cs" using sub list.set_sel(1) by blast
      ultimately show False using al(1) None by force
    qed
    with tr None show ?thesis using set_fattr_ns [OF ns(1), of ?g f] by auto
  next
    case (Some c)
    then obtain x where x: "x \<in> set ?cs" "ci_offset x = ?b"
      using al(3) by (metis (mono_tags, lifting) chunk_offsets_def imageE mem_Collect_eq option.distinct(1))
    obtain y ys where y: "?ms = y # ys" using x by (cases ?ms) (auto simp: dropWhile_eq_Nil_conv)
    have yin: "y \<in> set ?cs" using sub y by auto
    have "ci_offset y = ?b"
    proof -
      have "\<not> ci_offset y < ?b" using hd_dropWhile [of "\<lambda>c. ci_offset c < ?b" ?cs] y by simp
      moreover have "x \<in> set (y # ys)"
        using x takeWhile_dropWhile_id [of "\<lambda>c. ci_offset c < ?b" ?cs] y
        by (metis Un_iff order_less_irrefl set_append set_takeWhileD)
      moreover have "sorted_wrt (<) (map ci_offset (y # ys))"
        using srt y sorted_wrt_append takeWhile_dropWhile_id map_append by metis
      ultimately show ?thesis using x(2) by force
    qed
    then have yb: "ci_offset y = ?b" .
    have rest: "set ys = {x \<in> set ?cs. ?b < ci_offset x}" using sorted_split_at [OF srt y yb] .
    have "distinct (map ci_offset (y # ys))"
      using srt y by (metis distinct_append map_append strict_sorted_iff takeWhile_dropWhile_id)
    then have di: "distinct (map ci_offset ys)" by simp
    from truncate_tail_ns [OF ns f, of y off ys ?g clk] yin al(1) yb rest di b
    obtain st' where "truncate_tail clk f off (y # ys) (set_fattr f ?g st) = Some st'"
      "in_ns st' (ns_truncate clk f ?b N)" by auto
    then show ?thesis using tr y yb Some ns_truncate_ok [OF ns(2) f, of clk ?b] by simp
  qed
qed

end
