(* ===== verification/Meta_Safety.thy ===== *)
theory Meta_Safety
  imports Meta_FileOps
begin

text \<open>
  The invariant of the name space together with the id generator, and that every operation of
  kfsops.cc returns (no assert fails, no loop runs on) and keeps it. \<^verbatim>\<open>remove\<close>, \<^verbatim>\<open>moveToDumpster\<close> and
  \<^verbatim>\<open>rename\<close> call each other; the bound of two on their depth is shown to be enough.
\<close>

section \<open>The invariant of the name space\<close>

definition files_legal :: "NameSpace \<Rightarrow> bool" where
  "files_legal N \<longleftrightarrow> (\<forall>d n f. ns_entry N (d, n) = Some f \<longrightarrow> file_in N f \<longrightarrow> legalname n)"

definition ns_good :: "seq_t \<Rightarrow> NameSpace \<Rightarrow> bool" where
  "ns_good k N \<longleftrightarrow> ns_ok N \<and> files_legal N \<and> ids_below N k"

definition ns_inv :: "MetaState \<Rightarrow> bool" where
  "ns_inv st \<longleftrightarrow> store_ok (metatree st) \<and> ns_good (fileID st) (names st)"

lemma ns_invI: "in_ns st N \<Longrightarrow> ns_good (fileID st) N \<Longrightarrow> ns_inv st"
  by (simp add: ns_inv_def in_ns_def)

lemma ns_invD:
  assumes "ns_inv st"
  shows "in_ns st (names st)" "ns_ok (names st)" "files_legal (names st)" "ids_below (names st) (fileID st)"
  using assms by (simp_all add: ns_inv_def ns_good_def in_ns_self)

lemma ns_good_add_file:
  assumes "ns_good k N" "dir_in N d" "ns_entry N (d, n) = None" "legalname n"
    "fa_fid a = k + 1" "fa_type a = KFS_FILE" "fa_chunkcount a = 0"
  shows "ns_good (k + 1) (ns_add_file d n a N)"
proof -
  have ok: "ns_ok N" and leg: "files_legal N" and ids: "ids_below N k" using assms(1) by (simp_all add: ns_good_def)
  have fresh: "ns_fattr N (fa_fid a) = None" using ids_below_fresh [OF ids] assms(5) by simp
  have n: "n \<notin> dots" by (rule free_name_no_dots [OF ok assms(2,3)])
  have "ns_ok (ns_add_file d n a N)"
    by (rule ns_add_file_ok [OF ok assms(2,3) n fresh assms(6,7)])
  moreover have "files_legal (ns_add_file d n a N)"
    using leg assms(4) fresh_fid(1) [OF ok fresh]
    by (auto simp: files_legal_def ns_add_file_def file_in_def split: if_splits)
  moreover have "ids_below (ns_add_file d n a N) (k + 1)"
    using ids assms(5) by (fastforce simp: ids_below_def ns_add_file_def)
  ultimately show ?thesis by (simp add: ns_good_def)
qed

lemma ns_good_add_dir:
  assumes "ns_good k N" "dir_in N d" "ns_entry N (d, n) = None"
    "fa_fid a = k + 1" "fa_type a = KFS_DIR" "fa_chunkcount a = 0"
  shows "ns_good (k + 1) (ns_add_dir d n a N)"
proof -
  have ok: "ns_ok N" and leg: "files_legal N" and ids: "ids_below N k" using assms(1) by (simp_all add: ns_good_def)
  have fresh: "ns_fattr N (fa_fid a) = None" using ids_below_fresh [OF ids] assms(4) by simp
  have n: "n \<notin> dots" by (rule free_name_no_dots [OF ok assms(2,3)])
  have "\<not> file_in N d" using file_not_dir assms(2) by blast
  then have "files_legal (ns_add_dir d n a N)"
    using leg assms(5) fresh_fid(1) [OF ok fresh] assms(2)
    by (auto simp: files_legal_def ns_add_dir_def file_in_def dir_in_def legalname_def split: if_splits)
  moreover have "ids_below (ns_add_dir d n a N) (k + 1)"
    using ids assms(4) by (fastforce simp: ids_below_def ns_add_dir_def)
  ultimately show ?thesis
    using ns_add_dir_ok [OF ok assms(2,3) n fresh assms(5,6)] by (simp add: ns_good_def)
qed

lemma ns_good_del_file:
  assumes "ns_good k N" "ns_entry N (d, n) = Some f" "file_in N f"
  shows "ns_good k (ns_del_file d n f N)"
  using assms ns_del_file_ok [of N d n f]
  by (auto simp: ns_good_def files_legal_def ids_below_def ns_del_file_def file_in_def split: if_splits)

lemma ns_good_del_dir:
  assumes "ns_good k N" "ns_entry N (d, n) = Some f" "n \<notin> dots" "dir_in N f" "empty_in N f"
  shows "ns_good k (ns_del_dir d n f N)"
  using assms ns_del_dir_ok [of N d n f]
  by (auto simp: ns_good_def files_legal_def ids_below_def ns_del_dir_def file_in_def split: if_splits)

lemma ns_good_clear:
  assumes "ns_good k N" "\<And>g. ns_entry N (d, n) = Some g \<Longrightarrow> dir_in N g \<Longrightarrow> empty_in N g \<and> n \<notin> dots"
  shows "ns_good k (ns_clear d n N)"
proof (cases "ns_entry N (d, n)")
  case (Some g)
  have ok: "ns_ok N" using assms(1) by (simp add: ns_good_def)
  then have "ns_fattr N g \<noteq> None" using ns_okD(2) [OF ok Some] by auto
  from file_or_dir [OF ok this] show ?thesis
    using Some assms ns_good_del_dir [OF assms(1) Some] ns_good_del_file [OF assms(1) Some]
    by (auto simp: ns_clear_def)
qed (use assms in \<open>simp add: ns_clear_def\<close>)

lemma ns_good_move:
  assumes "ns_good k N" "ns_ok (ns_move d n d' n' f N)" "legalname n'" "dir_in N d'"
  shows "ns_good k (ns_move d n d' n' f N)"
proof -
  have "\<not> file_in N d'" using assms(4) file_not_dir by blast
  then show ?thesis
    using assms
    by (auto simp: ns_good_def files_legal_def ids_below_def ns_move_def Let_def file_in_def dir_in_def split: if_splits)
qed

text \<open>Attributes and chunks of a file change, nothing else.\<close>

lemma ns_good_file_change:
  assumes "ns_good k N" "ns_ok M" "ns_entry M = ns_entry N" "\<And>x. file_in M x \<longleftrightarrow> file_in N x"
    "\<And>x. ns_fattr M x = None \<longleftrightarrow> ns_fattr N x = None"
  shows "ns_good k M"
  using assms by (auto simp: ns_good_def files_legal_def ids_below_def)

section \<open>Removing never fails an assert\<close>

lemma remove_step:
  assumes inv: "ns_inv st" and e: "ns_entry (names st) (d, n) = Some f" "file_in (names st) f" "lease_free clk st f"
  obtains st' where "remove_with mv clk d n st = Some (st', 0)" "ns_inv st'"
    "names st' = ns_del_file d n f (names st)" "fileID st' = fileID st" "layout st' = drop_chunks st f"
    "dumpster_counter st' = dumpster_counter st"
proof -
  obtain st' where st': "remove_with mv clk d n st = Some (st', 0)" "frame_layout (drop_chunks st f) st st'"
    "in_ns st' (ns_del_file d n f (names st))"
    using remove_ns [OF ns_invD(1,2) [OF inv] e, of mv] by blast
  have "ns_good (fileID st) (ns_del_file d n f (names st))"
    using inv ns_good_del_file [OF _ e(1,2)] by (simp add: ns_inv_def)
  with st' that frame_layout_fields [OF st'(2)] frame_layout_layout [OF st'(2)] ns_invI [OF st'(3)] show ?thesis
    by (simp add: in_ns_def)
qed

text \<open>
  The cases of \<^verbatim>\<open>remove\<close>, where \<^verbatim>\<open>mv\<close> is what happens to a file with a live lease.
\<close>

lemma remove_cases:
  assumes inv: "ns_inv st"
  obtains (missing) "ns_entry (names st) (d, n) = None" "remove_with mv clk d n st = Some (st, - ENOENT)"
  | (dir) f where "ns_entry (names st) (d, n) = Some f" "dir_in (names st) f"
      "remove_with mv clk d n st = Some (st, - EISDIR)"
  | (free) f where "ns_entry (names st) (d, n) = Some f" "file_in (names st) f" "lease_free clk st f"
  | (leased) f where "ns_entry (names st) (d, n) = Some f" "file_in (names st) f" "\<not> lease_free clk st f"
      "remove_with mv clk d n st = mv d n st"
proof (cases "ns_entry (names st) (d, n)")
  case None
  with missing remove_error_ns(1) [OF ns_invD(1,2) [OF inv]] show ?thesis by blast
next
  case (Some f)
  have "ns_fattr (names st) f \<noteq> None" using ns_okD(2) [OF ns_invD(2) [OF inv] Some] by auto
  from file_or_dir [OF ns_invD(2) [OF inv] this] show ?thesis
    using Some dir [OF Some] free [OF Some] leased [OF Some]
      remove_error_ns(2) [OF ns_invD(1,2) [OF inv] Some] remove_leased_ns [OF ns_invD(1,2) [OF inv] Some]
    by blast
qed

definition dumpster_in :: "NameSpace \<Rightarrow> fid_t option" where
  "dumpster_in N = ns_entry N (ROOTFID, DUMPSTERDIR)"

lemma moveToDumpster_from_dumpster:
  assumes inv: "ns_inv st" and D: "dumpster_in (names st) = Some D"
  shows "moveToDumpster_with rn clk D n st = Some (st, - EEXIST)"
proof -
  obtain a where "ns_fattr (names st) D = Some a" "fa_fid a = D"
    using ns_okD(2,7) [OF ns_invD(2) [OF inv]] D unfolding dumpster_in_def by blast
  then show ?thesis
    using lookup_ns [OF ns_invD(1,2) [OF inv], of ROOTFID DUMPSTERDIR] D
    by (simp add: moveToDumpster_with_def dumpster_in_def)
qed

lemma rename_target_dumpster:
  assumes inv: "ns_inv st" and D: "dumpster_in (names st) = Some D" and n: "legalname n"
  shows "rename_target (metatree st) d (dumpster_name n k) =
    Some (if dir_in (names st) D then Inr (D, dump_name n k) else Inl (- ENOTDIR))"
proof (cases "dir_in (names st) D")
  case True
  then show ?thesis using dumpster_target [OF ns_invD(1,2) [OF inv] _ True n] D by (simp add: dumpster_in_def)
next
  case False
  obtain a where a: "ns_fattr (names st) D = Some a" "fa_type a \<noteq> KFS_DIR"
    using ns_okD(2) [OF ns_invD(2) [OF inv]] D False unfolding dumpster_in_def dir_in_def by metis
  have "CHR ''/'' \<notin> set (dump_name n k)" using dump_name_legal [OF n] by (simp add: legalname_def)
  from split_last_slash(1) [OF this, of "''/'' @ DUMPSTERDIR"]
  have s: "before_slash (dumpster_name n k) = ''/'' @ DUMPSTERDIR" by (simp add: dumpster_name_def dump_name_def)
  have "lookupPath (metatree st) d (''/'' @ DUMPSTERDIR) = Some (Some a)"
    using lookup_ns [OF ns_invD(1,2) [OF inv], of ROOTFID DUMPSTERDIR] D a(1)
    by (simp add: lookupPath_def absolute_def Let_def DUMPSTERDIR_def path_walk.simps dumpster_in_def)
  moreover have "CHR ''/'' \<in> set (dumpster_name n k)" by (simp add: dumpster_name_def)
  ultimately show ?thesis using a(2) False by (simp add: rename_target_def s)
qed

text \<open>What a rename of a file into the dumpster does, with its four outcomes.\<close>

definition dumped :: "timeval \<Rightarrow> MetaState \<Rightarrow> fid_t \<Rightarrow> string \<Rightarrow> string \<Rightarrow> fid_t \<Rightarrow> MetaState \<Rightarrow> int \<Rightarrow> bool" where
  "dumped clk st d n m f st' r \<longleftrightarrow>
     (let N = names st; D = the (dumpster_in N) in
      if dir_in N D \<and>
         (case ns_entry N (D, m) of None \<Rightarrow> True | Some g \<Rightarrow> file_in N g \<and> lease_free clk st g)
      then r = 0 \<and> names st' = ns_move d n D m f (ns_clear D m N) \<and> layout st' = cleared_layout st N D m \<and>
        dumpster_counter st' = dumpster_counter st
      else r \<in> {- ENOTDIR, - EISDIR, - EEXIST} \<and> st' = st)"

lemma rename_into_dumpster:
  assumes inv: "ns_inv st" and D: "dumpster_in (names st) = Some D" "D \<noteq> d"
    and f: "ns_entry (names st) (d, n) = Some f" "file_in (names st) f" and n: "legalname n"
  shows "\<exists>st' r. rename_with (remove_n (Suc k) clk) clk d n (dumpster_name n c) True st = Some (st', r) \<and>
    ns_inv st' \<and> fileID st' = fileID st \<and> dumped clk st d n (dump_name n c) f st' r"
proof -
  let ?N = "names st" and ?m = "dump_name n c"
  note ns = ns_invD(1,2) [OF inv]
  have nd: "\<not> dir_in ?N f" by (rule file_not_dir [OF f(2)])
  have ndot: "n \<notin> dots" using dot_entries_dirs [OF ns(2) f(1)] nd by blast
  obtain a where a: "ns_fattr ?N f = Some a" "fa_type a = KFS_FILE" using f(2) by (auto simp: file_in_def)
  note tgt = rename_target_dumpster [OF inv D(1) n, of d c]
  consider (nodir) "\<not> dir_in ?N D" | (busy) g where "dir_in ?N D" "ns_entry ?N (D, ?m) = Some g" "file_in ?N g" "\<not> lease_free clk st g"
    | (other) "dir_in ?N D" "\<And>g. ns_entry ?N (D, ?m) = Some g \<Longrightarrow> file_in ?N g \<Longrightarrow> lease_free clk st g" by blast
  then show ?thesis
  proof cases
    case nodir
    then have "rename_with (remove_n (Suc k) clk) clk d n (dumpster_name n c) True st = Some (st, - ENOTDIR)"
      using getDentry_ns [OF ns, of d n] f(1) tgt by (simp add: rename_with_def)
    then show ?thesis using inv nodir D(1) by (simp add: dumped_def Let_def)
  next
    case busy
    obtain b where b: "ns_fattr ?N g = Some b" "fa_type b = KFS_FILE" using busy(3) by (auto simp: file_in_def)
    have "remove_n (Suc k) clk D ?m st = Some (st, - EEXIST)"
      using remove_leased_ns [OF ns busy(2-4)] moveToDumpster_from_dumpster [OF inv D(1)] by simp
    then have "rename_with (remove_n (Suc k) clk) clk d n (dumpster_name n c) True st = Some (st, - EEXIST)"
      using getDentry_ns [OF ns, of d n] lookup_ns [OF ns, of d n] lookup_ns [OF ns, of D ?m] f(1) a b busy(1,2) tgt
        dump_name_legal [OF n, of c] D(2) by (simp add: rename_with_def del: remove_n.simps)
    then show ?thesis using inv busy D(1) by (simp add: dumped_def Let_def)
  next
    case other
    have pre: "rename_pre clk st ?N d n f D ?m"
      using f(1) ndot other D(2) dump_name_legal [OF n] by (auto simp: rename_pre_def)
    note tgt' = tgt [unfolded if_P [OF other(1)]]
    let ?mv = "moveToDumpster_with (rename_with (remove_n k clk) clk) clk"
    show ?thesis
    proof (cases "rename_error ?N True f D ?m")
      case (Some r)
      then have "rename_with (remove_n (Suc k) clk) clk d n (dumpster_name n c) True st = Some (st, r)"
        using rename_with_resolved [OF ns pre a(1) tgt', where overwrite = True and mv = ?mv] unfolding remove_n_Suc by simp
      moreover obtain g where g: "ns_entry ?N (D, ?m) = Some g" "dir_in ?N g" "r = - EISDIR"
        using Some nd by (auto simp: rename_error_def split: option.splits if_splits)
      then have "\<not> file_in ?N g" using file_not_dir by blast
      ultimately show ?thesis using g inv D(1) by (simp add: dumped_def Let_def)
    next
      case None
      let ?M = "ns_move d n D ?m f (ns_clear D ?m ?N)"
      obtain st' where st': "rename_with (remove_n (Suc k) clk) clk d n (dumpster_name n c) True st = Some (st', 0)"
        "in_ns st' ?M" "ns_ok ?M" "frame_layout (cleared_layout st ?N D ?m) st st'"
        using rename_ns [OF ns pre tgt' None, of ?mv] unfolding remove_n_Suc by blast
      have nog: "file_in ?N g \<and> \<not> dir_in ?N g" if "ns_entry ?N (D, ?m) = Some g" for g
        using None that nd file_or_dir [OF ns(2), of g] ns_okD(2) [OF ns(2) that]
        by (auto simp: rename_error_def split: if_splits)
      have gc: "ns_good (fileID st) (ns_clear D ?m ?N)"
        using ns_good_clear [of "fileID st" ?N D ?m] inv nog by (auto simp: ns_inv_def)
      have "dir_in (ns_clear D ?m ?N) D"
        by (rule ns_clear_ok(4) [OF ns(2) f(1) ndot a(1) other(1)]) (use D(2) nog nd in auto)
      then have "ns_good (fileID st) ?M"
        by (rule ns_good_move [OF gc st'(3) dump_name_legal [OF n]])
      then have "ns_inv st'" using ns_invI [OF st'(2)] frame_layout_fields(1) [OF st'(4)] by simp
      moreover have "dumped clk st d n ?m f st' 0"
        using other nog D(1) st'(2) frame_layout_layout [OF st'(4)] frame_layout_fields [OF st'(4)]
        by (auto simp: dumped_def Let_def in_ns_def split: option.splits)
      ultimately show ?thesis using st'(1) frame_layout_fields(1) [OF st'(4)] by blast
    qed
  qed
qed

lemma mkdir_step:
  assumes inv: "ns_inv st" and d: "dir_in (names st) d" "ns_entry (names st) (d, n) = None"
    and n: "legalname n \<or> d = ROOTFID" "n \<noteq> ''/''"
  obtains st' where "mkdir clk d n 0 st = Some (st', 0, fileID st + 1)" "ns_inv st'"
    "names st' = ns_add_dir d n (new_fattr clk KFS_DIR (fileID st + 1) 1) (names st)"
    "fileID st' = fileID st + 1" "layout st' = layout st" "dumpster_counter st' = dumpster_counter st"
proof -
  let ?a = "new_fattr clk KFS_DIR (fileID st + 1) 1"
  obtain st' where st': "mkdir clk d n 0 st = Some (st', 0, fileID st + 1)"
    "frame (st\<lparr>fileID := fileID st + 1\<rparr>) st'" "in_ns st' (ns_add_dir d n ?a (names st))"
    using mkdir_new_ns [OF ns_invD(1,2,4) [OF inv] d(1) n d(2)] by blast
  have "ns_good (fileID st + 1) (ns_add_dir d n ?a (names st))"
    using inv ns_good_add_dir [OF _ d, of _ ?a] by (simp add: ns_inv_def)
  with that st' frame_fields [OF st'(2)] ns_invI [OF st'(3)] show ?thesis by (simp add: in_ns_def)
qed

lemma makeDumpster_step:
  assumes inv: "ns_inv st" and free: "dumpster_in (names st) = None"
  obtains st' where "makeDumpsterDir clk st = Some st'" "ns_inv st'"
    "names st' = ns_add_dir ROOTFID DUMPSTERDIR (new_fattr clk KFS_DIR (fileID st + 1) 1) (names st)"
    "layout st' = layout st" "dumpster_counter st' = dumpster_counter st"
proof -
  have "ns_entry (names st) (ROOTFID, DUMPSTERDIR) = None" using free by (simp add: dumpster_in_def)
  then obtain st' where "mkdir clk ROOTFID DUMPSTERDIR 0 st = Some (st', 0, fileID st + 1)" "ns_inv st'"
    "names st' = ns_add_dir ROOTFID DUMPSTERDIR (new_fattr clk KFS_DIR (fileID st + 1) 1) (names st)"
    "layout st' = layout st" "dumpster_counter st' = dumpster_counter st"
    by (rule mkdir_step [OF inv ns_okD(11) [OF ns_invD(2) [OF inv]], of DUMPSTERDIR clk])
      (simp_all add: DUMPSTERDIR_def)
  with that show ?thesis by (simp add: makeDumpsterDir_def)
qed

text \<open>The state in which \<^verbatim>\<open>moveToDumpster\<close> goes on: with a dumpster, and one more used number.\<close>

definition with_dumpster :: "timeval \<Rightarrow> MetaState \<Rightarrow> MetaState" where
  "with_dumpster clk st =
     (let st1 = (if dumpster_in (names st) = None then the (makeDumpsterDir clk st) else st)
      in st1\<lparr>dumpster_counter := (dumpster_counter st1 + 1) mod 2 ^ 64\<rparr>)"

lemma ns_inv_fields [simp]:
  "ns_inv (st\<lparr>dumpster_counter := c\<rparr>) \<longleftrightarrow> ns_inv st" "ns_inv (st\<lparr>layout := L\<rparr>) \<longleftrightarrow> ns_inv st"
  "ns_inv (st\<lparr>chunkID := k\<rparr>) \<longleftrightarrow> ns_inv st"
  by (simp_all add: ns_inv_def names_def)

lemma names_fields [simp]:
  "names (st\<lparr>dumpster_counter := c\<rparr>) = names st" "names (st\<lparr>layout := L\<rparr>) = names st"
  "names (st\<lparr>chunkID := k\<rparr>) = names st"
  by (simp_all add: names_def)

lemma with_dumpster_step:
  assumes inv: "ns_inv st"
  obtains D where "ns_inv (with_dumpster clk st)" "dumpster_in (names (with_dumpster clk st)) = Some D"
    "layout (with_dumpster clk st) = layout st"
    "\<And>d n f. ns_entry (names st) (d, n) = Some f \<Longrightarrow> ns_entry (names (with_dumpster clk st)) (d, n) = Some f"
    "\<And>f. file_in (names st) f \<Longrightarrow> file_in (names (with_dumpster clk st)) f"
    "\<And>rn d n. moveToDumpster_with rn clk d n st =
       (if D = d then Some (if dumpster_in (names st) = None then the (makeDumpsterDir clk st) else st, - EEXIST)
        else rn d n (dumpster_name n (dumpster_counter st)) True (with_dumpster clk st))"
proof (cases "dumpster_in (names st)")
  case (Some D)
  obtain a where a: "ns_fattr (names st) D = Some a" "fa_fid a = D"
    using ns_okD(2,7) [OF ns_invD(2) [OF inv]] Some unfolding dumpster_in_def by blast
  have "lookup (metatree st) ROOTFID DUMPSTERDIR = Some (Some a)"
    using lookup_ns [OF ns_invD(1,2) [OF inv], of ROOTFID DUMPSTERDIR] Some a by (simp add: dumpster_in_def)
  then show ?thesis
    using that [of D] Some inv a(2) by (simp add: with_dumpster_def moveToDumpster_with_def)
next
  case None
  let ?D = "fileID st + 1" and ?a = "new_fattr clk KFS_DIR (fileID st + 1) 1"
  have fresh: "ns_fattr (names st) ?D = None" by (rule ids_below_fresh [OF ns_invD(4) [OF inv]])
  obtain st1 where st1: "makeDumpsterDir clk st = Some st1" "ns_inv st1"
    "names st1 = ns_add_dir ROOTFID DUMPSTERDIR ?a (names st)" "layout st1 = layout st"
    "dumpster_counter st1 = dumpster_counter st"
    using makeDumpster_step [OF inv None, of clk] by blast
  note mk = st1(1)
  have "?D \<noteq> ROOTFID" using fresh ns_okD(11) [OF ns_invD(2) [OF inv]] by (auto simp: dir_in_def)
  then have e: "ns_entry (names st1) (ROOTFID, DUMPSTERDIR) = Some ?D" "ns_fattr (names st1) ?D = Some ?a"
    unfolding st1(3) by (simp_all add: ns_add_dir_def DUMPSTERDIR_def)
  have l0: "lookup (metatree st) ROOTFID DUMPSTERDIR = Some None"
    using lookup_ns [OF ns_invD(1,2) [OF inv], of ROOTFID DUMPSTERDIR] None by (simp add: dumpster_in_def)
  have l1: "lookup (metatree st1) ROOTFID DUMPSTERDIR = Some (Some ?a)"
    using lookup_ns [OF ns_invD(1,2) [OF st1(2)], of ROOTFID DUMPSTERDIR] e by simp
  have wd: "with_dumpster clk st = st1\<lparr>dumpster_counter := (dumpster_counter st + 1) mod 2 ^ 64\<rparr>"
    using None mk st1(5) by (simp add: with_dumpster_def)
  have keep: "ns_entry (names st1) (d, n) = Some f" if "ns_entry (names st) (d, n) = Some f" for d n f
    using that fresh_fid(2) [OF ns_invD(2) [OF inv] fresh] None
    by (auto simp: st1(3) ns_add_dir_def dumpster_in_def simp del: names_sel)
  have keepf: "file_in (names st1) f" if "file_in (names st) f" for f
    using that fresh by (auto simp: st1(3) ns_add_dir_def file_in_def simp del: names_sel)
  show ?thesis
    using that [of ?D] st1(2,4,5) e(1) keep keepf l0 l1 mk None
    by (simp add: wd dumpster_in_def moveToDumpster_with_def del: names_sel)
qed

lemma moveToDumpster_step:
  assumes inv: "ns_inv st" and f: "ns_entry (names st) (d, n) = Some f" "file_in (names st) f" and n: "legalname n"
  shows "\<exists>st' r. moveToDumpster_with (rename_with (remove_n (Suc k) clk) clk) clk d n st = Some (st', r) \<and> ns_inv st' \<and>
    (dumpster_in (names (with_dumpster clk st)) = Some d \<longrightarrow> r = - EEXIST) \<and>
    (dumpster_in (names (with_dumpster clk st)) \<noteq> Some d \<longrightarrow>
      dumped clk (with_dumpster clk st) d n (dump_name n (dumpster_counter st)) f st' r)"
proof (rule with_dumpster_step [OF inv, of clk])
  fix D
  let ?w = "with_dumpster clk st" and ?rn = "rename_with (remove_n (Suc k) clk) clk"
  assume w: "ns_inv ?w" "dumpster_in (names ?w) = Some D" "layout ?w = layout st"
    "\<And>d n f. ns_entry (names st) (d, n) = Some f \<Longrightarrow> ns_entry (names ?w) (d, n) = Some f"
    "\<And>f. file_in (names st) f \<Longrightarrow> file_in (names ?w) f"
    "\<And>rn d n. moveToDumpster_with rn clk d n st =
       (if D = d then Some (if dumpster_in (names st) = None then the (makeDumpsterDir clk st) else st, - EEXIST)
        else rn d n (dumpster_name n (dumpster_counter st)) True ?w)"
  show ?thesis
  proof (cases "D = d")
    case True
    moreover have "ns_inv (if dumpster_in (names st) = None then the (makeDumpsterDir clk st) else st)"
      using w(1) by (auto simp: with_dumpster_def Let_def split: if_splits)
    ultimately show ?thesis using w(2,6) by auto
  next
    case False
    then show ?thesis
      using rename_into_dumpster [OF w(1,2) False w(4) [OF f(1)] w(5) [OF f(2)] n, of k clk "dumpster_counter st"] w(2,6)
      by auto
  qed
qed

text \<open>\<^verbatim>\<open>remove\<close> always returns in a sound state, and leaves a sound state; with result 0 the name is free.\<close>

definition removed :: "MetaState \<Rightarrow> fid_t \<Rightarrow> string \<Rightarrow> MetaState \<Rightarrow> bool" where
  "removed st d n st' \<longleftrightarrow> ns_entry (names st') (d, n) = None \<and> (\<forall>x. dir_in (names st) x \<longrightarrow> dir_in (names st') x)"

lemma dir_in_del_file: "dir_in N x \<Longrightarrow> file_in N f \<Longrightarrow> dir_in (ns_del_file d n f N) x"
  by (auto simp: dir_in_def file_in_def ns_del_file_def)

lemma dir_in_move [simp]: "dir_in (ns_move d n d' n' f N) x \<longleftrightarrow> dir_in N x"
  by (simp add: dir_in_def ns_move_def Let_def)

lemma dumped_removed:
  assumes "dumped clk w d n m f st' 0" "dumpster_in (names w) = Some D" "D \<noteq> d" "ns_ok (names w)"
    "ns_entry (names w) (d, n) = Some f" "file_in (names w) f"
  shows "ns_entry (names st') (d, n) = None" "dir_in (names w) x \<Longrightarrow> dir_in (names st') x"
proof -
  let ?N = "names w"
  have g: "case ns_entry ?N (D, m) of None \<Rightarrow> True | Some g \<Rightarrow> file_in ?N g"
    and st': "names st' = ns_move d n D m f (ns_clear D m ?N)"
    using assms(1,2) by (auto simp: dumped_def Let_def split: if_splits option.splits)
  have "\<not> dir_in (ns_clear D m ?N) f"
    using assms(6) by (auto simp: ns_clear_def ns_del_dir_def ns_del_file_def dir_in_def file_in_def split: option.splits)
  then show "ns_entry (names st') (d, n) = None" unfolding st' using assms(3) by (auto simp: ns_move_def Let_def)
  show "dir_in (names st') x" if "dir_in ?N x"
    unfolding st' using that g dir_in_del_file file_not_dir by (auto simp: ns_clear_def split: option.splits)
qed

lemma with_dumpster_dirs: "ns_inv st \<Longrightarrow> dir_in (names st) x \<Longrightarrow> dir_in (names (with_dumpster clk st)) x"
proof (cases "dumpster_in (names st)")
  case None
  assume inv: "ns_inv st" and x: "dir_in (names st) x"
  have "x \<noteq> fileID st + 1" using ids_below_fresh [OF ns_invD(4) [OF inv]] x by (auto simp: dir_in_def)
  moreover obtain st1 where "makeDumpsterDir clk st = Some st1"
    "names st1 = ns_add_dir ROOTFID DUMPSTERDIR (new_fattr clk KFS_DIR (fileID st + 1) 1) (names st)"
    using makeDumpster_step [OF inv None, of clk] by blast
  ultimately show ?thesis using x None by (simp add: with_dumpster_def ns_add_dir_def dir_in_def)
qed (simp add: with_dumpster_def)

lemma remove_total:
  assumes inv: "ns_inv st"
  shows "\<exists>st' r. remove_n (Suc (Suc k)) clk d n st = Some (st', r) \<and> ns_inv st' \<and> (r = 0 \<longrightarrow> removed st d n st')"
  unfolding remove_n_Suc [of "Suc k"]
proof (rule remove_cases [OF inv, of d n "moveToDumpster_with (rename_with (remove_n (Suc k) clk) clk) clk" clk])
  fix f
  let ?mv = "moveToDumpster_with (rename_with (remove_n (Suc k) clk) clk) clk"
  assume f: "ns_entry (names st) (d, n) = Some f" "file_in (names st) f" "lease_free clk st f"
  obtain st' where st': "remove_with ?mv clk d n st = Some (st', 0)" "ns_inv st'"
    "names st' = ns_del_file d n f (names st)"
    using remove_step [OF inv f, of ?mv] by blast
  have "removed st d n st'"
    unfolding removed_def st'(3) using dir_in_del_file [OF _ f(2)] by (simp add: ns_del_file_def)
  with st' show "\<exists>st' r. remove_with ?mv clk d n st = Some (st', r) \<and> ns_inv st' \<and> (r = 0 \<longrightarrow> removed st d n st')"
    by blast
next
  fix f
  let ?mv = "moveToDumpster_with (rename_with (remove_n (Suc k) clk) clk) clk" and ?w = "with_dumpster clk st"
  assume f: "ns_entry (names st) (d, n) = Some f" "file_in (names st) f" "remove_with ?mv clk d n st = ?mv d n st"
  then have n: "legalname n" using ns_invD(3) [OF inv] unfolding files_legal_def by blast
  obtain st' r where st': "?mv d n st = Some (st', r)" "ns_inv st'"
    "dumpster_in (names ?w) = Some d \<Longrightarrow> r = - EEXIST"
    "dumpster_in (names ?w) \<noteq> Some d \<Longrightarrow> dumped clk ?w d n (dump_name n (dumpster_counter st)) f st' r"
    using moveToDumpster_step [OF inv f(1,2) n, of k clk] by blast
  have "removed st d n st'" if r0: "r = 0"
  proof (rule with_dumpster_step [OF inv, of clk])
    fix D
    assume w: "ns_inv ?w" "dumpster_in (names ?w) = Some D"
      "\<And>d n f. ns_entry (names st) (d, n) = Some f \<Longrightarrow> ns_entry (names ?w) (d, n) = Some f"
      "\<And>f. file_in (names st) f \<Longrightarrow> file_in (names ?w) f"
    have "D \<noteq> d" using st'(3) w(2) r0 by auto
    with dumped_removed [OF _ w(2) _ ns_invD(2) [OF w(1)] w(3) [OF f(1)] w(4) [OF f(2)]] st'(4) w(2) r0
    show ?thesis unfolding removed_def using with_dumpster_dirs [OF inv] by auto
  qed
  with st' f(3) show "\<exists>st' r. remove_with ?mv clk d n st = Some (st', r) \<and> ns_inv st' \<and> (r = 0 \<longrightarrow> removed st d n st')"
    by auto
qed (use inv in auto)

section \<open>The bound on the depth is enough\<close>

lemma remove_with_cong: "mv d n st = mv' d n st \<Longrightarrow> remove_with mv clk d n st = remove_with mv' clk d n st"
  by (simp add: remove_with_def Let_def cong: option.case_cong if_cong)

lemma rename_with_cong:
  assumes "rename_target (metatree st) d new = Some (Inr (d', n'))" "rm d' n' st = rm' d' n' st"
  shows "rename_with rm clk d n new ov st = rename_with rm' clk d n new ov st"
  using assms by (simp add: rename_with_def cong: option.case_cong if_cong)

lemma rename_with_cong_error:
  assumes "rename_target (metatree st) d new = Some (Inl e)"
  shows "rename_with rm clk d n new ov st = rename_with rm' clk d n new ov st"
  using assms by (simp add: rename_with_def cong: option.case_cong if_cong)

lemma remove_depth:
  assumes inv: "ns_inv st"
  shows "remove_n (Suc (Suc k)) clk d n st = remove_n 2 clk d n st"
proof -
  let ?mv = "\<lambda>k. moveToDumpster_with (rename_with (remove_n (Suc k) clk) clk) clk"
  have inner: "remove_n (Suc k) clk D m w = remove_n (Suc 0) clk D m w"
    if "ns_inv w" "dumpster_in (names w) = Some D" for D m w
    unfolding remove_n_Suc
    by (rule remove_with_cong) (simp add: moveToDumpster_from_dumpster [OF that])
  have "remove_with (?mv k) clk d n st = remove_with (?mv 0) clk d n st"
  proof (cases "\<exists>f. ns_entry (names st) (d, n) = Some f \<and> file_in (names st) f")
    case False
    have "remove_with mv clk d n st = (case ns_entry (names st) (d, n) of
        None \<Rightarrow> Some (st, - ENOENT) | Some f \<Rightarrow> Some (st, - EISDIR))" for mv
      by (rule remove_cases [OF inv, of d n mv clk]) (use False in \<open>auto split: option.split\<close>)
    then show ?thesis by simp
  next
    case True
    then obtain f where f: "ns_entry (names st) (d, n) = Some f" "file_in (names st) f" by blast
    then have n: "legalname n" using ns_invD(3) [OF inv] unfolding files_legal_def by blast
    show ?thesis
    proof (rule remove_with_cong, rule with_dumpster_step [OF inv, of clk])
      fix D
      let ?w = "with_dumpster clk st"
      assume w: "ns_inv ?w" "dumpster_in (names ?w) = Some D"
        "\<And>rn d n. moveToDumpster_with rn clk d n st =
           (if D = d then Some (if dumpster_in (names st) = None then the (makeDumpsterDir clk st) else st, - EEXIST)
            else rn d n (dumpster_name n (dumpster_counter st)) True ?w)"
      note tgt = rename_target_dumpster [OF w(1,2) n, of d "dumpster_counter st"]
      let ?new = "dumpster_name n (dumpster_counter st)"
      have "rename_with (remove_n (Suc k) clk) clk d n ?new True ?w = rename_with (remove_n (Suc 0) clk) clk d n ?new True ?w"
      proof (cases "dir_in (names ?w) D")
        case True
        show ?thesis
          by (rule rename_with_cong [where d' = D and n' = "dump_name n (dumpster_counter st)"])
            (use tgt True in simp, rule inner [OF w(1,2)])
      next
        case False
        show ?thesis by (rule rename_with_cong_error [where e = "- ENOTDIR"]) (use tgt False in simp)
      qed
      then show "?mv k d n st = ?mv 0 d n st" unfolding w(3) by simp
    qed
  qed
  then show ?thesis unfolding numeral_2_eq_2 remove_n_Suc [of "Suc _"] .
qed

section \<open>The other operations\<close>

lemma rmdir_total:
  assumes inv: "ns_inv st"
  shows "\<exists>st' r. rmdir d n st = Some (st', r) \<and> ns_inv st' \<and> layout st' = layout st"
proof -
  let ?N = "names st"
  note ns = ns_invD(1,2) [OF inv]
  consider (perm) "d = ROOTFID \<and> n = DUMPSTERDIR" | (missing) "\<not> (d = ROOTFID \<and> n = DUMPSTERDIR)" "ns_entry ?N (d, n) = None"
    | (file') f where "\<not> (d = ROOTFID \<and> n = DUMPSTERDIR)" "ns_entry ?N (d, n) = Some f" "file_in ?N f"
    | (dot) f where "ns_entry ?N (d, n) = Some f" "dir_in ?N f" "n \<in> dots"
    | (full) f where "\<not> (d = ROOTFID \<and> n = DUMPSTERDIR)" "ns_entry ?N (d, n) = Some f" "dir_in ?N f" "n \<notin> dots" "\<not> empty_in ?N f"
    | (go) f where "\<not> (d = ROOTFID \<and> n = DUMPSTERDIR)" "ns_entry ?N (d, n) = Some f" "dir_in ?N f" "n \<notin> dots" "empty_in ?N f"
    using file_or_dir [OF ns(2)] ns_okD(2) [OF ns(2), of d n] by (metis option.exhaust option.simps(3))
  moreover have err: "\<exists>st' r. rmdir d n st = Some (st', r) \<and> ns_inv st' \<and> layout st' = layout st"
    if "rmdir d n st = Some (st, r)" for r using that inv by simp
  ultimately show ?thesis
  proof cases
    case go
    obtain st' where st': "rmdir d n st = Some (st', 0)" "frame st st'" "in_ns st' (ns_del_dir d n f ?N)"
      using rmdir_empty_ns [OF ns go(2,3,5,4,1)] by blast
    have "ns_good (fileID st) (ns_del_dir d n f ?N)"
      using ns_good_del_dir [OF _ go(2,4,3,5)] inv by (simp add: ns_inv_def)
    then show ?thesis using st' ns_invI [OF st'(3)] frame_fields [OF st'(2)] by simp
  next
    case perm
    then show ?thesis by (intro err [OF rmdir_error_ns(1) [OF ns]]) simp_all
  next
    case missing
    then show ?thesis by (intro err [OF rmdir_error_ns(2) [OF ns]])
  next
    case file'
    then show ?thesis by (intro err [OF rmdir_error_ns(3) [OF ns]])
  next
    case dot
    then show ?thesis by (intro err [OF rmdir_error_ns(5) [OF ns]])
  next
    case full
    then show ?thesis by (intro err [OF rmdir_error_ns(4) [OF ns]])
  qed
qed

lemma create_total:
  assumes inv: "ns_inv st" and d: "dir_in (names st) d"
    and free: "\<And>f. ns_entry (names st) (d, n) = Some f \<Longrightarrow> file_in (names st) f \<Longrightarrow> \<not> ex \<Longrightarrow>
      \<exists>st1. remove clk d n st = Some (st1, 0)"
  shows "\<exists>st' r fid. create clk d n 0 k ex st = Some (st', r, fid) \<and> ns_inv st'"
proof -
  let ?N = "names st"
  note ns = ns_invD(1,2) [OF inv]
  have new: "\<exists>st' r fid. create clk d n 0 k ex st1 = Some (st', r, fid) \<and> ns_inv st'"
    if inv1: "ns_inv st1" and e: "dir_in (names st1) d" "ns_entry (names st1) (d, n) = None" "legalname n" "0 < k" for st1
  proof -
    let ?a = "new_fattr clk KFS_FILE (fileID st1 + 1) k"
    obtain st' where st': "create clk d n 0 k ex st1 = Some (st', 0, fileID st1 + 1)"
      "frame (st1\<lparr>fileID := fileID st1 + 1\<rparr>) st'" "in_ns st' (ns_add_file d n ?a (names st1))"
      using create_new_ns [OF ns_invD(1,2,4) [OF inv1] e(1,3,4,2)] by blast
    have "ns_good (fileID st1 + 1) (ns_add_file d n ?a (names st1))"
      using inv1 ns_good_add_file [OF _ e(1-3), of _ ?a] by (simp add: ns_inv_def)
    then show ?thesis using st' ns_invI [OF st'(3)] frame_fields(1) [OF st'(2)] by simp
  qed
  show ?thesis
  proof (cases "legalname n \<and> 0 < k")
    case False
    then show ?thesis using inv by (auto simp: create_def)
  next
    case True
    show ?thesis
    proof (cases "ns_entry ?N (d, n)")
      case None
      with new [OF inv d] True show ?thesis by blast
    next
      case (Some f)
      obtain a where a: "ns_fattr ?N f = Some a" using ns_okD(2) [OF ns(2) Some] by blast
      have lk: "lookup (metatree st) d n = Some (Some a)" using lookup_ns [OF ns, of d n] Some a by simp
      show ?thesis
      proof (cases "dir_in ?N f \<or> ex")
        case True': True
        then show ?thesis
          using create_existing_ns [OF ns _ _ Some, of k] True inv file_or_dir [OF ns(2), of f] a
          by (cases "dir_in ?N f") auto
      next
        case False
        then have f: "file_in ?N f" "fa_type a = KFS_FILE" using file_or_dir [OF ns(2), of f] a by (auto simp: file_in_def)
        obtain st1 where st1: "remove clk d n st = Some (st1, 0)" using free [OF Some f(1)] False by blast
        moreover have "remove clk d n st = remove_n (Suc (Suc 0)) clk d n st" by (simp add: remove_def numeral_2_eq_2)
        ultimately have s1: "ns_inv st1" "removed st d n st1" using remove_total [OF inv, of 0 clk d n] by auto
        then have e1: "dir_in (names st1) d" "ns_entry (names st1) (d, n) = None" using d by (auto simp: removed_def)
        have "lookup (metatree st1) d n = Some None"
          using lookup_ns [OF ns_invD(1,2) [OF s1(1)], of d n] e1(2) by simp
        then have "create clk d n 0 k ex st = create clk d n 0 k ex st1"
          using True False lk f(2) st1 by (simp add: create_def)
        then show ?thesis using new [OF s1(1) e1] True by simp
      qed
    qed
  qed
qed

lemma rename_total:
  assumes inv: "ns_inv st" and n: "n \<notin> dots"
    and free: "\<And>d' n' g. rename_target (metatree st) d new = Some (Inr (d', n')) \<Longrightarrow> (d', n') \<noteq> (d, n) \<Longrightarrow>
      ns_entry (names st) (d', n') = Some g \<Longrightarrow> file_in (names st) g \<Longrightarrow> lease_free clk st g"
  shows "\<exists>st' r. rename clk d n new ov st = Some (st', r) \<and> ns_inv st'"
proof -
  let ?N = "names st"
  let ?mv = "moveToDumpster_with (rename_with (remove_n (Suc 0) clk) clk) clk"
  note ns = ns_invD(1,2) [OF inv]
  have rn: "rename clk d n new ov st = rename_with (remove_with ?mv clk) clk d n new ov st"
    by (simp only: rename_def remove_def numeral_2_eq_2 remove_n_Suc)
  show ?thesis
  proof (cases "ns_entry ?N (d, n)")
    case None
    then show ?thesis using inv getDentry_ns [OF ns, of d n] by (simp add: rename_def rename_with_def)
  next
    case (Some f)
    have gd: "getDentry (metatree st) d n = Some (Some (new_dentry d n f))" using getDentry_ns [OF ns, of d n] Some by simp
    obtain a where a: "ns_fattr ?N f = Some a" using ns_okD(2) [OF ns(2) Some] by blast
    show ?thesis
    proof (rule rename_target_ns [OF ns ns_okD(1) [OF ns(2) Some], of new])
      fix r assume "rename_target (metatree st) d new = Some (Inl r)"
      then show ?thesis using inv gd by (simp add: rename_def rename_with_def)
    next
      fix d' n' assume tgt: "rename_target (metatree st) d new = Some (Inr (d', n'))" and d': "dir_in ?N d'"
      show ?thesis
      proof (cases "legalname n' \<and> (d', n') \<noteq> (d, n)")
        case False
        then show ?thesis using inv gd tgt by (auto simp: rename_def rename_with_def)
      next
        case True
        then have pre: "rename_pre clk st ?N d n f d' n'"
          using Some n d' free [OF tgt] by (auto simp: rename_pre_def)
        show ?thesis
        proof (cases "rename_error ?N ov f d' n'")
          case (Some r)
          then show ?thesis
            using inv rename_with_resolved [OF ns pre a tgt, where overwrite = ov and mv = ?mv] rn by simp
        next
          case None
          let ?C = "ns_clear d' n' ?N"
          obtain st' where st': "rename_with (remove_with ?mv clk) clk d n new ov st = Some (st', 0)"
            "in_ns st' (ns_move d n d' n' f ?C)" "ns_ok (ns_move d n d' n' f ?C)"
            "frame_layout (cleared_layout st ?N d' n') st st'"
            using rename_ns [OF ns pre tgt None, where mv = ?mv] by blast
          have g: "empty_in ?N g \<and> n' \<notin> dots" if "ns_entry ?N (d', n') = Some g" "dir_in ?N g" for g
            using None that by (simp add: rename_error_def split: if_splits)
          have "dir_in ?C d'"
            by (rule ns_clear_ok(4) [OF ns(2) Some n a d'])
              (use True g None in \<open>auto simp: rename_error_def split: option.splits if_splits\<close>)
          moreover have "ns_good (fileID st) ?C" using ns_good_clear [of "fileID st" ?N d' n'] inv g by (simp add: ns_inv_def)
          ultimately have "ns_good (fileID st) (ns_move d n d' n' f ?C)" using ns_good_move st'(3) True by blast
          then show ?thesis using st'(1) rn ns_invI [OF st'(2)] frame_layout_fields(1) [OF st'(4)] by simp
        qed
      qed
    qed
  qed
qed

lemma ns_inv_file_change:
  assumes "ns_inv st" "in_ns st' M" "ns_ok M" "fileID st' = fileID st" "ns_entry M = ns_entry (names st)"
    "\<And>x. file_in M x \<longleftrightarrow> file_in (names st) x" "\<And>x. ns_fattr M x = None \<longleftrightarrow> ns_fattr (names st) x = None"
  shows "ns_inv st'"
  using ns_good_file_change [of "fileID st" "names st" M] assms ns_invI [OF assms(2)] by (simp add: ns_inv_def)

lemma assignChunkId_keeps:
  assumes inv: "ns_inv st" and f: "file_in (names st) f" "chunkStartOffset off = off"
  shows "ns_inv (fst (assignChunkId clk f off i v st)) \<and> layout (fst (assignChunkId clk f off i v st)) = layout st"
proof -
  note as = assignChunkId_ns [OF ns_invD(1,2) [OF inv] f, of clk i v]
  show ?thesis
  proof (cases "ns_chunk (names st) (f, off)")
    case None
    then obtain st' where st': "assignChunkId clk f off i v st = (st', 0)" "frame st st'"
      "in_ns st' (ns_put_chunk clk f (new_chunkinfo f off i v) (names st))"
      "ns_ok (ns_put_chunk clk f (new_chunkinfo f off i v) (names st))" using as by auto
    have "ns_inv st'"
      by (rule ns_inv_file_change [OF inv st'(3,4) frame_fields(1) [OF st'(2)]])
        (auto simp: ns_put_chunk_def file_in_def)
    then show ?thesis using st'(1) frame_fields(5) [OF st'(2)] by simp
  next
    case (Some c)
    show ?thesis
    proof (cases "ci_chunkVersion c = v")
      case True
      then show ?thesis using as Some inv by simp
    next
      case False
      let ?M = "(names st)\<lparr>ns_chunk := (ns_chunk (names st))((f, off) \<mapsto> c\<lparr>ci_chunkVersion := v\<rparr>)\<rparr>"
      from False as Some obtain st' where st': "assignChunkId clk f off i v st = (st', 0)" "frame st st'" "in_ns st' ?M" "ns_ok ?M"
        by auto
      have "ns_inv st'"
        by (rule ns_inv_file_change [OF inv st'(3,4) frame_fields(1) [OF st'(2)]]) (auto simp: file_in_def)
      then show ?thesis using st'(1) frame_fields(5) [OF st'(2)] by simp
    qed
  qed
qed


lemma delete_chunks_fileID: "delete_chunks cs st = Some st' \<Longrightarrow> fileID st' = fileID st"
proof (induction cs arbitrary: st)
  case (Cons c cs)
  then show ?case
    by (auto simp: DeleteChunk_meta_def del_meta_def assert_then_def bind_eq_Some_conv split: option.splits if_splits)
qed simp

lemma truncate_fileID: "truncate_file clk f off st = Some (st', r, o') \<Longrightarrow> fileID st' = fileID st"
  by (auto simp: truncate_file_def truncate_tail_def Let_def assert_then_def bind_eq_Some_conv set_fattr_def
      dest: delete_chunks_fileID split: option.splits if_splits)

lemma truncate_total:
  assumes inv: "ns_inv st" and off: "chunkStartOffset off \<le> off"
  shows "\<exists>st' r o'. truncate_file clk f off st = Some (st', r, o') \<and> ns_inv st'"
proof (cases "file_in (names st) f")
  case False
  then show ?thesis
    using getFattr_ns [OF ns_invD(1) [OF inv], of f] inv
    by (cases "ns_fattr (names st) f") (auto simp: truncate_file_def file_in_def)
next
  case True
  note tr = truncate_ns [OF ns_invD(1,2) [OF inv] True off, of clk]
  obtain a where a: "ns_fattr (names st) f = Some a" "fa_type a = KFS_FILE" using True by (auto simp: file_in_def)
  show ?thesis
  proof (cases "ns_chunk (names st) (f, chunkStartOffset off)")
    case None
    let ?M = "(names st)\<lparr>ns_fattr := (ns_fattr (names st))(f := map_option (\<lambda>a. a\<lparr>fa_filesize := -1\<rparr>) (ns_fattr (names st) f))\<rparr>"
    obtain st' where st': "truncate_file clk f off st = Some (st', 1, Some (chunkStartOffset off))" "frame st st'"
      "in_ns st' ?M" using tr None by auto
    have fin: "finite (chunk_offsets (ns_chunk (names st)) f)"
      using ns_invD(2) [OF inv] a(1) unfolding ns_ok_def fattrs_ok_def by blast
    have "ns_ok ?M"
      using ns_file_upd_ok [OF ns_invD(2) [OF inv] a, of "a\<lparr>fa_filesize := -1\<rparr>" "ns_chunk (names st)"]
        ns_okD(7,9) [OF ns_invD(2) [OF inv] a(1)] fin a
      by (simp del: names_sel)
    then have "ns_inv st'"
      by (rule ns_inv_file_change [OF inv st'(3) _ frame_fields(1) [OF st'(2)]]) (auto simp: file_in_def)
    then show ?thesis using st'(1) by blast
  next
    case (Some c)
    let ?M = "ns_truncate clk f (chunkStartOffset off) (names st)"
    obtain st' where st': "truncate_file clk f off st = Some (st', 0, None)" "in_ns st' ?M" "ns_ok ?M"
      using tr Some by auto
    have "fileID st' = fileID st" by (rule truncate_fileID [OF st'(1)])
    then have "ns_inv st'"
      by (rule ns_inv_file_change [OF inv st'(2,3)]) (auto simp: ns_truncate_def Let_def file_in_def)
    then show ?thesis using st'(1) by blast
  qed
qed

lemma changeFileReplication_keeps:
  assumes inv: "ns_inv st"
  shows "file_in (names st) f \<Longrightarrow> ns_inv (fst (changeFileReplication f k st))"
proof -
  assume f: "file_in (names st) f"
  obtain st' where st': "changeFileReplication f k st = (st', 0)"
    "in_ns st' ((names st)\<lparr>ns_fattr := (ns_fattr (names st))(f := map_option (\<lambda>a. a\<lparr>fa_numReplicas := k\<rparr>) (ns_fattr (names st) f))\<rparr>)"
    "ns_ok ((names st)\<lparr>ns_fattr := (ns_fattr (names st))(f := map_option (\<lambda>a. a\<lparr>fa_numReplicas := k\<rparr>) (ns_fattr (names st) f))\<rparr>)"
    using changeFileReplication_ns [OF ns_invD(1,2) [OF inv] f, of k] by auto
  have "fileID st' = fileID st"
    using st'(1) frame_fields(1) [OF set_fattr_frame(1)]
    by (auto simp: changeFileReplication_def Let_def split: option.splits)
  then have "ns_inv st'" by (rule ns_inv_file_change [OF inv st'(2,3)]) (auto simp: file_in_def)
  then show ?thesis using st'(1) by simp
qed

section \<open>Offsets\<close>

lemma floor_chunk:
  assumes "0 \<le> (off :: int)"
  shows "0 \<le> off div 2 ^ 26 * 2 ^ 26" "off div 2 ^ 26 * 2 ^ 26 \<le> off"
proof -
  show "0 \<le> off div 2 ^ 26 * 2 ^ 26" using assms by (simp add: pos_imp_zdiv_nonneg_iff)
  have "0 \<le> off mod 2 ^ 26" by simp
  then show "off div 2 ^ 26 * 2 ^ 26 \<le> off" using div_mult_mod_eq [of off "2 ^ 26"] by linarith
qed

lemma chunkStartOffset_floor:
  assumes "0 \<le> off" "off < 2 ^ 63"
  shows "chunkStartOffset off = off div 2 ^ 26 * 2 ^ 26"
proof -
  let ?w = "word_of_int off :: 64 word" and ?q = "off div 2 ^ 26 * 2 ^ 26"
  have u: "uint ?w = off" using assms by (simp add: uint_word_of_int take_bit_int_eq_self)
  note q = floor_chunk [OF assms(1)]
  have "uint (?w div CHUNKSIZE) = off div 2 ^ 26"
    by (simp add: uint_div_distrib u CHUNKSIZE_int)
  then have "uint (?w div CHUNKSIZE * CHUNKSIZE) = ?q"
    using q assms(2) take_bit_int_eq_self [of ?q 64]
    by (simp add: uint_word_arith_bintrs CHUNKSIZE_int)
  then show ?thesis
    using q assms(2) by (simp add: chunkStartOffset_def sint_uint signed_take_bit_int_eq_self)
qed

lemma chunkStartOffset_props:
  assumes "0 \<le> off" "off < 2 ^ 63"
  shows "chunkStartOffset off \<le> off" "off < chunkStartOffset off + 2 ^ 26"
    "chunkStartOffset (chunkStartOffset off) = chunkStartOffset off" "0 \<le> chunkStartOffset off"
proof -
  note q = floor_chunk [OF assms(1)]
  then show "chunkStartOffset off \<le> off" "0 \<le> chunkStartOffset off" using chunkStartOffset_floor [OF assms] by simp_all
  have mod_less: "off mod 2 ^ 26 < 2 ^ 26" by simp
  show "off < chunkStartOffset off + 2 ^ 26"
    using mod_less chunkStartOffset_floor [OF assms] div_mult_mod_eq [of off "2 ^ 26"] by linarith
  have "off div 2 ^ 26 * 2 ^ 26 < 2 ^ 63" using q(2) assms(2) by linarith
  from chunkStartOffset_floor [OF q(1) this] show "chunkStartOffset (chunkStartOffset off) = chunkStartOffset off"
    using chunkStartOffset_floor [OF assms] by simp
qed

section \<open>A new file system\<close>

definition root_ns :: "timeval \<Rightarrow> NameSpace" where
  "root_ns clk =
     \<lparr>ns_fattr = [ROOTFID \<mapsto> new_fattr clk KFS_DIR ROOTFID 1],
      ns_entry = [(ROOTFID, ''/'') \<mapsto> ROOTFID, (ROOTFID, ''.'') \<mapsto> ROOTFID, (ROOTFID, ''..'') \<mapsto> ROOTFID],
      ns_chunk = Map.empty\<rparr>"

lemma root_ns_ok: "ns_ok (root_ns clk)"
proof -
  let ?N = "root_ns clk"
  have dir: "dir_in ?N x \<longleftrightarrow> x = ROOTFID" for x by (auto simp: dir_in_def root_ns_def)
  have "links_ok ?N" "dirs_ok ?N" "parents_ok ?N"
    by (auto simp: links_ok_def dirs_ok_def parents_ok_def dir) (auto simp: root_ns_def split: if_splits)
  moreover have "one_name ?N"
    unfolding one_name_def by (auto simp: root_ns_def split: if_splits)
  moreover have "chunks_ok ?N" "fattrs_ok ?N"
    by (auto simp: chunks_ok_def fattrs_ok_def root_ns_def chunk_offsets_def split: if_splits)
  moreover have "root_ok ?N" by (auto simp: root_ok_def dir rooted_root) (simp add: root_ns_def)
  ultimately show ?thesis by (simp add: ns_ok_def)
qed

lemma new_tree_step:
  obtains st where "new_tree clk (initial_state L) = Some (st, 0)" "ns_inv st" "names st = root_ns clk" "layout st = L"
proof -
  let ?st0 = "initial_state L" and ?a = "new_fattr clk KFS_DIR ROOTFID 1"
  define N0 where "N0 = \<lparr>ns_fattr = Map.empty, ns_entry = Map.empty, ns_chunk = Map.empty\<rparr>"
  have 0: "in_ns ?st0 N0"
    by (simp add: in_ns_iff initial_state_def store_ok_def list_inv_def uniq_def N0_def fattr_of_def entry_of_def
        chunk_of_def item_def fun_eq_iff)
  let ?st1 = "insert_meta (MetaFattr ?a) (insert_meta (MetaDentry (new_dentry ROOTFID ''/'' ROOTFID)) ?st0)"
  have 1: "in_ns ?st1 (N0\<lparr>ns_fattr := [ROOTFID \<mapsto> ?a], ns_entry := [(ROOTFID, ''/'') \<mapsto> ROOTFID]\<rparr>)"
    using insert_fattr_ns [OF insert_dentry_ns [OF 0, of ROOTFID "''/''" ROOTFID], of ?a] by (simp add: N0_def)
  obtain st2 where 2: "link clk ROOTFID ''.'' KFS_DIR ROOTFID 1 ?st1 = Some (st2, 0)" "frame ?st1 st2"
    "in_ns st2 (N0\<lparr>ns_fattr := [ROOTFID \<mapsto> ?a], ns_entry := [(ROOTFID, ''/'') \<mapsto> ROOTFID, (ROOTFID, ''.'') \<mapsto> ROOTFID]\<rparr>)"
    by (rule link_dot_ns [OF 1, of "''.''" ROOTFID clk KFS_DIR ROOTFID 1]) simp_all
  obtain st3 where 3: "link clk ROOTFID ''..'' KFS_DIR ROOTFID 1 st2 = Some (st3, 0)" "frame st2 st3"
    "in_ns st3 (N0\<lparr>ns_fattr := [ROOTFID \<mapsto> ?a], ns_entry := [(ROOTFID, ''/'') \<mapsto> ROOTFID, (ROOTFID, ''.'') \<mapsto> ROOTFID,
        (ROOTFID, ''..'') \<mapsto> ROOTFID]\<rparr>)"
    by (rule link_dot_ns [OF 2(3), of "''..''" ROOTFID clk KFS_DIR ROOTFID 1]) simp_all
  have n3: "in_ns st3 (root_ns clk)" using 3(3) by (simp add: N0_def root_ns_def)
  have fr: "frame ?st0 st3"
    by (rule frame_trans [OF frame_trans [OF frame_trans [OF insert_meta_fields(2) insert_meta_fields(2)] 2(2)] 3(2)])
  have "lookup (metatree ?st0) ROOTFID ''/'' = Some None"
    by (simp add: initial_state_def lookup_def getDentry_def readdir_def store_find_def map_filter_simps)
  then have "new_tree clk ?st0 = Some (st3, 0)"
    using 2(1) 3(1) by (simp add: new_tree_def mkdir_def Let_def)
  moreover have "ns_good ROOTFID (root_ns clk)"
    using root_ns_ok by (auto simp: ns_good_def files_legal_def ids_below_def root_ns_def file_in_def split: if_splits)
  then have "ns_inv st3" using ns_invI [OF n3] frame_fields(1) [OF fr] by (simp add: initial_state_def)
  moreover have "layout st3 = L" using frame_fields(5) [OF fr] by (simp add: initial_state_def)
  ultimately show ?thesis using that n3 by (simp add: in_ns_def)
qed

end
