(* ===== verification/Meta_Contract.thy ===== *)
theory Meta_Contract
  imports Meta_Safety
begin

text \<open>
  The contract of the file-system operations of kfsops.cc: for each of them the result on every
  branch, the new name space, and that it stays sound. The witnesses run on a small file system
  made by \<^verbatim>\<open>new_tree\<close>, \<^verbatim>\<open>create\<close> and \<^verbatim>\<open>mkdir\<close>.
\<close>

section \<open>What the name space promises\<close>

text \<open>A file system for the witnesses: the root directory, and then one file in it.\<close>

definition sample_time :: timeval where
  "sample_time = \<lparr>tv_sec = 100, tv_usec = 0\<rparr>"

definition sample_fs :: MetaState where
  "sample_fs = fst (the (new_tree sample_time (initial_state (new_LayoutManager (\<lambda>_. new_ChunkServer)))))"

lemma sample_fs_ok:
  "new_tree sample_time (initial_state (new_LayoutManager (\<lambda>_. new_ChunkServer))) = Some (sample_fs, 0)"
  "ns_inv sample_fs" "names sample_fs = root_ns sample_time" "fileID sample_fs = ROOTFID"
  "layout sample_fs = new_LayoutManager (\<lambda>_. new_ChunkServer)"
proof -
  obtain st where st: "new_tree sample_time (initial_state (new_LayoutManager (\<lambda>_. new_ChunkServer))) = Some (st, 0)"
    "ns_inv st" "names st = root_ns sample_time" "layout st = new_LayoutManager (\<lambda>_. new_ChunkServer)"
    by (rule new_tree_step [of sample_time "new_LayoutManager (\<lambda>_. new_ChunkServer)"])
  have "map_option (\<lambda>(s, r). fileID s) (new_tree sample_time (initial_state (new_LayoutManager (\<lambda>_. new_ChunkServer)))) = Some 2"
    by code_simp
  with st show "new_tree sample_time (initial_state (new_LayoutManager (\<lambda>_. new_ChunkServer))) = Some (sample_fs, 0)"
    "ns_inv sample_fs" "names sample_fs = root_ns sample_time" "fileID sample_fs = ROOTFID"
    "layout sample_fs = new_LayoutManager (\<lambda>_. new_ChunkServer)"
    by (auto simp: sample_fs_def)
qed

lemma sample_root: "dir_in (names sample_fs) ROOTFID" "ns_entry (names sample_fs) (ROOTFID, ''a'') = None"
  by (simp_all add: sample_fs_ok(3) root_ns_def dir_in_def del: names_sel)

text \<open>
  C33. \<^verbatim>\<open>new_tree\<close> on an empty store succeeds, and what it makes is a sound name space with the root
  directory alone.
\<close>

theorem new_tree_sound:
  "\<exists>st. new_tree clk (initial_state L) = Some (st, 0) \<and> ns_inv st \<and> names st = root_ns clk \<and> layout st = L"
  using new_tree_step [of clk L] by metis

text \<open>
  C18. Creating a file under a legal, free name in a directory succeeds: the file gets the next
  file id, its attributes and one entry appear, nothing else changes, and the name space stays
  sound (one name per file, dot entries right, every directory reached from the root, chunk
  counts right, ids below the generator).
\<close>

theorem create_new_file:
  assumes "ns_inv st" "dir_in (names st) d" "legalname n" "0 < k" "ns_entry (names st) (d, n) = None"
  shows "\<exists>st'. create clk d n 0 k ex st = Some (st', 0, fileID st + 1) \<and> ns_inv st' \<and>
    names st' = ns_add_file d n (new_fattr clk KFS_FILE (fileID st + 1) k) (names st) \<and> layout st' = layout st"
proof -
  let ?a = "new_fattr clk KFS_FILE (fileID st + 1) k"
  obtain st' where st': "create clk d n 0 k ex st = Some (st', 0, fileID st + 1)"
    "frame (st\<lparr>fileID := fileID st + 1\<rparr>) st'" "in_ns st' (ns_add_file d n ?a (names st))"
    using create_new_ns [OF ns_invD(1,2,4) [OF assms(1)] assms(2-5)] by blast
  have "ns_good (fileID st + 1) (ns_add_file d n ?a (names st))"
    using ns_good_add_file [OF _ assms(2,5,3), of _ ?a] assms(1) by (simp add: ns_inv_def)
  then show ?thesis using st' ns_invI [OF st'(3)] frame_fields [OF st'(2)] by (simp add: in_ns_def)
qed

theorem create_new_file_witness:
  "\<exists>st'. create sample_time ROOTFID ''a'' 0 3 True sample_fs = Some (st', 0, 3) \<and> ns_inv st' \<and>
     ns_entry (names st') (ROOTFID, ''a'') = Some 3"
  using create_new_file [OF sample_fs_ok(2) sample_root(1), of "''a''" 3 sample_time True] sample_root(2)
  by (auto simp: sample_fs_ok(4) legalname_def ns_add_file_def simp del: names_sel)

text \<open>
  C29. Making a directory under a free name (a legal one, or any but the slash in the root)
  succeeds: it gets the next file id, its attributes, an entry in its parent and its two dot
  entries, nothing else changes and the name space stays sound.
\<close>

theorem mkdir_new_directory:
  assumes "ns_inv st" "dir_in (names st) d" "ns_entry (names st) (d, n) = None"
    "legalname n \<or> d = ROOTFID" "n \<noteq> ''/''"
  shows "\<exists>st'. mkdir clk d n 0 st = Some (st', 0, fileID st + 1) \<and> ns_inv st' \<and>
    names st' = ns_add_dir d n (new_fattr clk KFS_DIR (fileID st + 1) 1) (names st) \<and> layout st' = layout st"
  using mkdir_step [OF assms, of clk] by metis

theorem mkdir_new_directory_witness:
  "\<exists>st'. mkdir sample_time ROOTFID ''a'' 0 sample_fs = Some (st', 0, 3) \<and> ns_inv st' \<and>
     ns_entry (names st') (3, ''..'') = Some ROOTFID"
  using mkdir_new_directory [OF sample_fs_ok(2) sample_root, of sample_time]
  by (auto simp: sample_fs_ok(4) legalname_def ns_add_dir_def simp del: names_sel)

text \<open>
  C27. \<^verbatim>\<open>rmdir\<close> always returns and keeps the name space sound; it succeeds exactly when the name is an
  empty directory other than the dumpster and not one of the dot names, and then removes it with
  its dot entries.
\<close>

theorem rmdir_correct:
  assumes "ns_inv st"
  shows "\<exists>st' r. rmdir d n st = Some (st', r) \<and> ns_inv st' \<and>
    (if \<exists>f. ns_entry (names st) (d, n) = Some f \<and> dir_in (names st) f \<and> empty_in (names st) f \<and> n \<notin> dots \<and>
         \<not> (d = ROOTFID \<and> n = DUMPSTERDIR)
     then r = 0 \<and> names st' = ns_del_dir d n (the (ns_entry (names st) (d, n))) (names st)
     else r < 0 \<and> st' = st)"
proof (cases "\<exists>f. ns_entry (names st) (d, n) = Some f \<and> dir_in (names st) f \<and> empty_in (names st) f \<and> n \<notin> dots \<and>
         \<not> (d = ROOTFID \<and> n = DUMPSTERDIR)")
  case True
  then obtain f where f: "ns_entry (names st) (d, n) = Some f" "dir_in (names st) f" "empty_in (names st) f" "n \<notin> dots"
    "\<not> (d = ROOTFID \<and> n = DUMPSTERDIR)" by blast
  obtain st' where st': "rmdir d n st = Some (st', 0)" "names st' = ns_del_dir d n f (names st)"
    using rmdir_empty_ns [OF ns_invD(1,2) [OF assms] f] by (auto simp: in_ns_def)
  with True f(1) rmdir_total [OF assms, of d n] show ?thesis by auto
next
  case False
  note err = rmdir_error_ns [OF ns_invD(1,2) [OF assms], of d n]
  have "\<exists>r<0. rmdir d n st = Some (st, r)"
  proof (cases "ns_entry (names st) (d, n)")
    case None
    then show ?thesis using err(1,2) by (cases "d = ROOTFID \<and> n = DUMPSTERDIR") auto
  next
    case (Some f)
    have "ns_fattr (names st) f \<noteq> None" using ns_okD(2) [OF ns_invD(2) [OF assms] Some] by auto
    from file_or_dir [OF ns_invD(2) [OF assms] this] False Some show ?thesis
      using err(1) err(3-5) [of f] by (cases "d = ROOTFID \<and> n = DUMPSTERDIR"; cases "n \<in> dots"; cases "empty_in (names st) f") auto
  qed
  then show ?thesis using False assms by auto
qed

theorem rmdir_correct_witness:
  "\<exists>r. rmdir ROOTFID ''a'' sample_fs = Some (sample_fs, r) \<and> r < 0"
  using rmdir_correct [OF sample_fs_ok(2), of ROOTFID "''a''"] sample_root(2) by auto

text \<open>
  C17. Removing a file none of whose chunks has a live lease succeeds: its entry, its attributes
  and all its chunks go, the layout manager drops each of the chunks, nothing else changes and
  the name space stays sound.
\<close>

theorem remove_unleased_file:
  assumes "ns_inv st" "ns_entry (names st) (d, n) = Some f" "file_in (names st) f" "lease_free clk st f"
  shows "\<exists>st'. remove clk d n st = Some (st', 0) \<and> ns_inv st' \<and> names st' = ns_del_file d n f (names st) \<and>
    layout st' = drop_chunks st f"
  using remove_step [OF assms, of "moveToDumpster_with (rename_with (remove_n (Suc 0) clk) clk) clk"]
  unfolding remove_def numeral_2_eq_2 remove_n_Suc [of "Suc 0"] by metis

definition sample_file_fs :: MetaState where
  "sample_file_fs = fst (the (create sample_time ROOTFID ''a'' 0 3 True sample_fs))"

lemma sample_file_fs_ok:
  "ns_inv sample_file_fs" "names sample_file_fs = ns_add_file ROOTFID ''a'' (new_fattr sample_time KFS_FILE 3 3) (root_ns sample_time)"
  "layout sample_file_fs = new_LayoutManager (\<lambda>_. new_ChunkServer)"
proof -
  have leg: "legalname ''a''" by (simp add: legalname_def)
  let ?a = "new_fattr sample_time KFS_FILE (fileID sample_fs + 1) 3"
  obtain st' where st': "create sample_time ROOTFID ''a'' 0 3 True sample_fs = Some (st', 0, fileID sample_fs + 1)"
    "frame (sample_fs\<lparr>fileID := fileID sample_fs + 1\<rparr>) st'" "in_ns st' (ns_add_file ROOTFID ''a'' ?a (names sample_fs))"
    using create_new_ns [OF ns_invD(1,2,4) [OF sample_fs_ok(2)] sample_root(1) leg _ sample_root(2), of 3 sample_time True] by auto
  have "ns_good (fileID sample_fs + 1) (ns_add_file ROOTFID ''a'' ?a (names sample_fs))"
    using ns_good_add_file [OF _ sample_root leg, of _ ?a] sample_fs_ok(2) by (simp add: ns_inv_def)
  then show "ns_inv sample_file_fs" "names sample_file_fs = ns_add_file ROOTFID ''a'' (new_fattr sample_time KFS_FILE 3 3) (root_ns sample_time)"
    "layout sample_file_fs = new_LayoutManager (\<lambda>_. new_ChunkServer)"
    using st' ns_invI [OF st'(3)] frame_fields [OF st'(2)]
    by (simp_all add: sample_file_fs_def in_ns_def sample_fs_ok)
qed

lemma sample_file: "ns_entry (names sample_file_fs) (ROOTFID, ''a'') = Some 3" "file_in (names sample_file_fs) 3"
  "lease_free sample_time sample_file_fs 3"
  by (simp_all add: sample_file_fs_ok ns_add_file_def file_in_def lease_free_def IsValidLeaseIssued_def
      ValidLeaseIssued_def list_ex_iff new_LayoutManager_def del: names_sel)

theorem remove_unleased_file_witness:
  "\<exists>st'. remove sample_time ROOTFID ''a'' sample_file_fs = Some (st', 0) \<and> ns_inv st' \<and>
     ns_entry (names st') (ROOTFID, ''a'') = None"
  using remove_unleased_file [OF sample_file_fs_ok(1) sample_file]
  by (auto simp: ns_del_file_def simp del: names_sel)

text \<open>
  C6. \<^verbatim>\<open>remove\<close>, \<^verbatim>\<open>moveToDumpster\<close> and \<^verbatim>\<open>rename\<close> call each other. In a sound name space the recursion
  ends: no assert fails, every bound of two or more on the depth gives the same result, the name
  space stays sound, and after a result of 0 the name is free and no directory is lost.
\<close>

theorem remove_terminates:
  assumes "ns_inv st"
  shows "\<exists>st' r. remove clk d n st = Some (st', r) \<and> (\<forall>k. remove_n (Suc (Suc k)) clk d n st = Some (st', r)) \<and>
    ns_inv st' \<and> (r = 0 \<longrightarrow> removed st d n st')"
proof -
  obtain st' r where "remove_n (Suc (Suc 0)) clk d n st = Some (st', r)" "ns_inv st'" "r = 0 \<longrightarrow> removed st d n st'"
    using remove_total [OF assms, of 0 clk d n] by blast
  moreover have "remove_n (Suc (Suc k)) clk d n st = remove clk d n st" for k
    unfolding remove_def by (rule remove_depth [OF assms])
  ultimately show ?thesis by metis
qed

theorem remove_terminates_witness:
  "\<exists>st' r. remove sample_time ROOTFID ''a'' sample_file_fs = Some (st', r) \<and> ns_inv st'"
  using remove_terminates [OF sample_file_fs_ok(1), of sample_time ROOTFID "''a''"] by blast

text \<open>
  C16. Removing a file with a live lease on one of its chunks does not delete anything: the entry
  moves into the dumpster under the name with the running number, the file keeps its attributes
  and all its chunks, and the layout is not touched.
\<close>

theorem remove_leased_file:
  assumes "ns_inv st" "ns_entry (names st) (d, n) = Some f" "file_in (names st) f" "\<not> lease_free clk st f"
    "ns_entry (names st) (ROOTFID, DUMPSTERDIR) = Some D" "dir_in (names st) D" "D \<noteq> d"
    "ns_entry (names st) (D, dump_name n (dumpster_counter st)) = None"
  shows "\<exists>st'. remove clk d n st = Some (st', 0) \<and> ns_inv st' \<and> layout st' = layout st \<and>
    names st' = ns_move d n D (dump_name n (dumpster_counter st)) f (names st)"
proof -
  let ?mv = "moveToDumpster_with (rename_with (remove_with (moveToDumpster_with (rename_with (remove_n 0 clk) clk) clk) clk) clk) clk"
  let ?M = "ns_move d n D (dump_name n (dumpster_counter st)) f (names st)"
  note ns = ns_invD(1,2) [OF assms(1)]
  have leg: "legalname n" using ns_invD(3) [OF assms(1)] assms(2,3) unfolding files_legal_def by blast
  have rm: "remove clk d n st = remove_with ?mv clk d n st"
    by (simp only: remove_def numeral_2_eq_2 remove_n_Suc)
  obtain st' where st': "?mv d n st = Some (st', 0)"
    "frame (st\<lparr>dumpster_counter := (dumpster_counter st + 1) mod 2 ^ 64\<rparr>) st'" "in_ns st' ?M" "ns_ok ?M"
    using moveToDumpster_ns [OF ns assms(5-7,2,3) leg assms(8), where clk = clk] by blast
  have "ns_good (fileID st) ?M"
    by (rule ns_good_move [OF _ st'(4) dump_name_legal [OF leg] assms(6)]) (use assms(1) in \<open>simp add: ns_inv_def\<close>)
  then have "ns_inv st'" using ns_invI [OF st'(3)] frame_fields(1) [OF st'(2)] by simp
  then show ?thesis
    using rm remove_leased_ns [OF ns assms(2-4), of ?mv] st' frame_fields(5) [OF st'(2)] by (simp add: in_ns_def)
qed

text \<open>A file system with the dumpster, a file and a chunk of it under a write lease.\<close>

definition sample_dump_fs :: MetaState where
  "sample_dump_fs = fst (the (mkdir sample_time ROOTFID DUMPSTERDIR 0 sample_file_fs))"

definition sample_busy_fs :: MetaState where
  "sample_busy_fs = (fst (assignChunkId sample_time 3 0 7 1 sample_dump_fs))\<lparr>layout :=
     (new_LayoutManager (\<lambda>_. new_ChunkServer))\<lparr>mChunkToServerMap :=
        [(7, new_ChunkPlacementInfo\<lparr>cp_fid := 3, chunkServers := [0], chunkLeases := [new_lease 90 WRITE_LEASE 1 (Some 0)]\<rparr>)]\<rparr>\<rparr>"

lemma sample_dump_fs_ok:
  "ns_inv sample_dump_fs"
  "names sample_dump_fs = ns_add_dir ROOTFID DUMPSTERDIR (new_fattr sample_time KFS_DIR 4 1) (names sample_file_fs)"
proof -
  have fid: "fileID sample_file_fs = 3" by code_simp
  have e: "dir_in (names sample_file_fs) ROOTFID" "ns_entry (names sample_file_fs) (ROOTFID, DUMPSTERDIR) = None"
    by (simp_all add: sample_file_fs_ok ns_add_file_def root_ns_def dir_in_def DUMPSTERDIR_def del: names_sel)
  obtain st' where "mkdir sample_time ROOTFID DUMPSTERDIR 0 sample_file_fs = Some (st', 0, 4)" "ns_inv st'"
    "names st' = ns_add_dir ROOTFID DUMPSTERDIR (new_fattr sample_time KFS_DIR 4 1) (names sample_file_fs)"
    by (rule mkdir_step [OF sample_file_fs_ok(1) e, of sample_time]) (simp_all add: fid DUMPSTERDIR_def)
  then show "ns_inv sample_dump_fs"
    "names sample_dump_fs = ns_add_dir ROOTFID DUMPSTERDIR (new_fattr sample_time KFS_DIR 4 1) (names sample_file_fs)"
    by (simp_all add: sample_dump_fs_def)
qed

lemma sample_busy_fs_ok:
  "ns_inv sample_busy_fs" "ns_entry (names sample_busy_fs) = ns_entry (names sample_dump_fs)"
  "file_in (names sample_busy_fs) 3" "dir_in (names sample_busy_fs) 4" "dumpster_counter sample_busy_fs = 1"
  "\<not> lease_free sample_time sample_busy_fs 3"
proof -
  let ?c = "new_chunkinfo 3 0 7 1"
  have f: "file_in (names sample_dump_fs) 3" "chunkStartOffset 0 = 0" "ns_chunk (names sample_dump_fs) (3, 0) = None"
    by (simp_all add: sample_dump_fs_ok sample_file_fs_ok ns_add_dir_def ns_add_file_def root_ns_def file_in_def
        chunkStartOffset_def del: names_sel)
  obtain st' where st': "assignChunkId sample_time 3 0 7 1 sample_dump_fs = (st', 0)"
    "in_ns st' (ns_put_chunk sample_time 3 ?c (names sample_dump_fs))"
    using assignChunkId_ns [OF ns_invD(1,2) [OF sample_dump_fs_ok(1)] f(1,2), of sample_time 7 1] f(3) by auto
  then have n: "names sample_busy_fs = ns_put_chunk sample_time 3 ?c (names sample_dump_fs)"
    by (simp add: sample_busy_fs_def in_ns_def)
  show "ns_inv sample_busy_fs"
    using assignChunkId_keeps [OF sample_dump_fs_ok(1) f(1,2), of sample_time 7 1] by (simp add: sample_busy_fs_def)
  show "ns_entry (names sample_busy_fs) = ns_entry (names sample_dump_fs)"
    unfolding n by (simp add: ns_put_chunk_def)
  show "file_in (names sample_busy_fs) 3" "dir_in (names sample_busy_fs) 4"
    unfolding n using f(1) by (auto simp: ns_put_chunk_def file_in_def dir_in_def sample_dump_fs_ok ns_add_dir_def simp del: names_sel)
  show "dumpster_counter sample_busy_fs = 1" by code_simp
  show "\<not> lease_free sample_time sample_busy_fs 3" by code_simp
qed

theorem remove_leased_file_witness:
  "\<exists>st'. remove sample_time ROOTFID ''a'' sample_busy_fs = Some (st', 0) \<and>
     ns_entry (names st') (4, ''a1'') = Some 3 \<and> file_in (names st') 3"
proof -
  have e: "ns_entry (names sample_busy_fs) (ROOTFID, ''a'') = Some 3"
    "ns_entry (names sample_busy_fs) (ROOTFID, DUMPSTERDIR) = Some 4"
    "ns_entry (names sample_busy_fs) (4, ''a1'') = None"
    by (simp_all add: sample_busy_fs_ok(2) sample_dump_fs_ok(2) sample_file_fs_ok(2) ns_add_dir_def ns_add_file_def
        root_ns_def DUMPSTERDIR_def del: names_sel)
  have d: "dump_name ''a'' (dumpster_counter sample_busy_fs) = ''a1''"
    unfolding sample_busy_fs_ok(5) by code_simp
  obtain st' where "remove sample_time ROOTFID ''a'' sample_busy_fs = Some (st', 0)"
    "names st' = ns_move ROOTFID ''a'' 4 ''a1'' 3 (names sample_busy_fs)"
    using remove_leased_file [OF sample_busy_fs_ok(1) e(1) sample_busy_fs_ok(3,6) e(2) sample_busy_fs_ok(4)] e(3) d by auto
  moreover have "\<not> dir_in (names sample_busy_fs) 3" by (rule file_not_dir [OF sample_busy_fs_ok(3)])
  ultimately show ?thesis
    using sample_busy_fs_ok(3) by (auto simp: ns_move_def file_in_def simp del: names_sel)
qed

section \<open>Creating over a file\<close>

lemma create_replaces:
  assumes "ns_inv st" "ns_entry (names st) (d, n) = Some f" "file_in (names st) f" "legalname n" "0 < k" "\<not> ex"
    "remove clk d n st = Some (st1, r)"
  shows "r = - EBUSY \<Longrightarrow> create clk d n i k ex st = Some (st1, r, i)" "r \<noteq> 0 \<Longrightarrow> r \<noteq> - EBUSY \<Longrightarrow> create clk d n i k ex st = None"
proof -
  obtain a where a: "ns_fattr (names st) f = Some a" "fa_type a = KFS_FILE" using assms(3) by (auto simp: file_in_def)
  have "lookup (metatree st) d n = Some (Some a)" using lookup_ns [OF ns_invD(1,2) [OF assms(1)], of d n] assms(2) a(1) by simp
  then show "r = - EBUSY \<Longrightarrow> create clk d n i k ex st = Some (st1, r, i)"
    "r \<noteq> 0 \<Longrightarrow> r \<noteq> - EBUSY \<Longrightarrow> create clk d n i k ex st = None"
    using assms(4-7) a(2) by (simp_all add: create_def)
qed

lemma create_refused_ns:
  assumes "ns_inv st" "\<not> (legalname n \<and> 0 < k)"
  shows "\<exists>st' r fid. create clk d n 0 k ex st = Some (st', r, fid) \<and> ns_inv st'"
  using assms by (auto simp: create_def)

text \<open>The same file system after the removal of \<^verbatim>\<open>a\<close>: the file is busy and lies in the dumpster.\<close>

definition sample_dumped_fs :: MetaState where
  "sample_dumped_fs = fst (the (remove sample_time ROOTFID ''a'' sample_busy_fs))"

lemma sample_dumped_fs_ok:
  "ns_inv sample_dumped_fs" "dir_in (names sample_dumped_fs) 4" "ns_entry (names sample_dumped_fs) (4, ''a1'') = Some 3"
  "file_in (names sample_dumped_fs) 3"
proof -
  obtain st' r where "remove sample_time ROOTFID ''a'' sample_busy_fs = Some (st', r)" "ns_inv st'"
    using remove_total [OF sample_busy_fs_ok(1), of 0 sample_time ROOTFID "''a''"] by (auto simp: remove_def numeral_2_eq_2)
  then show "ns_inv sample_dumped_fs" by (simp add: sample_dumped_fs_def)
  have "map_option fa_type (fattr_of (metatree sample_dumped_fs) 4) = Some KFS_DIR"
    "map_option fa_type (fattr_of (metatree sample_dumped_fs) 3) = Some KFS_FILE"
    "entry_of (metatree sample_dumped_fs) (4, ''a1'') = Some 3" by code_simp+
  then show "dir_in (names sample_dumped_fs) 4" "ns_entry (names sample_dumped_fs) (4, ''a1'') = Some 3"
    "file_in (names sample_dumped_fs) 3"
    by (auto simp: dir_in_def file_in_def)
qed

text \<open>
  C30. \<^verbatim>\<open>create\<close>, called as its handler does on a directory, keeps the name space sound on every branch on
  which it returns, and it always returns but for one case: it is to replace a file, and the removal of that
  file reports an error other than \<^verbatim>\<open>-EBUSY\<close>. Then the assert on the status of \<^verbatim>\<open>remove\<close> fails.
\<close>

theorem create_keeps_sound:
  assumes "ns_inv st" "dir_in (names st) d"
  shows "(\<forall>st' r fid. create clk d n 0 k ex st = Some (st', r, fid) \<longrightarrow> ns_inv st') \<and>
    (create clk d n 0 k ex st = None \<longleftrightarrow>
       legalname n \<and> 0 < k \<and> \<not> ex \<and>
       (\<exists>f st1 r. ns_entry (names st) (d, n) = Some f \<and> file_in (names st) f \<and>
          remove clk d n st = Some (st1, r) \<and> r \<noteq> 0 \<and> r \<noteq> - EBUSY))"
proof (cases "legalname n \<and> 0 < k \<and> \<not> ex \<and> (\<exists>f. ns_entry (names st) (d, n) = Some f \<and> file_in (names st) f)")
  case True
  then obtain f where f: "ns_entry (names st) (d, n) = Some f" "file_in (names st) f" and leg: "legalname n" "0 < k" "\<not> ex" by blast
  obtain st1 r where rm: "remove clk d n st = Some (st1, r)" "ns_inv st1"
    using remove_total [OF assms(1), of 0 clk d n] by (auto simp: remove_def numeral_2_eq_2)
  note c = create_replaces [OF assms(1) f leg rm(1)]
  show ?thesis
  proof (cases "r = 0")
    case True
    then have "\<exists>st' s fid. create clk d n 0 k ex st = Some (st', s, fid) \<and> ns_inv st'"
      using create_total [OF assms] rm(1) by blast
    then show ?thesis using rm(1) True by auto
  next
    case False
    then show ?thesis using c rm f leg by (cases "r = - EBUSY") auto
  qed
next
  case False
  then have "\<exists>st' r fid. create clk d n 0 k ex st = Some (st', r, fid) \<and> ns_inv st'"
    using create_total [OF assms, of n ex clk k] create_refused_ns [OF assms(1), of n k clk d ex] by blast
  then show ?thesis using False by auto
qed

text \<open>The file \<^verbatim>\<open>a\<close> is replaced; and a file with a live lease that lies in the dumpster cannot be.\<close>

theorem create_keeps_sound_witness:
  "(\<exists>st' fid. create sample_time ROOTFID ''a'' 0 3 False sample_file_fs = Some (st', 0, fid) \<and> ns_inv st') \<and>
   create sample_time 4 ''a1'' 0 3 False sample_dumped_fs = None"
proof -
  have d: "dir_in (names sample_file_fs) ROOTFID"
    by (simp add: sample_file_fs_ok ns_add_file_def root_ns_def dir_in_def del: names_sel)
  have "map_option fst (map_option snd (create sample_time ROOTFID ''a'' 0 3 False sample_file_fs)) = Some 0" by code_simp
  then obtain st' fid where st': "create sample_time ROOTFID ''a'' 0 3 False sample_file_fs = Some (st', 0, fid)" by auto
  have "ns_inv st'" using create_keeps_sound [OF sample_file_fs_ok(1) d, of sample_time "''a''" 3 False] st' by blast
  moreover have "create sample_time 4 ''a1'' 0 3 False sample_dumped_fs = None"
  proof -
    have "map_option (\<lambda>(s, r). r) (remove sample_time 4 ''a1'' sample_dumped_fs) = Some (- EEXIST)" by code_simp
    then obtain st1 where "remove sample_time 4 ''a1'' sample_dumped_fs = Some (st1, - EEXIST)" by auto
    then show ?thesis
      using create_keeps_sound [OF sample_dumped_fs_ok(1,2), of sample_time "''a1''" 3 False] sample_dumped_fs_ok(3,4)
      by (auto simp: legalname_def)
  qed
  ultimately show ?thesis using st' by blast
qed

text \<open>
  C9. \<^verbatim>\<open>rename\<close> of a name other than the dot names, when it does not overwrite a file with a live lease:
  it always returns and keeps the name space sound. Once the new name is resolved to a directory
  and a legal name different from the old one, it either reports the error of the first check
  that fails and changes nothing, or clears the destination and moves the entry, for a directory
  with its way up.
\<close>

theorem rename_correct:
  assumes "ns_inv st" "rename_pre clk st (names st) d n f d' n'"
    "rename_target (metatree st) d new = Some (Inr (d', n'))"
  shows "\<exists>st'. ns_inv st' \<and>
    (case rename_error (names st) overwrite f d' n' of
       Some r \<Rightarrow> r < 0 \<and> rename clk d n new overwrite st = Some (st, r)
     | None \<Rightarrow> rename clk d n new overwrite st = Some (st', 0) \<and>
         names st' = ns_move d n d' n' f (ns_clear d' n' (names st)) \<and> layout st' = cleared_layout st (names st) d' n')"
proof -
  let ?mv = "moveToDumpster_with (rename_with (remove_n (Suc 0) clk) clk) clk"
  note ns = ns_invD(1,2) [OF assms(1)]
  have p: "ns_entry (names st) (d, n) = Some f" "n \<notin> dots" "\<And>g. ns_entry (names st) (d', n') = Some g \<Longrightarrow> file_in (names st) g \<Longrightarrow> lease_free clk st g"
    using assms(2) by (auto simp: rename_pre_def)
  obtain a where a: "ns_fattr (names st) f = Some a" using ns_okD(2) [OF ns(2) p(1)] by blast
  have rn: "rename clk d n new overwrite st = rename_with (remove_with ?mv clk) clk d n new overwrite st"
    by (simp only: rename_def remove_def numeral_2_eq_2 remove_n_Suc)
  have tot: "\<exists>st' r. rename clk d n new overwrite st = Some (st', r) \<and> ns_inv st'"
    using rename_total [OF assms(1) p(2), of d new clk] p(3) assms(3) by auto
  show ?thesis
  proof (cases "rename_error (names st) overwrite f d' n'")
    case (Some r)
    then have "r < 0" by (auto simp: rename_error_def split: option.splits if_splits)
    then show ?thesis
      using Some assms(1) rn rename_with_resolved [OF ns assms(2) a assms(3), where overwrite = overwrite and mv = ?mv]
      by auto
  next
    case None
    then show ?thesis
      using tot rn rename_ns [OF ns assms(2,3) None, where mv = ?mv]
      by (auto simp: in_ns_def dest: frame_layout_layout)
  qed
qed

theorem rename_correct_witness:
  "\<exists>st'. rename sample_time ROOTFID ''a'' ''b'' True sample_file_fs = Some (st', 0) \<and> ns_inv st' \<and>
     ns_entry (names st') (ROOTFID, ''b'') = Some 3"
proof -
  have e: "ns_entry (names sample_file_fs) (ROOTFID, ''b'') = None" "dir_in (names sample_file_fs) ROOTFID"
    by (simp_all add: sample_file_fs_ok ns_add_file_def root_ns_def dir_in_def del: names_sel)
  then have pre: "rename_pre sample_time sample_file_fs (names sample_file_fs) ROOTFID ''a'' 3 ROOTFID ''b''"
    using sample_file by (simp add: rename_pre_def legalname_def)
  have nd: "\<not> dir_in (names sample_file_fs) 3" by (rule file_not_dir [OF sample_file(2)])
  then have "rename_error (names sample_file_fs) True 3 ROOTFID ''b'' = None" using e by (simp add: rename_error_def)
  moreover have "rename_target (metatree sample_file_fs) ROOTFID ''b'' = Some (Inr (ROOTFID, ''b''))"
    by (simp add: rename_target_def)
  moreover have "ns_clear ROOTFID ''b'' (names sample_file_fs) = names sample_file_fs" using e by (simp add: ns_clear_def)
  ultimately show ?thesis
    using rename_correct [OF sample_file_fs_ok(1) pre, of "''b''" True] nd by (auto simp: ns_move_def simp del: names_sel)
qed

text \<open>
  C20. The walk up from a directory always ends: \<^verbatim>\<open>is_descendant\<close> returns after at most as many turns
  as there are items in the store, and its answer is whether the first directory lies on the way
  from the second one up to the root.
\<close>

theorem is_descendant_decides:
  assumes "ns_inv st" "dir_in (names st) dst"
  shows "\<exists>path. up_path (ns_entry (names st)) (dst # path) \<and> distinct (dst # path) \<and>
    length (dst # path) \<le> length (metatree st) \<and>
    is_descendant (metatree st) src dst = Some (src \<in> set (dst # path))"
proof -
  note ns = ns_invD(1,2) [OF assms(1)]
  obtain xs where xs: "up_path (ns_entry (names st)) (dst # xs)" "distinct (dst # xs)"
    using rooted_distinct_path [OF ns_okD(10) [OF ns(2) assms(2)]] by blast
  then show ?thesis
    using up_path_length [OF ns xs] is_descendant_ns [OF ns assms(2), of src] avoids_path [OF ns(2) xs, of src] by auto
qed

theorem is_descendant_decides_witness:
  "is_descendant (metatree sample_dump_fs) ROOTFID 4 = Some True \<and> is_descendant (metatree sample_dump_fs) 4 ROOTFID = Some False"
proof -
  have d: "dir_in (names sample_dump_fs) 4" "dir_in (names sample_dump_fs) ROOTFID"
    by (simp_all add: sample_dump_fs_ok sample_file_fs_ok ns_add_dir_def ns_add_file_def root_ns_def dir_in_def del: names_sel)
  obtain p where "up_path (ns_entry (names sample_dump_fs)) (4 # p)"
    "is_descendant (metatree sample_dump_fs) ROOTFID 4 = Some (ROOTFID \<in> set (4 # p))"
    using is_descendant_decides [OF sample_dump_fs_ok(1) d(1)] by blast
  moreover have "is_descendant (metatree sample_dump_fs) 4 ROOTFID = Some False" by code_simp
  ultimately show ?thesis using up_path_root [of "ns_entry (names sample_dump_fs)" "4 # p"] by simp
qed

text \<open>
  C31. A path lookup never fails an assert, for any string and any starting point: it finds nothing
  or the attributes of a file or directory that exists.
\<close>

theorem lookupPath_total:
  assumes "ns_inv st"
  shows "\<exists>r. lookupPath (metatree st) d p = Some r \<and> (\<forall>a. r = Some a \<longrightarrow> ns_fattr (names st) (fa_fid a) = Some a)"
  using lookupPath_ns [OF ns_invD(1,2) [OF assms]] .

theorem lookupPath_total_witness:
  "\<exists>r. lookupPath (metatree sample_file_fs) 0 ''//a/../b'' = Some r"
  using lookupPath_total [OF sample_file_fs_ok(1)] by blast

text \<open>
  C26. Recording a chunk of a file at an aligned offset: a new one is entered and counted, the size
  becomes unknown and the time is set; an existing one with another version gets the new version
  and keeps its id; one with the same version is an error. The name space stays sound.
\<close>

theorem assignChunkId_correct:
  assumes "ns_inv st" "file_in (names st) f" "chunkStartOffset off = off"
  shows "ns_inv (fst (assignChunkId clk f off i v st)) \<and>
    (case ns_chunk (names st) (f, off) of
       None \<Rightarrow> snd (assignChunkId clk f off i v st) = 0 \<and>
         names (fst (assignChunkId clk f off i v st)) = ns_put_chunk clk f (new_chunkinfo f off i v) (names st)
     | Some c \<Rightarrow>
         if ci_chunkVersion c = v then assignChunkId clk f off i v st = (st, - EEXIST)
         else snd (assignChunkId clk f off i v st) = 0 \<and>
           names (fst (assignChunkId clk f off i v st)) =
             (names st)\<lparr>ns_chunk := (ns_chunk (names st))((f, off) \<mapsto> c\<lparr>ci_chunkVersion := v\<rparr>)\<rparr>)"
  using assignChunkId_keeps [OF assms, of clk i v] assignChunkId_ns [OF ns_invD(1,2) [OF assms(1)] assms(2,3), of clk i v]
  by (auto simp: in_ns_def split: option.splits if_splits)

theorem assignChunkId_correct_witness:
  "ns_inv (fst (assignChunkId sample_time 3 0 7 1 sample_file_fs)) \<and>
   ns_chunk (names (fst (assignChunkId sample_time 3 0 7 1 sample_file_fs))) (3, 0) = Some (new_chunkinfo 3 0 7 1)"
proof -
  have "chunkStartOffset 0 = 0" "ns_chunk (names sample_file_fs) (3, 0) = None"
    by (simp_all add: chunkStartOffset_def sample_file_fs_ok ns_add_file_def root_ns_def del: names_sel)
  with assignChunkId_correct [OF sample_file_fs_ok(1) sample_file(2), of 0 sample_time 7 1] show ?thesis
    by (simp add: ns_put_chunk_def del: names_sel)
qed

text \<open>
  C21. Truncating a file at an offset: when there is a chunk that holds the offset, the chunks
  after it are removed and the count follows; when there is none, nothing is removed and the
  caller is asked to allocate one. The size becomes unknown and the name space stays sound.
\<close>

theorem truncate_correct:
  assumes "ns_inv st" "file_in (names st) f" "0 \<le> off" "off < 2 ^ 63"
  shows "\<exists>st' r o'. truncate_file clk f off st = Some (st', r, o') \<and> ns_inv st' \<and>
    (case ns_chunk (names st) (f, chunkStartOffset off) of
       None \<Rightarrow> r = 1 \<and> o' = Some (chunkStartOffset off) \<and> ns_chunk (names st') = ns_chunk (names st)
     | Some c \<Rightarrow> r = 0 \<and> o' = None \<and> names st' = ns_truncate clk f (chunkStartOffset off) (names st))"
proof -
  note off = chunkStartOffset_props(1) [OF assms(3,4)]
  from truncate_ns [OF ns_invD(1,2) [OF assms(1)] assms(2) off, of clk] truncate_total [OF assms(1) off, of clk f]
  show ?thesis by (cases "ns_chunk (names st) (f, chunkStartOffset off)") (auto simp: in_ns_def simp del: names_sel)
qed

theorem truncate_correct_witness:
  "\<exists>st'. truncate_file sample_time 3 5 sample_busy_fs = Some (st', 0, None) \<and> ns_inv st'"
proof -
  have "chunk_of (metatree sample_busy_fs) (3, chunkStartOffset 5) \<noteq> None" by code_simp
  then have "ns_chunk (names sample_busy_fs) (3, chunkStartOffset 5) \<noteq> None" by simp
  then show ?thesis
    using truncate_correct [OF sample_busy_fs_ok(1,3), of 5 sample_time]
    by (cases "ns_chunk (names sample_busy_fs) (3, chunkStartOffset 5)") (auto simp del: names_sel)
qed

text \<open>
  C36. The start of the chunk that holds an offset, computed with 64-bit unsigned arithmetic and
  read back as a signed number: for every file offset it is the largest multiple of the chunk
  size not above it.
\<close>

theorem chunkStartOffset_correct:
  assumes "0 \<le> off" "off < 2 ^ 63"
  shows "chunkStartOffset off = off div 2 ^ 26 * 2 ^ 26 \<and> chunkStartOffset off \<le> off \<and>
    off < chunkStartOffset off + 2 ^ 26 \<and> chunkStartOffset (chunkStartOffset off) = chunkStartOffset off"
  using chunkStartOffset_floor [OF assms] chunkStartOffset_props [OF assms] by simp

theorem chunkStartOffset_correct_witness: "chunkStartOffset (3 * 2 ^ 26 + 17) = 3 * 2 ^ 26"
  using chunkStartOffset_correct [of "3 * 2 ^ 26 + 17"] by simp

text \<open>
  C38. \<^verbatim>\<open>rename\<close> does not refuse the dot names. In a sound name space the dot entry of any directory can be renamed to
  a free legal name in any directory that is not below it: the call succeeds, the directory then has a second name
  and no dot entry, its way up leads to the new place, and the name space is no longer sound.
\<close>

theorem rename_dot_breaks:
  assumes "ns_inv st" "dir_in (names st) x" "rename_target (metatree st) x new = Some (Inr (d', n'))"
    "dir_in (names st) d'" "avoids (names st) x d'" "legalname n'" "ns_entry (names st) (d', n') = None"
  shows "\<exists>st'. rename clk x ''.'' new ov st = Some (st', 0) \<and> names st' = ns_move x ''.'' d' n' x (names st) \<and> \<not> ns_inv st'"
proof -
  note ns = ns_invD(1,2) [OF assms(1)]
  obtain a where a: "ns_fattr (names st) x = Some a" "fa_type a = KFS_DIR" using assms(2) by (auto simp: dir_in_def)
  have dot: "ns_entry (names st) (x, ''.'') = Some x" by (rule ns_okD(3) [OF ns(2) assms(2)])
  have n': "n' \<notin> dots" by (rule free_name_no_dots [OF ns(2) assms(4,7)])
  obtain st' where st': "move_entry clk (new_dentry x ''.'' x) a d' n' st = Some (st', 0)"
    "in_ns st' (ns_move x ''.'' d' n' x (names st))"
    using move_any_entry_ns [OF ns dot _ a(1) assms(4,7), of clk] by auto
  have "rename clk x ''.'' new ov st = Some (st', 0)"
    using getDentry_ns [OF ns, of x "''.''"] lookup_ns [OF ns, of x "''.''"] lookup_ns [OF ns, of d' n']
      is_descendant_ns [OF ns assms(4), of x] ns_okD(7) [OF ns(2) a(1)] assms(3,5-7) dot a st'(1) n'
    by (simp add: rename_def rename_with_def)
  moreover have "ns_entry (names st') (x, ''.'') = None"
    using st'(2) n' by (auto simp: in_ns_def ns_move_def Let_def simp del: names_sel)
  moreover have "dir_in (names st') x" using st'(2) assms(2) by (simp add: in_ns_def del: names_sel)
  ultimately show ?thesis
    using st'(2) ns_okD(3) [OF ns_invD(2), of st' x] by (auto simp: in_ns_def simp del: names_sel)
qed

text \<open>Two directories \<^verbatim>\<open>p\<close> and \<^verbatim>\<open>x\<close> in the root directory.\<close>

definition sample_two_dirs :: MetaState where
  "sample_two_dirs =
     fst (the (mkdir sample_time ROOTFID ''x'' 0 (fst (the (mkdir sample_time ROOTFID ''p'' 0 sample_fs)))))"

lemma sample_two_dirs_ok: "ns_inv sample_two_dirs"
proof -
  have keeps: "ns_inv (fst (the (mkdir sample_time ROOTFID n 0 st)))"
    if "ns_inv st" "ns_entry (names st) (ROOTFID, n) = None" "n \<noteq> ''/''" for n st
  proof -
    note step = mkdir_step [OF that(1) ns_okD(11) [OF ns_invD(2) [OF that(1)]] that(2) _ that(3), of sample_time]
    obtain st' where "mkdir sample_time ROOTFID n 0 st = Some (st', 0, fileID st + 1)" "ns_inv st'"
      by (rule step) simp_all
    then show ?thesis by simp
  qed
  have "entry_of (metatree sample_fs) (ROOTFID, ''p'') = None"
    "entry_of (metatree (fst (the (mkdir sample_time ROOTFID ''p'' 0 sample_fs)))) (ROOTFID, ''x'') = None" by code_simp+
  then show ?thesis unfolding sample_two_dirs_def by (intro keeps) (simp_all add: sample_fs_ok(2))
qed

theorem rename_dot_breaks_witness:
  "\<exists>st'. rename sample_time 3 ''.'' ''/x/y'' False sample_two_dirs = Some (st', 0) \<and>
     ns_entry (names st') (ROOTFID, ''p'') = Some 3 \<and> ns_entry (names st') (4, ''y'') = Some 3 \<and> \<not> ns_inv st'"
proof -
  have e: "map_option fa_type (fattr_of (metatree sample_two_dirs) 3) = Some KFS_DIR"
    "map_option fa_type (fattr_of (metatree sample_two_dirs) 4) = Some KFS_DIR"
    "entry_of (metatree sample_two_dirs) (4, ''y'') = None" "entry_of (metatree sample_two_dirs) (ROOTFID, ''p'') = Some 3"
    "rename_target (metatree sample_two_dirs) 3 ''/x/y'' = Some (Inr (4, ''y''))"
    "is_descendant (metatree sample_two_dirs) 3 4 = Some False" by code_simp+
  then have d: "dir_in (names sample_two_dirs) 3" "dir_in (names sample_two_dirs) 4" by (auto simp: dir_in_def)
  have "avoids (names sample_two_dirs) 3 4"
    using is_descendant_ns [OF ns_invD(1,2) [OF sample_two_dirs_ok] d(2), of 3] e(6) by simp
  then obtain st' where "rename sample_time 3 ''.'' ''/x/y'' False sample_two_dirs = Some (st', 0)" "\<not> ns_inv st'"
    "names st' = ns_move 3 ''.'' 4 ''y'' 3 (names sample_two_dirs)"
    using rename_dot_breaks [OF sample_two_dirs_ok d(1) e(5) d(2), of sample_time False] e(3) by (auto simp: legalname_def)
  moreover have "ns_entry (names sample_two_dirs) (ROOTFID, ''p'') = Some 3" using e(4) by simp
  ultimately show ?thesis
    by (intro exI [of _ st']) (simp add: ns_move_def Let_def del: names_sel)
qed

end
