(* ===== verification/Meta_Entry.thy ===== *)
theory Meta_Entry
  imports Meta_Ops
begin

text \<open>
  Lines of text on disk: the conversions of src/src/cc/meta/util.cc, the field parsers of entry.cc
  and the stream that replay.cc and restore.cc read lines from. A deque of components is a list of
  strings. Every \<^verbatim>\<open>pop\<close> function takes a tag and its value from the front; it returns the value and
  the rest, or \<^verbatim>\<open>None\<close> for \<^verbatim>\<open>false\<close>, so that a chain of calls through \<^verbatim>\<open>ok\<close> is a chain of binds.
\<close>

section \<open>Numbers\<close>

definition toString :: "int \<Rightarrow> string" where
  "toString n = (if n < 0 then CHR ''-'' # decimal_digits (nat (- n)) else decimal_digits (nat n))"

definition is_space :: "char \<Rightarrow> bool" where
  "is_space c \<longleftrightarrow> c \<in> {CHR '' '', CHR 0x09, CHR 0x0A, CHR 0x0B, CHR 0x0C, CHR 0x0D}"

definition is_digit :: "char \<Rightarrow> bool" where
  "is_digit c \<longleftrightarrow> 48 \<le> (of_char c :: nat) \<and> (of_char c :: nat) \<le> 57"

definition digits_value :: "string \<Rightarrow> int" where
  "digits_value ds = fold (\<lambda>c n. 10 * n + (of_char c - 48)) ds 0"

text \<open>\<^verbatim>\<open>strtoll\<close> in base 10: the value, clamped to 64 bits, and what \<^verbatim>\<open>endptr\<close> points to.\<close>

definition strtoll :: "string \<Rightarrow> int \<times> string" where
  "strtoll s =
     (let t = dropWhile is_space s;
          neg = (case t of c # _ \<Rightarrow> c = CHR ''-'' | [] \<Rightarrow> False);
          u = (case t of c # r \<Rightarrow> if c = CHR ''-'' \<or> c = CHR ''+'' then r else t | [] \<Rightarrow> []);
          ds = takeWhile is_digit u;
          n = (if neg then - digits_value ds else digits_value ds)
      in if ds = [] then (0, s)
         else (max (- (2 ^ 63)) (min (2 ^ 63 - 1) n), dropWhile is_digit u))"

definition toNumber :: "string \<Rightarrow> int" where
  "toNumber s = (let (n, endptr) = strtoll s in if endptr \<noteq> [] then -1 else n)"

section \<open>Components\<close>

abbreviation (input) SEPARATOR :: char where "SEPARATOR \<equiv> CHR ''/''"

function split_path :: "char \<Rightarrow> string \<Rightarrow> string list" where
  "split_path sep path =
     (if sep \<in> set path
      then takeWhile (\<lambda>c. c \<noteq> sep) path # split_path sep (tl (dropWhile (\<lambda>c. c \<noteq> sep) path))
      else [path])"
  by pat_completeness auto
termination
proof (relation "measure (\<lambda>(sep, path). length path)", goal_cases)
  case (2 sep path)
  let ?d = "dropWhile (\<lambda>c. c \<noteq> sep) path"
  from 2 have "?d \<noteq> []" by (auto simp: dropWhile_eq_Nil_conv)
  moreover have "length ?d \<le> length path" by (rule length_dropWhile_le)
  ultimately have "length (tl ?d) < length path" by (cases ?d) simp_all
  then show ?case by simp
qed simp

declare split_path.simps [simp del]

definition pop_name :: "string \<Rightarrow> string list \<Rightarrow> (string \<times> string list) option" where
  "pop_name tag c =
     (case c of
        t # n # r \<Rightarrow>
          if t \<noteq> tag then None
          else if n \<noteq> [] then Some (n, r)
          else (case r of
                  [] \<Rightarrow> None
                | x # r' \<Rightarrow> if x \<noteq> [] then None else Some (''/'', r'))
      | _ \<Rightarrow> None)"

fun collect_path :: "string list \<Rightarrow> string" where
  "collect_path [] = []"
| "collect_path [x] = x"
| "collect_path (x # y # r) = x @ ''/'' @ collect_path (y # r)"

definition pop_path :: "string \<Rightarrow> string list \<Rightarrow> (string \<times> string list) option" where
  "pop_path tag c =
     (case c of
        t # n # r \<Rightarrow> if t \<noteq> tag then None else Some (collect_path (n # r), [])
      | _ \<Rightarrow> None)"

definition pop_fid :: "string \<Rightarrow> string list \<Rightarrow> (int \<times> string list) option" where
  "pop_fid tag c =
     (case c of
        t # v # r \<Rightarrow>
          if t \<noteq> tag then None
          else (let fid = toNumber v in if fid \<noteq> -1 then Some (fid, r) else None)
      | _ \<Rightarrow> None)"

text \<open>\<^verbatim>\<open>-1u\<close> has 32 bits, so a \<^verbatim>\<open>size_t\<close> is compared with \<^verbatim>\<open>4294967295\<close>.\<close>

definition pop_size :: "string \<Rightarrow> string list \<Rightarrow> (64 word \<times> string list) option" where
  "pop_size tag c =
     (case c of
        t # v # r \<Rightarrow>
          if t \<noteq> tag then None
          else (let sz = word_of_int (toNumber v) in if sz \<noteq> 4294967295 then Some (sz, r) else None)
      | _ \<Rightarrow> None)"

definition to_int16 :: "int \<Rightarrow> int" where
  "to_int16 n = sint (word_of_int n :: 16 word)"

definition pop_short :: "string \<Rightarrow> string list \<Rightarrow> (int \<times> string list) option" where
  "pop_short tag c =
     (case c of
        t # v # r \<Rightarrow>
          if t \<noteq> tag then None
          else (let num = to_int16 (toNumber v) in if num \<noteq> -1 then Some (num, r) else None)
      | _ \<Rightarrow> None)"

definition pop_offset :: "string \<Rightarrow> string list \<Rightarrow> (int \<times> string list) option" where
  "pop_offset tag c =
     (case c of
        t # v # r \<Rightarrow>
          if t \<noteq> tag then None
          else (let off = toNumber v in if off \<noteq> -1 then Some (off, r) else None)
      | _ \<Rightarrow> None)"

definition pop_type :: "string \<Rightarrow> string list \<Rightarrow> (FileType \<times> string list) option" where
  "pop_type tag c =
     (case c of
        t # v # r \<Rightarrow>
          if t \<noteq> tag then None
          else if v = ''file'' then Some (KFS_FILE, r)
          else if v = ''dir'' then Some (KFS_DIR, r)
          else None
      | _ \<Rightarrow> None)"

definition pop_time :: "string \<Rightarrow> string list \<Rightarrow> (timeval \<times> string list) option" where
  "pop_time tag c =
     (case c of
        t # s # u # r \<Rightarrow>
          if t \<noteq> tag then None
          else (let tv = \<lparr>tv_sec = toNumber s, tv_usec = toNumber u\<rparr> in
                if tv_sec tv \<noteq> -1 \<and> tv_usec tv \<noteq> -1 then Some (tv, r) else None)
      | _ \<Rightarrow> None)"

section \<open>Lines\<close>

text \<open>
  An input stream is what is left of the file and its two state bits. \<^verbatim>\<open>getline\<close> on a stream whose
  bits are not clear sets \<^verbatim>\<open>failbit\<close> and stores an empty line. Otherwise it reads up to a newline,
  which it takes away; the end of the file sets \<^verbatim>\<open>eofbit\<close> (and \<^verbatim>\<open>failbit\<close> when nothing was read), a
  line that does not fit into the buffer sets \<^verbatim>\<open>failbit\<close>.
\<close>

record ifstream =
  unread :: string
  eofbit :: bool
  failbit :: bool

definition open_stream :: "string \<Rightarrow> ifstream" where
  "open_stream txt = \<lparr>unread = txt, eofbit = False, failbit = False\<rparr>"

abbreviation (input) newline :: char where "newline \<equiv> CHR 0x0A"

definition getline :: "nat \<Rightarrow> ifstream \<Rightarrow> string \<times> ifstream" where
  "getline n f =
     (if eofbit f \<or> failbit f then ([], f\<lparr>failbit := True\<rparr>)
      else
        let w = takeWhile (\<lambda>c. c \<noteq> newline) (unread f);
            r = dropWhile (\<lambda>c. c \<noteq> newline) (unread f)
        in if n - 1 < length w
           then (take (n - 1) w, f\<lparr>unread := drop (n - 1) (unread f), failbit := True\<rparr>)
           else if r = []
           then (w, f\<lparr>unread := [], eofbit := True, failbit := w = []\<rparr>)
           else (w, f\<lparr>unread := tl r\<rparr>))"

abbreviation (input) MAXLINE :: nat where "MAXLINE \<equiv> 400"

type_synonym 'a parser = "string list \<Rightarrow> 'a \<Rightarrow> ('a \<times> bool) option"

text \<open>
  \<^verbatim>\<open>DiskEntry::parse\<close> with the table as a list of keywords and parsers. The line is a C string, which
  ends at the first null character.
\<close>

definition DiskEntry_parse :: "(string \<times> 'a parser) list \<Rightarrow> string \<Rightarrow> 'a \<Rightarrow> ('a \<times> bool) option" where
  "DiskEntry_parse table line st =
     (let l = takeWhile (\<lambda>c. c \<noteq> CHR 0x00) line in
      if l = [] then Some (st, True)
      else
        let component = split_path SEPARATOR l in
        case map_of table (hd component) of
          None \<Rightarrow> Some (st, False)
        | Some p \<Rightarrow> p component st)"

text \<open>
  The loop that \<^verbatim>\<open>playlog\<close> and \<^verbatim>\<open>rebuild\<close> share: it counts lines and stops at the end of the file or
  after a line that does not parse. \<^verbatim>\<open>None\<close> of the fuel-bounded loop is a loop that has not ended;
  the result \<^verbatim>\<open>Some None\<close> is an aborted process.
\<close>

fun parse_loop ::
  "nat \<Rightarrow> (string \<times> 'a parser) list \<Rightarrow> nat \<Rightarrow> bool \<Rightarrow> ifstream \<Rightarrow> 'a \<Rightarrow> ('a \<times> nat \<times> bool) option option" where
  "parse_loop 0 table lineno ok f st = None"
| "parse_loop (Suc fuel) table lineno ok f st =
     (if ok \<and> \<not> eofbit f
      then
        let (l, f1) = getline MAXLINE f in
        case DiskEntry_parse table l st of
          None \<Rightarrow> Some None
        | Some (st1, ok1) \<Rightarrow> parse_loop fuel table (lineno + 1) ok1 f1 st1
      else Some (Some (st, lineno, ok)))"


section \<open>Printing and parsing numbers\<close>


lemma decimal_digits_snoc:
  "decimal_digits n = (if n < 10 then [] else decimal_digits (n div 10)) @ [char_of (n mod 10 + 48)]"
  by (subst decimal_digits.simps) simp

lemma digits_value_snoc: "digits_value (ds @ [c]) = 10 * digits_value ds + (of_char c - 48)"
  by (simp add: digits_value_def)

lemma of_char_digit [simp]:
  "d < 10 \<Longrightarrow> (of_char (char_of (d + 48 :: nat)) :: nat) = d + 48"
  "d < 10 \<Longrightarrow> (of_char (char_of (d + 48 :: nat)) :: int) = int d + 48"
proof -
  assume "d < 10"
  then show n: "(of_char (char_of (d + 48 :: nat)) :: nat) = d + 48" by (simp add: of_char_of)
  show "(of_char (char_of (d + 48 :: nat)) :: int) = int d + 48"
    using arg_cong [OF n, of int] by (simp only: of_nat_of_char of_nat_add of_nat_numeral)
qed

lemma decimal_digits_nonempty [simp]: "decimal_digits n \<noteq> []"
  by (simp add: decimal_digits_snoc)

lemma decimal_digits_are_digits: "\<forall>c\<in>set (decimal_digits n). is_digit c"
proof (induction n rule: less_induct)
  case (less n)
  have "is_digit (char_of (n mod 10 + 48))" by (simp add: is_digit_def)
  moreover have "10 \<le> n \<Longrightarrow> \<forall>c\<in>set (decimal_digits (n div 10)). is_digit c" using less [of "n div 10"] by simp
  ultimately show ?case by (subst decimal_digits_snoc) auto
qed

lemma digits_value_decimal_digits [simp]: "digits_value (decimal_digits n) = int n"
proof (induction n rule: less_induct)
  case (less n)
  show ?case
  proof (cases "n < 10")
    case True
    then show ?thesis
      by (subst decimal_digits_snoc) (simp add: digits_value_def)
  next
    case False
    then have "digits_value (decimal_digits (n div 10)) = int (n div 10)" using less by simp
    then show ?thesis
      using False by (subst decimal_digits_snoc) (simp add: digits_value_snoc zdiv_int zmod_int)
  qed
qed

lemma digit_neq [simp]:
  "is_digit c \<Longrightarrow> c \<noteq> CHR ''-''" "is_digit c \<Longrightarrow> c \<noteq> CHR ''+''" "is_digit c \<Longrightarrow> \<not> is_space c"
  "is_digit c \<Longrightarrow> c \<noteq> SEPARATOR" "is_digit c \<Longrightarrow> c \<noteq> newline" "is_digit c \<Longrightarrow> c \<noteq> CHR 0x00"
  by (auto simp: is_digit_def is_space_def)

lemma toString_chars: "\<forall>c\<in>set (toString n). is_digit c \<or> c = CHR ''-''"
  using decimal_digits_are_digits by (auto simp: toString_def)

lemma toString_nonempty [simp]: "toString n \<noteq> []"
  by (simp add: toString_def)

lemma takeWhile_all_digits: "\<forall>c\<in>set ds. is_digit c \<Longrightarrow> takeWhile is_digit ds = ds \<and> dropWhile is_digit ds = []"
  by (simp add: takeWhile_eq_all_conv dropWhile_eq_Nil_conv)

lemma strtoll_digits:
  assumes "\<forall>c\<in>set ds. is_digit c" "ds \<noteq> []"
  shows "strtoll ds = (max (- (2 ^ 63)) (min (2 ^ 63 - 1) (digits_value ds)), [])"
    "strtoll (CHR ''-'' # ds) = (max (- (2 ^ 63)) (min (2 ^ 63 - 1) (- digits_value ds)), [])"
proof -
  obtain c r where ds: "ds = c # r" using assms(2) by (cases ds) auto
  show "strtoll ds = (max (- (2 ^ 63)) (min (2 ^ 63 - 1) (digits_value ds)), [])"
    using assms ds by (auto simp: strtoll_def Let_def takeWhile_all_digits)
  show "strtoll (CHR ''-'' # ds) = (max (- (2 ^ 63)) (min (2 ^ 63 - 1) (- digits_value ds)), [])"
    using assms by (simp add: strtoll_def is_space_def Let_def takeWhile_all_digits)
qed

abbreviation fits64 :: "int \<Rightarrow> bool" where
  "fits64 n \<equiv> - (2 ^ 63) \<le> n \<and> n < 2 ^ 63"

lemma toNumber_toString [simp]: "fits64 n \<Longrightarrow> toNumber (toString n) = n"
  by (simp add: toNumber_def toString_def strtoll_digits [OF decimal_digits_are_digits] max_def min_def)

section \<open>Splitting what was joined\<close>

lemma split_path_Nil [simp]: "split_path sep [] = [[]]"
  by (simp add: split_path.simps)

lemma split_path_nonempty [simp]: "split_path sep s \<noteq> []"
  by (subst split_path.simps) simp

lemma split_path_Cons:
  "split_path sep (c # s) =
     (if c = sep then [] # split_path sep s else (c # hd (split_path sep s)) # tl (split_path sep s))"
  by (subst (1) split_path.simps) (subst (3) split_path.simps, auto simp: split_path.simps [of sep s])

lemma split_path_append:
  "sep \<notin> set w \<Longrightarrow> split_path sep (w @ s) = (w @ hd (split_path sep s)) # tl (split_path sep s)"
proof (induction w)
  case (Cons c w)
  then show ?case by (auto simp: split_path_Cons)
qed simp

lemma split_path_word [simp]: "sep \<notin> set w \<Longrightarrow> split_path sep w = [w]"
  by (subst split_path.simps) simp

lemma split_path_word_sep [simp]: "sep \<notin> set w \<Longrightarrow> split_path sep (w @ sep # s) = w # split_path sep s"
  by (simp add: split_path_append split_path_Cons)

text \<open>A version with an accumulator, for evaluation on literals.\<close>

fun split_acc :: "string \<Rightarrow> char \<Rightarrow> string \<Rightarrow> string list" where
  "split_acc acc sep [] = [rev acc]"
| "split_acc acc sep (c # s) = (if c = sep then rev acc # split_acc [] sep s else split_acc (c # acc) sep s)"

lemma split_acc_path: "split_acc acc sep s = (rev acc @ hd (split_path sep s)) # tl (split_path sep s)"
  by (induction acc sep s rule: split_acc.induct) (simp_all add: split_path_Cons)

lemma split_path_acc: "split_path sep s = split_acc [] sep s"
  by (simp add: split_acc_path)

lemma split_acc_append: "sep \<notin> set w \<Longrightarrow> split_acc acc sep (w @ s) = split_acc (rev w @ acc) sep s"
  by (induction w arbitrary: acc) auto

lemma split_acc_word: "sep \<notin> set w \<Longrightarrow> split_acc acc sep w = [rev acc @ w]"
  using split_acc_append [of sep w acc "[]"] by simp

lemma sep_not_in_toString [simp]: "SEPARATOR \<notin> set (toString n)"
  using toString_chars [of n] by (auto simp: is_digit_def)

lemma collect_path_split [simp]: "collect_path (split_path SEPARATOR s) = s"
proof (induction s)
  case (Cons c s)
  obtain x r where x: "split_path SEPARATOR s = x # r" by (cases "split_path SEPARATOR s") auto
  show ?case
  proof (cases "c = SEPARATOR")
    case True
    then show ?thesis using Cons by (simp add: split_path_Cons x)
  next
    case False
    then show ?thesis using Cons by (cases r) (simp_all add: split_path_Cons x)
  qed
qed simp


section \<open>Reading a file of lines\<close>

text \<open>Characters that a line of the file may have.\<close>

definition log_chars :: "string \<Rightarrow> bool" where
  "log_chars s \<longleftrightarrow> newline \<notin> set s \<and> CHR 0x00 \<notin> set s"

lemma toString_log_chars [simp]: "log_chars (toString n)"
  using toString_chars [of n] by (auto simp: log_chars_def is_digit_def)

lemma log_chars_Nil [simp]: "log_chars []"
  by (simp add: log_chars_def)

lemma log_chars_append [simp]: "log_chars (s @ t) \<longleftrightarrow> log_chars s \<and> log_chars t"
  by (auto simp: log_chars_def)

lemma log_chars_Cons [simp]: "log_chars (c # s) \<longleftrightarrow> c \<noteq> newline \<and> c \<noteq> CHR 0x00 \<and> log_chars s"
  by (auto simp: log_chars_def)

lemma DiskEntry_parse_line:
  assumes "log_chars l" "l \<noteq> []"
  shows "DiskEntry_parse table l st =
    (case map_of table (hd (split_path SEPARATOR l)) of
       None \<Rightarrow> Some (st, False) | Some p \<Rightarrow> p (split_path SEPARATOR l) st)"
proof -
  have "takeWhile (\<lambda>c. c \<noteq> CHR 0x00) l = l" using assms(1) by (auto simp: takeWhile_eq_all_conv log_chars_def)
  then show ?thesis using assms(2) by (simp only: DiskEntry_parse_def Let_def if_False)
qed

text \<open>The reference: every line is parsed, until one is not in order.\<close>

fun parse_lines :: "(string \<times> 'a parser) list \<Rightarrow> string list \<Rightarrow> 'a \<Rightarrow> ('a \<times> bool) option" where
  "parse_lines table [] st = Some (st, True)"
| "parse_lines table (l # ls) st =
     (case DiskEntry_parse table l st of
        None \<Rightarrow> None
      | Some (st1, ok) \<Rightarrow> if ok then parse_lines table ls st1 else Some (st1, False))"

definition file_lines :: "string list \<Rightarrow> string" where
  "file_lines ls = concat (map (\<lambda>l. l @ [newline]) ls)"

lemma getline_line:
  assumes "newline \<notin> set l" "length l < n"
  shows "getline n \<lparr>unread = l @ newline # rest, eofbit = False, failbit = False\<rparr> =
    (l, \<lparr>unread = rest, eofbit = False, failbit = False\<rparr>)"
proof -
  have "takeWhile (\<lambda>c. c \<noteq> newline) (l @ newline # rest) = l" "dropWhile (\<lambda>c. c \<noteq> newline) (l @ newline # rest) = newline # rest"
    using assms(1) by (auto simp: takeWhile_append dropWhile_append)
  then show ?thesis using assms(2) by (simp add: getline_def Let_def)
qed

lemma getline_end:
  "getline n \<lparr>unread = [], eofbit = False, failbit = False\<rparr> = ([], \<lparr>unread = [], eofbit = True, failbit = True\<rparr>)"
  by (simp add: getline_def)

text \<open>One turn of the loop on a line that fits into the buffer.\<close>

lemma parse_loop_line:
  assumes "log_chars l" "length l < MAXLINE"
  shows "parse_loop (Suc fuel) table lineno True (open_stream (l @ newline # rest)) st =
    (case DiskEntry_parse table l st of
       None \<Rightarrow> Some None
     | Some (st1, ok1) \<Rightarrow> parse_loop fuel table (lineno + 1) ok1 (open_stream rest) st1)"
  using assms getline_line [of l MAXLINE rest]
  by (auto simp: open_stream_def log_chars_def split: option.split)

lemma parse_loop_end:
  "parse_loop (Suc (Suc fuel)) table lineno True (open_stream []) st = Some (Some (st, lineno + 1, True))"
  by (simp add: open_stream_def getline_end DiskEntry_parse_def)

lemma parse_loop_failed: "parse_loop (Suc fuel) table lineno False f st = Some (Some (st, lineno, False))"
  by simp

declare parse_loop.simps(2) [simp del]

lemma parse_loop_lines:
  assumes "\<forall>l\<in>set ls. log_chars l \<and> length l < MAXLINE" "length ls + 2 \<le> fuel"
  shows "\<exists>k. parse_loop fuel table lineno True (open_stream (file_lines ls)) st =
    Some (map_option (\<lambda>(st1, ok). (st1, k, ok)) (parse_lines table ls st))"
  using assms
proof (induction ls arbitrary: fuel lineno st)
  case Nil
  then obtain f where "fuel = Suc (Suc f)" by (metis Suc_le_D add_2_eq_Suc' le_SucE length_0_conv)
  then show ?case by (simp add: file_lines_def parse_loop_end)
next
  case (Cons l ls)
  then obtain f where f: "fuel = Suc f" "length ls + 2 \<le> f" by (cases fuel) auto
  have l: "log_chars l" "length l < MAXLINE" using Cons.prems(1) by auto
  have split: "file_lines (l # ls) = l @ newline # file_lines ls" by (simp add: file_lines_def)
  note step = parse_loop_line [OF l, of f table lineno "file_lines ls" st]
  show ?case
  proof (cases "DiskEntry_parse table l st")
    case None
    then show ?thesis by (simp add: f(1) split step)
  next
    case (Some p)
    obtain st1 ok where p: "p = (st1, ok)" by (cases p)
    obtain g where g: "f = Suc g" using f(2) by (cases f) auto
    show ?thesis
    proof (cases ok)
      case True
      have "\<forall>l\<in>set ls. log_chars l \<and> length l < MAXLINE" using Cons.prems(1) by simp
      from Cons.IH [OF this f(2), of "lineno + 1" st1] True Some p show ?thesis
        by (simp add: f(1) split step)
    next
      case False
      then show ?thesis using Some p
        by (simp add: f(1) split step) (simp add: g parse_loop_failed)
    qed
  qed
qed

end
