(* ===== verification/Meta_Request.thy ===== *)
theory Meta_Request
  imports Meta_Entry Meta_Safety
begin

text \<open>
  The request handlers of src/src/cc/meta/request.cc. A handler checks the arguments of a request,
  calls the tree or the layout manager and stores a status and results into the request; the
  results are values returned beside the new state. The allocation requests are objects that
  RPCs refer to, so they live in the heap of the main loop (\<^verbatim>\<open>allocs\<close>) and the handler of an
  allocation updates them there; \<^verbatim>\<open>trunc_of\<close> is the field \<^verbatim>\<open>req\<close> of an allocation, the truncation that
  waits for it. \<^verbatim>\<open>None\<close> is an aborted process, as in the operations of the tree.
\<close>

abbreviation (input) EHOSTUNREACH :: int where "EHOSTUNREACH \<equiv> 113"
abbreviation (input) EALLOCFAILED :: int where "EALLOCFAILED \<equiv> 1005"
abbreviation (input) ENOSYS :: int where "ENOSYS \<equiv> 38"

section \<open>Checks\<close>

definition file_exists :: "fid_t \<Rightarrow> MetaState \<Rightarrow> bool" where
  "file_exists fid st \<longleftrightarrow> getFattr (metatree st) fid \<noteq> None"

definition path_exists :: "string \<Rightarrow> MetaState \<Rightarrow> bool option" where
  "path_exists pathname st = map_option (\<lambda>fa. fa \<noteq> None) (lookupPath (metatree st) ROOTFID pathname)"

definition is_dir :: "fid_t \<Rightarrow> MetaState \<Rightarrow> bool" where
  "is_dir fid st =
     (case getFattr (metatree st) fid of None \<Rightarrow> False | Some fa \<Rightarrow> fa_type fa = KFS_DIR)"

definition isWormMutationAllowed :: "string \<Rightarrow> bool" where
  "isWormMutationAllowed pathname = list_ex (\<lambda>i. take 4 (drop i pathname) = ''.tmp'') [0..<length pathname]"

section \<open>Names and directories\<close>

definition handle_lookup :: "fid_t \<Rightarrow> string \<Rightarrow> MetaState \<Rightarrow> (int \<times> fattr option) option" where
  "handle_lookup dir name st =
     do { fa \<leftarrow> lookup (metatree st) dir name; Some (if fa = None then - ENOENT else 0, fa) }"

definition handle_lookup_path :: "fid_t \<Rightarrow> string \<Rightarrow> MetaState \<Rightarrow> (int \<times> fattr option) option" where
  "handle_lookup_path rootdir path st =
     do { fa \<leftarrow> lookupPath (metatree st) rootdir path; Some (if fa = None then - ENOENT else 0, fa) }"

text \<open>\<^verbatim>\<open>handle_create\<close> and \<^verbatim>\<open>handle_mkdir\<close> return the status and the id of the new file.\<close>

definition handle_create ::
  "timeval \<Rightarrow> fid_t \<Rightarrow> string \<Rightarrow> int \<Rightarrow> bool \<Rightarrow> MetaState \<Rightarrow> (MetaState \<times> int \<times> fid_t) option" where
  "handle_create clk dir name numReplicas exclusive st =
     (if \<not> is_dir dir st then Some (st, - ENOTDIR, 0)
      else create clk dir name 0 numReplicas exclusive st)"

definition handle_mkdir ::
  "timeval \<Rightarrow> fid_t \<Rightarrow> string \<Rightarrow> MetaState \<Rightarrow> (MetaState \<times> int \<times> fid_t) option" where
  "handle_mkdir clk dir name st =
     (if \<not> is_dir dir st then Some (st, - ENOTDIR, 0) else mkdir clk dir name 0 st)"

definition handle_remove ::
  "bool \<Rightarrow> timeval \<Rightarrow> fid_t \<Rightarrow> string \<Rightarrow> MetaState \<Rightarrow> (MetaState \<times> int) option" where
  "handle_remove worm clk dir name st =
     (if worm \<and> \<not> isWormMutationAllowed name then Some (st, - EPERM) else remove clk dir name st)"

definition handle_rmdir :: "bool \<Rightarrow> fid_t \<Rightarrow> string \<Rightarrow> MetaState \<Rightarrow> (MetaState \<times> int) option" where
  "handle_rmdir worm dir name st =
     (if worm \<and> \<not> isWormMutationAllowed name then Some (st, - EPERM) else rmdir dir name st)"

definition handle_rename ::
  "bool \<Rightarrow> timeval \<Rightarrow> fid_t \<Rightarrow> string \<Rightarrow> string \<Rightarrow> bool \<Rightarrow> MetaState \<Rightarrow> (MetaState \<times> int) option" where
  "handle_rename worm clk dir oldname newname overwrite st =
     do { refused \<leftarrow> (if \<not> worm then Some False
                      else if \<not> isWormMutationAllowed oldname then Some True
                      else path_exists newname st);
          if refused then Some (st, - EPERM) else rename clk dir oldname newname overwrite st }"

definition handle_readdir :: "fid_t \<Rightarrow> MetaState \<Rightarrow> (int \<times> dentry list) option" where
  "handle_readdir dir st =
     (if \<not> file_exists dir st then Some (- ENOENT, [])
      else if \<not> is_dir dir st then Some (- ENOTDIR, [])
      else readdir (metatree st) dir)"

text \<open>The text that \<^verbatim>\<open>EnumerateReaddirPlusInfo\<close> writes for one entry.\<close>

definition crlf :: string where
  "crlf = [CHR 0x0D, CHR 0x0A]"

definition location_string :: "ServerLocation \<Rightarrow> string" where
  "location_string l = hostname l @ '' '' @ toString (port l)"

definition sendtime :: "string \<Rightarrow> timeval \<Rightarrow> string \<Rightarrow> string" where
  "sendtime prefix t suffix = prefix @ '' '' @ toString (tv_sec t) @ '' '' @ toString (tv_usec t) @ suffix"

fun type_name :: "FileType \<Rightarrow> string" where
  "type_name KFS_NONE = ''empty''"
| "type_name KFS_FILE = ''file''"
| "type_name KFS_DIR = ''dir''"

definition readdirplus_chunks :: "fattr \<Rightarrow> MetaState \<Rightarrow> string" where
  "readdirplus_chunks fa st =
     (let chunkInfo = getalloc (metatree st) (fa_fid fa);
          none = ''Chunk-count: 0'' @ crlf @ ''File-size: 0'' @ crlf @
                 ''Replication: '' @ toString (fa_numReplicas fa) @ crlf
      in if chunkInfo = [] then none
         else
           let l = last chunkInfo in
           case GetChunkToServerMapping (ci_chunkId l) (layout st) of
             None \<Rightarrow> none
           | Some ps \<Rightarrow>
               ''Chunk-count: '' @ toString (fa_chunkcount fa) @ crlf @
               ''File-size: '' @ toString (fa_filesize fa) @ crlf @
               ''Replication: '' @ toString (fa_numReplicas fa) @ crlf @
               ''Chunk-offset: '' @ toString (ci_offset l) @ crlf @
               ''Chunk-handle: '' @ toString (ci_chunkId l) @ crlf @
               ''Chunk-version: '' @ toString (ci_chunkVersion l) @ crlf @
               ''Num-replicas: '' @ toString (int (length ps)) @ crlf @
               ''Replicas: '' @
               concat (map (\<lambda>p. '' '' @ location_string (mLocation (srv (layout st) p))) ps) @ crlf)"

definition readdirplus_entry :: "dentry \<Rightarrow> MetaState \<Rightarrow> string option" where
  "readdirplus_entry e st =
     do { fa \<leftarrow> lookup (metatree st) (de_dir e) (de_name e);
          Some (''Begin-entry'' @ crlf @
            (case fa of
               None \<Rightarrow> []
             | Some fa \<Rightarrow>
                 ''Name: '' @ de_name e @ crlf @
                 ''File-handle: '' @ toString (fa_fid fa) @ crlf @
                 ''Type: '' @ type_name (fa_type fa) @ crlf @
                 sendtime ''M-Time:'' (fa_mtime fa) crlf @
                 sendtime ''C-Time:'' (fa_ctime fa) crlf @
                 sendtime ''CR-Time:'' (fa_crtime fa) crlf @
                 (if fa_type fa = KFS_DIR then [] else readdirplus_chunks fa st))) }"

fun readdirplus_entries :: "dentry list \<Rightarrow> MetaState \<Rightarrow> string option" where
  "readdirplus_entries [] st = Some []"
| "readdirplus_entries (e # es) st =
     do { t \<leftarrow> readdirplus_entry e st; ts \<leftarrow> readdirplus_entries es st; Some (t @ ts) }"

definition handle_readdirplus :: "fid_t \<Rightarrow> MetaState \<Rightarrow> (int \<times> nat \<times> string) option" where
  "handle_readdirplus dir st =
     (if \<not> file_exists dir st then Some (- ENOENT, 0, [])
      else if \<not> is_dir dir st then Some (- ENOTDIR, 0, [])
      else do { (status, v) \<leftarrow> readdir (metatree st) dir;
                if status \<noteq> 0 then Some (status, 0, [])
                else do { txt \<leftarrow> readdirplus_entries v st; Some (0, length v, txt) } })"

section \<open>Chunk locations\<close>

record ChunkLayoutInfo =
  cl_offset :: chunkOff_t
  cl_chunkId :: chunkId_t
  cl_chunkVersion :: seq_t
  cl_locations :: "ServerLocation list"

definition layout_info :: "chunkinfo \<Rightarrow> ChunkServerPtr list \<Rightarrow> MetaState \<Rightarrow> ChunkLayoutInfo" where
  "layout_info c ps st =
     \<lparr>cl_offset = ci_offset c, cl_chunkId = ci_chunkId c, cl_chunkVersion = ci_chunkVersion c,
      cl_locations = map (\<lambda>p. mLocation (srv (layout st) p)) ps\<rparr>"

definition handle_getalloc :: "fid_t \<Rightarrow> chunkOff_t \<Rightarrow> MetaState \<Rightarrow> int \<times> ChunkLayoutInfo option" where
  "handle_getalloc fid offset st =
     (if \<not> file_exists fid st then (- ENOENT, None)
      else case getalloc_at (metatree st) fid offset of
          (status, Some c) \<Rightarrow>
            (case GetChunkToServerMapping (ci_chunkId c) (layout st) of
               None \<Rightarrow> (- ENOENT, None)
             | Some ps \<Rightarrow> (0, Some (layout_info c ps st)))
        | (status, None) \<Rightarrow> (status, None))"

fun getlayout_loop :: "chunkinfo list \<Rightarrow> MetaState \<Rightarrow> int \<times> ChunkLayoutInfo list" where
  "getlayout_loop [] st = (0, [])"
| "getlayout_loop (c # cs) st =
     (case GetChunkToServerMapping (ci_chunkId c) (layout st) of
        None \<Rightarrow> (- EHOSTUNREACH, [])
      | Some ps \<Rightarrow> let (status, v) = getlayout_loop cs st in (status, layout_info c ps st # v))"

definition handle_getlayout :: "fid_t \<Rightarrow> MetaState \<Rightarrow> int \<times> ChunkLayoutInfo list" where
  "handle_getlayout fid st =
     (if \<not> file_exists fid st then (- ENOENT, []) else getlayout_loop (getalloc (metatree st) fid) st)"

section \<open>Allocation and truncation\<close>

record MetaServer =
  ms_state :: MetaState
  ms_loop :: MainLoop
  ms_queue :: "(seq_t \<times> nat option) list"
  trunc_of :: "nat \<Rightarrow> (fid_t \<times> chunkOff_t) option"
  next_alloc :: nat

definition set_alloc :: "nat \<Rightarrow> MetaAllocate \<Rightarrow> MetaServer \<Rightarrow> MetaServer" where
  "set_alloc a r s = s\<lparr>ms_loop := (ms_loop s)\<lparr>allocs := (allocs (ms_loop s))(a := r)\<rparr>\<rparr>"

definition set_layout :: "LayoutManager \<Rightarrow> MetaServer \<Rightarrow> MetaServer" where
  "set_layout L s = s\<lparr>ms_state := (ms_state s)\<lparr>layout := L\<rparr>\<rparr>"

text \<open>\<^verbatim>\<open>ChangeIncarnationNumber\<close> submits a request that is kept in \<^verbatim>\<open>ms_queue\<close>: the value and who waits.\<close>

definition ChangeIncarnationNumber :: "nat option \<Rightarrow> MetaServer \<Rightarrow> MetaServer" where
  "ChangeIncarnationNumber r s =
     (let st = ms_state s;
          st1 = (if chunkVersionInc st < 1 then st\<lparr>chunkVersionInc := chunkVersionInc st + 1\<rparr> else st)
      in s\<lparr>ms_state := st1, ms_queue := ms_queue s @ [(chunkVersionInc st1, r)]\<rparr>)"

text \<open>The first part of \<^verbatim>\<open>handle_allocate\<close>, before the chunkservers were asked.\<close>

definition start_allocation :: "Env \<Rightarrow> nat \<Rightarrow> MetaServer \<Rightarrow> MetaServer option" where
  "start_allocation env a s =
     (let r = allocs (ms_loop s) a in
      do { (st1, status, cid, version, reps) \<leftarrow>
             allocateChunkId True (ma_fid r) (ma_offset r) 0 (ma_chunkVersion r) (ms_state s);
           let s1 = s\<lparr>ms_state := st1\<rparr>;
           let r1 = r\<lparr>ma_chunkId := cid, ma_chunkVersion := version, ma_status := status,
                      ma_numReplicas := (case reps of None \<Rightarrow> ma_numReplicas r | Some n \<Rightarrow> n)\<rparr>;
           if status \<noteq> 0 \<and> status \<noteq> - EEXIST then Some (set_alloc a r1 s1)
           else if status = - EEXIST
           then
             let (L, r2, res, isNewLease) =
                   GetChunkWriteLease (env_now env) (chunkVersionInc st1) a r1 (layout st1);
                 r3 = r2\<lparr>ma_status := res\<rparr>
             in Some (set_alloc a (if res \<noteq> 0 \<or> isNewLease \<noteq> Some True then r3 else r3\<lparr>ma_suspended := True\<rparr>)
                  (set_layout L s1))
           else
             do { (L, r2, res) \<leftarrow> AllocateChunk env a r1 (layout st1);
                  Some (set_alloc a (if res \<noteq> 0 then r2\<lparr>ma_status := - ENOSPC\<rparr> else r2\<lparr>ma_suspended := True\<rparr>)
                    (set_layout L s1)) } })"

text \<open>The second part, once all chunkservers have answered.\<close>

definition finish_allocation :: "timeval \<Rightarrow> nat \<Rightarrow> MetaServer \<Rightarrow> MetaServer" where
  "finish_allocation clk a s =
     (let r = allocs (ms_loop s) a; st = ms_state s in
      if ma_status r \<noteq> 0
      then
        let version = snd (getChunkVersion (metatree st) (ma_fid r) (ma_chunkId r));
            r1 = r\<lparr>ma_status := - EALLOCFAILED, ma_chunkVersion := version, ma_suspended := True\<rparr>;
            L = (if 0 < version
                 then for_servers (NotifyChunkVersChange (ma_fid r) (ma_chunkId r) version) (ma_servers r) (layout st)
                 else RemoveChunkToServerMapping (ma_chunkId r) (layout st))
        in ChangeIncarnationNumber (Some a) (set_alloc a r1 (set_layout L s))
      else
        let (st1, status) = assignChunkId clk (ma_fid r) (ma_offset r) (ma_chunkId r) (ma_chunkVersion r) st
        in set_alloc a (r\<lparr>ma_suspended := False, ma_status := status\<rparr>) (s\<lparr>ms_state := st1\<rparr>))"

definition handle_allocate :: "Env \<Rightarrow> timeval \<Rightarrow> nat \<Rightarrow> MetaServer \<Rightarrow> MetaServer option" where
  "handle_allocate env clk a s =
     (if \<not> ma_layoutDone (allocs (ms_loop s) a) then start_allocation env a s
      else Some (finish_allocation clk a s))"

definition new_MetaAllocate :: "fid_t \<Rightarrow> chunkOff_t \<Rightarrow> MetaAllocate" where
  "new_MetaAllocate f off =
     \<lparr>ma_fid = f, ma_offset = off, ma_chunkId = 0, ma_chunkVersion = 0, ma_clientHost = [], ma_numReplicas = 0,
      ma_layoutDone = False, ma_servers = [], ma_master = None, ma_numServerReplies = 0, ma_status = 0,
      ma_suspended = False\<rparr>"

text \<open>\<^verbatim>\<open>handle_truncate\<close> returns the status and whether the truncation is suspended.\<close>

definition handle_truncate ::
  "bool \<Rightarrow> Env \<Rightarrow> timeval \<Rightarrow> fid_t \<Rightarrow> chunkOff_t \<Rightarrow> MetaServer \<Rightarrow> (MetaServer \<times> int \<times> bool) option" where
  "handle_truncate worm env clk fid offset s =
     (if worm then Some (s, - EPERM, False)
      else
        do { (st1, status, allocOffset) \<leftarrow> truncate_file clk fid offset (ms_state s);
             let s1 = s\<lparr>ms_state := st1\<rparr>;
             if status \<le> 0 then Some (s1, status, False)
             else
               let a = next_alloc s1;
                   s2 = set_alloc a (new_MetaAllocate fid (the allocOffset))
                          (s1\<lparr>trunc_of := (trunc_of s1)(a \<mapsto> (fid, offset)), next_alloc := a + 1\<rparr>)
               in do { s3 \<leftarrow> handle_allocate env clk a s2; Some (s3, status, True) } })"

section \<open>The other handlers\<close>

definition handle_change_file_replication :: "fid_t \<Rightarrow> int \<Rightarrow> MetaState \<Rightarrow> MetaState \<times> int" where
  "handle_change_file_replication fid numReplicas st =
     (if file_exists fid st then changeFileReplication fid numReplicas st else (st, - ENOENT))"

definition handle_lease_cleanup :: "timeval \<Rightarrow> MetaState \<Rightarrow> MetaState option" where
  "handle_lease_cleanup clk st =
     cleanupDumpster clk (st\<lparr>layout := LeaseCleanup (tv_sec clk) (layout st)\<rparr>)"

text \<open>
  \<^verbatim>\<open>status\<close> is the status that the reply of the chunkserver left in the request. \<^verbatim>\<open>chunkcount\<close> is
  signed and \<^verbatim>\<open>CHUNKSIZE\<close> unsigned, so the sum is computed modulo 2^64.
\<close>

definition handle_chunk_size_done :: "int \<Rightarrow> fid_t \<Rightarrow> chunkId_t \<Rightarrow> int \<Rightarrow> MetaState \<Rightarrow> MetaState \<times> int" where
  "handle_chunk_size_done status fid chunkId chunkSize st =
     (if chunkSize < 0 then (st, -1)
      else case getFattr (metatree st) fid of
          None \<Rightarrow> (st, 0)
        | Some fa \<Rightarrow>
            if fa_type fa \<noteq> KFS_FILE then (st, 0)
            else
              let chunkInfo = getalloc (metatree st) (fa_fid fa) in
              if chunkInfo = [] then (st, status)
              else if chunkId = ci_chunkId (last chunkInfo)
              then (set_fattr fid (\<lambda>f. f\<lparr>fa_filesize :=
                      sint (word_of_int (fa_chunkcount f - 1) * CHUNKSIZE + word_of_int chunkSize)\<rparr>) st, 0)
              else (st, 0))"

end
