(* ===== verification/Meta_Replay.thy ===== *)
theory Meta_Replay
  imports Meta_Request
begin

text \<open>
  The operation log: the lines that the \<^verbatim>\<open>log\<close> methods of src/src/cc/meta/request.cc write, and their
  replay in replay.cc. A replay function gets the components of a line and the state; it returns
  the new state and whether the line was in order, or \<^verbatim>\<open>None\<close> when the process aborts.
\<close>

section \<open>Writing the log\<close>

text \<open>The requests whose \<^verbatim>\<open>log\<close> method writes a line, with the fields that it writes.\<close>

datatype Mutation =
    LogCreate fid_t string fid_t int
  | LogMkdir fid_t string fid_t
  | LogRemove fid_t string
  | LogRmdir fid_t string
  | LogAllocate fid_t chunkOff_t chunkId_t seq_t
  | LogTruncate fid_t chunkOff_t
  | LogRename fid_t string string
  | LogVersionInc seq_t

fun log_line :: "Mutation \<Rightarrow> string" where
  "log_line (LogCreate dir name fid n) =
     ''create/dir/'' @ toString dir @ ''/name/'' @ name @ ''/id/'' @ toString fid @ ''/numReplicas/'' @ toString n"
| "log_line (LogMkdir dir name fid) =
     ''mkdir/dir/'' @ toString dir @ ''/name/'' @ name @ ''/id/'' @ toString fid"
| "log_line (LogRemove dir name) = ''remove/dir/'' @ toString dir @ ''/name/'' @ name"
| "log_line (LogRmdir dir name) = ''rmdir/dir/'' @ toString dir @ ''/name/'' @ name"
| "log_line (LogAllocate fid offset cid version) =
     ''allocate/file/'' @ toString fid @ ''/offset/'' @ toString offset @ ''/chunkId/'' @ toString cid @
     ''/chunkVersion/'' @ toString version"
| "log_line (LogTruncate fid offset) = ''truncate/file/'' @ toString fid @ ''/offset/'' @ toString offset"
| "log_line (LogRename dir oldname newname) =
     ''rename/dir/'' @ toString dir @ ''/old/'' @ oldname @ ''/new/'' @ newname"
| "log_line (LogVersionInc n) = ''chunkVersionInc/'' @ toString n"

text \<open>A log file: \<^verbatim>\<open>startLog\<close> writes the version and the time (the text of \<^verbatim>\<open>ctime\<close>, which ends the line).\<close>

definition log_header :: "string \<Rightarrow> string" where
  "log_header ctime = ''version/1'' @ [newline] @ ''time/'' @ ctime"

definition log_text :: "Mutation list \<Rightarrow> string" where
  "log_text ms = concat (map (\<lambda>m. log_line m @ [newline]) ms)"

section \<open>Replay\<close>

definition replay_version :: "MetaState parser" where
  "replay_version c st =
     (case pop_fid ''version'' c of None \<Rightarrow> Some (st, False) | Some (vers, r) \<Rightarrow> Some (st, vers = 1))"

definition pop_parent :: "string list \<Rightarrow> (fid_t \<times> string list) option" where
  "pop_parent c = pop_fid ''dir'' (tl c)"

text \<open>\<^verbatim>\<open>updateSeed\<close> panics when the id is older than the seed.\<close>

definition updateSeed_file :: "fid_t \<Rightarrow> MetaState \<Rightarrow> MetaState option" where
  "updateSeed_file seed st = (if seed < fileID st then None else Some (st\<lparr>fileID := seed\<rparr>))"

definition updateSeed_chunk :: "chunkId_t \<Rightarrow> MetaState \<Rightarrow> MetaState option" where
  "updateSeed_chunk seed st = (if seed < chunkID st then None else Some (st\<lparr>chunkID := seed\<rparr>))"

definition redo_create :: "timeval \<Rightarrow> fid_t \<Rightarrow> string \<Rightarrow> fid_t \<Rightarrow> int \<Rightarrow> MetaState \<Rightarrow> (MetaState \<times> bool) option" where
  "redo_create clk parent myname me numReplicas st =
     do { (st1, status, me1) \<leftarrow> create clk parent myname me numReplicas False st;
          st2 \<leftarrow> (if status = 0 then updateSeed_file me1 st1 else Some st1);
          Some (st2, status = 0) }"

definition replay_create :: "timeval \<Rightarrow> MetaState parser" where
  "replay_create clk c st =
     (case do { (parent, c1) \<leftarrow> pop_parent c;
                (myname, c2) \<leftarrow> pop_name ''name'' c1;
                (me, c3) \<leftarrow> pop_fid ''id'' c2;
                (numReplicas, c4) \<leftarrow> pop_short ''numReplicas'' c3;
                Some (parent, myname, me, numReplicas) } of
        None \<Rightarrow> Some (st, False)
      | Some (parent, myname, me, numReplicas) \<Rightarrow> redo_create clk parent myname me numReplicas st)"

definition redo_mkdir :: "timeval \<Rightarrow> fid_t \<Rightarrow> string \<Rightarrow> fid_t \<Rightarrow> MetaState \<Rightarrow> (MetaState \<times> bool) option" where
  "redo_mkdir clk parent myname me st =
     do { (st1, status, me1) \<leftarrow> mkdir clk parent myname me st;
          st2 \<leftarrow> (if status = 0 then updateSeed_file me1 st1 else Some st1);
          Some (st2, status = 0) }"

definition replay_mkdir :: "timeval \<Rightarrow> MetaState parser" where
  "replay_mkdir clk c st =
     (case do { (parent, c1) \<leftarrow> pop_parent c;
                (myname, c2) \<leftarrow> pop_name ''name'' c1;
                (me, c3) \<leftarrow> pop_fid ''id'' c2;
                Some (parent, myname, me) } of
        None \<Rightarrow> Some (st, False)
      | Some (parent, myname, me) \<Rightarrow> redo_mkdir clk parent myname me st)"

definition status_ok :: "(MetaState \<times> int) option \<Rightarrow> (MetaState \<times> bool) option" where
  "status_ok res = map_option (\<lambda>(st, status). (st, status = 0)) res"

definition replay_remove :: "timeval \<Rightarrow> MetaState parser" where
  "replay_remove clk c st =
     (case do { (parent, c1) \<leftarrow> pop_parent c;
                (myname, c2) \<leftarrow> pop_name ''name'' c1;
                Some (parent, myname) } of
        None \<Rightarrow> Some (st, False)
      | Some (parent, myname) \<Rightarrow> status_ok (remove clk parent myname st))"

definition replay_rmdir :: "MetaState parser" where
  "replay_rmdir c st =
     (case do { (parent, c1) \<leftarrow> pop_parent c;
                (myname, c2) \<leftarrow> pop_name ''name'' c1;
                Some (parent, myname) } of
        None \<Rightarrow> Some (st, False)
      | Some (parent, myname) \<Rightarrow> status_ok (rmdir parent myname st))"

definition replay_rename :: "timeval \<Rightarrow> MetaState parser" where
  "replay_rename clk c st =
     (case do { (parent, c1) \<leftarrow> pop_parent c;
                (oldname, c2) \<leftarrow> pop_name ''old'' c1;
                (newpath, c3) \<leftarrow> pop_path ''new'' c2;
                Some (parent, oldname, newpath) } of
        None \<Rightarrow> Some (st, False)
      | Some (parent, oldname, newpath) \<Rightarrow> status_ok (rename clk parent oldname newpath True st))"

definition redo_allocate ::
  "timeval \<Rightarrow> fid_t \<Rightarrow> chunkOff_t \<Rightarrow> chunkId_t \<Rightarrow> seq_t \<Rightarrow> MetaState \<Rightarrow> (MetaState \<times> bool) option" where
  "redo_allocate clk fid offset logChunkId logChunkVersion st =
     (if getFattr (metatree st) fid = None then Some (st, True)
      else
        do { (st1, status, cid, version, reps) \<leftarrow> allocateChunkId False fid offset logChunkId 0 st;
             if status = - EEXIST \<and> version = logChunkVersion then Some (st1, True)
             else if status \<noteq> 0 \<and> status \<noteq> - EEXIST then Some (st1, False)
             else assert_then (cid = logChunkId)
               (let (st2, status2) = assignChunkId clk fid offset cid logChunkVersion st1 in
                if status2 \<noteq> 0 then Some (st2, False)
                else
                  do { L \<leftarrow> AddChunkToServerMapping cid fid None (layout st2);
                       let st3 = st2\<lparr>layout := L\<rparr>;
                       st4 \<leftarrow> (if chunkID st3 < cid then updateSeed_chunk cid st3 else Some st3);
                       Some (st4, True) }) })"

definition replay_allocate :: "timeval \<Rightarrow> MetaState parser" where
  "replay_allocate clk c st =
     (case do { (fid, c1) \<leftarrow> pop_fid ''file'' (tl c);
                (offset, c2) \<leftarrow> pop_fid ''offset'' c1;
                (logChunkId, c3) \<leftarrow> pop_fid ''chunkId'' c2;
                (logChunkVersion, c4) \<leftarrow> pop_fid ''chunkVersion'' c3;
                Some (fid, offset, logChunkId, logChunkVersion) } of
        None \<Rightarrow> Some (st, False)
      | Some (fid, offset, logChunkId, logChunkVersion) \<Rightarrow>
          redo_allocate clk fid offset logChunkId logChunkVersion st)"

definition redo_truncate :: "timeval \<Rightarrow> fid_t \<Rightarrow> chunkOff_t \<Rightarrow> MetaState \<Rightarrow> (MetaState \<times> bool) option" where
  "redo_truncate clk fid offset st =
     map_option (\<lambda>(st1, status, allocOffset). (st1, status = 0)) (truncate_file clk fid offset st)"

definition replay_truncate :: "timeval \<Rightarrow> MetaState parser" where
  "replay_truncate clk c st =
     (case do { (fid, c1) \<leftarrow> pop_fid ''file'' (tl c);
                (offset, c2) \<leftarrow> pop_fid ''offset'' c1;
                Some (fid, offset) } of
        None \<Rightarrow> Some (st, False)
      | Some (fid, offset) \<Rightarrow> redo_truncate clk fid offset st)"

text \<open>\<^verbatim>\<open>restore_time\<close> reads the front of a deque that may be empty.\<close>

definition restore_time :: "MetaState parser" where
  "restore_time c st = assert_then (tl c \<noteq> []) (Some (st, True))"

definition restore_chunkVersionInc :: "MetaState parser" where
  "restore_chunkVersionInc c st =
     (case tl c of
        [] \<Rightarrow> Some (st, False)
      | v # r \<Rightarrow> Some (st\<lparr>chunkVersionInc := toNumber v\<rparr>, 1 \<le> toNumber v))"

definition replay_table :: "timeval \<Rightarrow> (string \<times> MetaState parser) list" where
  "replay_table clk =
     [(''version'', replay_version), (''create'', replay_create clk), (''mkdir'', replay_mkdir clk),
      (''remove'', replay_remove clk), (''rmdir'', replay_rmdir), (''rename'', replay_rename clk),
      (''allocate'', replay_allocate clk), (''truncate'', replay_truncate clk),
      (''chunkVersionInc'', restore_chunkVersionInc), (''time'', restore_time)]"

text \<open>
  \<^verbatim>\<open>playlog\<close> on an open log with the number of the last operation in the checkpoint: the new state,
  the sequence number and the status. The fuel bounds the number of lines.
\<close>

definition playlog :: "nat \<Rightarrow> timeval \<Rightarrow> string \<Rightarrow> seq_t \<Rightarrow> MetaState \<Rightarrow> (MetaState \<times> seq_t \<times> int) option option" where
  "playlog fuel clk txt checkpointed st =
     map_option (map_option (\<lambda>(st1, lineno, is_ok).
         (st1, checkpointed + int lineno, if is_ok then 0 else - EIO)))
       (parse_loop fuel (replay_table clk) 0 True (open_stream txt) st)"

section \<open>A line is replayed as what was logged\<close>

fun redo :: "timeval \<Rightarrow> Mutation \<Rightarrow> MetaState \<Rightarrow> (MetaState \<times> bool) option" where
  "redo clk (LogCreate dir name fid n) st = redo_create clk dir name fid n st"
| "redo clk (LogMkdir dir name fid) st = redo_mkdir clk dir name fid st"
| "redo clk (LogRemove dir name) st = status_ok (remove clk dir name st)"
| "redo clk (LogRmdir dir name) st = status_ok (rmdir dir name st)"
| "redo clk (LogAllocate fid offset cid version) st = redo_allocate clk fid offset cid version st"
| "redo clk (LogTruncate fid offset) st = redo_truncate clk fid offset st"
| "redo clk (LogRename dir oldname newname) st = status_ok (rename clk dir oldname newname True st)"
| "redo clk (LogVersionInc n) st = Some (st\<lparr>chunkVersionInc := n\<rparr>, 1 \<le> n)"

definition log_number :: "int \<Rightarrow> bool" where
  "log_number n \<longleftrightarrow> fits64 n \<and> n \<noteq> -1"

definition log_name :: "string \<Rightarrow> bool" where
  "log_name s \<longleftrightarrow> legalname s \<and> log_chars s"

fun loggable :: "Mutation \<Rightarrow> bool" where
  "loggable (LogCreate dir name fid n) \<longleftrightarrow> log_number dir \<and> log_name name \<and> log_number fid \<and> 0 \<le> n \<and> n < 2 ^ 15"
| "loggable (LogMkdir dir name fid) \<longleftrightarrow> log_number dir \<and> log_name name \<and> log_number fid"
| "loggable (LogRemove dir name) \<longleftrightarrow> log_number dir \<and> log_name name"
| "loggable (LogRmdir dir name) \<longleftrightarrow> log_number dir \<and> log_name name"
| "loggable (LogAllocate fid offset cid version) \<longleftrightarrow>
     log_number fid \<and> log_number offset \<and> log_number cid \<and> log_number version"
| "loggable (LogTruncate fid offset) \<longleftrightarrow> log_number fid \<and> log_number offset"
| "loggable (LogRename dir oldname newname) \<longleftrightarrow> log_number dir \<and> log_name oldname \<and> log_chars newname"
| "loggable (LogVersionInc n) \<longleftrightarrow> fits64 n"

lemma pop_fid_number [simp]: "log_number n \<Longrightarrow> pop_fid tag (tag # toString n # r) = Some (n, r)"
  by (simp add: pop_fid_def log_number_def)

lemma pop_name_legal [simp]: "log_name n \<Longrightarrow> pop_name tag (tag # n # r) = Some (n, r)"
  by (simp add: pop_name_def log_name_def legalname_def)

lemma pop_path_any [simp]: "pop_path tag (tag # split_path SEPARATOR p) = Some (p, [])"
  using collect_path_split [of p] by (cases "split_path SEPARATOR p") (auto simp: pop_path_def)

lemma pop_path_acc [simp]: "pop_path tag (tag # split_acc [] SEPARATOR p) = Some (p, [])"
  using pop_path_any [of tag p] by (simp only: split_path_acc)

lemma to_int16_small: "0 \<le> n \<Longrightarrow> n < 2 ^ 15 \<Longrightarrow> to_int16 n = n"
  by (simp add: to_int16_def signed_take_bit_eq_if_positive sint_sbintrunc' take_bit_int_eq_self signed_take_bit_int_eq_self)

lemma pop_short_number [simp]: "0 \<le> n \<Longrightarrow> n < 2 ^ 15 \<Longrightarrow> pop_short tag (tag # toString n # r) = Some (n, r)"
  by (simp add: pop_short_def to_int16_small)


lemma log_name_chars [simp]: "log_name s \<Longrightarrow> log_chars s" "log_name s \<Longrightarrow> SEPARATOR \<notin> set s"
  by (auto simp: log_name_def legalname_def)

lemma log_line_chars: "loggable m \<Longrightarrow> log_chars (log_line m)"
  by (cases m) auto

lemma log_line_nonempty [simp]: "log_line m \<noteq> []"
  by (cases m) auto

lemmas replay_defs =
  replay_create_def replay_mkdir_def replay_remove_def replay_rmdir_def replay_rename_def
  replay_allocate_def replay_truncate_def restore_chunkVersionInc_def pop_parent_def

lemma log_line_replayed:
  assumes "loggable m"
  shows "DiskEntry_parse (replay_table clk) (log_line m) st = redo clk m st"
  unfolding DiskEntry_parse_line [OF log_line_chars [OF assms] log_line_nonempty]
  using assms
  by (cases m) (simp_all add: replay_table_def replay_defs split_path_acc split_acc_append split_acc_word)


section \<open>Replaying a whole file\<close>

text \<open>The reference: the logged requests are redone one after the other until one fails.\<close>

fun redo_all :: "timeval \<Rightarrow> Mutation list \<Rightarrow> MetaState \<Rightarrow> (MetaState \<times> bool) option" where
  "redo_all clk [] st = Some (st, True)"
| "redo_all clk (m # ms) st =
     (case redo clk m st of
        None \<Rightarrow> None
      | Some (st1, ok) \<Rightarrow> if ok then redo_all clk ms st1 else Some (st1, False))"

lemma parse_log_lines:
  "\<forall>m\<in>set ms. loggable m \<Longrightarrow> parse_lines (replay_table clk) (map log_line ms) st = redo_all clk ms st"
  by (induction ms arbitrary: st) (auto simp: log_line_replayed split: option.split)

lemma log_replayed:
  assumes "\<forall>m\<in>set ms. loggable m \<and> length (log_line m) < MAXLINE" "length ms + 2 \<le> fuel"
  shows "\<exists>k. parse_loop fuel (replay_table clk) lineno True (open_stream (log_text ms)) st =
    Some (map_option (\<lambda>(st1, ok). (st1, k, ok)) (redo_all clk ms st))"
  using parse_loop_lines [of "map log_line ms" fuel "replay_table clk" lineno st] parse_log_lines [of ms clk st] assms
  by (auto simp: log_line_chars log_text_def file_lines_def comp_def)

end
