(* ===== verification/Meta_Erase.thy ===== *)
theory Meta_Erase
  imports Meta_Replay
begin

text \<open>
  What a restart can bring back. The log holds the operations but no times and no file sizes, and
  the layout manager starts afresh. \<^verbatim>\<open>erase\<close> forgets these parts of a state: times are zero, the size
  of a file is unknown, the layout manager is new, and the id generators and counters are given
  constants. The degree of replication is kept but for the files of a given set: changing it
  writes nothing to the log (request.cc, \<^verbatim>\<open>MetaChangeFileReplication::log\<close>). Every operation of kfsops.cc on files without live leases commutes with \<^verbatim>\<open>erase\<close>, so its
  effect on what remains is the same at the first run and at the replay.
\<close>

section \<open>Erasure\<close>

definition zero_time :: timeval where
  "zero_time = \<lparr>tv_sec = 0, tv_usec = 0\<rparr>"

definition erase_fattr :: "fid_t set \<Rightarrow> fattr \<Rightarrow> fattr" where
  "erase_fattr R f = f\<lparr>fa_mtime := zero_time, fa_ctime := zero_time, fa_crtime := zero_time,
     fa_filesize := (if fa_type f = KFS_DIR then 0 else -1),
     fa_numReplicas := (if fa_fid f \<in> R then 1 else fa_numReplicas f)\<rparr>"

abbreviation erase_item :: "fid_t set \<Rightarrow> Meta \<Rightarrow> Meta" where
  "erase_item R \<equiv> on_fattr (erase_fattr R)"

definition fresh_layout :: LayoutManager where
  "fresh_layout = new_LayoutManager (\<lambda>_. new_ChunkServer)"

definition erase :: "fid_t set \<Rightarrow> fid_t \<Rightarrow> MetaState \<Rightarrow> MetaState" where
  "erase R k st =
     \<lparr>metatree = map (erase_item R) (metatree st), fileID = k, chunkID = 0, chunkVersionInc = 0,
      dumpster_counter = 1, layout = fresh_layout\<rparr>"

text \<open>The degree of replication that a new file has in an erased state.\<close>

definition kept_replicas :: "fid_t set \<Rightarrow> fid_t \<Rightarrow> int \<Rightarrow> int" where
  "kept_replicas R f r = (if f \<in> R \<and> 0 < r then 1 else r)"

lemma kept_replicas_simps [simp]: "0 < kept_replicas R f r \<longleftrightarrow> 0 < r" "kept_replicas R f 1 = 1"
  by (simp_all add: kept_replicas_def)

named_theorems erasing

lemma erase_fattr_sel [simp]:
  "fa_fid (erase_fattr R f) = fa_fid f" "fa_type (erase_fattr R f) = fa_type f"
  "fa_chunkcount (erase_fattr R f) = fa_chunkcount f"
  by (simp_all add: erase_fattr_def)

lemma erase_new_fattr [simp]:
  "0 < n \<Longrightarrow> erase_fattr R (new_fattr clk t fid n) = new_fattr zero_time t fid (kept_replicas R fid n)"
  by (simp add: erase_fattr_def new_fattr_def kept_replicas_def)

lemma erase_sel [simp]:
  "metatree (erase R k st) = map (erase_item R) (metatree st)" "fileID (erase R k st) = k"
  "layout (erase R k st) = fresh_layout"
  by (simp_all add: erase_def)

lemma erase_ignores [simp]:
  "erase R k (st\<lparr>layout := L\<rparr>) = erase R k st" "erase R k (st\<lparr>fileID := j\<rparr>) = erase R k st"
  "erase R k (st\<lparr>chunkID := j\<rparr>) = erase R k st" "erase R k (st\<lparr>chunkVersionInc := j\<rparr>) = erase R k st"
  "erase R k (st\<lparr>dumpster_counter := j\<rparr>) = erase R k st"
  by (simp_all add: erase_def)

lemma meta_key_erase [simp]: "meta_key (erase_item R m) = meta_key m"
  by (cases m) auto

lemma meta_match_erase [simp]: "meta_match (erase_item R m) (erase_item R t) = meta_match m t"
  by (cases m; cases t) auto

lemma as_erase [simp]:
  "as_fattr (erase_item R m) = map_option (erase_fattr R) (as_fattr m)"
  "as_dentry (erase_item R m) = as_dentry m" "as_chunkinfo (erase_item R m) = as_chunkinfo m"
  by (cases m; simp)+

section \<open>Queries\<close>

lemma store_find_erase [erasing]: "store_find k (map (erase_item R) s) = map (erase_item R) (store_find k s)"
  by (induction s) (auto simp: store_find_def)

lemma map_filter_erase [erasing]:
  "List.map_filter as_dentry (map (erase_item R) s) = List.map_filter as_dentry s"
  "List.map_filter as_chunkinfo (map (erase_item R) s) = List.map_filter as_chunkinfo s"
  by (induction s) (auto simp: List.map_filter_def)

lemma getFattr_erase [erasing]: "getFattr (map (erase_item R) s) f = map_option (erase_fattr R) (getFattr s f)"
  by (auto simp: getFattr_def erasing split: list.split)

lemma readdir_erase [erasing]: "readdir (map (erase_item R) s) d = readdir s d"
  by (simp add: readdir_def erasing)

lemma getDentry_erase [erasing]: "getDentry (map (erase_item R) s) d n = getDentry s d n"
  by (simp add: getDentry_def erasing)

lemma lookup_erase [erasing]:
  "lookup (map (erase_item R) s) d n = map_option (map_option (erase_fattr R)) (lookup s d n)"
  by (auto simp: lookup_def erasing Let_def assert_then_def split: option.splits bind_splits)

lemma emptydir_erase [erasing]: "emptydir (map (erase_item R) s) d = emptydir s d"
  by (simp add: emptydir_def erasing)

lemma path_walk_erase [erasing]:
  "path_walk (map (erase_item R) s) d p = map_option (map_option (erase_fattr R)) (path_walk s d p)"
proof (induction s d p rule: path_walk.induct)
  case (1 s dir rest)
  show ?case
    by (subst (1 2) path_walk.simps)
      (auto simp: erasing 1 split: option.splits bind_splits)
qed

lemma lookupPath_erase [erasing]:
  "lookupPath (map (erase_item R) s) d p = map_option (map_option (erase_fattr R)) (lookupPath s d p)"
  by (simp add: lookupPath_def erasing Let_def)

lemma getalloc_erase [erasing]: "getalloc (map (erase_item R) s) f = getalloc s f"
  by (simp add: getalloc_def erasing)

lemma chunk_at_erase [erasing]: "chunk_at (map (erase_item R) s) f b = chunk_at s f b"
  by (auto simp: chunk_at_def erasing split: list.split)

lemma ancestor_walk_erase [erasing]: "ancestor_walk n (map (erase_item R) s) a b = ancestor_walk n s a b"
  by (induction n s a b rule: ancestor_walk.induct) (auto simp: erasing split: option.splits bind_splits)

lemma is_descendant_erase [erasing]: "is_descendant (map (erase_item R) s) a b = is_descendant s a b"
  by (simp add: is_descendant_def erasing)

section \<open>Steps\<close>

lemma store_insert_erase [erasing]:
  "store_insert (erase_item R m) (map (erase_item R) s) = map (erase_item R) (store_insert m s)"
  by (simp add: store_insert_def takeWhile_map dropWhile_map comp_def)

lemma store_del_erase [erasing]:
  "store_del (erase_item R m) (map (erase_item R) s) = map_option (map (erase_item R)) (store_del m s)"
  by (induction s) (auto simp: option.map_comp comp_def)

lemma store_update_erase:
  assumes "\<And>m. (erase_item R) (g m) = g' (erase_item R m)"
  shows "store_update k g' (map (erase_item R) s) = map (erase_item R) (store_update k g s)"
  by (induction s) (auto simp: assms)


lemma insert_meta_erase [erasing]: "insert_meta (erase_item R m) (erase R k st) = erase R k (insert_meta m st)"
  by (simp add: insert_meta_def erase_def erasing)

lemma insert_dentry_erase [erasing]: "insert_meta (MetaDentry d) (erase R k st) = erase R k (insert_meta (MetaDentry d) st)"
  using insert_meta_erase [of R "MetaDentry d"] by simp

lemma insert_chunk_erase [erasing]:
  "insert_meta (MetaChunkInfo d) (erase R k st) = erase R k (insert_meta (MetaChunkInfo d) st)"
  using insert_meta_erase [of R "MetaChunkInfo d"] by simp

lemma insert_fattr_erase:
  "0 < n \<Longrightarrow> insert_meta (MetaFattr (new_fattr zero_time t f (kept_replicas R f n))) (erase R k st) =
   erase R k (insert_meta (MetaFattr (new_fattr clk t f n)) st)"
  using insert_meta_erase [of R "MetaFattr (new_fattr clk t f n)"] by simp

lemma del_meta_erase: "del_meta (erase_item R m) (erase R k st) = map_prod (erase R k) id (del_meta m st)"
  by (auto simp: del_meta_def erasing erase_def split: option.split)

lemma del_assert_erase: "del_assert (erase_item R m) (erase R k st) = map_option (erase R k) (del_assert m st)"
  by (auto simp: del_assert_def del_meta_erase assert_then_def split: prod.splits)

lemma del_dentry_erase [erasing]:
  "del_assert (MetaDentry d) (erase R k st) = map_option (erase R k) (del_assert (MetaDentry d) st)"
  using del_assert_erase [of R "MetaDentry d"] by simp

lemma del_fattr_erase [erasing]:
  "del_assert (MetaFattr (erase_fattr R f)) (erase R k st) = map_option (erase R k) (del_assert (MetaFattr f) st)"
  using del_assert_erase [of R "MetaFattr f"] by simp

lemma on_fattr_commute:
  assumes "\<And>f. (erase_fattr R) (g f) = g' (erase_fattr R f)"
  shows "erase_item R (on_fattr g m) = on_fattr g' (erase_item R m)"
  by (cases m) (simp_all add: assms)

lemma set_fattr_erase:
  assumes "\<And>f. (erase_fattr R) (g f) = g' (erase_fattr R f)"
  shows "set_fattr fid g' (erase R k st) = erase R k (set_fattr fid g st)"
  using store_update_erase [of R "on_fattr g" "on_fattr g'", OF on_fattr_commute [of R g g', OF assms]]
  by (simp add: set_fattr_def erase_def)

lemma set_chunkinfo_erase [erasing]: "set_chunkinfo f b g (erase R k st) = erase R k (set_chunkinfo f b g st)"
proof -
  have "erase_item R (on_chunkinfo g m) = on_chunkinfo g (erase_item R m)" for m by (cases m) simp_all
  from store_update_erase [of R "on_chunkinfo g" "on_chunkinfo g", OF this] show ?thesis
    by (simp add: set_chunkinfo_def erase_def)
qed

section \<open>Operations on names\<close>

lemma unlink_erase [erasing]:
  "unlink d n (erase_fattr R fa) sv (erase R k st) = map_option (erase R k) (unlink d n fa sv st)"
  by (auto simp: unlink_def erasing split: bind_splits option.splits)

lemma link_dots:
  "link clk d ''.'' t f r st = Some (insert_meta (MetaDentry (new_dentry d ''.'' f)) st, 0)"
  "link clk d ''..'' t f r st = Some (insert_meta (MetaDentry (new_dentry d ''..'' f)) st, 0)"
  by (simp_all add: link_def legalname_def)

text \<open>What \<^verbatim>\<open>mkdir\<close> inserts.\<close>

definition new_directory :: "timeval \<Rightarrow> fid_t \<Rightarrow> string \<Rightarrow> fid_t \<Rightarrow> MetaState \<Rightarrow> MetaState" where
  "new_directory clk d n f st =
     insert_meta (MetaDentry (new_dentry f ''..'' d)) (insert_meta (MetaDentry (new_dentry f ''.'' f))
       (insert_meta (MetaFattr (new_fattr clk KFS_DIR f 1)) (insert_meta (MetaDentry (new_dentry d n f)) st)))"

lemma new_directory_erase: "new_directory zero_time d n f (erase R k st) = erase R k (new_directory clk d n f st)"
  by (simp add: new_directory_def insert_dentry_erase insert_fattr_erase [where n = 1 and clk = clk, simplified])

lemma mkdir_eq:
  "mkdir clk d n f st =
     (if \<not> legalname n \<and> d \<noteq> ROOTFID \<and> n \<noteq> ''/'' then Some (st, - EINVAL, f)
      else case lookup (metatree st) d n of
          None \<Rightarrow> None
        | Some (Some fa) \<Rightarrow> Some (st, - EEXIST, f)
        | Some None \<Rightarrow>
            (let (st1, i) = (if f = 0 then (if n = ''/'' then (st, d) else genid_file st) else (st, f))
             in Some (new_directory clk d n i st1, 0, i)))"
  by (auto simp: mkdir_def link_dots new_directory_def Let_def split: option.split)

lemma mkdir_erase:
  assumes "f \<noteq> 0"
  shows "mkdir zero_time d n f (erase R k st) = map_option (map_prod (erase R k) id) (mkdir clk d n f st)"
  using assms
  by (auto simp: mkdir_eq erasing new_directory_erase [where clk = clk] split: option.split)

lemma rmdir_erase [erasing]: "rmdir d n (erase R k st) = map_option (map_prod (erase R k) id) (rmdir d n st)"
  by (auto simp: rmdir_def erasing split: bind_splits option.splits prod.splits)


section \<open>Operations on files\<close>

lemma fresh_layout_calls [simp]:
  "DeleteChunk c fresh_layout = fresh_layout" "TruncateChunk c n fresh_layout = fresh_layout"
  "IsValidLeaseIssued now fresh_layout cs \<longleftrightarrow> False"
  by (auto simp: DeleteChunk_def TruncateChunk_def GetChunkToServerMapping_def IsValidLeaseIssued_def
      ValidLeaseIssued_def fresh_layout_def new_LayoutManager_def list_ex_iff)

lemma erase_set_layout [simp]: "(erase R k st)\<lparr>layout := fresh_layout\<rparr> = erase R k st"
  by (simp add: erase_def)

lemma DeleteChunk_meta_erase [erasing]:
  "DeleteChunk_meta c (erase R k st) = map_option (erase R k) (DeleteChunk_meta c st)"
  using del_meta_erase [of R "MetaChunkInfo c" k st]
  by (auto simp: DeleteChunk_meta_def assert_then_def split: prod.splits)

lemma delete_chunks_erase [erasing]:
  "delete_chunks cs (erase R k st) = map_option (erase R k) (delete_chunks cs st)"
  by (induction cs arbitrary: st) (auto simp: erasing split: bind_splits)

text \<open>The file with a name, if there is one, has no live lease.\<close>

definition name_free :: "timeval \<Rightarrow> MetaState \<Rightarrow> fid_t \<Rightarrow> string \<Rightarrow> bool" where
  "name_free clk st d n \<longleftrightarrow>
     (case lookup (metatree st) d n of Some (Some fa) \<Rightarrow> lease_free clk st (fa_fid fa) | _ \<Rightarrow> True)"

lemma remove_with_erase:
  assumes "name_free clk st d n"
  shows "remove_with mv' zero_time d n (erase R k st) = map_option (map_prod (erase R k) id) (remove_with mv clk d n st)"
proof (cases "lookup (metatree st) d n")
  case (Some r)
  show ?thesis
  proof (cases r)
    case (Some fa)
    with \<open>lookup _ d n = Some r\<close> assms have "\<not> IsValidLeaseIssued (tv_sec clk) (layout st) (getalloc (metatree st) (fa_fid fa))"
      by (simp add: name_free_def lease_free_def)
    with \<open>lookup _ d n = Some r\<close> Some show ?thesis
      by (auto simp: remove_with_def erasing assert_then_def Let_def split: bind_splits)
  qed (simp add: remove_with_def erasing \<open>lookup _ d n = Some r\<close>)
qed (simp add: remove_with_def erasing)

lemma remove_erase:
  assumes "name_free clk st d n"
  shows "remove zero_time d n (erase R k st) = map_option (map_prod (erase R k) id) (remove clk d n st)"
  unfolding remove_def numeral_2_eq_2 remove_n.simps by (rule remove_with_erase [OF assms])

lemma rename_target_erase [erasing]: "rename_target (map (erase_item R) s) d n = rename_target s d n"
  by (auto simp: rename_target_def erasing split: bind_splits option.splits)

lemma move_entry_erase:
  "move_entry zero_time src (erase_fattr R sf) d n (erase R k st) =
     map_option (map_prod (erase R k) id) (move_entry clk src sf d n st)"
  by (auto simp: move_entry_def link_dots erasing split: bind_splits)

text \<open>The name that \<^verbatim>\<open>rename\<close> may have to clear is free.\<close>

definition target_free :: "timeval \<Rightarrow> MetaState \<Rightarrow> fid_t \<Rightarrow> string \<Rightarrow> bool" where
  "target_free clk st d new \<longleftrightarrow>
     (case rename_target (metatree st) d new of Some (Inr (d', n')) \<Rightarrow> name_free clk st d' n' | _ \<Rightarrow> True)"

text \<open>The part of \<^verbatim>\<open>rename\<close> after the checks, and the checks on the attributes of source and destination.\<close>

definition rename_commit ::
  "mover \<Rightarrow> timeval \<Rightarrow> dentry \<Rightarrow> fattr \<Rightarrow> fattr option \<Rightarrow> fid_t \<Rightarrow> string \<Rightarrow> MetaState \<Rightarrow> (MetaState \<times> int) option" where
  "rename_commit rm clk src sf df ddir dname st =
     do { (st1, status) \<leftarrow>
            (if df = None then Some (st, 0)
             else if fa_type sf = KFS_DIR then rmdir ddir dname st
             else rm ddir dname st);
          if status \<noteq> 0 then Some (st1, status)
          else move_entry clk src sf ddir dname st1 }"

definition rename_checked ::
  "mover \<Rightarrow> timeval \<Rightarrow> dentry \<Rightarrow> fattr \<Rightarrow> fattr option \<Rightarrow> fid_t \<Rightarrow> string \<Rightarrow> bool \<Rightarrow> MetaState \<Rightarrow> (MetaState \<times> int) option" where
  "rename_checked rm clk src sf df ddir dname overwrite st =
     (if \<not> overwrite \<and> df \<noteq> None then Some (st, - EEXIST)
      else if df \<noteq> None \<and> fa_type sf \<noteq> fa_type (the df)
      then Some (st, if fa_type sf = KFS_DIR then - ENOTDIR else - EISDIR)
      else
        do { full \<leftarrow> (if df \<noteq> None \<and> fa_type sf = KFS_DIR
                      then map_option Not (emptydir (metatree st) (fa_fid (the df)))
                      else Some False);
             if full then Some (st, - ENOTEMPTY)
             else
               do { loop \<leftarrow> (if fa_type sf = KFS_DIR
                             then is_descendant (metatree st) (fa_fid sf) ddir
                             else Some False);
                    if loop then Some (st, - EINVAL)
                    else rename_commit rm clk src sf df ddir dname st } })"

lemma rename_with_eq:
  "rename_with rm clk parent oldname newname overwrite st =
     (case getDentry (metatree st) parent oldname of
        None \<Rightarrow> None
      | Some None \<Rightarrow> Some (st, - ENOENT)
      | Some (Some src) \<Rightarrow>
          (case rename_target (metatree st) parent newname of
             None \<Rightarrow> None
           | Some (Inl err) \<Rightarrow> Some (st, err)
           | Some (Inr (ddir, dname)) \<Rightarrow>
               if \<not> legalname dname then Some (st, - EINVAL)
               else if ddir = parent \<and> dname = oldname then Some (st, 0)
               else
                 (case lookup (metatree st) parent oldname of
                    None \<Rightarrow> None
                  | Some sf \<Rightarrow>
                      (case lookup (metatree st) ddir dname of
                         None \<Rightarrow> None
                       | Some df \<Rightarrow>
                           (case sf of
                              None \<Rightarrow> None
                            | Some sf \<Rightarrow> rename_checked rm clk src sf df ddir dname overwrite st)))))"
  unfolding rename_with_def rename_checked_def rename_commit_def
  by (simp split: option.split sum.split prod.split)

lemma rename_commit_erase:
  assumes "rm' d n (erase R k st) = map_option (map_prod (erase R k) id) (rm d n st)"
  shows "rename_commit rm' zero_time src (erase_fattr R sf) (map_option (erase_fattr R) df) d n (erase R k st) =
    map_option (map_prod (erase R k) id) (rename_commit rm clk src sf df d n st)"
proof -
  let ?clear = "if df = None then Some (st, 0) else if fa_type sf = KFS_DIR then rmdir d n st else rm d n st"
  have "(if map_option (erase_fattr R) df = None then Some (erase R k st, 0)
      else if fa_type (erase_fattr R sf) = KFS_DIR then rmdir d n (erase R k st) else rm' d n (erase R k st)) =
    map_option (map_prod (erase R k) id) ?clear"
    using assms by (auto simp: rmdir_erase)
  then show ?thesis
    unfolding rename_commit_def by (auto simp: move_entry_erase [where clk = clk] split: bind_splits)
qed

lemma rename_checked_erase:
  assumes "rm' d n (erase R k st) = map_option (map_prod (erase R k) id) (rm d n st)"
  shows "rename_checked rm' zero_time src (erase_fattr R sf) (map_option (erase_fattr R) df) d n ov (erase R k st) =
    map_option (map_prod (erase R k) id) (rename_checked rm clk src sf df d n ov st)"
proof -
  note commit = rename_commit_erase [where rm = rm and rm' = rm' and clk = clk, OF assms]
  show ?thesis
  proof (cases df)
    case None
    with commit [of src sf df] show ?thesis
      by (cases "is_descendant (metatree st) (fa_fid sf) d") (simp_all add: rename_checked_def erasing)
  next
    case (Some a)
    with commit [of src sf df] show ?thesis
      by (cases "is_descendant (metatree st) (fa_fid sf) d"; cases "emptydir (metatree st) (fa_fid a)")
        (simp_all add: rename_checked_def erasing)
  qed
qed

lemma rename_erase:
  assumes "target_free clk st d new"
  shows "rename zero_time d n new ov (erase R k st) = map_option (map_prod (erase R k) id) (rename clk d n new ov st)"
proof -
  have rm: "remove zero_time d' n' (erase R k st) = map_option (map_prod (erase R k) id) (remove clk d' n' st)"
    if "rename_target (metatree st) d new = Some (Inr (d', n'))" for d' n'
    using remove_erase [of clk st d' n' R k] that assms by (simp add: target_free_def)
  show ?thesis
    unfolding rename_def rename_with_eq
    by (auto simp: erasing rename_checked_erase [where rm = "remove clk" and clk = clk] rm split: option.split sum.split)
qed

section \<open>Ids\<close>

lemma del_assert_fileID: "del_assert m st = Some st' \<Longrightarrow> fileID st' = fileID st"
  by (auto simp: del_assert_def del_meta_def split: option.splits prod.splits)

lemma unlink_fileID: "unlink d n fa sv st = Some st' \<Longrightarrow> fileID st' = fileID st"
  by (auto simp: unlink_def bind_eq_Some_conv split: if_splits) (metis del_assert_fileID)+

lemma remove_free_fileID:
  assumes "name_free clk st d n" "remove clk d n st = Some (st', s)"
  shows "fileID st' = fileID st"
proof -
  obtain mv where rm: "remove_with mv clk d n st = Some (st', s)"
    using assms(2) unfolding remove_def numeral_2_eq_2 remove_n.simps by blast
  then obtain r where r: "lookup (metatree st) d n = Some r" by (auto simp: remove_with_def bind_eq_Some_conv)
  show ?thesis
  proof (cases r)
    case (Some fa)
    with r assms(1) have "\<not> IsValidLeaseIssued (tv_sec clk) (layout st) (getalloc (metatree st) (fa_fid fa))"
      by (simp add: name_free_def lease_free_def)
    with rm r Some consider "st' = st" | "unlink d n fa False st = Some st'"
      | st1 where "delete_chunks (getalloc (metatree st) (fa_fid fa)) st = Some st1" "unlink d n fa False st1 = Some st'"
      by (auto simp: remove_with_def bind_eq_Some_conv Let_def split: if_splits)
    then show ?thesis by cases (use unlink_fileID delete_chunks_fileID in metis)+
  qed (use rm r in \<open>simp add: remove_with_def\<close>)
qed

section \<open>Creating files\<close>

text \<open>What \<^verbatim>\<open>link\<close> inserts for a legal name.\<close>

definition linked :: "timeval \<Rightarrow> fid_t \<Rightarrow> string \<Rightarrow> FileType \<Rightarrow> fid_t \<Rightarrow> int \<Rightarrow> MetaState \<Rightarrow> MetaState" where
  "linked clk d n t f r st =
     (let st1 = insert_meta (MetaDentry (new_dentry d n f)) st in
      if n \<noteq> ''.'' \<and> n \<noteq> ''..'' then insert_meta (MetaFattr (new_fattr clk t f r)) st1 else st1)"

lemma link_legal: "legalname n \<Longrightarrow> link clk d n t f r st = Some (linked clk d n t f r st, 0)"
  by (simp add: link_def linked_def Let_def)

lemma linked_erase:
  "0 < r \<Longrightarrow> linked zero_time d n t f (kept_replicas R f r) (erase R k st) = erase R k (linked clk d n t f r st)"
  by (simp add: linked_def insert_dentry_erase insert_fattr_erase [where clk = clk] Let_def)

lemma linked_fileID [simp]:
  "linked clk d n t f r (st\<lparr>fileID := j\<rparr>) = (linked clk d n t f r st)\<lparr>fileID := j\<rparr>"
  "fileID (linked clk d n t f r st) = fileID st"
  by (simp_all add: linked_def insert_meta_def Let_def)

lemma create_none:
  assumes "legalname n" "0 < r" "lookup (metatree st) d n = Some None"
  shows "create clk d n f r ex st =
    (let (st2, i) = (if f = 0 then genid_file st else (st, f)) in Some (linked clk d n KFS_FILE i r st2, 0, i))"
  using assms by (simp add: create_def link_legal split: prod.split)

lemma create_over:
  assumes "legalname n" "0 < r" "lookup (metatree st) d n = Some (Some fa)" "fa_type fa = KFS_FILE"
  shows "create clk d n f r False st =
    (case remove clk d n st of
       None \<Rightarrow> None
     | Some (st1, status) \<Rightarrow>
         if status = - EBUSY then Some (st1, status, f)
         else if status \<noteq> 0 then None
         else
           let (st2, i) = (if f = 0 then genid_file st1 else (st1, f)) in
           Some (linked clk d n KFS_FILE i r st2, 0, i))"
  using assms by (cases "remove clk d n st") (auto simp: create_def link_legal split: prod.split)

lemma create_refused:
  "\<not> legalname n \<or> r \<le> 0 \<Longrightarrow> create clk d n f r ex st = Some (st, - EINVAL, f)"
  "legalname n \<Longrightarrow> 0 < r \<Longrightarrow> lookup (metatree st) d n = None \<Longrightarrow> create clk d n f r ex st = None"
  "legalname n \<Longrightarrow> 0 < r \<Longrightarrow> lookup (metatree st) d n = Some (Some fa) \<Longrightarrow> fa_type fa \<noteq> KFS_FILE \<Longrightarrow>
    create clk d n f r ex st = Some (st, - EISDIR, f)"
  "legalname n \<Longrightarrow> 0 < r \<Longrightarrow> lookup (metatree st) d n = Some (Some fa) \<Longrightarrow> fa_type fa = KFS_FILE \<Longrightarrow>
    create clk d n f r True st = Some (st, - EEXIST, f)"
  by (auto simp: create_def)

lemma create_erase:
  assumes "f \<noteq> 0" "name_free clk st d n"
  shows "create zero_time d n f (kept_replicas R f r) False (erase R k st) = map_option (map_prod (erase R k) id) (create clk d n f r False st)"
proof (cases "legalname n \<and> 0 < r")
  case True
  then have legal: "legalname n" "0 < r" and legal': "0 < kept_replicas R f r" by auto
  show ?thesis
  proof (cases "lookup (metatree st) d n")
    case None
    then show ?thesis using create_refused(2) [OF legal] create_refused(2) [OF legal(1) legal'] by (simp add: erasing)
  next
    case (Some fa)
    then have efa: "lookup (metatree (erase R k st)) d n = Some (map_option (erase_fattr R) fa)" by (simp add: erasing)
    show ?thesis
    proof (cases fa)
      case None
      then show ?thesis
        using create_none [OF legal] create_none [OF legal(1) legal'] Some efa assms(1) by (simp add: legal linked_erase [where clk = clk])
    next
      case (Some a)
      then show ?thesis
        using create_over [OF legal] create_refused(3) [OF legal] create_over [OF legal(1) legal'] create_refused(3) [OF legal(1) legal'] \<open>lookup _ _ _ = Some fa\<close> efa assms(1)
          remove_erase [OF assms(2), of R k]
        by (cases "fa_type a = KFS_FILE"; cases "remove clk d n st")
          (auto simp: legal linked_erase [where clk = clk])
    qed
  qed
qed (use create_refused(1) [of n r] create_refused(1) [of n "kept_replicas R f r"] in \<open>auto simp: not_less [symmetric]\<close>)

text \<open>
  A successful \<^verbatim>\<open>create\<close> that draws a new id has the effect, on what is not erased, of a \<^verbatim>\<open>create\<close> that
  is given the id and may overwrite.
\<close>

lemma create_redo:
  assumes ok: "create clk d n 0 r ex st = Some (st', 0, f)" and free: "name_free clk st d n"
  shows "f = fileID st + 1" "fileID st' = f"
    "f \<noteq> 0 \<Longrightarrow> create zero_time d n f (kept_replicas R f r) False (erase R k st) = Some (erase R k st', 0, f)"
proof -
  have legal: "legalname n" "0 < r" using ok create_refused(1) [of n r clk d 0 ex st] by fastforce+
  obtain fa where fa: "lookup (metatree st) d n = Some fa"
    using ok create_refused(2) [OF legal, of st d clk 0 ex] by fastforce
  have efa: "lookup (metatree (erase R k st)) d n = Some (map_option (erase_fattr R) fa)" for k
    by (simp add: erasing fa)
  show "f = fileID st + 1" "fileID st' = f"
    "f \<noteq> 0 \<Longrightarrow> create zero_time d n f (kept_replicas R f r) False (erase R k st) = Some (erase R k st', 0, f)"
  proof (atomize(full), cases fa)
    case None
    with ok fa legal create_none [OF legal, of st d clk 0 ex] have
      "f = fileID st + 1" "st' = linked clk d n KFS_FILE f r (st\<lparr>fileID := f\<rparr>)"
      by (auto simp: genid_file_def Let_def)
    then show "f = fileID st + 1 \<and> fileID st' = f \<and>
      (f \<noteq> 0 \<longrightarrow> create zero_time d n f (kept_replicas R f r) False (erase R k st) = Some (erase R k st', 0, f))"
      using create_none [OF legal(1), of "kept_replicas R f r" "erase R k st" d zero_time f False] efa [of k] None
      by (simp add: legal linked_erase [where clk = clk])
  next
    case (Some a)
    have t: "fa_type a = KFS_FILE" "\<not> ex"
      using ok create_refused(3,4) [OF legal, of st d a clk 0] fa Some by (cases ex; fastforce)+
    obtain st1 where st1: "remove clk d n st = Some (st1, 0)" "f = fileID st1 + 1"
      "st' = linked clk d n KFS_FILE f r (st1\<lparr>fileID := f\<rparr>)"
      using ok create_over [OF legal, of st d a clk 0] fa Some t
      by (auto simp: genid_file_def Let_def split: option.splits if_splits)
    have "remove zero_time d n (erase R k st) = Some (erase R k st1, 0)"
      using remove_erase [OF free, of R k] st1(1) by simp
    then show "f = fileID st + 1 \<and> fileID st' = f \<and>
      (f \<noteq> 0 \<longrightarrow> create zero_time d n f (kept_replicas R f r) False (erase R k st) = Some (erase R k st', 0, f))"
      using create_over [OF legal(1), of "kept_replicas R f r" "erase R k st" d "erase_fattr R a" zero_time f] efa [of k] Some t st1
        remove_free_fileID [OF free st1(1)]
      by (simp add: legal linked_erase [where clk = clk])
  qed
qed

lemma mkdir_redo:
  assumes ok: "mkdir clk d n 0 st = Some (st', 0, f)" and n: "n \<noteq> ''/''"
  shows "f = fileID st + 1" "fileID st' = f"
    "f \<noteq> 0 \<Longrightarrow> mkdir zero_time d n f (erase R k st) = Some (erase R k st', 0, f)"
proof -
  have *: "f = fileID st + 1" "st' = new_directory clk d n f (st\<lparr>fileID := f\<rparr>)"
    "lookup (metatree st) d n = Some None" "\<not> (\<not> legalname n \<and> d \<noteq> ROOTFID \<and> n \<noteq> ''/'')"
    using ok n by (auto simp: mkdir_eq genid_file_def Let_def split: if_splits option.splits)
  then show "f = fileID st + 1" "fileID st' = f" by (simp_all add: new_directory_def insert_meta_def)
  have "new_directory clk d n f (st\<lparr>fileID := f\<rparr>) = (new_directory clk d n f st)\<lparr>fileID := f\<rparr>"
    by (simp add: new_directory_def insert_meta_def)
  with * show "f \<noteq> 0 \<Longrightarrow> mkdir zero_time d n f (erase R k st) = Some (erase R k st', 0, f)"
    by (simp add: mkdir_eq erasing new_directory_erase [where clk = clk])
qed

section \<open>Chunks\<close>

lemma store_update_erase_first:
  assumes "\<And>m r. store_find k s = m # r \<Longrightarrow> (erase_item R) (g m) = g' (erase_item R m)"
  shows "store_update k g' (map (erase_item R) s) = map (erase_item R) (store_update k g s)"
  using assms by (induction s) (auto simp: store_find_def)

lemma set_fattr_erase_first:
  assumes "\<And>fa. getFattr (metatree st) fid = Some fa \<Longrightarrow> (erase_fattr R) (g fa) = g' (erase_fattr R fa)"
  shows "set_fattr fid g' (erase R k st) = erase R k (set_fattr fid g st)"
proof -
  have "erase_item R (on_fattr g m) = on_fattr g' (erase_item R m)"
    if "store_find (Key KFS_FATTR fid 0) (metatree st) = m # r" for m r
    using assms that by (cases m) (auto simp: getFattr_def)
  from store_update_erase_first [of "Key KFS_FATTR fid 0" "metatree st" R "on_fattr g" "on_fattr g'", OF this]
  show ?thesis by (simp add: set_fattr_def erase_def)
qed

lemma store_find_insert_other:
  "\<not> key_eq k (meta_key m) \<Longrightarrow> store_find k (store_insert m s) = store_find k s"
proof -
  assume "\<not> key_eq k (meta_key m)"
  then have "store_find k (store_insert m s) = filter (\<lambda>m. key_eq k (meta_key m))
    (takeWhile (\<lambda>x. meta_key x < meta_key m) s @ dropWhile (\<lambda>x. meta_key x < meta_key m) s)"
    unfolding store_find_def store_insert_def filter_append by simp
  then show ?thesis unfolding takeWhile_dropWhile_id store_find_def .
qed

lemma getFattr_insert_chunk [simp]:
  "getFattr (store_insert (MetaChunkInfo c) s) fid = getFattr s fid"
  by (simp add: getFattr_def store_find_insert_other key_eq_def compare_def)

lemma assignChunkId_erase:
  assumes "\<And>fa. getFattr (metatree st) f = Some fa \<Longrightarrow> fa_type fa \<noteq> KFS_DIR"
  shows "assignChunkId zero_time f off i v (erase R k st) = map_prod (erase R k) id (assignChunkId clk f off i v st)"
proof -
  let ?g = "\<lambda>t f. f\<lparr>fa_chunkcount := fa_chunkcount f + 1, fa_filesize := -1, fa_mtime := t\<rparr>"
  have "set_fattr f (?g zero_time) (erase R k (insert_meta (MetaChunkInfo c) st)) =
    erase R k (set_fattr f (?g clk) (insert_meta (MetaChunkInfo c) st))" for c
    by (rule set_fattr_erase_first) (use assms in \<open>auto simp: erase_fattr_def\<close>)
  then show ?thesis
    by (auto simp: assignChunkId_def erasing Let_def split: option.splits)
qed

lemma truncate_tail_erase:
  "truncate_tail zero_time f off ms (erase R k st) = map_option (erase R k) (truncate_tail clk f off ms st)"
proof -
  let ?g = "\<lambda>n t f. f\<lparr>fa_chunkcount := fa_chunkcount f - n, fa_mtime := t\<rparr>"
  have fattr: "set_fattr f (?g n zero_time) (erase R k s) = erase R k (set_fattr f (?g n clk) s)" for n s
    by (rule set_fattr_erase) (simp add: erase_fattr_def)
  let ?st1 = "if ci_offset (hd ms) \<le> off
    then st\<lparr>layout := TruncateChunk (ci_chunkId (hd ms)) (off - ci_offset (hd ms)) (layout st)\<rparr> else st"
  have "delete_chunks cs (erase R k st) = map_option (erase R k) (delete_chunks cs ?st1)" for cs
    using delete_chunks_erase [of cs R k ?st1] by (simp split: if_splits)
  then show ?thesis
    by (auto simp: truncate_tail_def Let_def fattr simp del: erase_ignores split: bind_splits)
qed

lemma getFattr_fid: "getFattr s f = Some fa \<Longrightarrow> fa_fid fa = f"
proof -
  assume "getFattr s f = Some fa"
  then obtain m r where m: "store_find (Key KFS_FATTR f 0) s = m # r" "m = MetaFattr fa"
    by (auto simp: getFattr_def split: list.splits elim: as_fattr.elims)
  then have "m \<in> set (store_find (Key KFS_FATTR f 0) s)" by simp
  then have "key_eq (Key KFS_FATTR f 0) (meta_key m)" by (simp add: store_find_def)
  then show ?thesis using m(2) by (simp add: key_eq_def compare_def split: if_splits)
qed

lemma truncate_erase:
  "truncate_file zero_time f off (erase R k st) = map_option (map_prod (erase R k) id) (truncate_file clk f off st)"
proof (cases "getFattr (metatree st) f")
  case (Some fa)
  have fattr: "set_fattr (fa_fid fa) (\<lambda>f. f\<lparr>fa_filesize := -1\<rparr>) (erase R k st) =
    erase R k (set_fattr (fa_fid fa) (\<lambda>f. f\<lparr>fa_filesize := -1\<rparr>) st)" if "fa_type fa = KFS_FILE"
  proof (rule set_fattr_erase_first)
    fix a assume "getFattr (metatree st) (fa_fid fa) = Some a"
    moreover have "fa_fid fa = f"
      using Some by (rule getFattr_fid)
    ultimately show "erase_fattr R (a\<lparr>fa_filesize := - 1\<rparr>) = (erase_fattr R a)\<lparr>fa_filesize := - 1\<rparr>"
      using that Some by (simp add: erase_fattr_def)
  qed
  then show ?thesis
    using Some
    by (auto simp: truncate_file_def erasing Let_def assert_then_def truncate_tail_erase [where clk = clk]
        split: bind_splits)
qed (simp add: truncate_file_def erasing)

end
