(* ===== verification/Meta_Recovery.thy ===== *)
theory Meta_Recovery
  imports Meta_Erase
begin

text \<open>
  Recovery from the log. A run of the metaserver is a sequence of handled requests, each with the
  lines that the logger writes for it: a line for a mutation that ended with status zero
  (\<^verbatim>\<open>logger_main\<close>), none otherwise. Redoing the logged requests on a state that agrees with the
  state at the start of the run gives a state that agrees with the state at its end.
\<close>

section \<open>A layout manager without leases\<close>

text \<open>During replay no lease exists, so no file is busy.\<close>

definition leaseless :: "LayoutManager \<Rightarrow> bool" where
  "leaseless L \<longleftrightarrow> (\<forall>c v. placement L c = Some v \<longrightarrow> chunkLeases v = [])"

lemma leaseless_free: "leaseless (layout st) \<Longrightarrow> name_free clk st d n"
  by (auto simp: leaseless_def name_free_def lease_free_def IsValidLeaseIssued_def ValidLeaseIssued_def
      list_ex_iff split: option.splits)

lemma leaseless_target: "leaseless (layout st) \<Longrightarrow> target_free clk st d n"
  by (auto simp: target_free_def leaseless_free split: option.splits sum.splits)

lemma leaseless_calls [intro]:
  "leaseless L \<Longrightarrow> leaseless (DeleteChunk c L)" "leaseless L \<Longrightarrow> leaseless (TruncateChunk c n L)"
  by (auto simp: leaseless_def DeleteChunk_def TruncateChunk_def split: option.splits if_splits)

lemma layout_steps [simp]:
  "layout (insert_meta m st) = layout st" "layout (set_fattr f g st) = layout st"
  "layout (set_chunkinfo f b h st) = layout st" "layout (linked clk d n t f r st) = layout st"
  "layout (new_directory clk d n f st) = layout st" "layout (fst (genid_file st)) = layout st"
  by (simp_all add: insert_meta_def set_fattr_def set_chunkinfo_def linked_def new_directory_def genid_file_def Let_def)

lemma del_assert_layout: "del_assert m st = Some st' \<Longrightarrow> layout st' = layout st"
  by (auto simp: del_assert_def del_meta_def split: option.splits prod.splits)

lemma unlink_layout: "unlink d n fa sv st = Some st' \<Longrightarrow> layout st' = layout st"
  by (auto simp: unlink_def bind_eq_Some_conv split: if_splits) (metis del_assert_layout)+

lemma delete_chunks_leaseless:
  "delete_chunks cs st = Some st' \<Longrightarrow> leaseless (layout st) \<Longrightarrow> leaseless (layout st')"
proof (induction cs arbitrary: st)
  case (Cons c cs)
  then obtain st1 where st1: "DeleteChunk_meta c st = Some st1" "delete_chunks cs st1 = Some st'"
    by (auto simp: bind_eq_Some_conv)
  then have "layout st1 = DeleteChunk (ci_chunkId c) (layout st)"
    by (auto simp: DeleteChunk_meta_def del_meta_def split: option.splits)
  with Cons.IH [OF st1(2)] Cons.prems(2) show ?case by auto
qed simp

lemma rmdir_unlinks:
  assumes "rmdir d n st = Some (st', r)"
  obtains "st' = st" "r \<noteq> 0"
  | fa st1 st2 where "unlink (fa_fid fa) ''.'' fa True st = Some st1" "unlink (fa_fid fa) ''..'' fa True st1 = Some st2"
      "unlink d n fa False st2 = Some st'" "r = 0"
proof (cases "lookup (metatree st) d n")
  case (Some x)
  show ?thesis
  proof (cases x)
    case (Some fa)
    show ?thesis
    proof (cases "emptydir (metatree st) (fa_fid fa)")
      case (Some b)
      show ?thesis
        using assms \<open>lookup _ _ _ = _\<close> \<open>x = _\<close> Some that
        unfolding rmdir_def by (simp split: if_split_asm add: bind_eq_Some_conv) blast
    qed (use assms \<open>lookup _ _ _ = _\<close> \<open>x = _\<close> that in \<open>simp add: rmdir_def split: if_splits\<close>)
  qed (use assms \<open>lookup _ _ _ = _\<close> that in \<open>simp add: rmdir_def split: if_splits\<close>)
qed (use assms in \<open>simp add: rmdir_def\<close>)

lemma rmdir_layout: "rmdir d n st = Some (st', r) \<Longrightarrow> layout st' = layout st"
  by (erule rmdir_unlinks) (simp_all add: unlink_layout)

lemma remove_leaseless:
  assumes "leaseless (layout st)" "remove clk d n st = Some (st', s)"
  shows "leaseless (layout st')"
proof -
  obtain mv where rm: "remove_with mv clk d n st = Some (st', s)"
    using assms(2) unfolding remove_def numeral_2_eq_2 remove_n.simps by blast
  then obtain r where r: "lookup (metatree st) d n = Some r" by (auto simp: remove_with_def bind_eq_Some_conv)
  show ?thesis
  proof (cases r)
    case (Some fa)
    with r have "\<not> IsValidLeaseIssued (tv_sec clk) (layout st) (getalloc (metatree st) (fa_fid fa))"
      using leaseless_free [OF assms(1), of clk d n] by (simp add: name_free_def lease_free_def)
    with rm r Some consider "st' = st" | "unlink d n fa False st = Some st'"
      | st1 where "delete_chunks (getalloc (metatree st) (fa_fid fa)) st = Some st1" "unlink d n fa False st1 = Some st'"
      by (auto simp: remove_with_def bind_eq_Some_conv Let_def split: if_splits)
    then show ?thesis by cases (use assms(1) unlink_layout delete_chunks_leaseless in metis)+
  qed (use rm r assms(1) in \<open>simp add: remove_with_def\<close>)
qed

lemma move_entry_layout: "move_entry clk src sf d n st = Some (st', r) \<Longrightarrow> layout st' = layout st"
  by (auto simp: move_entry_def link_dots bind_eq_Some_conv split: if_splits)
    (metis unlink_layout del_assert_layout)+

lemma rename_leaseless:
  assumes "leaseless (layout st)" "rename clk d n new ov st = Some (st', s)"
  shows "leaseless (layout st')"
proof -
  consider "st' = st" | src sf df d' n' where "rename_commit (remove clk) clk src sf df d' n' st = Some (st', s)"
    using assms(2)
    by (auto simp: rename_def rename_with_eq rename_checked_def bind_eq_Some_conv split: option.splits sum.splits if_splits)
  then show ?thesis
  proof cases
    case 2
    let ?clear = "if df = None then Some (st, 0) else if fa_type sf = KFS_DIR then rmdir d' n' st else remove clk d' n' st"
    obtain st1 q where c: "?clear = Some (st1, q)" and m: "st' = st1 \<or> move_entry clk src sf d' n' st1 = Some (st', s)"
      using 2 unfolding rename_commit_def by (cases ?clear) (auto split: if_split_asm)
    have "leaseless (layout st1)"
      using c assms(1) remove_leaseless [OF assms(1), of clk d' n'] rmdir_layout [of d' n' st] by (simp split: if_split_asm)
    then show ?thesis using m move_entry_layout [of clk src sf d' n' st1 st' s] by auto
  qed (use assms(1) in simp)
qed

lemma create_leaseless:
  assumes "leaseless (layout st)" "create clk d n f r ex st = Some (st', s, i)"
  shows "leaseless (layout st')"
proof (cases "lookup (metatree st) d n = Some None \<and> legalname n \<and> 0 < r")
  case True
  then have "layout st' = layout st"
    using assms(2) by (auto simp: create_none genid_file_def Let_def split: if_splits)
  then show ?thesis using assms(1) by simp
next
  case False
  show ?thesis
  proof (cases "legalname n \<and> 0 < r")
    case True
    with False obtain fa where fa: "lookup (metatree st) d n = Some (Some fa)"
      using assms(2) create_refused(2) [of n r st d clk f ex] by fastforce
    show ?thesis
    proof (cases "fa_type fa = KFS_FILE \<and> \<not> ex")
      case True
      then show ?thesis
        using assms(2) create_over [of n r st d fa clk f] fa \<open>legalname n \<and> 0 < r\<close> remove_leaseless [OF assms(1), of clk d n]
        by (auto simp: genid_file_def Let_def split: option.splits if_splits)
    next
      case False
      then show ?thesis
        using assms create_refused(3) [of n r st d fa clk f ex] create_refused(4) [of n r st d fa clk f] fa
          \<open>legalname n \<and> 0 < r\<close>
        by (cases "fa_type fa = KFS_FILE") auto
    qed
  next
    case False
    then show ?thesis using assms create_refused(1) [of n r clk d f ex st] by auto
  qed
qed

section \<open>Ids again\<close>

lemma rmdir_fileID: "rmdir d n st = Some (st', r) \<Longrightarrow> fileID st' = fileID st"
  by (erule rmdir_unlinks) (simp_all add: unlink_fileID)

lemma move_entry_fileID: "move_entry clk src sf d n st = Some (st', r) \<Longrightarrow> fileID st' = fileID st"
  by (auto simp: move_entry_def link_dots insert_meta_def bind_eq_Some_conv split: if_splits)
    (metis unlink_fileID del_assert_fileID)+

lemma rename_cases:
  assumes "rename clk d n new ov st = Some (st', s)"
  obtains "st' = st"
  | src sf df d' n' where "rename_target (metatree st) d new = Some (Inr (d', n'))"
      "rename_commit (remove clk) clk src sf df d' n' st = Some (st', s)"
  using assms
  by (auto simp: rename_def rename_with_eq rename_checked_def bind_eq_Some_conv split: option.splits sum.splits if_splits)

lemma rename_commit_cases:
  assumes "rename_commit rm clk src sf df d n st = Some (st', s)"
  obtains st1 q where "st1 = st \<or> rmdir d n st = Some (st1, q) \<or> rm d n st = Some (st1, q)"
    "st' = st1 \<and> s = q \<and> q \<noteq> 0 \<or> move_entry clk src sf d n st1 = Some (st', s)"
proof -
  let ?clear = "if df = None then Some (st, 0) else if fa_type sf = KFS_DIR then rmdir d n st else rm d n st"
  obtain st1 q where "?clear = Some (st1, q)" "st' = st1 \<and> s = q \<and> q \<noteq> 0 \<or> move_entry clk src sf d n st1 = Some (st', s)"
    using assms unfolding rename_commit_def by (cases ?clear) (auto split: if_split_asm)
  then show ?thesis using that [of st1 q] by (simp split: if_split_asm)
qed

lemma rename_fileID:
  assumes "target_free clk st d new" "rename clk d n new ov st = Some (st', s)"
  shows "fileID st' = fileID st"
  using assms(2)
proof (rule rename_cases)
  fix src sf df d' n'
  assume t: "rename_target (metatree st) d new = Some (Inr (d', n'))"
    and c: "rename_commit (remove clk) clk src sf df d' n' st = Some (st', s)"
  from t assms(1) have free: "name_free clk st d' n'" by (simp add: target_free_def)
  from c show ?thesis
  proof (rule rename_commit_cases)
    fix st1 q
    assume "st1 = st \<or> rmdir d' n' st = Some (st1, q) \<or> remove clk d' n' st = Some (st1, q)"
    then have "fileID st1 = fileID st"
      using rmdir_fileID remove_free_fileID [OF free] by blast
    moreover assume "st' = st1 \<and> s = q \<and> q \<noteq> 0 \<or> move_entry clk src sf d' n' st1 = Some (st', s)"
    ultimately show ?thesis using move_entry_fileID by metis
  qed
qed simp

lemma create_given_fileID:
  assumes "f \<noteq> 0" "name_free clk st d n" "create clk d n f r False st = Some (st', s, i)"
  shows "fileID st' = fileID st"
proof (cases "legalname n \<and> 0 < r")
  case True
  then obtain fa where fa: "lookup (metatree st) d n = Some fa"
    using assms(3) create_refused(2) [of n r st d clk f False] by fastforce
  show ?thesis
  proof (cases fa)
    case None
    then show ?thesis using True assms fa by (auto simp: create_none)
  next
    case (Some a)
    then show ?thesis
      using True assms fa create_over [of n r st d a clk f] create_refused(3) [of n r st d a clk f False]
        remove_free_fileID [OF assms(2)]
      by (cases "fa_type a = KFS_FILE") (auto split: option.splits if_splits)
  qed
qed (use assms create_refused(1) [of n r clk d f False st] in auto)

section \<open>States that agree\<close>

definition matches :: "fid_t set \<Rightarrow> MetaState \<Rightarrow> MetaState \<Rightarrow> bool" where
  "matches R b st \<longleftrightarrow> erase R 0 b = erase R 0 st \<and> fileID b = fileID st \<and> leaseless (layout b)"

lemma matchesD:
  assumes "matches R b st"
  shows "erase R k b = erase R k st" "fileID b = fileID st" "leaseless (layout b)" "name_free clk b d n" "target_free clk b d n"
  using assms leaseless_free [of b clk d n] leaseless_target [of b clk d n] by (auto simp: matches_def erase_def)

lemma erased_result:
  assumes "map_option (map_prod (erase R 0) id) x = map_option (map_prod (erase R 0) id) (Some (st', r))"
  obtains b' where "x = Some (b', r)" "erase R 0 b' = erase R 0 st'"
  using assms by (cases x) auto

lemma remove_matches:
  assumes "matches R b st" "name_free clk st d n" "remove clk d n st = Some (st', r)"
  shows "\<exists>b'. remove clk2 d n b = Some (b', r) \<and> matches R b' st'"
proof -
  note m = matchesD [OF assms(1)]
  have "map_option (map_prod (erase R 0) id) (remove clk2 d n b) = map_option (map_prod (erase R 0) id) (Some (st', r))"
    using remove_erase [OF m(4) [of clk2 d n], of R 0] remove_erase [OF assms(2), of R 0] assms(3) by (simp add: m(1))
  then obtain b' where b': "remove clk2 d n b = Some (b', r)" "erase R 0 b' = erase R 0 st'" by (rule erased_result)
  moreover have "fileID b' = fileID st'"
    using remove_free_fileID [OF m(4) b'(1)] remove_free_fileID [OF assms(2,3)] m(2) by simp
  ultimately show ?thesis using remove_leaseless [OF m(3) b'(1)] by (auto simp: matches_def)
qed

lemma rename_matches:
  assumes "matches R b st" "target_free clk st d new" "rename clk d n new ov st = Some (st', r)"
  shows "\<exists>b'. rename clk2 d n new ov b = Some (b', r) \<and> matches R b' st'"
proof -
  note m = matchesD [OF assms(1)]
  have "map_option (map_prod (erase R 0) id) (rename clk2 d n new ov b) = map_option (map_prod (erase R 0) id) (Some (st', r))"
    using rename_erase [OF m(5) [of clk2 d new], of n ov R 0] rename_erase [OF assms(2), of n ov R 0] assms(3) by (simp add: m(1))
  then obtain b' where b': "rename clk2 d n new ov b = Some (b', r)" "erase R 0 b' = erase R 0 st'" by (rule erased_result)
  moreover have "fileID b' = fileID st'"
    using rename_fileID [OF m(5) b'(1)] rename_fileID [OF assms(2,3)] m(2) by simp
  ultimately show ?thesis using rename_leaseless [OF m(3) b'(1)] by (auto simp: matches_def)
qed

lemma rmdir_matches:
  assumes "matches R b st" "rmdir d n st = Some (st', r)"
  shows "\<exists>b'. rmdir d n b = Some (b', r) \<and> matches R b' st'"
proof -
  note m = matchesD [OF assms(1)]
  have "map_option (map_prod (erase R 0) id) (rmdir d n b) = map_option (map_prod (erase R 0) id) (Some (st', r))"
    using rmdir_erase [of d n R 0 b] rmdir_erase [of d n R 0 st] assms(2) by (simp add: m(1))
  then obtain b' where b': "rmdir d n b = Some (b', r)" "erase R 0 b' = erase R 0 st'" by (rule erased_result)
  then show ?thesis
    using rmdir_fileID [OF b'(1)] rmdir_fileID [OF assms(2)] rmdir_layout [OF b'(1)] m by (auto simp: matches_def)
qed

lemma create_matches:
  assumes "matches R b st" "name_free clk st d n" "create clk d n 0 r ex st = Some (st', 0, f)" "0 \<le> fileID st"
  shows "\<exists>b'. redo_create clk2 d n f r b = Some (b', True) \<and> matches R b' st'"
proof -
  note m = matchesD [OF assms(1)]
  note c = create_redo [OF assms(3,2)]
  have f: "f \<noteq> 0" using c(1) assms(4) by simp
  have "map_option (map_prod (erase R 0) id) (create clk2 d n f r False b) = Some (erase R 0 st', 0, f)"
    using create_erase [OF f m(4) [of clk2 d n], of R r 0] c(3) [OF f, of R 0] by (simp add: m(1))
  then obtain b1 where b1: "create clk2 d n f r False b = Some (b1, 0, f)" "erase R 0 b1 = erase R 0 st'"
    by (auto simp: map_prod_def)
  have "fileID b1 = fileID st" using create_given_fileID [OF f m(4) b1(1)] m(2) by simp
  then have "redo_create clk2 d n f r b = Some (b1\<lparr>fileID := f\<rparr>, True)"
    using b1(1) c(1) by (simp add: redo_create_def updateSeed_file_def)
  moreover have "matches R (b1\<lparr>fileID := f\<rparr>) st'"
    using b1(2) c(2) create_leaseless [OF m(3) b1(1)] by (simp add: matches_def)
  ultimately show ?thesis by blast
qed

lemma mkdir_matches:
  assumes "matches R b st" "mkdir clk d n 0 st = Some (st', 0, f)" "n \<noteq> ''/''" "0 \<le> fileID st"
  shows "\<exists>b'. redo_mkdir clk2 d n f b = Some (b', True) \<and> matches R b' st'"
proof -
  note m = matchesD [OF assms(1)]
  note c = mkdir_redo [OF assms(2,3)]
  have f: "f \<noteq> 0" using c(1) assms(4) by simp
  have "map_option (map_prod (erase R 0) id) (mkdir clk2 d n f b) = Some (erase R 0 st', 0, f)"
    using mkdir_erase [OF f, of d n R 0 b clk2] c(3) [OF f, of R 0] by (simp add: m(1))
  then obtain b1 where b1: "mkdir clk2 d n f b = Some (b1, 0, f)" "erase R 0 b1 = erase R 0 st'"
    by (auto simp: map_prod_def)
  have b: "b1 = new_directory clk2 d n f b" using b1(1) f by (auto simp: mkdir_eq split: if_splits option.splits)
  then have "fileID b1 = fileID st" using m(2) by (simp add: new_directory_def insert_meta_def)
  then have "redo_mkdir clk2 d n f b = Some (b1\<lparr>fileID := f\<rparr>, True)"
    using b1(1) c(1) by (simp add: redo_mkdir_def updateSeed_file_def)
  moreover have "matches R (b1\<lparr>fileID := f\<rparr>) st'" using b1(2) c(2) m(3) b by (simp add: matches_def)
  ultimately show ?thesis by blast
qed

lemma matches_silent: "matches R b st \<Longrightarrow> erase R 0 st' = erase R 0 st \<Longrightarrow> fileID st' = fileID st \<Longrightarrow> matches R b st'"
  by (simp add: matches_def)

lemma truncate_tail_leaseless:
  assumes "truncate_tail clk f off ms st = Some st'" "leaseless (layout st)"
  shows "leaseless (layout st')"
proof -
  let ?st1 = "if ci_offset (hd ms) \<le> off
    then st\<lparr>layout := TruncateChunk (ci_chunkId (hd ms)) (off - ci_offset (hd ms)) (layout st)\<rparr> else st"
  obtain cs st2 where "delete_chunks cs ?st1 = Some st2" "layout st' = layout st2"
    using assms(1) unfolding truncate_tail_def Let_def by (auto simp: bind_eq_Some_conv)
  moreover have "leaseless (layout ?st1)" using assms(2) by auto
  ultimately show ?thesis using delete_chunks_leaseless by metis
qed

lemma truncate_leaseless:
  assumes "truncate_file clk f off st = Some (st', r, alloc)" "leaseless (layout st)"
  shows "leaseless (layout st')"
proof (cases "getFattr (metatree st) f")
  case (Some fa)
  let ?st1 = "set_fattr (fa_fid fa) (\<lambda>f. f\<lparr>fa_filesize := - 1\<rparr>) st"
  consider "st' = st" | "st' = ?st1" | ms where "truncate_tail clk (fa_fid fa) off ms ?st1 = Some st'"
    using assms(1) Some by (auto simp: truncate_file_def Let_def bind_eq_Some_conv split: if_splits)
  then show ?thesis using assms(2) truncate_tail_leaseless [of clk "fa_fid fa" off _ ?st1 st'] by cases auto
qed (use assms in \<open>simp add: truncate_file_def\<close>)

lemma truncate_matches:
  assumes "matches R b st" "truncate_file clk f off st = Some (st', r, alloc)"
  shows "\<exists>b'. truncate_file clk2 f off b = Some (b', r, alloc) \<and> matches R b' st'"
proof -
  note m = matchesD [OF assms(1)]
  have "map_option (map_prod (erase R 0) id) (truncate_file clk2 f off b) = Some (erase R 0 st', r, alloc)"
    using truncate_erase [of f off R 0 b clk2] truncate_erase [of f off R 0 st clk] assms(2) by (simp add: m(1))
  then obtain b' where b': "truncate_file clk2 f off b = Some (b', r, alloc)" "erase R 0 b' = erase R 0 st'"
    by (auto simp: map_prod_def)
  then show ?thesis
    using truncate_fileID [OF b'(1)] truncate_fileID [OF assms(2)] m(2) truncate_leaseless [OF b'(1) m(3)]
    by (auto simp: matches_def)
qed

text \<open>A change of attributes that are erased is not seen.\<close>

lemma set_fattr_silent:
  assumes "\<And>a. getFattr (metatree st) f = Some a \<Longrightarrow> erase_fattr R (g a) = erase_fattr R a"
  shows "erase R 0 (set_fattr f g st) = erase R 0 st"
proof -
  have "set_fattr f (\<lambda>f. f) (erase R 0 st) = erase R 0 (set_fattr f g st)"
    by (rule set_fattr_erase_first) (simp add: assms)
  moreover have "on_fattr (\<lambda>f. f) = (\<lambda>m. m)" by (rule ext, rename_tac m, case_tac m) auto
  moreover have "store_update k (\<lambda>m. m) s = s" for k s by (induction s) auto
  ultimately show ?thesis by (simp add: set_fattr_def) (simp add: erase_def)
qed

text \<open>A truncation that first needs an allocation leaves nothing to recover.\<close>

lemma truncate_waits:
  assumes "truncate_file clk f off st = Some (st', r, alloc)" "r \<noteq> 0"
  shows "erase R 0 st' = erase R 0 st"
proof (cases "getFattr (metatree st) f")
  case (Some fa)
  have fid: "fa_fid fa = f" using Some by (rule getFattr_fid)
  have "erase R 0 (set_fattr f (\<lambda>f. f\<lparr>fa_filesize := -1\<rparr>) st) = erase R 0 st" if "fa_type fa = KFS_FILE"
    by (rule set_fattr_silent) (use that Some in \<open>simp add: erase_fattr_def\<close>)
  then show ?thesis
    using assms Some fid
    by (auto simp: truncate_file_def Let_def bind_eq_Some_conv split: if_splits)
qed (use assms in \<open>simp add: truncate_file_def\<close>)

lemma assignChunkId_fields:
  "fileID (fst (assignChunkId clk f off i v st)) = fileID st" "layout (fst (assignChunkId clk f off i v st)) = layout st"
  by (auto simp: assignChunkId_def Let_def insert_meta_def set_fattr_def set_chunkinfo_def split: option.splits)

text \<open>
  The conditions under which a logged allocation can be redone: the file is not a directory, the
  offset is the start of a chunk, and a chunk that is already there is the one that was logged.
\<close>

definition allocation_sound :: "MetaState \<Rightarrow> fid_t \<Rightarrow> chunkOff_t \<Rightarrow> chunkId_t \<Rightarrow> bool" where
  "allocation_sound st f off i \<longleftrightarrow>
     i \<noteq> 0 \<and> (word_of_int off :: 64 word) mod CHUNKSIZE = 0 \<and>
     (\<forall>fa. getFattr (metatree st) f = Some fa \<longrightarrow> fa_type fa \<noteq> KFS_DIR) \<and>
     (\<forall>c. chunk_at (metatree st) f (chunkStartOffset off) = Some c \<longrightarrow> ci_chunkId c = i)"

lemma erased_queries:
  assumes "erase R 0 b = erase R 0 st"
  shows "chunk_at (metatree b) f off = chunk_at (metatree st) f off"
    "getFattr (metatree b) f = None \<longleftrightarrow> getFattr (metatree st) f = None"
    "map_option fa_type (getFattr (metatree b) f) = map_option fa_type (getFattr (metatree st) f)"
proof -
  have t: "map (erase_item R) (metatree b) = map (erase_item R) (metatree st)" using arg_cong [OF assms, of metatree] by simp
  show "chunk_at (metatree b) f off = chunk_at (metatree st) f off"
    using chunk_at_erase [of R "metatree b" f off] chunk_at_erase [of R "metatree st" f off] t by simp
  have g: "map_option (erase_fattr R) (getFattr (metatree b) f) = map_option (erase_fattr R) (getFattr (metatree st) f)"
    using getFattr_erase [of R "metatree b" f] getFattr_erase [of R "metatree st" f] t by simp
  then show "getFattr (metatree b) f = None \<longleftrightarrow> getFattr (metatree st) f = None"
    by (metis option.map_disc_iff)
  from arg_cong [OF g, of "map_option fa_type"]
  show "map_option fa_type (getFattr (metatree b) f) = map_option fa_type (getFattr (metatree st) f)"
    by (simp add: option.map_comp comp_def)
qed

lemma allocate_matches:
  assumes "matches R b st" "allocation_sound st f off i" "assignChunkId clk f off i v st = (st', 0)"
  shows "\<exists>b'. redo_allocate clk2 f off i v b = Some (b', True) \<and> matches R b' st'"
proof -
  note m = matchesD [OF assms(1)] and q = erased_queries [OF matchesD(1) [OF assms(1), of 0]]
  have dir: "\<And>fa. getFattr (metatree s) f = Some fa \<Longrightarrow> fa_type fa \<noteq> KFS_DIR" if "s = b \<or> s = st" for s
    using that assms(2) q(3) [of f] by (cases "getFattr (metatree st) f") (auto simp: allocation_sound_def)
  have "assignChunkId zero_time f off i v (erase R 0 b) = map_prod (erase R 0) id (assignChunkId clk2 f off i v b)"
    by (rule assignChunkId_erase) (use dir in blast)
  moreover have "assignChunkId zero_time f off i v (erase R 0 st) = map_prod (erase R 0) id (assignChunkId clk f off i v st)"
    by (rule assignChunkId_erase) (use dir in blast)
  ultimately have "map_prod (erase R 0) id (assignChunkId clk2 f off i v b) = (erase R 0 st', 0)"
    using assms(3) by (simp add: m(1))
  then obtain b2 where b2: "assignChunkId clk2 f off i v b = (b2, 0)" "erase R 0 b2 = erase R 0 st'"
    by (cases "assignChunkId clk2 f off i v b") auto
  obtain fa where fa: "getFattr (metatree b) f = Some fa"
    using b2(1) by (auto simp: assignChunkId_def Let_def split: option.splits)
  have chunk: "ci_chunkId c = i \<and> ci_chunkVersion c \<noteq> v" if "chunk_at (metatree b) f (chunkStartOffset off) = Some c" for c
  proof
    show "ci_chunkId c = i" using q(1) [of f "chunkStartOffset off"] assms(2) that by (simp add: allocation_sound_def)
    show "ci_chunkVersion c \<noteq> v" using b2(1) fa that by (auto simp: assignChunkId_def)
  qed
  let ?L = "set_placement i (new_ChunkPlacementInfo\<lparr>cp_fid := f\<rparr>) (layout b2)"
  have i: "i \<noteq> 0" "(word_of_int off :: 64 word) mod CHUNKSIZE = 0" using assms(2) by (auto simp only: allocation_sound_def)
  have "allocateChunkId False f off i 0 b = Some (b, 0, i, 0, None) \<or>
    (\<exists>w. w \<noteq> v \<and> allocateChunkId False f off i 0 b = Some (b, - EEXIST, i, w, None))"
    using fa i chunk by (cases "chunk_at (metatree b) f (chunkStartOffset off)") (simp_all add: allocateChunkId_def)
  then have "redo_allocate clk2 f off i v b =
      Some (if chunkID b2 < i then b2\<lparr>layout := ?L, chunkID := i\<rparr> else b2\<lparr>layout := ?L\<rparr>, True)"
    using fa b2(1) by (elim disjE exE conjE)
      (simp_all add: redo_allocate_def updateSeed_chunk_def AddChunkToServerMapping_def)
  moreover have "leaseless ?L"
    using m(3) b2(1) assignChunkId_fields(2) [of clk2 f off i v b]
    by (auto simp: leaseless_def new_ChunkPlacementInfo_def split: if_splits)
  moreover have "fileID b2 = fileID st'"
    using b2(1) assms(3) m(2) assignChunkId_fields(1) [of clk2 f off i v b] assignChunkId_fields(1) [of clk f off i v st] by simp
  ultimately show ?thesis using b2(2) by (auto simp: matches_def)
qed

section \<open>Requests that fail change nothing\<close>

lemma remove_failed:
  assumes "name_free clk st d n" "remove clk d n st = Some (st', e)" "e \<noteq> 0"
  shows "st' = st"
proof -
  obtain mv where rm: "remove_with mv clk d n st = Some (st', e)"
    using assms(2) unfolding remove_def numeral_2_eq_2 remove_n.simps by blast
  then obtain r where r: "lookup (metatree st) d n = Some r" by (auto simp: remove_with_def bind_eq_Some_conv)
  show ?thesis
  proof (cases r)
    case (Some fa)
    with r assms(1) have "\<not> IsValidLeaseIssued (tv_sec clk) (layout st) (getalloc (metatree st) (fa_fid fa))"
      by (simp add: name_free_def lease_free_def)
    with rm r Some assms(3) show ?thesis
      by (auto simp: remove_with_def bind_eq_Some_conv Let_def split: if_splits)
  qed (use rm r in \<open>simp add: remove_with_def\<close>)
qed

lemma rename_failed:
  assumes "target_free clk st d new" "rename clk d n new ov st = Some (st', e)" "e \<noteq> 0"
  shows "st' = st"
  using assms(2)
proof (rule rename_cases)
  fix src sf df d' n'
  assume t: "rename_target (metatree st) d new = Some (Inr (d', n'))"
    and c: "rename_commit (remove clk) clk src sf df d' n' st = Some (st', e)"
  from t assms(1) have free: "name_free clk st d' n'" by (simp add: target_free_def)
  from c show ?thesis
  proof (rule rename_commit_cases)
    fix st1 q
    assume a: "st1 = st \<or> rmdir d' n' st = Some (st1, q) \<or> remove clk d' n' st = Some (st1, q)"
      "st' = st1 \<and> e = q \<and> q \<noteq> 0 \<or> move_entry clk src sf d' n' st1 = Some (st', e)"
    have "\<not> move_entry clk src sf d' n' st1 = Some (st', e)"
      using assms(3) by (auto simp: move_entry_def link_dots bind_eq_Some_conv split: if_splits)
    with a show ?thesis using remove_failed [OF free] assms(3) by (auto elim: rmdir_unlinks)
  qed
qed simp

lemma create_failed:
  assumes "name_free clk st d n" "create clk d n f r ex st = Some (st', e, i)" "e \<noteq> 0"
  shows "st' = st"
proof (cases "legalname n \<and> 0 < r")
  case True
  then have legal: "legalname n" "0 < r" by auto
  obtain fa where fa: "lookup (metatree st) d n = Some fa"
    using assms(2) create_refused(2) [OF legal, of st d clk f ex] by fastforce
  show ?thesis
  proof (cases fa)
    case None
    then show ?thesis using assms fa legal by (auto simp: create_none Let_def split: prod.splits)
  next
    case (Some a)
    consider "fa_type a \<noteq> KFS_FILE" | "fa_type a = KFS_FILE" "ex" | "fa_type a = KFS_FILE" "\<not> ex" by blast
    then show ?thesis
    proof cases
      case 3
      then show ?thesis
        using assms fa Some legal create_over [OF legal, of st d a clk f] remove_failed [OF assms(1)]
        by (auto simp: Let_def split: option.splits if_splits prod.splits)
    qed (use assms fa Some create_refused(3,4) [OF legal, of st d a] in auto)
  qed
qed (use assms create_refused(1) [of n r clk d f ex st] in auto)

lemma mkdir_failed: "mkdir clk d n f st = Some (st', e, i) \<Longrightarrow> e \<noteq> 0 \<Longrightarrow> st' = st"
  by (auto simp: mkdir_eq split: if_splits option.splits prod.splits)

section \<open>Allocations\<close>

text \<open>The line that an allocation leaves in the log.\<close>

definition allocation_line :: "MetaAllocate \<Rightarrow> Mutation list" where
  "allocation_line r =
     (if ma_status r = 0 \<and> \<not> ma_suspended r
      then [LogAllocate (ma_fid r) (ma_offset r) (ma_chunkId r) (ma_chunkVersion r)] else [])"

lemma allocateChunkId_silent:
  assumes "allocateChunkId want f off i v st = Some (st', status, i', v', reps)"
  shows "erase R 0 st' = erase R 0 st" "fileID st' = fileID st" "metatree st' = metatree st"
    "status = - EEXIST \<Longrightarrow> (\<exists>c. chunk_at (metatree st) f (chunkStartOffset off) = Some c \<and> i' = ci_chunkId c \<and> v' = ci_chunkVersion c)"
    "status \<in> {0, - EEXIST} \<Longrightarrow> getFattr (metatree st) f \<noteq> None \<and> (word_of_int off :: 64 word) mod CHUNKSIZE = 0"
  using assms by (auto simp: allocateChunkId_def genid_chunk_def Let_def split: option.splits if_splits)

text \<open>
  Starting an allocation changes nothing that is recovered; when it ends at once with status zero,
  a valid lease exists and the chunk is the one in the tree.
\<close>

definition allocation_found :: "MetaState \<Rightarrow> MetaAllocate \<Rightarrow> bool" where
  "allocation_found st r \<longleftrightarrow>
     getFattr (metatree st) (ma_fid r) \<noteq> None \<and> (word_of_int (ma_offset r) :: 64 word) mod CHUNKSIZE = 0 \<and>
     (\<exists>c. chunk_at (metatree st) (ma_fid r) (chunkStartOffset (ma_offset r)) = Some c \<and>
        ma_chunkId r = ci_chunkId c \<and> ma_chunkVersion r = ci_chunkVersion c)"

lemma start_allocation_silent:
  assumes "start_allocation env a s = Some s'" "\<not> ma_suspended (allocs (ms_loop s) a)"
  shows "erase R 0 (ms_state s') = erase R 0 (ms_state s) \<and> fileID (ms_state s') = fileID (ms_state s) \<and>
    (allocation_line (allocs (ms_loop s') a) \<noteq> [] \<longrightarrow> allocation_found (ms_state s) (allocs (ms_loop s') a))"
proof -
  let ?r = "allocs (ms_loop s) a"
  obtain st1 status cid version reps where al:
    "allocateChunkId True (ma_fid ?r) (ma_offset ?r) 0 (ma_chunkVersion ?r) (ms_state s) = Some (st1, status, cid, version, reps)"
    using assms(1) unfolding start_allocation_def Let_def bind_eq_Some_conv by auto
  note silent = allocateChunkId_silent [OF al]
  let ?r1 = "?r\<lparr>ma_chunkId := cid, ma_chunkVersion := version, ma_status := status,
    ma_numReplicas := (case reps of None \<Rightarrow> ma_numReplicas ?r | Some n \<Rightarrow> n)\<rparr>"
  note start = assms(1) [unfolded start_allocation_def Let_def al, simplified]
  consider (error) "status \<noteq> 0" "status \<noteq> - EEXIST" | (found) "status = - EEXIST" | (new) "status = 0" by blast
  then show ?thesis
  proof cases
    case error
    then show ?thesis using start silent by (auto simp: set_alloc_def allocation_line_def)
  next
    case found
    obtain L r2 res lease where g: "GetChunkWriteLease (env_now env) (chunkVersionInc st1) a ?r1 (layout st1) = (L, r2, res, lease)"
      by (metis prod_cases4)
    have s': "s' = set_alloc a (if res \<noteq> 0 \<or> lease \<noteq> Some True then r2\<lparr>ma_status := res\<rparr>
        else r2\<lparr>ma_status := res, ma_suspended := True\<rparr>) (set_layout L (s\<lparr>ms_state := st1\<rparr>))"
      using start found g by simp
    have "ma_fid r2 = ma_fid ?r \<and> ma_offset r2 = ma_offset ?r \<and> ma_chunkId r2 = cid \<and> ma_chunkVersion r2 = version"
      if "res = 0" "lease \<noteq> Some True"
      using GetChunkWriteLease_result [OF g] that by (auto split: option.splits bool.splits)
    then show ?thesis
      using silent(1,2) silent(4) [OF found] silent(5) found
      by (auto simp: s' set_alloc_def set_layout_def allocation_line_def allocation_found_def)
  next
    case new
    obtain L r2 res where g: "AllocateChunk env a ?r1 (layout st1) = Some (L, r2, res)"
      using start new by (auto simp: bind_eq_Some_conv)
    then show ?thesis
      using start new silent(1,2) by (auto simp: set_alloc_def set_layout_def allocation_line_def)
  qed
qed

section \<open>Runs of the metaserver\<close>

text \<open>
  One handled request with the lines that it leaves in the log. A directory must not have the name
  of a slash, a file that is removed or overwritten must not have a live lease (it would go into the
  dumpster, which is emptied at a restart), and \<^verbatim>\<open>allocation_sound\<close> holds when an allocation ends. A change of the
  degree of replication leaves no line; \<^verbatim>\<open>R\<close> holds the files whose degree is changed in the run. The clean-up of
  leases also removes the files in the dumpster, and no line says so: it may run while no file is there. The last rule
  covers everything that changes the layout manager and the main loop only, such as leases and messages from chunkservers.
\<close>

definition no_dumped_file :: "MetaState \<Rightarrow> bool" where
  "no_dumped_file st \<longleftrightarrow> (\<forall>fa n g. lookup (metatree st) ROOTFID DUMPSTERDIR = Some (Some fa) \<longrightarrow>
     lookup (metatree st) (fa_fid fa) n = Some (Some g) \<longrightarrow> fa_type g = KFS_DIR)"

inductive meta_step :: "fid_t set \<Rightarrow> MetaServer \<Rightarrow> Mutation list \<Rightarrow> MetaServer \<Rightarrow> bool" for R where
  do_create: "handle_create clk d n r ex (ms_state s) = Some (st', e, f) \<Longrightarrow> name_free clk (ms_state s) d n \<Longrightarrow>
    meta_step R s (if e = 0 then [LogCreate d n f r] else []) (s\<lparr>ms_state := st'\<rparr>)"
| do_mkdir: "handle_mkdir clk d n (ms_state s) = Some (st', e, f) \<Longrightarrow> n \<noteq> ''/'' \<Longrightarrow>
    meta_step R s (if e = 0 then [LogMkdir d n f] else []) (s\<lparr>ms_state := st'\<rparr>)"
| do_remove: "handle_remove worm clk d n (ms_state s) = Some (st', e) \<Longrightarrow> name_free clk (ms_state s) d n \<Longrightarrow>
    meta_step R s (if e = 0 then [LogRemove d n] else []) (s\<lparr>ms_state := st'\<rparr>)"
| do_rmdir: "handle_rmdir worm d n (ms_state s) = Some (st', e) \<Longrightarrow>
    meta_step R s (if e = 0 then [LogRmdir d n] else []) (s\<lparr>ms_state := st'\<rparr>)"
| do_rename: "handle_rename worm clk d n new ov (ms_state s) = Some (st', e) \<Longrightarrow> target_free clk (ms_state s) d new \<Longrightarrow>
    meta_step R s (if e = 0 then [LogRename d n new] else []) (s\<lparr>ms_state := st'\<rparr>)"
| do_truncate: "handle_truncate worm env clk f off s = Some (s', e, susp) \<Longrightarrow>
    meta_step R s (if e = 0 \<and> \<not> susp then [LogTruncate f off] else []) s'"
| do_start: "\<not> ma_layoutDone (allocs (ms_loop s) a) \<Longrightarrow> \<not> ma_suspended (allocs (ms_loop s) a) \<Longrightarrow>
    handle_allocate env clk a s = Some s' \<Longrightarrow>
    meta_step R s (allocation_line (allocs (ms_loop s') a)) s'"
| do_finish: "ma_layoutDone (allocs (ms_loop s) a) \<Longrightarrow> handle_allocate env clk a s = Some s' \<Longrightarrow>
    allocation_sound (ms_state s) (ma_fid (allocs (ms_loop s) a)) (ma_offset (allocs (ms_loop s) a))
      (ma_chunkId (allocs (ms_loop s) a)) \<Longrightarrow>
    meta_step R s (allocation_line (allocs (ms_loop s') a)) s'"
| do_version_inc: "ms_queue s = (n, w) # q \<Longrightarrow> 1 \<le> n \<Longrightarrow> meta_step R s [LogVersionInc n] (s\<lparr>ms_queue := q\<rparr>)"
| do_chunk_size: "handle_chunk_size_done status f c sz (ms_state s) = (st', e) \<Longrightarrow> meta_step R s [] (s\<lparr>ms_state := st'\<rparr>)"
| do_replication: "handle_change_file_replication f r (ms_state s) = (st', e) \<Longrightarrow> f \<in> R \<Longrightarrow>
    meta_step R s [] (s\<lparr>ms_state := st'\<rparr>)"
| do_lease_cleanup: "handle_lease_cleanup clk (ms_state s) = Some st' \<Longrightarrow> no_dumped_file (ms_state s) \<Longrightarrow>
    meta_step R s [] (s\<lparr>ms_state := st'\<rparr>)"
| do_layout: "meta_step R s [] (s\<lparr>ms_state := (ms_state s)\<lparr>layout := L\<rparr>, ms_loop := w\<rparr>)"

inductive meta_run :: "fid_t set \<Rightarrow> MetaServer \<Rightarrow> Mutation list \<Rightarrow> MetaServer \<Rightarrow> bool" for R where
  meta_done: "meta_run R s [] s"
| meta_more: "meta_step R s ms s1 \<Longrightarrow> meta_run R s1 ms' s2 \<Longrightarrow> meta_run R s (ms @ ms') s2"

lemma redo_all_append:
  "redo_all clk (ms @ ms') b =
     (case redo_all clk ms b of None \<Rightarrow> None | Some (b1, ok) \<Rightarrow> if ok then redo_all clk ms' b1 else Some (b1, False))"
  by (induction ms arbitrary: b) (auto split: option.split)

lemma rename_overwrites:
  assumes "rename clk d n new ov st = Some (st', 0)"
  shows "rename clk d n new True st = Some (st', 0)"
proof -
  have "rename_checked rm clk src sf df d' n' True st = Some (st', 0)"
    if "rename_checked rm clk src sf df d' n' ov st = Some (st', 0)" for rm src sf df d' n'
  proof (cases df)
    case None
    then show ?thesis using that by (cases ov) (simp_all add: rename_checked_def)
  next
    case (Some g)
    then have ov using that by (cases ov) (simp_all add: rename_checked_def)
    then show ?thesis using that by simp
  qed
  then show ?thesis
    using assms unfolding rename_def rename_with_eq by (auto split: option.split_asm sum.split_asm if_split_asm prod.split_asm)
qed

lemma status_ok_Some [simp]: "status_ok (Some (st, e)) = Some (st, e = 0)"
  by (simp add: status_ok_def)

text \<open>The ways a step looks to the replay: nothing happened, or one logged operation.\<close>

lemma chunk_size_silent:
  assumes "handle_chunk_size_done status f c sz st = (st', e)"
  shows "erase R 0 st' = erase R 0 st" "fileID st' = fileID st"
proof -
  have "erase R 0 (set_fattr f (\<lambda>a. a\<lparr>fa_filesize := n a\<rparr>) st) = erase R 0 st"
    if "getFattr (metatree st) f = Some fa" "fa_type fa = KFS_FILE" for fa n
    by (rule set_fattr_silent) (use that in \<open>simp add: erase_fattr_def\<close>)
  then show "erase R 0 st' = erase R 0 st" "fileID st' = fileID st"
    using assms
    by (auto simp: handle_chunk_size_done_def Let_def set_fattr_def erase_fattr_def split: option.splits if_splits)
qed

lemma replication_silent:
  assumes "handle_change_file_replication f r st = (st', e)" "f \<in> R"
  shows "erase R 0 st' = erase R 0 st" "fileID st' = fileID st"
proof -
  have "erase R 0 (set_fattr f (\<lambda>a. a\<lparr>fa_numReplicas := r\<rparr>) st) = erase R 0 st"
    by (rule set_fattr_silent) (use assms(2) getFattr_fid in \<open>force simp: erase_fattr_def\<close>)
  then show "erase R 0 st' = erase R 0 st" "fileID st' = fileID st"
    using assms(1)
    by (auto simp: handle_change_file_replication_def changeFileReplication_def Let_def set_fattr_def split: option.splits if_splits)
qed

lemma remove_entries_silent:
  assumes "\<And>n g. lookup (metatree st) d n = Some (Some g) \<Longrightarrow> fa_type g = KFS_DIR" "remove_entries clk d es st = Some st'"
  shows "st' = st"
  using assms(2)
proof (induction es)
  case (Cons e es)
  have "st1 = st" if "remove clk d (de_name e) st = Some (st1, r)" for st1 r
    using that assms(1) by (auto simp: remove_def numeral_2_eq_2 remove_with_def bind_eq_Some_conv split: if_splits option.splits)
  then show ?case using Cons by (auto simp: bind_eq_Some_conv)
qed simp

lemma lease_cleanup_silent:
  assumes "handle_lease_cleanup clk st = Some st'" "no_dumped_file st"
  shows "st' = st\<lparr>layout := LeaseCleanup (tv_sec clk) (layout st)\<rparr>"
proof -
  let ?st = "st\<lparr>layout := LeaseCleanup (tv_sec clk) (layout st)\<rparr>"
  from assms(1) obtain fa v where fa: "lookup (metatree st) ROOTFID DUMPSTERDIR = Some (Some fa)" "remove_entries clk (fa_fid fa) v ?st = Some st'"
    by (auto simp: handle_lease_cleanup_def cleanupDumpster_def bind_eq_Some_conv split: option.splits)
  from fa(1) show ?thesis
    by (intro remove_entries_silent [OF _ fa(2)]) (use assms(2) in \<open>auto simp: no_dumped_file_def\<close>)
qed

lemma finish_allocation_effect:
  assumes "s' = finish_allocation clk a s"
  shows "(allocation_line (allocs (ms_loop s') a) = [] \<and> erase R 0 (ms_state s') = erase R 0 (ms_state s) \<and>
      fileID (ms_state s') = fileID (ms_state s)) \<or>
    (let r = allocs (ms_loop s) a in
      allocation_line (allocs (ms_loop s') a) = [LogAllocate (ma_fid r) (ma_offset r) (ma_chunkId r) (ma_chunkVersion r)] \<and>
      assignChunkId clk (ma_fid r) (ma_offset r) (ma_chunkId r) (ma_chunkVersion r) (ms_state s) = (ms_state s', 0))"
proof (cases "ma_status (allocs (ms_loop s) a) = 0")
  case True
  let ?r = "allocs (ms_loop s) a"
  obtain st1 e where as: "assignChunkId clk (ma_fid ?r) (ma_offset ?r) (ma_chunkId ?r) (ma_chunkVersion ?r) (ms_state s) = (st1, e)"
    by force
  have "e \<noteq> 0 \<Longrightarrow> st1 = ms_state s"
    using as by (auto simp: assignChunkId_def Let_def split: option.splits if_splits)
  then show ?thesis
    using True as assms
    by (cases "e = 0") (auto simp: finish_allocation_def set_alloc_def allocation_line_def Let_def)
next
  case False
  then show ?thesis
    using assms
    by (auto simp: finish_allocation_def ChangeIncarnationNumber_def set_alloc_def set_layout_def allocation_line_def Let_def)
qed


lemma handle_truncate_effect:
  assumes "handle_truncate worm env clk f off s = Some (s', e, susp)"
  shows "(\<not> (e = 0 \<and> \<not> susp) \<and> erase R 0 (ms_state s') = erase R 0 (ms_state s) \<and> fileID (ms_state s') = fileID (ms_state s)) \<or>
    (e = 0 \<and> \<not> susp \<and> (\<exists>al. truncate_file clk f off (ms_state s) = Some (ms_state s', 0, al)))"
proof (cases worm)
  case False
  then obtain st1 status al where t: "truncate_file clk f off (ms_state s) = Some (st1, status, al)"
    using assms by (auto simp: handle_truncate_def bind_eq_Some_conv)
  note fid = truncate_fileID [OF t]
  show ?thesis
  proof (cases "0 < status")
    case False
    then have "s' = s\<lparr>ms_state := st1\<rparr>" "e = status" "\<not> susp"
      using assms t \<open>\<not> worm\<close> by (simp_all add: handle_truncate_def)
    then show ?thesis using t fid truncate_waits [OF t] by (cases "status = 0") auto
  next
    case True
    let ?a = "next_alloc s"
    let ?s2 = "set_alloc ?a (new_MetaAllocate f (the al)) (s\<lparr>ms_state := st1, trunc_of := (trunc_of s)(?a \<mapsto> (f, off)), next_alloc := ?a + 1\<rparr>)"
    have st: "start_allocation env ?a ?s2 = Some s'" "susp"
      using assms t \<open>\<not> worm\<close> True
      by (auto simp: handle_truncate_def Let_def handle_allocate_def set_alloc_def new_MetaAllocate_def bind_eq_Some_conv)
    have "\<not> ma_suspended (allocs (ms_loop ?s2) ?a)" by (simp add: set_alloc_def new_MetaAllocate_def)
    from start_allocation_silent [OF st(1) this] st(2) show ?thesis
      using fid truncate_waits [OF t] True by (simp add: set_alloc_def)
  qed
qed (use assms in \<open>simp add: handle_truncate_def\<close>)

lemma meta_step_recovered:
  assumes "meta_step R s ms s'" "matches R b (ms_state s)" "0 \<le> fileID (ms_state s)"
  shows "\<exists>b'. redo_all clk ms b = Some (b', True) \<and> matches R b' (ms_state s') \<and> fileID (ms_state s) \<le> fileID (ms_state s')"
  using assms
proof cases
  case (do_create clk1 d n r ex st' e f)
  then consider "st' = ms_state s" "e \<noteq> 0" | "create clk1 d n 0 r ex (ms_state s) = Some (st', 0, f)" "e = 0"
    using create_failed [OF do_create(4), of 0 r ex st' e f] by (auto simp: handle_create_def split: if_splits)
  then show ?thesis
  proof cases
    case 2
    then show ?thesis
      using create_matches [OF assms(2) do_create(4), of r ex st' f clk] create_redo(1,2) [OF 2(1) do_create(4)] assms(3) do_create(1,2)
      by fastforce
  qed (use do_create assms(2) in auto)
next
  case (do_mkdir clk1 d n st' e f)
  then consider "st' = ms_state s" "e \<noteq> 0" | "mkdir clk1 d n 0 (ms_state s) = Some (st', 0, f)" "e = 0"
    using mkdir_failed [of clk1 d n 0 "ms_state s" st' e f] by (auto simp: handle_mkdir_def split: if_splits)
  then show ?thesis
  proof cases
    case 2
    then show ?thesis
      using mkdir_matches [OF assms(2) 2(1) do_mkdir(4) assms(3), of clk] mkdir_redo(1,2) [OF 2(1) do_mkdir(4)] do_mkdir(1,2)
      by fastforce
  qed (use do_mkdir assms(2) in auto)
next
  case (do_remove worm clk1 d n st' e)
  then consider "st' = ms_state s" "e \<noteq> 0" | "remove clk1 d n (ms_state s) = Some (st', 0)" "e = 0"
    using remove_failed [OF do_remove(4), of st' e] by (auto simp: handle_remove_def split: if_splits)
  then show ?thesis
  proof cases
    case 2
    then show ?thesis
      using remove_matches [OF assms(2) do_remove(4) 2(1), of clk] remove_free_fileID [OF do_remove(4) 2(1)] do_remove(1,2)
      by fastforce
  qed (use do_remove assms(2) in auto)
next
  case (do_rmdir worm d n st' e)
  then consider "st' = ms_state s" "e \<noteq> 0" | "rmdir d n (ms_state s) = Some (st', 0)" "e = 0"
    by (auto simp: handle_rmdir_def split: if_splits elim: rmdir_unlinks)
  then show ?thesis
  proof cases
    case 2
    then show ?thesis
      using rmdir_matches [OF assms(2) 2(1)] rmdir_fileID [OF 2(1)] do_rmdir(1,2) by fastforce
  qed (use do_rmdir assms(2) in auto)
next
  case (do_rename worm clk1 d n new ov st' e)
  then consider "st' = ms_state s" "e \<noteq> 0" | "rename clk1 d n new ov (ms_state s) = Some (st', 0)" "e = 0"
    using rename_failed [OF do_rename(4), of n ov st' e] by (auto simp: handle_rename_def bind_eq_Some_conv split: if_splits)
  then show ?thesis
  proof cases
    case 2
    then show ?thesis
      using rename_matches [OF assms(2) do_rename(4) rename_overwrites [OF 2(1)], of clk] rename_fileID [OF do_rename(4) 2(1)]
        do_rename(1,2)
      by fastforce
  qed (use do_rename assms(2) in auto)
next
  case (do_version_inc n w q)
  then show ?thesis using assms(2) by (simp add: matches_def)
next
  case (do_chunk_size status f c sz st' e)
  then show ?thesis
    using matches_silent [OF assms(2) chunk_size_silent [OF do_chunk_size(3)]] chunk_size_silent [OF do_chunk_size(3)] by simp
next
  case (do_replication f r st' e)
  then show ?thesis
    using matches_silent [OF assms(2) replication_silent [OF do_replication(3,4)]] replication_silent [OF do_replication(3,4)] by simp
next
  case (do_lease_cleanup clk1 st')
  then show ?thesis
    using matches_silent [OF assms(2), of st'] lease_cleanup_silent [OF do_lease_cleanup(3,4)] by simp
next
  case (do_layout L w)
  then show ?thesis using matches_silent [OF assms(2)] by simp
next
  case (do_start a env clk1)
  then have st: "start_allocation env a s = Some s'" by (simp add: handle_allocate_def)
  note silent = start_allocation_silent [OF st do_start(3)]
  let ?r = "allocs (ms_loop s') a"
  have m: "matches R b (ms_state s')" using matches_silent [OF assms(2)] silent by simp
  have "redo clk (LogAllocate (ma_fid ?r) (ma_offset ?r) (ma_chunkId ?r) (ma_chunkVersion ?r)) b = Some (b, True)"
    if "allocation_found (ms_state s) ?r"
    using that erased_queries [OF matchesD(1) [OF assms(2), of 0]]
    by (auto simp: allocation_found_def redo_allocate_def allocateChunkId_def split: option.splits)
  with silent m show ?thesis by (auto simp: do_start(1) allocation_line_def)
next
  case (do_finish a env clk1)
  then have st: "s' = finish_allocation clk1 a s" by (simp add: handle_allocate_def)
  let ?r = "allocs (ms_loop s) a"
  from finish_allocation_effect [OF st, of R] show ?thesis
  proof
    assume "allocation_line (allocs (ms_loop s') a) = [] \<and> erase R 0 (ms_state s') = erase R 0 (ms_state s) \<and>
      fileID (ms_state s') = fileID (ms_state s)"
    then show ?thesis using matches_silent [OF assms(2), of "ms_state s'"] do_finish(1) by simp
  next
    assume "let r = allocs (ms_loop s) a in
      allocation_line (allocs (ms_loop s') a) = [LogAllocate (ma_fid r) (ma_offset r) (ma_chunkId r) (ma_chunkVersion r)] \<and>
      assignChunkId clk1 (ma_fid r) (ma_offset r) (ma_chunkId r) (ma_chunkVersion r) (ms_state s) = (ms_state s', 0)"
    then have line: "ms = [LogAllocate (ma_fid ?r) (ma_offset ?r) (ma_chunkId ?r) (ma_chunkVersion ?r)]"
      and as: "assignChunkId clk1 (ma_fid ?r) (ma_offset ?r) (ma_chunkId ?r) (ma_chunkVersion ?r) (ms_state s) = (ms_state s', 0)"
      by (simp_all add: do_finish(1) Let_def)
    have "fileID (ms_state s') = fileID (ms_state s)"
      using assignChunkId_fields(1) [of clk1 "ma_fid ?r" "ma_offset ?r" "ma_chunkId ?r" "ma_chunkVersion ?r" "ms_state s"] as by simp
    then show ?thesis using allocate_matches [OF assms(2) do_finish(4) as, of clk] by (auto simp: line)
  qed
next
  case (do_truncate worm env clk1 f off e susp)
  from handle_truncate_effect [OF do_truncate(2), of R] show ?thesis
  proof (elim disjE conjE exE)
    fix al
    assume "e = 0" "\<not> susp" and t: "truncate_file clk1 f off (ms_state s) = Some (ms_state s', 0, al)"
    then show ?thesis
      using truncate_matches [OF assms(2) t, of clk] truncate_fileID [OF t] by (auto simp: do_truncate(1) redo_truncate_def)
  next
    assume "\<not> (e = 0 \<and> \<not> susp)" "erase R 0 (ms_state s') = erase R 0 (ms_state s)" "fileID (ms_state s') = fileID (ms_state s)"
    then show ?thesis using matches_silent [OF assms(2), of "ms_state s'"] by (auto simp: do_truncate(1))
  qed
qed

lemma meta_run_recovered:
  assumes "meta_run R s ms s'" "matches R b (ms_state s)" "0 \<le> fileID (ms_state s)"
  shows "\<exists>b'. redo_all clk ms b = Some (b', True) \<and> matches R b' (ms_state s')"
  using assms
proof (induction arbitrary: b)
  case (meta_more s ms s1 ms' s2)
  obtain b1 where b1: "redo_all clk ms b = Some (b1, True)" "matches R b1 (ms_state s1)" "fileID (ms_state s) \<le> fileID (ms_state s1)"
    using meta_step_recovered [OF meta_more.hyps(1) meta_more.prems, of clk] by blast
  from meta_more.IH [OF b1(2)] b1(3) meta_more.prems(2) show ?case by (auto simp: redo_all_append b1(1))
qed auto

end
