(* ===== verification/Meta_Checkpoint.thy ===== *)
theory Meta_Checkpoint
  imports Meta_Recovery
begin

text \<open>
  Checkpoints: the lines that the \<^verbatim>\<open>show\<close> methods of src/src/cc/meta/meta.cc give, the file that
  \<^verbatim>\<open>do_CP\<close> of checkpoint.cc writes, and its parsers in restore.cc. No item is ever marked to be skipped.
  A restore sets, beside the metadata, the sequence number of the log and the log to replay.
\<close>

section \<open>Writing a checkpoint\<close>

definition showtime :: "timeval \<Rightarrow> string" where
  "showtime t = toString (tv_sec t) @ ''/'' @ toString (tv_usec t)"

fun show_item :: "Meta \<Rightarrow> string" where
  "show_item (MetaDentry d) =
     ''dentry/name/'' @ de_name d @ ''/id/'' @ toString (de_fid d) @ ''/parent/'' @ toString (de_dir d)"
| "show_item (MetaFattr f) =
     ''fattr/'' @ type_name (fa_type f) @ ''/id/'' @ toString (fa_fid f) @ ''/chunkcount/'' @
     toString (fa_chunkcount f) @ ''/numReplicas/'' @ toString (fa_numReplicas f) @
     ''/mtime/'' @ showtime (fa_mtime f) @ ''/ctime/'' @ showtime (fa_ctime f) @
     ''/crtime/'' @ showtime (fa_crtime f)"
| "show_item (MetaChunkInfo c) =
     ''chunkinfo/fid/'' @ toString (ci_fid c) @ ''/chunkid/'' @ toString (ci_chunkId c) @
     ''/offset/'' @ toString (ci_offset c) @ ''/chunkVersion/'' @ toString (ci_chunkVersion c)"

definition write_leaves :: "Meta list \<Rightarrow> string" where
  "write_leaves s = concat (map (\<lambda>m. show_item m @ [newline]) s)"

text \<open>\<^verbatim>\<open>ctime\<close> is the text of the time, without its newline.\<close>

definition cp_header :: "seq_t \<Rightarrow> string \<Rightarrow> string \<Rightarrow> MetaState \<Rightarrow> string list" where
  "cp_header highest ctime logname st =
     [''checkpoint/'' @ toString highest, ''version/1'', ''fid/'' @ toString (fileID st),
      ''chunkId/'' @ toString (chunkID st), ''chunkVersionInc/'' @ toString (chunkVersionInc st),
      ''time/'' @ ctime, ''log/'' @ logname, []]"

definition do_CP :: "seq_t \<Rightarrow> string \<Rightarrow> string \<Rightarrow> MetaState \<Rightarrow> string" where
  "do_CP highest ctime logname st =
     concat (map (\<lambda>l. l @ [newline]) (cp_header highest ctime logname st)) @ write_leaves (metatree st)"

section \<open>Reading a checkpoint\<close>

record Restorer =
  rs_state :: MetaState
  rs_seqno :: seq_t
  rs_log :: "string option"

definition checkpoint_seq :: "Restorer parser" where
  "checkpoint_seq c rs =
     (case tl c of
        [] \<Rightarrow> Some (rs, False)
      | v # r \<Rightarrow> Some (rs\<lparr>rs_seqno := toNumber v\<rparr>, 0 \<le> toNumber v))"

definition checkpoint_fid :: "Restorer parser" where
  "checkpoint_fid c rs =
     (case tl c of
        [] \<Rightarrow> Some (rs, False)
      | v # r \<Rightarrow> Some (rs\<lparr>rs_state := (rs_state rs)\<lparr>fileID := toNumber v\<rparr>\<rparr>, 0 < toNumber v))"

definition checkpoint_chunkId :: "Restorer parser" where
  "checkpoint_chunkId c rs =
     (case tl c of
        [] \<Rightarrow> Some (rs, False)
      | v # r \<Rightarrow> Some (rs\<lparr>rs_state := (rs_state rs)\<lparr>chunkID := toNumber v\<rparr>\<rparr>, 0 < toNumber v))"

text \<open>The version is an \<^verbatim>\<open>int\<close> of 32 bits.\<close>

definition checkpoint_version :: "Restorer parser" where
  "checkpoint_version c rs =
     (case tl c of
        [] \<Rightarrow> Some (rs, False)
      | v # r \<Rightarrow> Some (rs, sint (word_of_int (toNumber v) :: 32 word) = 1))"

definition checkpoint_time :: "Restorer parser" where
  "checkpoint_time c rs = assert_then (tl c \<noteq> []) (Some (rs, True))"

definition checkpoint_log :: "Restorer parser" where
  "checkpoint_log c rs = Some (rs\<lparr>rs_log := Some (collect_path (tl c))\<rparr>, True)"

definition restore_version_inc :: "Restorer parser" where
  "restore_version_inc c rs =
     map_option (\<lambda>(st, ok). (rs\<lparr>rs_state := st\<rparr>, ok)) (restore_chunkVersionInc c (rs_state rs))"

definition restore_dentry :: "Restorer parser" where
  "restore_dentry c rs =
     (case do { (name, c1) \<leftarrow> pop_name ''name'' (tl c);
                (i, c2) \<leftarrow> pop_fid ''id'' c1;
                (parent, c3) \<leftarrow> pop_fid ''parent'' c2;
                Some (name, i, parent) } of
        None \<Rightarrow> Some (rs, False)
      | Some (name, i, parent) \<Rightarrow>
          Some (rs\<lparr>rs_state := insert_meta (MetaDentry (new_dentry parent name i)) (rs_state rs)\<rparr>, True))"

definition restored_fattr :: "int \<Rightarrow> FileType \<Rightarrow> fid_t \<Rightarrow> int \<Rightarrow> timeval \<Rightarrow> timeval \<Rightarrow> timeval \<Rightarrow> fattr" where
  "restored_fattr minReplicas t fid numReplicas mtime ctime crtime =
     \<lparr>fa_fid = fid, fa_type = t, fa_numReplicas = max numReplicas minReplicas, fa_mtime = mtime, fa_ctime = ctime,
      fa_crtime = crtime, fa_chunkcount = 0, fa_filesize = (if t = KFS_DIR then 0 else -1)\<rparr>"

definition restore_fattr :: "int \<Rightarrow> Restorer parser" where
  "restore_fattr minReplicas c rs =
     (case do { (type, c1) \<leftarrow> pop_type ''fattr'' c;
                (fid, c2) \<leftarrow> pop_fid ''id'' c1;
                (chunkcount, c3) \<leftarrow> pop_fid ''chunkcount'' c2;
                (numReplicas, c4) \<leftarrow> pop_short ''numReplicas'' c3;
                (mtime, c5) \<leftarrow> pop_time ''mtime'' c4;
                (ctime, c6) \<leftarrow> pop_time ''ctime'' c5;
                (crtime, c7) \<leftarrow> pop_time ''crtime'' c6;
                Some (restored_fattr minReplicas type fid numReplicas mtime ctime crtime) } of
        None \<Rightarrow> Some (rs, False)
      | Some fa \<Rightarrow> Some (rs\<lparr>rs_state := insert_meta (MetaFattr fa) (rs_state rs)\<rparr>, True))"

definition restore_chunk :: "fid_t \<Rightarrow> chunkId_t \<Rightarrow> chunkOff_t \<Rightarrow> seq_t \<Rightarrow> MetaState \<Rightarrow> MetaState option" where
  "restore_chunk fid cid offset version st =
     (let st1 = insert_meta (MetaChunkInfo (new_chunkinfo fid offset cid version)) st in
      assert_then (getFattr (metatree st1) fid \<noteq> None)
        (let st2 = set_fattr fid (\<lambda>f. f\<lparr>fa_chunkcount := fa_chunkcount f + 1\<rparr>) st1 in
         do { L \<leftarrow> AddChunkToServerMapping cid fid None (layout st2); Some (st2\<lparr>layout := L\<rparr>) }))"

definition restore_chunkinfo :: "Restorer parser" where
  "restore_chunkinfo c rs =
     (case do { (fid, c1) \<leftarrow> pop_fid ''fid'' (tl c);
                (cid, c2) \<leftarrow> pop_fid ''chunkid'' c1;
                (offset, c3) \<leftarrow> pop_offset ''offset'' c2;
                (version, c4) \<leftarrow> pop_fid ''chunkVersion'' c3;
                Some (fid, cid, offset, version) } of
        None \<Rightarrow> Some (rs, False)
      | Some (fid, cid, offset, version) \<Rightarrow>
          map_option (\<lambda>st. (rs\<lparr>rs_state := st\<rparr>, True)) (restore_chunk fid cid offset version (rs_state rs)))"

definition restore_table :: "int \<Rightarrow> (string \<times> Restorer parser) list" where
  "restore_table minReplicas =
     [(''checkpoint'', checkpoint_seq), (''version'', checkpoint_version), (''fid'', checkpoint_fid),
      (''chunkId'', checkpoint_chunkId), (''time'', checkpoint_time), (''log'', checkpoint_log),
      (''chunkVersionInc'', restore_version_inc), (''dentry'', restore_dentry),
      (''fattr'', restore_fattr minReplicas), (''chunkinfo'', restore_chunkinfo)]"

definition rebuild :: "nat \<Rightarrow> int \<Rightarrow> string \<Rightarrow> Restorer \<Rightarrow> (Restorer \<times> bool) option option" where
  "rebuild fuel minReplicas cp rs =
     map_option (map_option (\<lambda>(rs1, lineno, is_ok). (rs1, is_ok)))
       (parse_loop fuel (restore_table minReplicas) 0 True (open_stream cp) rs)"

section \<open>A line is restored as the item\<close>

fun restore_item :: "int \<Rightarrow> Meta \<Rightarrow> MetaState \<Rightarrow> MetaState option" where
  "restore_item minReplicas (MetaDentry d) st = Some (insert_meta (MetaDentry d) st)"
| "restore_item minReplicas (MetaFattr f) st =
     Some (insert_meta (MetaFattr (restored_fattr minReplicas (fa_type f) (fa_fid f) (fa_numReplicas f)
       (fa_mtime f) (fa_ctime f) (fa_crtime f))) st)"
| "restore_item minReplicas (MetaChunkInfo c) st =
     restore_chunk (ci_fid c) (ci_chunkId c) (ci_offset c) (ci_chunkVersion c) st"

definition log_time :: "timeval \<Rightarrow> bool" where
  "log_time t \<longleftrightarrow> log_number (tv_sec t) \<and> log_number (tv_usec t)"

text \<open>A name that survives: it is one component. The entries \<^verbatim>\<open>.\<close> and \<^verbatim>\<open>..\<close> are such names.\<close>

definition plain_name :: "string \<Rightarrow> bool" where
  "plain_name n \<longleftrightarrow> n \<noteq> [] \<and> SEPARATOR \<notin> set n \<and> log_chars n"

fun cp_loggable :: "Meta \<Rightarrow> bool" where
  "cp_loggable (MetaDentry d) \<longleftrightarrow> (plain_name (de_name d) \<or> de_name d = ''/'') \<and> log_number (de_fid d) \<and> log_number (de_dir d)"
| "cp_loggable (MetaFattr f) \<longleftrightarrow> fa_type f \<noteq> KFS_NONE \<and> log_number (fa_fid f) \<and> log_number (fa_chunkcount f) \<and>
     0 \<le> fa_numReplicas f \<and> fa_numReplicas f < 2 ^ 15 \<and>
     log_time (fa_mtime f) \<and> log_time (fa_ctime f) \<and> log_time (fa_crtime f)"
| "cp_loggable (MetaChunkInfo c) \<longleftrightarrow>
     log_number (ci_fid c) \<and> log_number (ci_chunkId c) \<and> log_number (ci_offset c) \<and> log_number (ci_chunkVersion c)"

lemma pop_type_name [simp]: "t \<noteq> KFS_NONE \<Longrightarrow> pop_type tag (tag # type_name t # r) = Some (t, r)"
  by (cases t) (simp_all add: pop_type_def)

lemma pop_more [simp]:
  "log_number n \<Longrightarrow> pop_offset tag (tag # toString n # r) = Some (n, r)"
  "log_time t' \<Longrightarrow> pop_time tag (tag # toString (tv_sec t') # toString (tv_usec t') # r) = Some (t', r)"
  "pop_name tag (tag # [] # [] # r) = Some (''/'', r)"
  "n' \<noteq> [] \<Longrightarrow> pop_name tag (tag # n' # r) = Some (n', r)"
  by (simp_all add: pop_offset_def pop_time_def pop_name_def log_time_def log_number_def)

lemma type_name_chars [simp]: "log_chars (type_name t)" "SEPARATOR \<notin> set (type_name t)"
  by (cases t; simp add: log_chars_def)+

lemma show_item_chars: "cp_loggable m \<Longrightarrow> log_chars (show_item m)"
  by (cases m) (auto simp: showtime_def plain_name_def)

lemma show_item_nonempty [simp]: "show_item m \<noteq> []"
  by (cases m) auto

lemma show_item_restored:
  assumes "cp_loggable m"
  shows "DiskEntry_parse (restore_table minReplicas) (show_item m) rs =
    map_option (\<lambda>st. (rs\<lparr>rs_state := st\<rparr>, True)) (restore_item minReplicas m (rs_state rs))"
  unfolding DiskEntry_parse_line [OF show_item_chars [OF assms] show_item_nonempty]
proof (cases m)
  case (MetaDentry d)
  have d: "new_dentry (de_dir d) (de_name d) (de_fid d) = d" using dentry_eq [of d] by simp
  consider "plain_name (de_name d)" | "de_name d = ''/''" using assms MetaDentry by auto
  then have "restore_dentry (split_path SEPARATOR (show_item m)) rs =
    Some (rs\<lparr>rs_state := insert_meta (MetaDentry (new_dentry (de_dir d) (de_name d) (de_fid d))) (rs_state rs)\<rparr>, True)"
    using assms MetaDentry
    by cases (simp_all add: plain_name_def restore_dentry_def split_path_acc split_acc_append split_acc_word)
  then show "(case map_of (restore_table minReplicas) (hd (split_path SEPARATOR (show_item m))) of
      None \<Rightarrow> Some (rs, False) | Some p \<Rightarrow> p (split_path SEPARATOR (show_item m)) rs) =
    map_option (\<lambda>st. (rs\<lparr>rs_state := st\<rparr>, True)) (restore_item minReplicas m (rs_state rs))"
    unfolding d using MetaDentry by (simp add: restore_table_def split_path_acc)
next
  case (MetaFattr f)
  then show "(case map_of (restore_table minReplicas) (hd (split_path SEPARATOR (show_item m))) of
      None \<Rightarrow> Some (rs, False) | Some p \<Rightarrow> p (split_path SEPARATOR (show_item m)) rs) =
    map_option (\<lambda>st. (rs\<lparr>rs_state := st\<rparr>, True)) (restore_item minReplicas m (rs_state rs))"
    using assms by (simp add: restore_table_def restore_fattr_def split_path_acc split_acc_append split_acc_word showtime_def)
next
  case (MetaChunkInfo c)
  then show "(case map_of (restore_table minReplicas) (hd (split_path SEPARATOR (show_item m))) of
      None \<Rightarrow> Some (rs, False) | Some p \<Rightarrow> p (split_path SEPARATOR (show_item m)) rs) =
    map_option (\<lambda>st. (rs\<lparr>rs_state := st\<rparr>, True)) (restore_item minReplicas m (rs_state rs))"
    using assms by (simp add: restore_table_def restore_chunkinfo_def split_path_acc split_acc_append split_acc_word)
qed

end
