(* ===== verification/Meta_Restart.thy ===== *)
theory Meta_Restart
  imports Meta_Contract Meta_Checkpoint
begin

text \<open>
  Restart. A checkpoint written by \<^verbatim>\<open>do_CP\<close> is read back by \<^verbatim>\<open>rebuild\<close> as the same name space; the logs
  are replayed by \<^verbatim>\<open>playAllLogs\<close> (src/src/cc/meta/replay.cc) as the requests that were logged. Two
  theorems at the end are about logs that the server writes and cannot read.
\<close>

section \<open>What the items of a checkpoint restore\<close>

fun restore_items :: "int \<Rightarrow> Meta list \<Rightarrow> MetaState \<Rightarrow> MetaState option" where
  "restore_items minReplicas [] st = Some st"
| "restore_items minReplicas (m # s) st = Option.bind (restore_item minReplicas m st) (restore_items minReplicas s)"

definition reopened :: "int \<Rightarrow> fattr \<Rightarrow> fattr" where
  "reopened minReplicas a =
     a\<lparr>fa_numReplicas := max (fa_numReplicas a) minReplicas, fa_filesize := (if fa_type a = KFS_DIR then 0 else -1)\<rparr>"

definition reopened_ns :: "int \<Rightarrow> NameSpace \<Rightarrow> NameSpace" where
  "reopened_ns minReplicas N = N\<lparr>ns_fattr := \<lambda>f. map_option (reopened minReplicas) (ns_fattr N f)\<rparr>"

text \<open>The name space after a part of the items: files count the chunks restored so far.\<close>

definition counted :: "int \<Rightarrow> store \<Rightarrow> NameSpace" where
  "counted minReplicas p =
     \<lparr>ns_fattr = \<lambda>f. map_option (\<lambda>a. (reopened minReplicas a)
        \<lparr>fa_chunkcount := int (card (chunk_offsets (chunk_of p) f))\<rparr>) (fattr_of p f),
      ns_entry = entry_of p, ns_chunk = chunk_of p\<rparr>"

lemma item_snoc: "item p (ident m) = None \<Longrightarrow> item (p @ [m]) = (item p)(ident m \<mapsto> m)"
proof (rule ext)
  fix i
  assume a: "item p (ident m) = None"
  then show "item (p @ [m]) i = ((item p)(ident m \<mapsto> m)) i"
    by (induction p) (auto simp: item_def)
qed

lemma uniq_snoc: "uniq (p @ m # r) \<Longrightarrow> item p (ident m) = None"
  by (auto simp: uniq_def item_None_iff)

lemma finite_chunk_offsets: "finite (chunk_offsets (chunk_of p) f)"
proof -
  have "chunk_offsets (chunk_of p) f \<subseteq> (\<lambda>m. kdata2 (meta_key m)) ` set p"
  proof
    fix off
    assume "off \<in> chunk_offsets (chunk_of p) f"
    then obtain m where "item p (Key KFS_CHUNKINFO f off, []) = Some m"
      by (auto simp: chunk_offsets_def chunk_of_def bind_eq_Some_conv)
    from item_mem [OF this] have m: "m \<in> set p" "ident m = (Key KFS_CHUNKINFO f off, [])" by auto
    from m(2) have "kdata2 (meta_key m) = off" by (cases m) simp_all
    with m(1) show "off \<in> (\<lambda>m. kdata2 (meta_key m)) ` set p" by blast
  qed
  then show ?thesis by (rule finite_subset) simp
qed


definition counters :: "MetaState \<Rightarrow> seq_t \<times> seq_t \<times> seq_t \<times> int" where
  "counters st = (fileID st, chunkID st, chunkVersionInc st, dumpster_counter st)"

definition restoring :: "int \<Rightarrow> store \<Rightarrow> MetaState \<Rightarrow> MetaState \<Rightarrow> bool" where
  "restoring minReplicas p st0 st \<longleftrightarrow> in_ns st (counted minReplicas p) \<and>
     counters st = counters st0 \<and>
     (\<forall>c. MetaChunkInfo c \<in> set p \<longrightarrow> (\<exists>f. placement (layout st) (ci_chunkId c) =
        Some (new_ChunkPlacementInfo\<lparr>cp_fid := f\<rparr>)))"

lemma in_ns_layout [simp]: "in_ns (st\<lparr>layout := L\<rparr>) N = in_ns st N"
  by (simp add: in_ns_def names_def)

lemma chunk_offsets_upd:
  "chunk_offsets (ch((f, off) \<mapsto> c)) g = (if g = f then insert off (chunk_offsets ch f) else chunk_offsets ch g)"
  by (auto simp: chunk_offsets_def)

lemma counted_chunk:
  assumes "item p (ident (MetaChunkInfo c)) = None" "in_ns st (counted minReplicas p)" "ci_offset c \<noteq> MATCH_ANY"
  shows "in_ns (set_fattr (ci_fid c) (\<lambda>f. f\<lparr>fa_chunkcount := fa_chunkcount f + 1\<rparr>) (insert_meta (MetaChunkInfo c) st))
    (counted minReplicas (p @ [MetaChunkInfo c]))"
proof -
  let ?N = "counted minReplicas p" and ?g = "\<lambda>f. f\<lparr>fa_chunkcount := fa_chunkcount f + 1\<rparr> :: fattr"
  have new: "chunk_of p (ci_fid c, ci_offset c) = None" using assms(1) by (simp add: chunk_of_def)
  have "in_ns (insert_meta (MetaChunkInfo c) st) (?N\<lparr>ns_chunk := (ns_chunk ?N)((ci_fid c, ci_offset c) \<mapsto> c)\<rparr>)"
    using insert_chunk_ns [OF assms(2) _ assms(3)] new by (simp add: counted_def)
  from set_fattr_ns [OF this, of ?g "ci_fid c"]
  have "in_ns (set_fattr (ci_fid c) ?g (insert_meta (MetaChunkInfo c) st))
    (?N\<lparr>ns_chunk := (ns_chunk ?N)((ci_fid c, ci_offset c) \<mapsto> c),
        ns_fattr := (ns_fattr ?N)(ci_fid c := map_option ?g (ns_fattr ?N (ci_fid c)))\<rparr>)" by simp
  moreover have "item (p @ [MetaChunkInfo c]) = (item p)((Key KFS_CHUNKINFO (ci_fid c) (ci_offset c), []) := Some (MetaChunkInfo c))"
    using item_snoc [OF assms(1)] by simp
  note v = views_put_chunk [OF this]
  have "ci_offset c \<notin> chunk_offsets (chunk_of p) (ci_fid c)" using new by (simp add: chunk_offsets_def)
  then have "card (chunk_offsets (chunk_of (p @ [MetaChunkInfo c])) f) =
      (if f = ci_fid c then Suc else (\<lambda>n. n)) (card (chunk_offsets (chunk_of p) f))" for f
    using finite_chunk_offsets by (simp add: v(1) chunk_offsets_upd)
  then have "?N\<lparr>ns_chunk := (ns_chunk ?N)((ci_fid c, ci_offset c) \<mapsto> c),
        ns_fattr := (ns_fattr ?N)(ci_fid c := map_option ?g (ns_fattr ?N (ci_fid c)))\<rparr> =
      counted minReplicas (p @ [MetaChunkInfo c])"
    by (auto simp: counted_def v fun_eq_iff option.map_comp o_def intro!: option.map_cong)
  ultimately show ?thesis by simp
qed

lemma counted_fattr:
  assumes "item p (ident (MetaFattr a)) = None" "in_ns st (counted minReplicas p)"
    "chunk_offsets (chunk_of p) (fa_fid a) = {}"
  shows "in_ns (insert_meta (MetaFattr (restored_fattr minReplicas (fa_type a) (fa_fid a) (fa_numReplicas a)
       (fa_mtime a) (fa_ctime a) (fa_crtime a))) st) (counted minReplicas (p @ [MetaFattr a]))"
proof -
  let ?N = "counted minReplicas p"
  let ?a = "restored_fattr minReplicas (fa_type a) (fa_fid a) (fa_numReplicas a) (fa_mtime a) (fa_ctime a) (fa_crtime a)"
  have fid: "fa_fid ?a = fa_fid a" by (simp add: restored_fattr_def)
  have "fattr_of p (fa_fid a) = None" using assms(1) by (simp add: fattr_of_def)
  then have "in_ns (insert_meta (MetaFattr ?a) st) (?N\<lparr>ns_fattr := (ns_fattr ?N)(fa_fid a \<mapsto> ?a)\<rparr>)"
    using insert_fattr_ns [OF assms(2), of ?a] by (simp add: counted_def fid)
  moreover have "item (p @ [MetaFattr a]) = (item p)((Key KFS_FATTR (fa_fid a) 0, []) := Some (MetaFattr a))"
    using item_snoc [OF assms(1)] by simp
  note v = views_put_fattr [OF this]
  have "?a = (reopened minReplicas a)\<lparr>fa_chunkcount := 0\<rparr>" by (simp add: restored_fattr_def reopened_def)
  then have "?N\<lparr>ns_fattr := (ns_fattr ?N)(fa_fid a \<mapsto> ?a)\<rparr> = counted minReplicas (p @ [MetaFattr a])"
    using assms(3) by (auto simp: counted_def v fun_eq_iff)
  ultimately show ?thesis by simp
qed

lemma counted_dentry:
  assumes "item p (ident (MetaDentry d)) = None" "in_ns st (counted minReplicas p)"
  shows "in_ns (insert_meta (MetaDentry d) st) (counted minReplicas (p @ [MetaDentry d]))"
proof -
  let ?N = "counted minReplicas p"
  have "item (p @ [MetaDentry d]) = (item p)(ident (MetaDentry d) := Some (MetaDentry d))"
    using item_snoc [OF assms(1)] by simp
  note v = views_put_dentry [OF this disjI2 [OF refl]]
  have "entry_of p (de_dir d, de_name d) = None" using assms(1) by (simp add: entry_of_def)
  then have "in_ns (insert_meta (MetaDentry d) st) (?N\<lparr>ns_entry := (ns_entry ?N)((de_dir d, de_name d) \<mapsto> de_fid d)\<rparr>)"
    using insert_dentry_ns [OF assms(2), of "de_dir d" "de_name d" "de_fid d"]
    by (simp add: counted_def flip: dentry_eq)
  moreover have "?N\<lparr>ns_entry := (ns_entry ?N)((de_dir d, de_name d) \<mapsto> de_fid d)\<rparr> = counted minReplicas (p @ [MetaDentry d])"
    by (simp add: counted_def v)
  ultimately show ?thesis by simp
qed


lemma restore_item_step:
  assumes r: "restoring minReplicas p st0 st" and new: "item p (ident m) = None" and ex: "exact (meta_key m)"
    and before: "\<And>a. m = MetaFattr a \<Longrightarrow> chunk_offsets (chunk_of p) (fa_fid a) = {}"
    and owned: "\<And>c. m = MetaChunkInfo c \<Longrightarrow> fattr_of p (ci_fid c) \<noteq> None"
  obtains st' where "restore_item minReplicas m st = Some st'" "restoring minReplicas (p @ [m]) st0 st'"
proof (cases m)
  case (MetaDentry d)
  then show ?thesis
    using that [of "insert_meta m st"] r counted_dentry [of p d st minReplicas] new
    by (auto simp: restoring_def insert_meta_def counters_def)
next
  case (MetaFattr a)
  let ?a = "restored_fattr minReplicas (fa_type a) (fa_fid a) (fa_numReplicas a) (fa_mtime a) (fa_ctime a) (fa_crtime a)"
  show ?thesis
    using that [of "insert_meta (MetaFattr ?a) st"] r counted_fattr [of p a st minReplicas] new before MetaFattr
    by (auto simp: restoring_def insert_meta_def counters_def)
next
  case (MetaChunkInfo c)
  let ?st1 = "insert_meta (MetaChunkInfo c) st"
  let ?st2 = "set_fattr (ci_fid c) (\<lambda>f. f\<lparr>fa_chunkcount := fa_chunkcount f + 1\<rparr>) ?st1"
  let ?L = "set_placement (ci_chunkId c) (new_ChunkPlacementInfo\<lparr>cp_fid := ci_fid c\<rparr>) (layout st)"
  have off: "ci_offset c \<noteq> MATCH_ANY" using ex MetaChunkInfo by (simp add: exact_def)
  have ns: "in_ns st (counted minReplicas p)" using r by (simp add: restoring_def)
  have c: "new_chunkinfo (ci_fid c) (ci_offset c) (ci_chunkId c) (ci_chunkVersion c) = c"
    by (simp add: new_chunkinfo_def)
  have ns2: "in_ns ?st2 (counted minReplicas (p @ [m]))"
    using counted_chunk [OF _ ns off] new MetaChunkInfo by simp
  have "ns_fattr (counted minReplicas (p @ [m])) (ci_fid c) \<noteq> None"
    using owned [OF MetaChunkInfo] views_put_chunk(3) [of "p @ [m]" p "ci_fid c" "ci_offset c"]
      item_snoc [OF new] MetaChunkInfo by (simp add: counted_def)
  then have "getFattr (metatree ?st1) (ci_fid c) \<noteq> None"
    using getFattr_ns [OF ns] owned [OF MetaChunkInfo] by (simp add: getFattr_insert_chunk counted_def)
  moreover have lay: "layout ?st2 = layout st" by (simp add: set_fattr_def insert_meta_def)
  ultimately have "restore_item minReplicas m st = Some (?st2\<lparr>layout := ?L\<rparr>)"
    using MetaChunkInfo by (simp add: restore_chunk_def c Let_def AddChunkToServerMapping_def)
  moreover have "restoring minReplicas (p @ [m]) st0 (?st2\<lparr>layout := ?L\<rparr>)"
    unfolding restoring_def
  proof (intro conjI allI impI)
    show "in_ns (?st2\<lparr>layout := ?L\<rparr>) (counted minReplicas (p @ [m]))" using ns2 by simp
    show "counters (?st2\<lparr>layout := ?L\<rparr>) = counters st0"
      using r by (simp add: restoring_def counters_def set_fattr_def insert_meta_def)
    fix e
    assume "MetaChunkInfo e \<in> set (p @ [m])"
    then show "\<exists>f. placement (layout (?st2\<lparr>layout := ?L\<rparr>)) (ci_chunkId e) = Some (new_ChunkPlacementInfo\<lparr>cp_fid := f\<rparr>)"
      using r MetaChunkInfo by (auto simp: restoring_def)
  qed
  ultimately show ?thesis by (rule that)
qed

lemma restore_items_step:
  assumes "restoring minReplicas p st0 st" "store_ok (p @ s)"
    "\<And>c. MetaChunkInfo c \<in> set s \<Longrightarrow> fattr_of (p @ s) (ci_fid c) \<noteq> None"
  shows "\<exists>st'. restore_items minReplicas s st = Some st' \<and> restoring minReplicas (p @ s) st0 st'"
  using assms
proof (induction s arbitrary: p st)
  case (Cons m s)
  have u: "uniq (p @ m # s)" and sorted: "sorted (map meta_key (p @ m # s))" and ex: "exact (meta_key m)"
    using Cons.prems(2) by (auto simp: store_ok_def list_inv_def)
  have "\<exists>st'. restore_item minReplicas m st = Some st' \<and> restoring minReplicas (p @ [m]) st0 st'"
  proof (rule restore_item_step [OF Cons.prems(1) uniq_snoc [OF u] ex])
    show "chunk_offsets (chunk_of p) (fa_fid a) = {}" if "m = MetaFattr a" for a
      using sorted that
      by (fastforce simp: chunk_offsets_def chunk_of_def bind_eq_Some_conv sorted_append less_eq_Key_def less_Key_def
        dest!: item_mem elim: as_chunkinfo.elims)
    show "fattr_of p (ci_fid c) \<noteq> None" if m: "m = MetaChunkInfo c" for c
    proof -
      obtain a where "fattr_of (p @ m # s) (ci_fid c) = Some a" using Cons.prems(3) [of c] m by auto
      then have a: "MetaFattr a \<in> set (p @ m # s)" "fa_fid a = ci_fid c" using fattr_of_iff [OF u] by auto
      then have "MetaFattr a \<in> set p"
        using sorted m by (auto simp: sorted_append less_eq_Key_def less_Key_def)
      moreover have "uniq p" using u by (simp add: uniq_def)
      ultimately show ?thesis using fattr_of_iff a(2) by fastforce
    qed
  qed blast
  then obtain st' where st': "restore_item minReplicas m st = Some st'" "restoring minReplicas (p @ [m]) st0 st'"
    by blast
  from Cons.IH [OF st'(2)] Cons.prems show ?case by (simp add: st'(1))
qed simp


section \<open>The whole file\<close>

lemma parse_lines_append:
  "parse_lines table (ls @ ls') st =
     Option.bind (parse_lines table ls st) (\<lambda>(st1, ok). if ok then parse_lines table ls' st1 else Some (st1, False))"
  by (induction ls arbitrary: st) (auto split: option.split)

lemma show_items_restored:
  assumes "\<forall>m\<in>set s. cp_loggable m"
  shows "parse_lines (restore_table minReplicas) (map show_item s) rs =
    map_option (\<lambda>st. (rs\<lparr>rs_state := st\<rparr>, True)) (restore_items minReplicas s (rs_state rs))"
  using assms
proof (induction s arbitrary: rs)
  case (Cons m s)
  then show ?case
    by (cases "restore_item minReplicas m (rs_state rs)") (simp_all add: show_item_restored del: parse_lines.simps(1))
qed simp

text \<open>What the header needs: positive generators, text without newlines, lines that fit the buffer.\<close>

definition header_ok :: "seq_t \<Rightarrow> string \<Rightarrow> string \<Rightarrow> MetaState \<Rightarrow> bool" where
  "header_ok highest ctime logname st \<longleftrightarrow> 0 \<le> highest \<and> highest < 2 ^ 63 \<and> log_chars ctime \<and> log_chars logname \<and>
     0 < fileID st \<and> fileID st < 2 ^ 63 \<and> 0 < chunkID st \<and> chunkID st < 2 ^ 63 \<and>
     1 \<le> chunkVersionInc st \<and> chunkVersionInc st < 2 ^ 63 \<and>
     (\<forall>l\<in>set (cp_header highest ctime logname st). length l < MAXLINE)"

definition header_state :: "seq_t \<Rightarrow> string \<Rightarrow> MetaState \<Rightarrow> Restorer \<Rightarrow> Restorer" where
  "header_state highest logname st rs =
     rs\<lparr>rs_seqno := highest, rs_log := Some logname,
        rs_state := (rs_state rs)\<lparr>fileID := fileID st, chunkID := chunkID st, chunkVersionInc := chunkVersionInc st\<rparr>\<rparr>"

lemma number_line:
  assumes "log_chars tag" "SEPARATOR \<notin> set tag" "map_of table tag = Some p"
  shows "DiskEntry_parse table (tag @ ''/'' @ toString n) rs = p [tag, toString n] rs"
  using assms DiskEntry_parse_line [of "tag @ ''/'' @ toString n" table rs] by simp

lemma text_line:
  assumes "log_chars tag" "SEPARATOR \<notin> set tag" "map_of table tag = Some p" "log_chars s"
  shows "DiskEntry_parse table (tag @ ''/'' @ s) rs = p (tag # split_path SEPARATOR s) rs"
  using assms DiskEntry_parse_line [of "tag @ ''/'' @ s" table rs] by simp

lemma header_restored:
  assumes "header_ok highest ctime logname st"
  shows "parse_lines (restore_table minReplicas) (cp_header highest ctime logname st) rs =
    Some (header_state highest logname st rs, True)"
proof -
  let ?P = "DiskEntry_parse (restore_table minReplicas)"
  have seq: "?P (''checkpoint/'' @ toString highest) r = checkpoint_seq [''checkpoint'', toString highest] r" for r
    using number_line [of "''checkpoint''" "restore_table minReplicas"] by (simp add: restore_table_def)
  have ver: "?P ''version/1'' r = checkpoint_version [''version'', ''1''] r" for r
    using text_line [of "''version''" "restore_table minReplicas" _ "''1''"] by (simp add: restore_table_def split_path_acc)
  have fid: "?P (''fid/'' @ toString n) r = checkpoint_fid [''fid'', toString n] r" for r n
    using number_line [of "''fid''" "restore_table minReplicas"] by (simp add: restore_table_def)
  have cid: "?P (''chunkId/'' @ toString n) r = checkpoint_chunkId [''chunkId'', toString n] r" for r n
    using number_line [of "''chunkId''" "restore_table minReplicas"] by (simp add: restore_table_def)
  have inc: "?P (''chunkVersionInc/'' @ toString n) r = restore_version_inc [''chunkVersionInc'', toString n] r" for r n
    using number_line [of "''chunkVersionInc''" "restore_table minReplicas"] by (simp add: restore_table_def)
  have tim: "?P (''time/'' @ ctime) r = checkpoint_time (''time'' # split_path SEPARATOR ctime) r" for r
    using text_line [of "''time''" "restore_table minReplicas" _ ctime] assms by (simp add: restore_table_def header_ok_def)
  have log: "?P (''log/'' @ logname) r = checkpoint_log (''log'' # split_path SEPARATOR logname) r" for r
    using text_line [of "''log''" "restore_table minReplicas" _ logname] assms by (simp add: restore_table_def header_ok_def)
  have nil: "?P [] r = Some (r, True)" for r by (simp add: DiskEntry_parse_def)
  have one: "toNumber ''1'' = 1" by code_simp
  show ?thesis
    unfolding cp_header_def parse_lines.simps seq ver fid cid inc tim log nil
    using assms one
    by (simp add: header_ok_def header_state_def checkpoint_seq_def checkpoint_version_def checkpoint_fid_def checkpoint_chunkId_def
      restore_version_inc_def restore_chunkVersionInc_def checkpoint_time_def checkpoint_log_def)
qed


lemma header_chars:
  "header_ok highest ctime logname st \<Longrightarrow> l \<in> set (cp_header highest ctime logname st) \<Longrightarrow> log_chars l"
  by (auto simp: header_ok_def cp_header_def)

lemma do_CP_lines: "do_CP highest ctime logname st =
    file_lines (cp_header highest ctime logname st @ map show_item (metatree st))"
  by (simp add: do_CP_def file_lines_def write_leaves_def comp_def)

lemma reopened_sel [simp]:
  "fa_fid (reopened k a) = fa_fid a" "fa_type (reopened k a) = fa_type a" "fa_chunkcount (reopened k a) = fa_chunkcount a"
  by (simp_all add: reopened_def)

lemma reopened_ns_sel [simp]:
  "ns_entry (reopened_ns k N) = ns_entry N" "ns_chunk (reopened_ns k N) = ns_chunk N"
  "ns_fattr (reopened_ns k N) f = map_option (reopened k) (ns_fattr N f)"
  by (simp_all add: reopened_ns_def)

lemma reopened_in [simp]:
  "dir_in (reopened_ns k N) d = dir_in N d" "file_in (reopened_ns k N) d = file_in N d"
  by (auto simp: dir_in_def file_in_def)

lemma reopened_parts:
  "links_ok (reopened_ns k N) = links_ok N" "dirs_ok (reopened_ns k N) = dirs_ok N"
  "parents_ok (reopened_ns k N) = parents_ok N" "one_name (reopened_ns k N) = one_name N"
  "chunks_ok (reopened_ns k N) = chunks_ok N" "root_ok (reopened_ns k N) = root_ok N"
  "files_legal (reopened_ns k N) = files_legal N"
  by (simp_all add: ns_defs files_legal_def del: not_None_eq)

lemma reopened_fattrs: "fattrs_ok N \<Longrightarrow> fattrs_ok (reopened_ns k N)"
  unfolding fattrs_ok_def
proof (intro allI impI)
  fix f a
  assume ok: "\<forall>f a. ns_fattr N f = Some a \<longrightarrow> fa_fid a = f \<and> fa_type a \<in> {KFS_FILE, KFS_DIR} \<and>
     finite (chunk_offsets (ns_chunk N) f) \<and> fa_chunkcount a = int (card (chunk_offsets (ns_chunk N) f))"
    and "ns_fattr (reopened_ns k N) f = Some a"
  then obtain b where "ns_fattr N f = Some b" "a = reopened k b" by auto
  with ok [rule_format, of f b] show "fa_fid a = f \<and> fa_type a \<in> {KFS_FILE, KFS_DIR} \<and>
     finite (chunk_offsets (ns_chunk (reopened_ns k N)) f) \<and>
     fa_chunkcount a = int (card (chunk_offsets (ns_chunk (reopened_ns k N)) f))" by simp
qed

lemma reopened_good: "ns_good n N \<Longrightarrow> ns_good n (reopened_ns k N)"
  using reopened_fattrs [of N k] by (simp add: ns_good_def ns_ok_def reopened_parts ids_below_def)

lemma counted_all: "ns_ok (names st) \<Longrightarrow> counted k (metatree st) = reopened_ns k (names st)"
proof -
  assume ok: "ns_ok (names st)"
  have "(reopened k a)\<lparr>fa_chunkcount := int (card (chunk_offsets (chunk_of (metatree st)) f))\<rparr> = reopened k a"
    if "fattr_of (metatree st) f = Some a" for f a
    using ns_okD(9) [OF ok, of f a] that by (simp add: reopened_def)
  then show ?thesis
    by (auto simp: counted_def reopened_ns_def names_def fun_eq_iff intro!: option.map_cong)
qed

definition Restorer_start :: "LayoutManager \<Rightarrow> Restorer" where
  "Restorer_start L = \<lparr>rs_state = initial_state L, rs_seqno = 0, rs_log = None\<rparr>"

text \<open>
  C7. A checkpoint round trip: \<^verbatim>\<open>rebuild\<close> accepts what \<^verbatim>\<open>do_CP\<close> wrote of a sound name space whose lines fit
  the line buffer, and gives a sound name space with the same entries and chunks and the same
  attributes (chunk counts recomputed; only the size cache is reset and the replication raised to
  the minimum), the same id generators, the sequence number and the log to go on with; every chunk
  is in the layout manager's map, without servers.
\<close>

theorem checkpoint_restored:
  assumes "ns_inv st" "header_ok highest ctime logname st"
    and items: "\<forall>m\<in>set (metatree st). cp_loggable m \<and> length (show_item m) < MAXLINE"
    and fuel: "length (metatree st) + 10 \<le> fuel"
  shows "\<exists>rs. rebuild fuel minReplicas (do_CP highest ctime logname st) (Restorer_start L) = Some (Some (rs, True)) \<and>
    ns_inv (rs_state rs) \<and> names (rs_state rs) = reopened_ns minReplicas (names st) \<and>
    fileID (rs_state rs) = fileID st \<and> chunkID (rs_state rs) = chunkID st \<and>
    chunkVersionInc (rs_state rs) = chunkVersionInc st \<and> rs_seqno rs = highest \<and> rs_log rs = Some logname \<and>
    (\<forall>c. MetaChunkInfo c \<in> set (metatree st) \<longrightarrow>
       (\<exists>f. placement (layout (rs_state rs)) (ci_chunkId c) = Some (new_ChunkPlacementInfo\<lparr>cp_fid := f\<rparr>)))"
proof -
  let ?t = "restore_table minReplicas" and ?h = "cp_header highest ctime logname st" and ?s = "metatree st"
  let ?rs = "header_state highest logname st (Restorer_start L)"
  have ok: "store_ok ?s" "ns_ok (names st)" using assms(1) by (auto simp: ns_inv_def ns_good_def)
  have "restoring minReplicas [] (rs_state ?rs) (rs_state ?rs)"
    by (simp add: restoring_def in_ns_iff header_state_def Restorer_start_def initial_state_def counted_def store_ok_def
      list_inv_def uniq_def item_def fattr_of_def entry_of_def chunk_of_def fun_eq_iff)
  moreover have "fattr_of ?s (ci_fid c) \<noteq> None" if "MetaChunkInfo c \<in> set ?s" for c
  proof -
    have "ns_chunk (names st) (ci_fid c, ci_offset c) = Some c" using chunk_of_iff [of ?s] ok(1) that by simp
    from ns_okD(6) [OF ok(2) this] show ?thesis by (auto simp: file_in_def)
  qed
  ultimately obtain st' where st': "restore_items minReplicas ?s (rs_state ?rs) = Some st'"
    "restoring minReplicas ?s (rs_state ?rs) st'"
    using restore_items_step [of minReplicas "[]" "rs_state ?rs" "rs_state ?rs" ?s] ok(1) by auto
  have "parse_lines ?t (?h @ map show_item ?s) (Restorer_start L) = Some (?rs\<lparr>rs_state := st'\<rparr>, True)"
    using header_restored [OF assms(2)] show_items_restored [of ?s minReplicas ?rs] items st'(1)
    by (simp add: parse_lines_append)
  moreover have "\<forall>l\<in>set (?h @ map show_item ?s). log_chars l \<and> length l < MAXLINE"
    using header_chars [OF assms(2)] assms(2) items show_item_chars by (auto simp: header_ok_def)
  moreover have "length (?h @ map show_item ?s) + 2 \<le> fuel" using fuel by (simp add: cp_header_def)
  ultimately have "rebuild fuel minReplicas (do_CP highest ctime logname st) (Restorer_start L) =
      Some (Some (?rs\<lparr>rs_state := st'\<rparr>, True))"
    using parse_loop_lines [of "?h @ map show_item ?s" fuel ?t 0 "Restorer_start L"]
    by (auto simp: rebuild_def do_CP_lines)
  moreover have "in_ns st' (reopened_ns minReplicas (names st))" "counters st' = counters (rs_state ?rs)"
    using st'(2) counted_all [OF ok(2)] by (simp_all add: restoring_def)
  moreover have "fileID st' = fileID st" "chunkID st' = chunkID st" "chunkVersionInc st' = chunkVersionInc st"
    using calculation(3) by (simp_all add: counters_def header_state_def)
  moreover have "ns_inv st'"
    using ns_invI [OF calculation(2)] reopened_good [of "fileID st" "names st"] assms(1) calculation(4)
    by (simp add: ns_inv_def)
  ultimately show ?thesis
    using st'(2) by (auto simp: restoring_def in_ns_def header_state_def)
qed


lemma ns_inv_counters [simp]: "ns_inv (st\<lparr>chunkID := i, chunkVersionInc := v\<rparr>) = ns_inv st"
  by (simp add: ns_inv_def names_def)

definition sample_cp_fs :: MetaState where
  "sample_cp_fs = sample_busy_fs\<lparr>chunkID := 7, chunkVersionInc := 1\<rparr>"

lemma sample_cp_fs_ok:
  "ns_inv sample_cp_fs"
  "header_ok 12 ''Thu Jan  1 00:01:40 1970'' ''./kfslog/log.3'' sample_cp_fs"
  "\<forall>m\<in>set (metatree sample_cp_fs). cp_loggable m \<and> length (show_item m) < MAXLINE"
  "length (metatree sample_cp_fs) = 11"
proof -
  show "ns_inv sample_cp_fs" by (simp add: sample_cp_fs_def sample_busy_fs_ok(1))
  show "header_ok 12 ''Thu Jan  1 00:01:40 1970'' ''./kfslog/log.3'' sample_cp_fs"
    by code_simp
  show "\<forall>m\<in>set (metatree sample_cp_fs). cp_loggable m \<and> length (show_item m) < MAXLINE"
    by code_simp
  show "length (metatree sample_cp_fs) = 11" by code_simp
qed


theorem checkpoint_restored_witness:
  "\<exists>rs. rebuild 22 3 (do_CP 12 ''Thu Jan  1 00:01:40 1970'' ''./kfslog/log.3'' sample_cp_fs)
      (Restorer_start (new_LayoutManager (\<lambda>_. new_ChunkServer))) = Some (Some (rs, True)) \<and>
    ns_inv (rs_state rs) \<and> ns_entry (names (rs_state rs)) (ROOTFID, ''a'') = Some 3 \<and>
    rs_log rs = Some ''./kfslog/log.3'' \<and>
    (\<exists>f. placement (layout (rs_state rs)) 7 = Some (new_ChunkPlacementInfo\<lparr>cp_fid := f\<rparr>))"
proof -
  have "entry_of (metatree sample_cp_fs) (ROOTFID, ''a'') = Some 3" by code_simp
  moreover have "new_chunkinfo 3 0 7 1 \<in> set (List.map_filter as_chunkinfo (metatree sample_cp_fs))" by code_simp
  then have "MetaChunkInfo (new_chunkinfo 3 0 7 1) \<in> set (metatree sample_cp_fs)"
    by (auto simp: set_map_filter elim: as_chunkinfo.elims)
  moreover have "length (metatree sample_cp_fs) + 10 \<le> 22" by (simp add: sample_cp_fs_ok(4))
  ultimately show ?thesis
    using checkpoint_restored [OF sample_cp_fs_ok(1-3), of 22 3 "new_LayoutManager (\<lambda>_. new_ChunkServer)"]
    by fastforce
qed


section \<open>Replaying all logs\<close>

text \<open>
  \<^verbatim>\<open>playAllLogs\<close> of replay.cc: \<^verbatim>\<open>logs\<close> gives the text of a log file that exists, \<^verbatim>\<open>number\<close> is the first
  one to play (negative when no checkpoint named a log). The result has the state, the number that
  \<^verbatim>\<open>openlog\<close> left, the sequence number of the logger and the status. The fuel bounds the number of files
  and the lines of each.
\<close>

fun play_from ::
  "nat \<Rightarrow> nat \<Rightarrow> timeval \<Rightarrow> (int \<Rightarrow> string option) \<Rightarrow> int \<Rightarrow> int \<Rightarrow> seq_t \<Rightarrow> seq_t \<Rightarrow> MetaState \<Rightarrow>
   (MetaState \<times> int \<times> seq_t \<times> int) option option" where
  "play_from 0 fuel clk logs i lognum checkpointed seqno st = None"
| "play_from (Suc n) fuel clk logs i lognum checkpointed seqno st =
     (case logs i of
        None \<Rightarrow> Some (Some (st, lognum, seqno, 0))
      | Some txt \<Rightarrow>
          (case playlog fuel clk txt checkpointed st of
             None \<Rightarrow> None
           | Some None \<Rightarrow> Some None
           | Some (Some (st1, seqno1, status)) \<Rightarrow>
               if status < 0 then Some (Some (st1, i, seqno1, status))
               else play_from n fuel clk logs (i + 1) i checkpointed seqno1 st1))"

definition playAllLogs ::
  "nat \<Rightarrow> timeval \<Rightarrow> (int \<Rightarrow> string option) \<Rightarrow> int \<Rightarrow> seq_t \<Rightarrow> MetaState \<Rightarrow>
   (MetaState \<times> int \<times> seq_t \<times> int) option option" where
  "playAllLogs fuel clk logs lognum checkpointed st =
     (if lognum < 0 then Some (Some (st, 0, checkpointed, 0))
      else play_from fuel fuel clk logs lognum lognum checkpointed checkpointed st)"

text \<open>The text of a log file with its header and, once \<^verbatim>\<open>finishLog\<close> closed it, the time at its end.\<close>

definition log_file :: "string \<Rightarrow> Mutation list \<Rightarrow> string option \<Rightarrow> string" where
  "log_file ctime ms u =
     log_header (ctime @ [newline]) @ log_text ms @ (case u of None \<Rightarrow> [] | Some c \<Rightarrow> ''time/'' @ c @ [newline])"

definition closing :: "string option \<Rightarrow> string list" where
  "closing u = (case u of None \<Rightarrow> [] | Some c \<Rightarrow> [''time/'' @ c])"

definition time_ok :: "string \<Rightarrow> bool" where
  "time_ok t \<longleftrightarrow> log_chars t \<and> length t < 390"

lemma log_file_lines:
  "log_file t ms u = file_lines ([''version/1'', ''time/'' @ t] @ map log_line ms @ closing u)"
  by (simp add: log_file_def log_header_def log_text_def file_lines_def comp_def closing_def split: option.split)

lemma time_line:
  "log_chars t \<Longrightarrow> DiskEntry_parse (replay_table clk) (''time/'' @ t) st = Some (st, True)"
  using text_line [of "''time''" "replay_table clk" _ t] by (simp add: replay_table_def restore_time_def)

lemma log_header_replayed:
  assumes "log_chars t"
  shows "parse_lines (replay_table clk) [''version/1'', ''time/'' @ t] st = Some (st, True)"
proof -
  have "DiskEntry_parse (replay_table clk) ''version/1'' st = replay_version [''version'', ''1''] st"
    using text_line [of "''version''" "replay_table clk" _ "''1''"] by (simp add: replay_table_def split_path_acc)
  moreover have "toNumber ''1'' = 1" by code_simp
  moreover note time_line [OF assms]
  ultimately show ?thesis by (simp add: replay_version_def pop_fid_def)
qed

lemma closing_replayed:
  assumes "\<forall>c. u = Some c \<longrightarrow> time_ok c"
  shows "parse_lines (replay_table clk) (closing u) st = Some (st, True)"
    "\<forall>l\<in>set (closing u). log_chars l \<and> length l < MAXLINE" "length (closing u) \<le> 1"
proof -
  show "parse_lines (replay_table clk) (closing u) st = Some (st, True)"
  proof (cases u)
    case (Some c)
    then show ?thesis using assms time_line [of c clk st] by (simp add: closing_def time_ok_def)
  qed (simp add: closing_def)
  show "\<forall>l\<in>set (closing u). log_chars l \<and> length l < MAXLINE" "length (closing u) \<le> 1"
    using assms by (auto simp: closing_def time_ok_def split: option.splits)
qed

lemma playlog_log_file:
  assumes "\<forall>m\<in>set ms. loggable m \<and> length (log_line m) < MAXLINE" "time_ok t" "\<forall>c. u = Some c \<longrightarrow> time_ok c" "length ms + 5 \<le> fuel"
    and "redo_all clk ms st = Some (st', True)"
  shows "\<exists>n. playlog fuel clk (log_file t ms u) checkpointed st = Some (Some (st', n, 0))"
proof -
  let ?ls = "[''version/1'', ''time/'' @ t] @ map log_line ms @ closing u"
  have "\<forall>l\<in>set ?ls. log_chars l \<and> length l < MAXLINE"
    using assms(1,2) closing_replayed(2) [OF assms(3)] by (auto simp: log_line_chars time_ok_def)
  moreover have "length ?ls + 2 \<le> fuel" using assms(4) closing_replayed(3) [OF assms(3)] by simp
  ultimately have "\<exists>k. parse_loop fuel (replay_table clk) 0 True (open_stream (file_lines ?ls)) st =
      Some (map_option (\<lambda>(st1, ok). (st1, k, ok)) (parse_lines (replay_table clk) ?ls st))"
    by (rule parse_loop_lines)
  moreover have "log_chars t" using assms(2) by (simp add: time_ok_def)
  then have "parse_lines (replay_table clk) ?ls st = Some (st', True)"
    unfolding parse_lines_append log_header_replayed [OF \<open>log_chars t\<close>] bind.bind_lunit
    using parse_log_lines [of ms clk st] assms(1,5) closing_replayed(1) [OF assms(3), of clk st'] by simp
  ultimately show ?thesis unfolding playlog_def log_file_lines by auto
qed

text \<open>The files hold the given lists of mutations.\<close>

definition logs_hold :: "(int \<Rightarrow> string option) \<Rightarrow> int \<Rightarrow> Mutation list list \<Rightarrow> bool" where
  "logs_hold logs i mss \<longleftrightarrow> logs (i + int (length mss)) = None \<and>
     (\<forall>j < length mss. \<exists>t u. logs (i + int j) = Some (log_file t (mss ! j) u) \<and> time_ok t \<and> (\<forall>c. u = Some c \<longrightarrow> time_ok c))"

lemma logs_hold_Cons:
  assumes "logs_hold logs i (ms # mss)"
  obtains t u where "logs i = Some (log_file t ms u)" "time_ok t" "\<forall>c. u = Some c \<longrightarrow> time_ok c" "logs_hold logs (i + 1) mss"
proof -
  from assms have "\<exists>t u. logs (i + int 0) = Some (log_file t ((ms # mss) ! 0) u) \<and> time_ok t \<and> (\<forall>c. u = Some c \<longrightarrow> time_ok c)"
    unfolding logs_hold_def by blast
  then obtain t u where tu: "logs i = Some (log_file t ms u)" "time_ok t" "\<forall>c. u = Some c \<longrightarrow> time_ok c" by auto
  moreover have "logs_hold logs (i + 1) mss"
    unfolding logs_hold_def
  proof (intro conjI allI impI)
    show "logs (i + 1 + int (length mss)) = None" using assms by (simp add: logs_hold_def ac_simps)
    fix j
    assume "j < length mss"
    then have "\<exists>t u. logs (i + int (Suc j)) = Some (log_file t ((ms # mss) ! Suc j) u) \<and> time_ok t \<and> (\<forall>c. u = Some c \<longrightarrow> time_ok c)"
      using assms unfolding logs_hold_def by (metis Suc_less_eq length_Cons)
    then show "\<exists>t u. logs (i + 1 + int j) = Some (log_file t (mss ! j) u) \<and> time_ok t \<and> (\<forall>c. u = Some c \<longrightarrow> time_ok c)"
      by (simp add: ac_simps)
  qed
  ultimately show ?thesis by (rule that)
qed

lemma play_from_logs:
  assumes "\<forall>m\<in>set (concat mss). loggable m \<and> length (log_line m) < MAXLINE" "\<forall>ms\<in>set mss. length ms + 5 \<le> fuel"
    and "logs_hold logs i mss" "length mss < n" "redo_all clk (concat mss) st = Some (st', True)"
  shows "\<exists>k q. play_from n fuel clk logs i lognum checkpointed seqno st = Some (Some (st', k, q, 0))"
  using assms
proof (induction mss arbitrary: i n lognum seqno st)
  case Nil
  then obtain n' where "n = Suc n'" by (cases n) auto
  then show ?case using Nil by (simp add: logs_hold_def)
next
  case (Cons ms mss)
  obtain n' where n: "n = Suc n'" "length mss < n'" using Cons.prems(4) by (cases n) auto
  obtain st1 where st1: "redo_all clk ms st = Some (st1, True)" "redo_all clk (concat mss) st1 = Some (st', True)"
    using Cons.prems(5) by (auto simp: redo_all_append split: option.splits if_splits prod.splits)
  obtain t u where tu: "logs i = Some (log_file t ms u)" "time_ok t" "\<forall>c. u = Some c \<longrightarrow> time_ok c" "logs_hold logs (i + 1) mss"
    using logs_hold_Cons [OF Cons.prems(3)] .
  have "\<forall>m\<in>set ms. loggable m \<and> length (log_line m) < MAXLINE" "length ms + 5 \<le> fuel"
    using Cons.prems(1,2) by auto
  from playlog_log_file [OF this(1) tu(2,3) this(2) st1(1)] obtain q where
    q: "playlog fuel clk (log_file t ms u) checkpointed st = Some (Some (st1, q, 0))" by blast
  from Cons.IH [OF _ _ tu(4) n(2) st1(2)] Cons.prems(1,2)
  show ?case by (simp add: n(1) tu(1) q)
qed

text \<open>
  C3. Crash recovery: a server that runs from a state, handling requests and writing the log line of every
  completed mutation that has one, over one or several log files, is recovered by a restart that replays these
  files on the same state. The replay ends with status 0, and the tree that it makes is the tree of the
  crashed server, item by item, but for times, cached sizes and the degree of replication of the files in \<^verbatim>\<open>R\<close>, a
  set with all files whose degree was changed in the run: that change is not logged. All other degrees of
  replication are recovered, and the file id generator is the same. In such a run (\<^verbatim>\<open>meta_step\<close>) no file with a live
  lease is removed or overwritten and the lease clean-up finds no file in the dumpster.
\<close>

theorem crash_recovery:
  assumes "meta_run R s (concat mss) s'" "matches R b (ms_state s)" "0 \<le> fileID (ms_state s)" "0 \<le> lognum"
    and "\<forall>m\<in>set (concat mss). loggable m \<and> length (log_line m) < MAXLINE" "logs_hold logs lognum mss"
    and "length mss < fuel" "\<forall>ms\<in>set mss. length ms + 5 \<le> fuel"
  shows "\<exists>b' k q. playAllLogs fuel clk logs lognum checkpointed b = Some (Some (b', k, q, 0)) \<and>
    map (erase_item R) (metatree b') = map (erase_item R) (metatree (ms_state s')) \<and> fileID b' = fileID (ms_state s')"
proof -
  obtain b' where b': "redo_all clk (concat mss) b = Some (b', True)" "matches R b' (ms_state s')"
    using meta_run_recovered [OF assms(1-3)] by blast
  from play_from_logs [OF assms(5,8,6,7) b'(1)] have
    "\<exists>k q. playAllLogs fuel clk logs lognum checkpointed b = Some (Some (b', k, q, 0))"
    using assms(4) by (simp add: playAllLogs_def)
  moreover have "map (erase_item R) (metatree b') = map (erase_item R) (metatree (ms_state s'))" "fileID b' = fileID (ms_state s')"
    using b'(2) by (auto simp: matches_def erase_def)
  ultimately show ?thesis by blast
qed

text \<open>A run: a file is created, its degree of replication is changed, and a directory is made.\<close>

definition sample_run_fs :: MetaState where
  "sample_run_fs = fst (the (handle_mkdir sample_time ROOTFID ''d''
     (fst (handle_change_file_replication 3 5 (fst (the (handle_create sample_time ROOTFID ''a'' 2 True sample_fs)))))))"

lemma sample_run:
  fixes w defines "s \<equiv> \<lparr>ms_state = sample_fs, ms_loop = w, ms_queue = [], trunc_of = Map.empty, next_alloc = 0\<rparr>"
  shows "meta_run {3} s [LogCreate ROOTFID ''a'' 3 2, LogMkdir ROOTFID ''d'' 4] (s\<lparr>ms_state := sample_run_fs\<rparr>)"
    "fileID sample_run_fs = 4" "map_option fa_numReplicas (getFattr (metatree sample_run_fs) 3) = Some 5" "ns_inv sample_run_fs"
proof -
  let ?c = "handle_create sample_time ROOTFID ''a'' 2 True sample_fs"
  have "map_option snd ?c = Some (0, 3)" by code_simp
  then obtain st1 where st1: "?c = Some (st1, 0, 3)" by auto
  obtain st2 e2 where st2: "handle_change_file_replication 3 5 st1 = (st2, e2)" by force
  have "map_option snd (Option.bind ?c
      (\<lambda>(st, e, f). handle_mkdir sample_time ROOTFID ''d'' (fst (handle_change_file_replication 3 5 st)))) = Some (0, 4)"
    by code_simp
  then have st3: "handle_mkdir sample_time ROOTFID ''d'' st2 = Some (sample_run_fs, 0, 4)"
    by (auto simp: st1 st2 sample_run_fs_def)
  have "name_free sample_time sample_fs ROOTFID ''a''"
    by (rule leaseless_free) (simp add: sample_fs_ok(5) leaseless_def new_LayoutManager_def)
  then have "meta_step {3} s [LogCreate ROOTFID ''a'' 3 2] (s\<lparr>ms_state := st1\<rparr>)"
    using meta_step.do_create [of sample_time ROOTFID "''a''" 2 True s st1 0 3] st1 by (simp add: s_def)
  moreover have "meta_step {3} (s\<lparr>ms_state := st1\<rparr>) [] (s\<lparr>ms_state := st2\<rparr>)"
    using meta_step.do_replication [of 3 5 "s\<lparr>ms_state := st1\<rparr>" st2 e2 "{3}"] st2 by simp
  moreover have "meta_step {3} (s\<lparr>ms_state := st2\<rparr>) [LogMkdir ROOTFID ''d'' 4] (s\<lparr>ms_state := sample_run_fs\<rparr>)"
    using meta_step.do_mkdir [of sample_time ROOTFID "''d''" "s\<lparr>ms_state := st2\<rparr>" sample_run_fs 0 4] st3(1) by simp
  ultimately have "meta_run {3} s ([LogCreate ROOTFID ''a'' 3 2] @ [] @ [LogMkdir ROOTFID ''d'' 4] @ []) (s\<lparr>ms_state := sample_run_fs\<rparr>)"
    by (blast intro: meta_run.intros)
  then show "meta_run {3} s [LogCreate ROOTFID ''a'' 3 2, LogMkdir ROOTFID ''d'' 4] (s\<lparr>ms_state := sample_run_fs\<rparr>)" by simp
  show "fileID sample_run_fs = 4" "map_option fa_numReplicas (getFattr (metatree sample_run_fs) 3) = Some 5" by code_simp+
  have "create sample_time ROOTFID ''a'' 0 2 True sample_fs = Some (st1, 0, 3)"
    using st1 by (simp add: handle_create_def split: if_splits)
  then have inv1: "ns_inv st1" using create_total [OF sample_fs_ok(2) sample_root(1), of "''a''" True sample_time 2] by auto
  have "map_option fa_type (fattr_of (metatree (fst (the ?c))) 3) = Some KFS_FILE" by code_simp
  then have "file_in (names st1) 3" by (auto simp: st1 file_in_def)
  then have inv2: "ns_inv st2"
    using changeFileReplication_keeps [OF inv1, of 3 5] st2 inv1 by (auto simp: handle_change_file_replication_def split: if_splits)
  have "entry_of (metatree (fst (handle_change_file_replication 3 5 (fst (the ?c))))) (ROOTFID, ''d'') = None" by code_simp
  then have "ns_entry (names st2) (ROOTFID, ''d'') = None" by (simp add: st1 st2)
  from mkdir_step [OF inv2 ns_okD(11) [OF ns_invD(2) [OF inv2]] this, of sample_time] show "ns_inv sample_run_fs"
    using st3 by (auto simp: handle_mkdir_def legalname_def split: if_splits)
qed

definition sample_logs :: "int \<Rightarrow> string option" where
  "sample_logs i =
     (if i = 5 then Some (log_file ''t5'' [LogCreate ROOTFID ''a'' 3 2] (Some ''t6''))
      else if i = 6 then Some (log_file ''t6'' [LogMkdir ROOTFID ''d'' 4] None) else None)"

theorem crash_recovery_witness:
  "\<exists>b' k q. playAllLogs 6 zero_time sample_logs 5 0 sample_fs = Some (Some (b', k, q, 0)) \<and> fileID b' = 4"
proof -
  let ?mss = "[[LogCreate ROOTFID ''a'' 3 2], [LogMkdir ROOTFID ''d'' 4]]"
  let ?w = "\<lparr>allocs = \<lambda>_. new_MetaAllocate 0 0, submitted = []\<rparr>"
  note run = sample_run(1) [of ?w]
  have b: "matches {3} sample_fs sample_fs"
    by (simp add: matches_def sample_fs_ok(5) leaseless_def new_LayoutManager_def)
  have lg: "\<forall>m\<in>set (concat ?mss). loggable m \<and> length (log_line m) < MAXLINE" by code_simp
  have l: "sample_logs 5 = Some (log_file ''t5'' [LogCreate ROOTFID ''a'' 3 2] (Some ''t6''))"
    "sample_logs 6 = Some (log_file ''t6'' [LogMkdir ROOTFID ''d'' 4] None)" "sample_logs 7 = None"
    by (simp_all add: sample_logs_def)
  have k: "time_ok ''t5''" "time_ok ''t6''" by (simp_all add: time_ok_def)
  have h: "logs_hold sample_logs 5 ?mss"
    unfolding logs_hold_def
  proof (intro conjI allI impI)
    fix j
    assume "j < length ?mss"
    then consider "j = 0" | "j = 1" by fastforce
    then show "\<exists>t u. sample_logs (5 + int j) = Some (log_file t (?mss ! j) u) \<and> time_ok t \<and> (\<forall>c. u = Some c \<longrightarrow> time_ok c)"
      by cases (use l(1,2) k in force)+
  qed (use l(3) in simp)
  have "\<exists>b' k q. playAllLogs 6 zero_time sample_logs 5 0 sample_fs = Some (Some (b', k, q, 0)) \<and>
    map (erase_item {3}) (metatree b') = map (erase_item {3}) (metatree sample_run_fs) \<and> fileID b' = fileID sample_run_fs"
    using crash_recovery [OF _ _ _ _ lg h, of "{3}" _ _ sample_fs 6 zero_time 0] run b sample_fs_ok(4) by fastforce
  then show ?thesis using sample_run(2) by auto
qed

section \<open>Logs that cannot be replayed\<close>

lemma getline_failed:
  "failbit f \<Longrightarrow> getline n f = ([], f\<lparr>failbit := True\<rparr>)"
  by (simp add: getline_def)

lemma parse_loop_failbit: "failbit f \<Longrightarrow> \<not> eofbit f \<Longrightarrow> parse_loop fuel table k True f st = None"
proof (induction fuel arbitrary: f k)
  case (Suc fuel)
  then show ?case by (simp add: parse_loop.simps(2) getline_failed DiskEntry_parse_def)
qed simp

lemma getline_long:
  assumes "newline \<notin> set l" "n \<le> length l" "0 < n"
  shows "getline n (open_stream (l @ rest)) =
    (take (n - 1) l, \<lparr>unread = drop (n - 1) (l @ rest), eofbit = False, failbit = True\<rparr>)"
proof -
  have "takeWhile (\<lambda>c. c \<noteq> newline) (l @ rest) = l @ takeWhile (\<lambda>c. c \<noteq> newline) rest"
    using assms(1) by (auto simp: takeWhile_append)
  moreover have "n - 1 < length l" "l \<noteq> []" using assms(2,3) by auto
  ultimately show ?thesis by (simp add: getline_def open_stream_def Let_def)
qed

lemma parse_loop_long:
  assumes "newline \<notin> set l" "MAXLINE \<le> length l" "DiskEntry_parse table (take (MAXLINE - 1) l) st = Some (st1, True)"
  shows "parse_loop fuel table k True (open_stream (l @ rest)) st = None"
proof (cases fuel)
  case (Suc f)
  have "getline MAXLINE (open_stream (l @ rest)) =
      (take (MAXLINE - 1) l, \<lparr>unread = drop (MAXLINE - 1) (l @ rest), eofbit = False, failbit = True\<rparr>)"
    by (rule getline_long [OF assms(1,2)]) simp
  moreover have "\<not> eofbit (open_stream (l @ rest))" by (simp add: open_stream_def)
  ultimately show ?thesis
    using assms(3) by (simp add: Suc parse_loop.simps(2) parse_loop_failbit)
qed simp

text \<open>A text that hangs the loop still does so behind lines that are replayed.\<close>

lemma parse_loop_behind:
  assumes "\<forall>l\<in>set ls. log_chars l \<and> length l < MAXLINE" "parse_lines table ls st = Some (st1, True)"
    and "\<And>fuel k. parse_loop fuel table k True (open_stream rest) st1 = None"
  shows "parse_loop fuel table k True (open_stream (file_lines ls @ rest)) st = None"
  using assms(1,2)
proof (induction ls arbitrary: fuel k st)
  case Nil
  then show ?case using assms(3) by (simp add: file_lines_def)
next
  case (Cons l ls)
  obtain st2 where st2: "DiskEntry_parse table l st = Some (st2, True)" "parse_lines table ls st2 = Some (st1, True)"
    using Cons.prems(2) by (auto split: option.splits if_splits)
  have "getline MAXLINE (open_stream (file_lines (l # ls) @ rest)) = (l, open_stream (file_lines ls @ rest))"
    using getline_line [of l MAXLINE "file_lines ls @ rest"] Cons.prems(1) by (simp add: open_stream_def file_lines_def log_chars_def)
  then show ?case
    using Cons.IH [OF _ st2(2)] Cons.prems(1) st2(1)
    by (cases fuel) (simp_all add: parse_loop.simps(2) open_stream_def)
qed

text \<open>A name in a sound name space can be changed to any free name in the same directory.\<close>

lemma entry_avoids:
  assumes "ns_ok N" "ns_entry N (d, n) = Some f" "n \<notin> dots" "legalname n" "dir_in N f"
  shows "avoids N f d"
proof -
  have root: "f \<noteq> ROOTFID"
  proof
    assume "f = ROOTFID"
    then have "n = ''/''" using ns_ok_one_name [OF assms(1) ns_okD(12) [OF assms(1)], of d n] assms(2,3) by simp
    then show False using assms(4) by (simp add: legalname_def)
  qed
  obtain xs where xs: "up_path (ns_entry N) (f # xs)" "distinct (f # xs)"
    using rooted_distinct_path [OF ns_okD(10) [OF assms(1,5)]] by blast
  then obtain ys where "xs = d # ys" using root ns_okD(5) [OF assms(1-3,5)] by (cases xs) auto
  then show ?thesis using avoids_path [OF assms(1), of d ys f] xs by simp
qed

lemma rename_to_free:
  assumes "ns_inv st" "ns_entry (names st) (d, n) = Some f" "n \<notin> dots" "legalname n" "legalname m"
    and "ns_entry (names st) (d, m) = None"
  shows "\<exists>st'. rename clk d n m ov st = Some (st', 0)" "target_free clk st d m"
proof -
  note ns = ns_invD(1,2) [OF assms(1)]
  have t: "rename_target (metatree st) d m = Some (Inr (d, m))" using assms(5) by (simp add: rename_target_def legalname_def)
  have "rename_pre clk st (names st) d n f d m"
    using assms(2-6) ns_okD(1) [OF ns(2) assms(2)] by (auto simp: rename_pre_def)
  moreover have "rename_error (names st) ov f d m = None"
    using entry_avoids [OF ns(2) assms(2-4)] assms(6) by (simp add: rename_error_def)
  ultimately show "\<exists>st'. rename clk d n m ov st = Some (st', 0)"
    using rename_ns [OF ns _ t, of clk n f ov "moveToDumpster_with (rename_with (remove_n (Suc 0) clk) clk) clk"]
    by (auto simp: rename_def remove_def numeral_2_eq_2 remove_n_Suc)
  show "target_free clk st d m"
    using t lookup_ns [OF ns, of d m] assms(6) by (simp add: target_free_def name_free_def)
qed

lemma rename_found:
  assumes "ns_inv st" "rename clk d n new ov st = Some (st', 0)"
  obtains f where "ns_entry (names st) (d, n) = Some f"
  using assms(2) getDentry_ns [OF ns_invD(1,2) [OF assms(1)], of d n]
  by (cases "ns_entry (names st) (d, n)") (auto simp: rename_def rename_with_def)

text \<open>
  C22. Renaming a file or directory to a name so long that the log line has 400 characters or more makes the next restart
  hang. The server has handled requests from a state and written their lines, then it renames an entry within its
  directory and logs that, too, and perhaps more. When the log file is replayed on the same state, \<^verbatim>\<open>getline\<close> cuts the long line
  and sets the fail bit, the cut line is replayed as a rename to the cut name (which must not be taken), and from then on every
  \<^verbatim>\<open>getline\<close> gives an empty line and never reaches the end of the file. The loop of \<^verbatim>\<open>playlog\<close> does not return, whatever number of
  turns it is given.
\<close>

theorem long_rename_hangs:
  assumes run: "meta_run R s ms s1" "matches R b (ms_state s)" "0 \<le> fileID (ms_state s)" "ns_inv (ms_state s1)"
    and logged: "\<forall>m\<in>set ms. loggable m \<and> length (log_line m) < MAXLINE" "time_ok t"
    and renamed: "handle_rename worm clk1 d old new ov (ms_state s1) = Some (st', 0)" "old \<notin> dots" "CHR ''/'' \<notin> set new"
    and line: "loggable (LogRename d old new)" "MAXLINE \<le> length (log_line (LogRename d old new))"
      "length (log_line (LogRename d old [])) < MAXLINE - 1"
    and free: "ns_entry (names (ms_state s1)) (d, take (MAXLINE - 1 - length (log_line (LogRename d old []))) new) = None"
  shows "playlog fuel clk (log_file t (ms @ LogRename d old new # ms') u) checkpointed b = None"
proof -
  let ?p = "log_line (LogRename d old [])" and ?l = "log_line (LogRename d old new)"
  let ?cut = "take (MAXLINE - 1 - length ?p) new"
  have split: "?l = ?p @ new" "log_line (LogRename d old ?cut) = ?p @ ?cut" by simp_all
  have legal: "legalname old" using line(1) by (simp add: log_name_def)
  have rn: "rename clk1 d old new ov (ms_state s1) = Some (st', 0)"
    using renamed(1) by (auto simp: handle_rename_def bind_eq_Some_conv split: if_splits)
  have "new \<noteq> []" using line(2,3) by auto
  then have "legalname ?cut" using renamed(3) line(3) by (auto simp: legalname_def dest: in_set_takeD simp del: log_line.simps)
  moreover obtain f where f: "ns_entry (names (ms_state s1)) (d, old) = Some f"
    by (rule rename_found [OF run(4) rn])
  ultimately obtain st2 where st2: "rename clk1 d old ?cut True (ms_state s1) = Some (st2, 0)" "target_free clk1 (ms_state s1) d ?cut"
    using rename_to_free [OF run(4) f renamed(2) legal _ free] by blast
  obtain b1 where b1: "redo_all clk ms b = Some (b1, True)" "matches R b1 (ms_state s1)"
    using meta_run_recovered [OF run(1-3)] by blast
  obtain b2 where b2: "rename clk d old ?cut True b1 = Some (b2, 0)"
    using rename_matches [OF b1(2) st2(2,1), of clk] by blast
  have "loggable (LogRename d old ?cut)" using line(1) by (auto simp: log_chars_def dest: in_set_takeD)
  then have "DiskEntry_parse (replay_table clk) (log_line (LogRename d old ?cut)) b1 = Some (b2, True)"
    using b2 by (simp add: log_line_replayed del: log_line.simps)
  moreover have "take (MAXLINE - 1) ?l = log_line (LogRename d old ?cut)"
    unfolding split using line(3) by (simp del: log_line.simps)
  moreover have "newline \<notin> set ?l" using log_line_chars [OF line(1)] by (simp add: log_chars_def)
  ultimately have hang: "parse_loop fuel (replay_table clk) k True (open_stream (?l @ rest)) b1 = None" for fuel k rest
    using parse_loop_long [OF _ line(2), of "replay_table clk" b1 b2] by simp
  let ?ls = "[''version/1'', ''time/'' @ t] @ map log_line ms"
  have "log_chars t" using logged(2) by (simp add: time_ok_def)
  have "parse_lines (replay_table clk) ?ls b = Some (b1, True)"
    unfolding parse_lines_append log_header_replayed [OF \<open>log_chars t\<close>] bind.bind_lunit
    using parse_log_lines [of ms clk b] logged(1) b1(1) by simp
  moreover have "\<forall>l\<in>set ?ls. log_chars l \<and> length l < MAXLINE"
    using logged by (auto simp: log_line_chars time_ok_def)
  moreover have "log_file t (ms @ LogRename d old new # ms') u = file_lines ?ls @ ?l @ newline # file_lines (map log_line ms' @ closing u)"
    by (simp add: log_file_lines file_lines_def)
  ultimately show ?thesis
    unfolding playlog_def using parse_loop_behind [OF _ _ hang, of ?ls b fuel 0] by simp
qed

theorem long_rename_hangs_witness:
  "\<forall>fuel. playlog fuel zero_time (log_file ''t'' [LogCreate ROOTFID ''a'' 3 2, LogMkdir ROOTFID ''d'' 4,
     LogRename ROOTFID ''d'' (replicate 400 CHR ''x'')] None) 0 sample_fs = None"
proof
  fix fuel
  let ?w = "\<lparr>allocs = \<lambda>_. new_MetaAllocate 0 0, submitted = []\<rparr>"
  let ?ms = "[LogCreate ROOTFID ''a'' 3 2, LogMkdir ROOTFID ''d'' 4]" and ?new = "replicate 400 CHR ''x''"
  note run = sample_run(1) [of ?w]
  have b: "matches {3} sample_fs sample_fs"
    by (simp add: matches_def sample_fs_ok(5) leaseless_def new_LayoutManager_def)
  have lg: "\<forall>m\<in>set ?ms. loggable m \<and> length (log_line m) < MAXLINE" by code_simp
  have "map_option snd (handle_rename False sample_time ROOTFID ''d'' ?new False sample_run_fs) = Some 0" by code_simp
  then obtain st' where rn: "handle_rename False sample_time ROOTFID ''d'' ?new False sample_run_fs = Some (st', 0)" by auto
  have line: "loggable (LogRename ROOTFID ''d'' ?new)" "MAXLINE \<le> length (log_line (LogRename ROOTFID ''d'' ?new))"
    "length (log_line (LogRename ROOTFID ''d'' [])) < MAXLINE - 1" by code_simp+
  have "entry_of (metatree sample_run_fs) (ROOTFID, take (MAXLINE - 1 - length (log_line (LogRename ROOTFID ''d'' []))) ?new) = None"
    by code_simp
  then have free: "ns_entry (names sample_run_fs) (ROOTFID, take (MAXLINE - 1 - length (log_line (LogRename ROOTFID ''d'' []))) ?new) = None"
    by (simp del: log_line.simps)
  have "playlog fuel zero_time (log_file ''t'' (?ms @ LogRename ROOTFID ''d'' ?new # []) None) 0 sample_fs = None"
    using long_rename_hangs [OF run _ _ _ lg _ _ _ _ line, where b = sample_fs and t = "''t''"] b sample_run(4) sample_fs_ok(4) rn free
    by (simp add: time_ok_def del: log_line.simps append_Cons)
  then show "playlog fuel zero_time (log_file ''t'' [LogCreate ROOTFID ''a'' 3 2, LogMkdir ROOTFID ''d'' 4, LogRename ROOTFID ''d'' ?new] None)
    0 sample_fs = None" by (simp only: append_Cons append_Nil)
qed

text \<open>
  C28. \<^verbatim>\<open>mkdir\<close> accepts any new name in the root directory, also one with a slash. The line that is logged
  for such a directory does not parse: a restart that replays a log with it ends with \<^verbatim>\<open>-EIO\<close>, for
  which the metaserver panics.
\<close>

theorem mkdir_slash_unreplayable:
  assumes "ns_inv st" "ns_entry (names st) (ROOTFID, x @ ''/'' @ y) = None"
    and "plain_name x" "log_chars y" "hd (split_path SEPARATOR y) \<noteq> ''id''"
    and "length (log_line (LogMkdir ROOTFID (x @ ''/'' @ y) (fileID st + 1))) < MAXLINE"
    and "time_ok t" "5 \<le> fuel"
  shows "\<exists>st' n. mkdir clk ROOTFID (x @ ''/'' @ y) 0 st = Some (st', 0, fileID st + 1) \<and>
    playlog fuel clk' (log_file t [LogMkdir ROOTFID (x @ ''/'' @ y) (fileID st + 1)] None) checkpointed b =
      Some (Some (b, n, - EIO))"
proof -
  let ?n = "x @ ''/'' @ y"
  let ?l = "log_line (LogMkdir ROOTFID ?n (fileID st + 1))"
  have x: "x \<noteq> []" "SEPARATOR \<notin> set x" "log_chars x" using assms(3) by (auto simp: plain_name_def)
  have "dir_in (names st) ROOTFID" using ns_okD(11) [OF ns_invD(2) [OF assms(1)]] .
  moreover have "?n \<noteq> ''/''" using x(1) by (cases x) auto
  ultimately obtain st' where st': "mkdir clk ROOTFID ?n 0 st = Some (st', 0, fileID st + 1)"
    using mkdir_step [OF assms(1) _ assms(2), of clk] by blast
  have chars: "log_chars ?l" using x(3) assms(4) by simp
  obtain c r where y: "split_path SEPARATOR (y @ ''/id/'' @ toString (fileID st + 1)) = c # r" "c \<noteq> ''id''"
  proof (cases "SEPARATOR \<in> set y")
    case True
    then obtain u v where "y = u @ SEPARATOR # v" "SEPARATOR \<notin> set u" by (metis split_list_first)
    then show ?thesis using that assms(5) by simp
  next
    case False
    then show ?thesis using that [of y] assms(5) by simp
  qed
  have "split_path SEPARATOR ?l = [''mkdir'', ''dir'', toString ROOTFID, ''name'', x] @ c # r"
    using x(2) y(1) by (simp add: split_path_acc split_acc_append split_acc_word)
  then have "DiskEntry_parse (replay_table clk') ?l b = replay_mkdir clk' ([''mkdir'', ''dir'', toString ROOTFID, ''name'', x] @ c # r) b"
    unfolding DiskEntry_parse_line [OF chars log_line_nonempty] by (simp add: replay_table_def)
  also have "\<dots> = Some (b, False)"
    using x(1) y(2) by (cases r) (simp_all add: replay_mkdir_def pop_parent_def pop_fid_def pop_name_def log_number_def)
  finally have bad: "DiskEntry_parse (replay_table clk') ?l b = Some (b, False)" .
  let ?ls = "[''version/1'', ''time/'' @ t] @ [?l]"
  have t: "log_chars t" using assms(7) by (simp add: time_ok_def)
  have "parse_lines (replay_table clk') ?ls b = Some (b, False)"
    unfolding parse_lines_append log_header_replayed [OF t] bind.bind_lunit by (simp add: bad [simplified append_Cons append_Nil] del: log_line.simps)
  moreover have "\<forall>l\<in>set ?ls. log_chars l \<and> length l < MAXLINE" using assms(6,7) chars by (auto simp: time_ok_def)
  moreover have "length ?ls + 2 \<le> fuel" using assms(8) by simp
  ultimately have "\<exists>n. playlog fuel clk' (log_file t [LogMkdir ROOTFID ?n (fileID st + 1)] None) checkpointed b = Some (Some (b, n, - EIO))"
    using parse_loop_lines [of ?ls fuel "replay_table clk'" 0 b]
    by (auto simp: playlog_def log_file_lines closing_def simp del: log_line.simps)
  then show ?thesis using st' by blast
qed


theorem mkdir_slash_unreplayable_witness:
  "\<exists>st' n. mkdir sample_time ROOTFID ''a/b'' 0 sample_fs = Some (st', 0, 3) \<and>
    playlog 5 sample_time (log_file ''t'' [LogMkdir ROOTFID ''a/b'' 3] None) 0 sample_fs = Some (Some (sample_fs, n, - EIO))"
proof -
  have e: "ns_entry (names sample_fs) (ROOTFID, ''a'' @ ''/'' @ ''b'') = None"
    by (simp add: sample_fs_ok(3) root_ns_def del: names_sel)
  have f: "fileID sample_fs + 1 = 3" by (simp add: sample_fs_ok(4))
  have "length (log_line (LogMkdir ROOTFID (''a'' @ ''/'' @ ''b'') (fileID sample_fs + 1))) < MAXLINE"
    unfolding f by code_simp
  from mkdir_slash_unreplayable [OF sample_fs_ok(2) e _ _ _ this, of "''t''" 5 sample_time sample_time 0 sample_fs]
  show ?thesis by (simp add: f plain_name_def time_ok_def)
qed

end
