(* ===== verification/Meta_Logger.thy ===== *)
theory Meta_Logger
  imports Meta_Restart "HOL-Library.Sublist"
begin

text \<open>
  The logger of src/src/cc/meta/logger.h and logger.cc. Requests that were handled wait in \<^verbatim>\<open>pending\<close>;
  \<^verbatim>\<open>logger_main\<close> takes one at a time, writes and flushes its line when it is a mutation that succeeded,
  and hands it to \<^verbatim>\<open>logged\<close>, from where the network thread answers the client. The open log file is what is
  on disk and what the stream still buffers; writes to files succeed. A log rollover closes the file and
  opens the next one.
\<close>

section \<open>State and operations\<close>

record LogRequest =
  lr_log :: "Mutation option"
  lr_rollover :: bool
  lr_mutation :: bool
  lr_status :: int
  lr_seqno :: seq_t

record Logger =
  lg_lognum :: int
  lg_disk :: "int \<Rightarrow> string option"
  lg_buffer :: string
  lg_nextseq :: seq_t
  lg_committed :: seq_t
  lg_incp :: seq_t
  lg_pending :: "LogRequest list"
  lg_logged :: "LogRequest list"
  lg_cpdone :: "LogRequest list"
  lg_mutations :: int

definition write_file :: "string \<Rightarrow> Logger \<Rightarrow> Logger" where
  "write_file s g = g\<lparr>lg_buffer := lg_buffer g @ s\<rparr>"

definition flush_file :: "Logger \<Rightarrow> Logger" where
  "flush_file g =
     g\<lparr>lg_disk := (lg_disk g)(lg_lognum g := map_option (\<lambda>s. s @ lg_buffer g) (lg_disk g (lg_lognum g))), lg_buffer := []\<rparr>"

definition flushLog :: "Logger \<Rightarrow> Logger" where
  "flushLog g = (flush_file g)\<lparr>lg_committed := lg_nextseq g\<rparr>"

definition flushResult :: "LogRequest \<Rightarrow> Logger \<Rightarrow> Logger option" where
  "flushResult r g =
     (if lg_committed g < lr_seqno r
      then let g1 = flushLog g in assert_then (lr_seqno r \<le> lg_committed g1) (Some g1)
      else Some g)"

text \<open>\<^verbatim>\<open>ctime\<close> is the text of the time, without its newline.\<close>

definition startLog :: "string \<Rightarrow> int \<Rightarrow> Logger \<Rightarrow> Logger option" where
  "startLog ctime seqno g =
     assert_then (0 \<le> seqno)
       (let g1 = g\<lparr>lg_lognum := seqno\<rparr> in
        Some (if lg_disk g seqno \<noteq> None then g1
              else write_file (log_header (ctime @ [newline])) (g1\<lparr>lg_disk := (lg_disk g)(seqno \<mapsto> [])\<rparr>)))"

definition finishLog :: "string \<Rightarrow> Logger \<Rightarrow> Logger option" where
  "finishLog ctime g =
     do { let g1 = flush_file (write_file (''time/'' @ ctime @ [newline]) g);
          g2 \<leftarrow> startLog ctime (lg_lognum g1 + 1) (g1\<lparr>lg_incp := lg_committed g1\<rparr>);
          Some (g2\<lparr>lg_mutations := 0\<rparr>) }"

definition request_log :: "string \<Rightarrow> LogRequest \<Rightarrow> Logger \<Rightarrow> Logger option" where
  "request_log ctime r g =
     (if lr_rollover r then finishLog ctime g
      else Some (case lr_log r of None \<Rightarrow> g | Some m \<Rightarrow> write_file (log_line m @ [newline]) g))"

definition Logger_log :: "string \<Rightarrow> LogRequest \<Rightarrow> Logger \<Rightarrow> Logger option" where
  "Logger_log ctime r g = do { g1 \<leftarrow> request_log ctime r g; flushResult r g1 }"

definition add_pending :: "LogRequest \<Rightarrow> Logger \<Rightarrow> Logger" where
  "add_pending r g = g\<lparr>lg_pending := lg_pending g @ [r]\<rparr>"

text \<open>\<^verbatim>\<open>get_pending\<close> waits while the queue is empty: \<^verbatim>\<open>None\<close> is that nothing happens.\<close>

definition get_pending :: "Logger \<Rightarrow> (LogRequest \<times> Logger) option" where
  "get_pending g =
     (case lg_pending g of
        [] \<Rightarrow> None
      | r # q \<Rightarrow> Some (r\<lparr>lr_seqno := lg_nextseq g + 1\<rparr>, g\<lparr>lg_pending := q, lg_nextseq := lg_nextseq g + 1\<rparr>))"

text \<open>One turn of \<^verbatim>\<open>logger_main\<close> with a request that \<^verbatim>\<open>get_pending\<close> returned.\<close>

definition logger_main :: "string \<Rightarrow> LogRequest \<Rightarrow> Logger \<Rightarrow> Logger option" where
  "logger_main ctime r g =
     do { g1 \<leftarrow> (if lr_mutation r \<and> lr_status r = 0
                then map_option (\<lambda>g1. if lr_rollover r then g1 else g1\<lparr>lg_mutations := lg_mutations g1 + 1\<rparr>) (Logger_log ctime r g)
                else Some g);
          Some (if lr_rollover r then g1\<lparr>lg_cpdone := lg_cpdone g1 @ [r]\<rparr> else g1\<lparr>lg_logged := lg_logged g1 @ [r]\<rparr>) }"

definition next_result_nowait :: "Logger \<Rightarrow> (LogRequest \<times> Logger) option" where
  "next_result_nowait g =
     (case lg_logged g of [] \<Rightarrow> None | r # q \<Rightarrow> Some (r, g\<lparr>lg_logged := q\<rparr>))"

section \<open>Runs of the logger\<close>

text \<open>A run with the requests that \<^verbatim>\<open>logger_main\<close> has finished, in order, and those that were answered.\<close>

inductive logger_run :: "Logger \<Rightarrow> LogRequest list \<Rightarrow> LogRequest list \<Rightarrow> Logger \<Rightarrow> bool" for g0 where
  lg_start: "logger_run g0 [] [] g0"
| lg_submit: "logger_run g0 rs as g \<Longrightarrow> logger_run g0 rs as (add_pending r g)"
| lg_work: "logger_run g0 rs as g \<Longrightarrow> get_pending g = Some (r, g1) \<Longrightarrow> time_ok t \<Longrightarrow> logger_main t r g1 = Some g2 \<Longrightarrow>
    logger_run g0 (rs @ [r]) as g2"
| lg_answer: "logger_run g0 rs as g \<Longrightarrow> next_result_nowait g = Some (r, g1) \<Longrightarrow> logger_run g0 rs (as @ [r]) g1"

definition logged_of :: "LogRequest list \<Rightarrow> Mutation list" where
  "logged_of rs = List.map_filter (\<lambda>r. if lr_mutation r \<and> lr_status r = 0 \<and> \<not> lr_rollover r then lr_log r else None) rs"

definition new_Logger :: "(int \<Rightarrow> string option) \<Rightarrow> Logger" where
  "new_Logger d =
     \<lparr>lg_lognum = -1, lg_disk = d, lg_buffer = [], lg_nextseq = 0, lg_committed = 0, lg_incp = 0, lg_pending = [],
      lg_logged = [], lg_cpdone = [], lg_mutations = 0\<rparr>"

text \<open>What is on disk once the buffer is flushed.\<close>

definition written :: "Logger \<Rightarrow> int \<Rightarrow> string option" where
  "written g = lg_disk (flush_file g)"

definition logs_written :: "int \<Rightarrow> Mutation list \<Rightarrow> (int \<Rightarrow> string option) \<Rightarrow> int \<Rightarrow> bool" where
  "logs_written n d w k \<longleftrightarrow>
     (\<exists>mss ms t. logs_hold w n (mss @ [ms]) \<and> k = n + int (length mss) \<and> concat mss @ ms = d \<and>
        w k = Some (log_file t ms None) \<and> time_ok t \<and> (\<forall>i > k. w i = None))"

definition logger_inv :: "int \<Rightarrow> LogRequest list \<Rightarrow> LogRequest list \<Rightarrow> Logger \<Rightarrow> bool" where
  "logger_inv n rs as g \<longleftrightarrow> 0 \<le> n \<and> lg_committed g \<le> lg_nextseq g \<and>
     logs_written n (logged_of rs) (written g) (lg_lognum g) \<and>
     (logged_of rs \<noteq> [] \<longrightarrow> lg_buffer g = []) \<and>
     filter (\<lambda>r. \<not> lr_rollover r) rs = as @ lg_logged g"

lemma written_write [simp]:
  "written (write_file s g) = (written g)(lg_lognum g := map_option (\<lambda>x. x @ s) (written g (lg_lognum g)))"
  by (auto simp: written_def write_file_def flush_file_def option.map_comp comp_def)

lemma flush_fields [simp]:
  "written (flush_file g) = written g" "lg_disk (flush_file g) = written g" "lg_lognum (flush_file g) = lg_lognum g"
  "lg_buffer (flush_file g) = []" "lg_committed (flush_file g) = lg_committed g" "lg_nextseq (flush_file g) = lg_nextseq g"
  "lg_logged (flush_file g) = lg_logged g" "lg_pending (flush_file g) = lg_pending g"
  by (auto simp: written_def flush_file_def option.map_comp comp_def map_option.id [unfolded id_def])

lemma write_fields [simp]:
  "lg_lognum (write_file s g) = lg_lognum g" "lg_committed (write_file s g) = lg_committed g"
  "lg_nextseq (write_file s g) = lg_nextseq g" "lg_logged (write_file s g) = lg_logged g"
  "lg_buffer (write_file s g) = lg_buffer g @ s" "lg_disk (write_file s g) = lg_disk g"
  by (simp_all add: write_file_def)

lemma written_other [simp]:
  "written (g\<lparr>lg_pending := q\<rparr>) = written g" "written (g\<lparr>lg_logged := l\<rparr>) = written g" "written (g\<lparr>lg_cpdone := l\<rparr>) = written g"
  "written (g\<lparr>lg_nextseq := k\<rparr>) = written g" "written (g\<lparr>lg_committed := k\<rparr>) = written g" "written (g\<lparr>lg_incp := k\<rparr>) = written g"
  "written (g\<lparr>lg_mutations := j\<rparr>) = written g"
  by (simp_all add: written_def flush_file_def)

lemma logs_hold_upd:
  assumes "logs_hold w n (mss @ [ms])" "w (n + int (length mss)) = Some (log_file t ms None)" "time_ok t"
  shows "logs_hold (w(n + int (length mss) \<mapsto> log_file t (ms @ [m]) None)) n (mss @ [ms @ [m]])"
  unfolding logs_hold_def
proof (intro conjI allI impI)
  show "(w(n + int (length mss) \<mapsto> log_file t (ms @ [m]) None)) (n + int (length (mss @ [ms @ [m]]))) = None"
    using assms(1) by (simp add: logs_hold_def)
  fix j
  assume j: "j < length (mss @ [ms @ [m]])"
  show "\<exists>t' u. (w(n + int (length mss) \<mapsto> log_file t (ms @ [m]) None)) (n + int j) =
      Some (log_file t' ((mss @ [ms @ [m]]) ! j) u) \<and> time_ok t' \<and> (\<forall>c. u = Some c \<longrightarrow> time_ok c)"
  proof (cases "j = length mss")
    case True
    then show ?thesis using assms(3) by (auto intro: exI [of _ t] exI [of _ None])
  next
    case False
    then have "j < length mss" using j by simp
    then show ?thesis
      using assms(1) [unfolded logs_hold_def, THEN conjunct2, rule_format, of j] by (simp add: nth_append)
  qed
qed

lemma logs_hold_new:
  assumes "logs_hold w n (mss @ [ms])" "time_ok t" "time_ok t'" "time_ok t''" "w (n + int (length mss) + 2) = None"
  shows "logs_hold (w(n + int (length mss) \<mapsto> log_file t ms (Some t'), n + int (length mss) + 1 \<mapsto> log_file t'' [] None)) n
    ((mss @ [ms]) @ [[]])"
  unfolding logs_hold_def
proof (intro conjI allI impI)
  let ?w = "w(n + int (length mss) \<mapsto> log_file t ms (Some t'), n + int (length mss) + 1 \<mapsto> log_file t'' [] None)"
  show "?w (n + int (length ((mss @ [ms]) @ [[]]))) = None"
    using assms(5) by (simp add: ac_simps)
  fix j
  assume j: "j < length ((mss @ [ms]) @ [[]])"
  consider "j < length mss" | "j = length mss" | "j = length mss + 1" using j by fastforce
  then show "\<exists>t' u. ?w (n + int j) = Some (log_file t' (((mss @ [ms]) @ [[]]) ! j) u) \<and> time_ok t' \<and> (\<forall>c. u = Some c \<longrightarrow> time_ok c)"
  proof cases
    case 1
    then show ?thesis
      using assms(1) [unfolded logs_hold_def, THEN conjunct2, rule_format, of j] by (simp add: nth_append)
  next
    case 2
    then show ?thesis using assms(2,3) by (auto simp: nth_append intro: exI [of _ t] exI [of _ "Some t'"])
  next
    case 3
    then show ?thesis using assms(4) by (auto simp: nth_append intro: exI [of _ t''] exI [of _ None])
  qed
qed

lemma log_file_more:
  "log_file t ms None @ log_line m @ [newline] = log_file t (ms @ [m]) None"
  "log_file t ms None @ ''time/'' @ u @ [newline] = log_file t ms (Some u)"
  by (simp_all add: log_file_def log_text_def)

lemma flushResult_flushes:
  assumes "lg_committed g \<le> lg_nextseq g - 1" "lr_seqno r = lg_nextseq g"
  shows "flushResult r g = Some (flushLog g)"
  using assms by (simp add: flushResult_def Let_def flushLog_def)


lemma logged_of_snoc:
  "logged_of (rs @ [r]) = logged_of rs @
     (if lr_mutation r \<and> lr_status r = 0 \<and> \<not> lr_rollover r then (case lr_log r of None \<Rightarrow> [] | Some m \<Rightarrow> [m]) else [])"
  by (auto simp: logged_of_def map_filter_def split: option.split)

lemma logger_invE:
  assumes "logger_inv n rs as g"
  obtains mss ms t0 where "logs_hold (written g) n (mss @ [ms])" "lg_lognum g = n + int (length mss)"
    "concat mss @ ms = logged_of rs" "written g (lg_lognum g) = Some (log_file t0 ms None)" "time_ok t0"
    "\<forall>i > lg_lognum g. written g i = None" "0 \<le> n" "lg_committed g \<le> lg_nextseq g"
    "filter (\<lambda>r. \<not> lr_rollover r) rs = as @ lg_logged g"
  using assms unfolding logger_inv_def logs_written_def by (elim conjE exE) blast

lemma logger_invI:
  assumes "logs_hold (written g) n (mss @ [ms])" "lg_lognum g = n + int (length mss)"
    "concat mss @ ms = logged_of rs" "written g (lg_lognum g) = Some (log_file t0 ms None)" "time_ok t0"
    "\<forall>i > lg_lognum g. written g i = None" "0 \<le> n" "lg_committed g \<le> lg_nextseq g"
    "filter (\<lambda>r. \<not> lr_rollover r) rs = as @ lg_logged g" "lg_buffer g = []"
  shows "logger_inv n rs as g"
  unfolding logger_inv_def logs_written_def using assms by blast

text \<open>Writing the line of a request, or rolling the log over, and flushing.\<close>

lemma Logger_log_line:
  assumes "logger_inv n rs as g" "\<not> lr_rollover r" "lr_seqno r = lg_nextseq g + 1" "lr_mutation r" "lr_status r = 0"
  shows "\<exists>g'. Logger_log t r (g\<lparr>lg_pending := q, lg_nextseq := lg_nextseq g + 1\<rparr>) = Some g' \<and>
    logger_inv n (rs @ [r]) as (g'\<lparr>lg_logged := lg_logged g' @ [r]\<rparr>)"
proof -
  let ?g = "g\<lparr>lg_pending := q, lg_nextseq := lg_nextseq g + 1\<rparr>"
  obtain mss ms t0 where inv: "logs_hold (written g) n (mss @ [ms])" "lg_lognum g = n + int (length mss)"
    "concat mss @ ms = logged_of rs" "written g (lg_lognum g) = Some (log_file t0 ms None)" "time_ok t0"
    "\<forall>i > lg_lognum g. written g i = None" "0 \<le> n" "lg_committed g \<le> lg_nextseq g"
    "filter (\<lambda>r. \<not> lr_rollover r) rs = as @ lg_logged g"
    using logger_invE [OF assms(1)] .
  let ?g1 = "case lr_log r of None \<Rightarrow> ?g | Some m \<Rightarrow> write_file (log_line m @ [newline]) ?g"
  have "Logger_log t r ?g = flushResult r ?g1" using assms(2) by (simp add: Logger_log_def request_log_def)
  also have "\<dots> = Some (flushLog ?g1)"
    by (rule flushResult_flushes) (use inv(8) assms(3) in \<open>auto split: option.split\<close>)
  finally have g': "Logger_log t r ?g = Some (flushLog ?g1)" .
  have "logger_inv n (rs @ [r]) as ((flushLog ?g1)\<lparr>lg_logged := lg_logged (flushLog ?g1) @ [r]\<rparr>)"
  proof (cases "lr_log r")
    case None
    show ?thesis
      by (rule logger_invI [of _ n mss ms _ t0]) (use None inv assms(2,4,5) in \<open>simp_all add: flushLog_def logged_of_snoc\<close>)
  next
    case (Some m)
    have "logs_hold ((written g)(lg_lognum g \<mapsto> log_file t0 (ms @ [m]) None)) n (mss @ [ms @ [m]])"
      using logs_hold_upd [OF inv(1) _ inv(5)] inv(2,4) by simp
    moreover have "log_file t0 ms None @ log_line m @ [newline] = log_file t0 (ms @ [m]) None" by (rule log_file_more)
    moreover have "concat mss @ ms @ [m] = logged_of rs @ [m]" using inv(3) by (metis append.assoc)
    ultimately show ?thesis
      by (intro logger_invI [of _ n mss "ms @ [m]" _ t0])
        (use Some inv assms(2,4,5) in \<open>simp_all add: flushLog_def logged_of_snoc del: log_line.simps\<close>)
  qed
  with g' show ?thesis by blast
qed

lemma Logger_log_rollover:
  assumes "logger_inv n rs as g" "lr_rollover r" "lr_seqno r = lg_nextseq g + 1" "time_ok t"
  shows "\<exists>g'. Logger_log t r (g\<lparr>lg_pending := q, lg_nextseq := lg_nextseq g + 1\<rparr>) = Some g' \<and>
    logger_inv n (rs @ [r]) as g'"
proof -
  let ?g = "g\<lparr>lg_pending := q, lg_nextseq := lg_nextseq g + 1\<rparr>"
  obtain mss ms t0 where inv: "logs_hold (written g) n (mss @ [ms])" "lg_lognum g = n + int (length mss)"
    "concat mss @ ms = logged_of rs" "written g (lg_lognum g) = Some (log_file t0 ms None)" "time_ok t0"
    "\<forall>i > lg_lognum g. written g i = None" "0 \<le> n" "lg_committed g \<le> lg_nextseq g"
    "filter (\<lambda>r. \<not> lr_rollover r) rs = as @ lg_logged g"
    using logger_invE [OF assms(1)] .
  let ?k = "lg_lognum g"
  let ?w = "(written g)(?k \<mapsto> log_file t0 ms (Some t), ?k + 1 \<mapsto> log_file t [] None)"
  let ?c = "flush_file (write_file (''time/'' @ t @ [newline]) ?g)"
  let ?g1 = "(write_file (log_header (t @ [newline])) (?c\<lparr>lg_incp := lg_committed ?c, lg_lognum := ?k + 1,
    lg_disk := (lg_disk ?c)(?k + 1 \<mapsto> [])\<rparr>))\<lparr>lg_mutations := 0\<rparr>"
  have "written g (?k + 1) = None" using inv(6) by simp
  then have "finishLog t ?g = Some ?g1"
    using inv(2,7) by (simp add: finishLog_def startLog_def Let_def)
  then have "Logger_log t r ?g = flushResult r ?g1" using assms(2) by (simp add: Logger_log_def request_log_def)
  also have "\<dots> = Some (flushLog ?g1)"
    by (rule flushResult_flushes) (use inv(8) assms(3) in simp_all)
  finally have g': "Logger_log t r ?g = Some (flushLog ?g1)" .
  have "written ?g1 = ?w"
    using inv(4) log_file_more(2) [of t0 ms t]
    by (auto simp: fun_eq_iff written_def write_file_def flush_file_def log_file_def log_text_def)
  moreover have "logs_hold ?w n ((mss @ [ms]) @ [[]])"
    using logs_hold_new [OF inv(1,5) assms(4,4)] inv(2,6) by simp
  moreover define g2 where "g2 = flushLog ?g1"
  ultimately have g2: "logs_hold (written g2) n ((mss @ [ms]) @ [[]])" "written g2 = ?w" "lg_lognum g2 = n + int (length (mss @ [ms]))"
    "lg_committed g2 = lg_nextseq g2" "lg_logged g2 = lg_logged g" "lg_buffer g2 = []"
    using inv(2) by (simp_all add: flushLog_def del: written_write)
  have "logger_inv n (rs @ [r]) as g2"
    by (rule logger_invI [of g2 n "mss @ [ms]" "[]" _ t])
      (use inv assms(2,4) g2 in \<open>auto simp: logged_of_snoc\<close>)
  with g' show ?thesis by (auto simp: g2_def)
qed


lemma logger_inv_counters [simp]:
  "logger_inv n rs as (g\<lparr>lg_cpdone := l\<rparr>) = logger_inv n rs as g"
  "logger_inv n rs as (g\<lparr>lg_mutations := j\<rparr>) = logger_inv n rs as g"
  "logger_inv n rs as (g\<lparr>lg_mutations := j, lg_logged := q\<rparr>) = logger_inv n rs as (g\<lparr>lg_logged := q\<rparr>)"
  by (simp_all add: logger_inv_def)

lemma logger_work:
  assumes inv: "logger_inv n rs as g" and nx: "get_pending g = Some (r, g1)" and t: "time_ok t"
  shows "\<exists>g2. logger_main t r g1 = Some g2 \<and> logger_inv n (rs @ [r]) as g2"
proof -
  from nx obtain q where g1: "g1 = g\<lparr>lg_pending := q, lg_nextseq := lg_nextseq g + 1\<rparr>" and
    r: "lr_seqno r = lg_nextseq g + 1"
    by (auto simp: get_pending_def split: list.splits)
  consider "\<not> (lr_mutation r \<and> lr_status r = 0)" | "lr_mutation r \<and> lr_status r = 0" "lr_rollover r"
    | "lr_mutation r \<and> lr_status r = 0" "\<not> lr_rollover r" by blast
  then show ?thesis
  proof cases
    case 1
    then show ?thesis using inv by (auto simp: logger_main_def g1 logger_inv_def logged_of_snoc)
  next
    case 2
    obtain g' where "Logger_log t r g1 = Some g'" "logger_inv n (rs @ [r]) as g'"
      using Logger_log_rollover [OF inv 2(2) r t, of q] unfolding g1 by (elim exE conjE)
    then show ?thesis using 2 by (auto simp: logger_main_def)
  next
    case 3
    obtain g' where "Logger_log t r g1 = Some g'" "logger_inv n (rs @ [r]) as (g'\<lparr>lg_logged := lg_logged g' @ [r]\<rparr>)"
      using Logger_log_line [OF inv 3(2) r, of t q] 3(1) unfolding g1 by auto
    then show ?thesis using 3 by (auto simp: logger_main_def)
  qed
qed

lemma logger_run_inv:
  assumes "logger_run g0 rs as g" "logger_inv n [] [] g0"
  shows "logger_inv n rs as g"
  using assms
proof induction
  case (lg_submit rs as g r)
  then show ?case by (simp add: logger_inv_def add_pending_def)
next
  case (lg_answer rs as g r g1)
  from lg_answer.IH [OF lg_answer.prems] lg_answer.hyps(2) show ?case
    by (auto simp: logger_inv_def next_result_nowait_def split: list.splits)
next
  case (lg_work rs as g r g1 t g2)
  from logger_work [OF lg_work.IH [OF lg_work.prems] lg_work.hyps(2,3)] lg_work.hyps(4) show ?case by auto
qed

lemma startLog_inv:
  assumes "startLog t n (new_Logger d) = Some g0" "\<forall>i \<ge> n. d i = None" "time_ok t"
  shows "logger_inv n [] [] g0"
proof -
  have n: "0 \<le> n" using assms(1) by (simp add: startLog_def split: if_splits)
  let ?g = "write_file (log_header (t @ [newline])) ((new_Logger d)\<lparr>lg_lognum := n, lg_disk := d(n \<mapsto> [])\<rparr>)"
  have g0: "g0 = ?g" using assms(1,2) n by (simp add: startLog_def Let_def new_Logger_def)
  have w: "written ?g = d(n \<mapsto> log_file t [] None)"
    by (auto simp: written_def flush_file_def write_file_def new_Logger_def log_file_def log_text_def)
  have "logs_hold (d(n \<mapsto> log_file t [] None)) n ([] @ [[]])"
    unfolding logs_hold_def using assms(2,3) by (auto intro: exI [of _ t] exI [of _ None])
  then have "logs_written n [] (written ?g) n"
    unfolding logs_written_def w using assms(2,3) by (intro exI [of _ "[]"] exI [of _ t]) auto
  then show ?thesis using n by (simp add: g0 logger_inv_def logged_of_def map_filter_simps new_Logger_def)
qed

lemma write_ahead_disk:
  assumes "startLog t n (new_Logger d) = Some g0" "\<forall>i \<ge> n. d i = None" "time_ok t" "logger_run g0 rs as g"
  shows "as @ lg_logged g = filter (\<lambda>r. \<not> lr_rollover r) rs \<and>
    (logged_of rs \<noteq> [] \<longrightarrow> (\<exists>mss. concat mss = logged_of rs \<and> logs_hold (lg_disk g) n mss)) \<and>
    (\<forall>r g1 t'. get_pending g = Some (r, g1) \<longrightarrow> time_ok t' \<longrightarrow> (\<exists>g2. logger_main t' r g1 = Some g2))"
proof -
  have inv: "logger_inv n rs as g" using logger_run_inv [OF assms(4) startLog_inv [OF assms(1-3)]] .
  have "lg_disk g = written g" if "lg_buffer g = []"
    using that by (auto simp: written_def flush_file_def fun_eq_iff option.map_ident)
  moreover obtain mss ms t0 where "logs_hold (written g) n (mss @ [ms])" "concat mss @ ms = logged_of rs"
    using logger_invE [OF inv] by metis
  moreover have "\<exists>g2. logger_main t' r g1 = Some g2" if "get_pending g = Some (r, g1)" "time_ok t'" for r g1 t'
    using logger_work [OF inv that] by blast
  ultimately show ?thesis using inv by (auto simp: logger_inv_def intro!: exI [of _ "mss @ [ms]"])
qed

text \<open>
  C11. The log is written ahead of the answers: in every run of the logger from a new log, the requests that
  were answered or wait to be answered are the ones that \<^verbatim>\<open>logger_main\<close> has finished, in their order, and
  the log files on disk hold exactly the lines of those of them that are completed mutations, whatever log
  rollovers came between; nothing of them is left in the buffer of the stream. The asserts of the logger
  never fail.
\<close>

theorem write_ahead:
  assumes "startLog t n (new_Logger d) = Some g0" "\<forall>i \<ge> n. d i = None" "time_ok t" "logger_run g0 rs as g"
  shows "as @ lg_logged g = filter (\<lambda>r. \<not> lr_rollover r) rs \<and>
    (logged_of rs \<noteq> [] \<longrightarrow> (\<exists>mss. concat mss = logged_of rs \<and> logs_hold (lg_disk g) n mss)) \<and>
    (\<forall>r g1 t'. get_pending g = Some (r, g1) \<longrightarrow> time_ok t' \<longrightarrow> (\<exists>g2. logger_main t' r g1 = Some g2))"
  by (rule write_ahead_disk [OF assms])

section \<open>What was acknowledged survives\<close>

lemma meta_step_lines: "meta_step R s ms s' \<Longrightarrow> length ms \<le> 1"
  by (induction rule: meta_step.induct) (auto simp: allocation_line_def)

lemma meta_run_prefix:
  assumes "meta_run R s ms s'" "prefix ms1 ms"
  shows "\<exists>s1 ms2. ms = ms1 @ ms2 \<and> meta_run R s ms1 s1 \<and> meta_run R s1 ms2 s'"
  using assms
proof (induction arbitrary: ms1)
  case (meta_done s)
  then show ?case by (auto intro: meta_run.meta_done)
next
  case (meta_more s ms s1 ms' s2)
  show ?case
  proof (cases "ms1 = []")
    case True
    then show ?thesis using meta_run.meta_more [OF meta_more.hyps] by (auto intro: meta_run.meta_done)
  next
    case False
    obtain r where r: "ms1 = ms @ r" "prefix r ms'"
    proof (cases ms)
      case Nil
      then show ?thesis using that meta_more.prems by simp
    next
      case (Cons m q)
      then have "ms = [m]" using meta_step_lines [OF meta_more.hyps(1)] by simp
      then show ?thesis using that False meta_more.prems by (cases ms1) auto
    qed
    from meta_more.IH [OF r(2)] meta_more.hyps(1) show ?thesis
      unfolding r(1) append_assoc same_append_eq by (blast intro: meta_run.meta_more)
  qed
qed

text \<open>
  C2. Logged mutations that were acknowledged survive a crash. While a server handles requests from a state, its
  logger has finished some of those that have a log line, in order; the others are lost when the process dies. Replaying
  the log files that are on disk at that moment on the same state ends with status 0 and gives the tree that
  the server had at the point of its run where it had handled just the finished ones, among them all with a line that a
  client was told about. The trees agree but for times, cached sizes and the degree of replication of
  the files in \<^verbatim>\<open>R\<close>, which are the files whose degree was changed in the run: that request is answered and
  writes no line, so its effect may be lost. In such a run (\<^verbatim>\<open>meta_step\<close>) no file with a live lease is removed or overwritten
  and the lease clean-up finds no file in the dumpster.
\<close>

theorem acknowledged_survive:
  assumes "startLog t n (new_Logger d) = Some g0" "\<forall>i \<ge> n. d i = None" "time_ok t" "logger_run g0 rs as g"
    and "meta_run R s ms s'" "prefix (logged_of rs) ms" "logged_of rs \<noteq> []"
    and "matches R b (ms_state s)" "0 \<le> fileID (ms_state s)"
    and "\<forall>m\<in>set ms. loggable m \<and> length (log_line m) < MAXLINE"
  shows "\<exists>s1 ms2 b' N. ms = logged_of rs @ ms2 \<and> meta_run R s (logged_of rs) s1 \<and> meta_run R s1 ms2 s' \<and> set (logged_of as) \<subseteq> set (logged_of rs) \<and>
    (\<forall>fuel \<ge> N. \<exists>k q. playAllLogs fuel clk (lg_disk g) n 0 b = Some (Some (b', k, q, 0))) \<and>
    map (erase_item R) (metatree b') = map (erase_item R) (metatree (ms_state s1)) \<and> fileID b' = fileID (ms_state s1)"
proof -
  have n: "0 \<le> n" using assms(1) by (simp add: startLog_def split: if_splits)
  obtain s1 ms2 where s1: "ms = logged_of rs @ ms2" "meta_run R s (logged_of rs) s1" "meta_run R s1 ms2 s'" using meta_run_prefix [OF assms(5,6)] by blast
  obtain mss where mss: "concat mss = logged_of rs" "logs_hold (lg_disk g) n mss" and
    as: "as @ lg_logged g = filter (\<lambda>r. \<not> lr_rollover r) rs"
    using write_ahead_disk [OF assms(1-4)] assms(7) by blast
  let ?N = "Suc (length mss) + sum_list (map (\<lambda>ms. length ms + 5) mss)"
  obtain b' where b': "redo_all clk (concat mss) b = Some (b', True)" "matches R b' (ms_state s1)"
    using meta_run_recovered [OF s1(2) assms(8,9)] mss(1) by auto
  have lg: "\<forall>m\<in>set (concat mss). loggable m \<and> length (log_line m) < MAXLINE"
    using assms(6,10) mss(1) by (metis set_mono_prefix subsetD)
  have "\<exists>k q. playAllLogs fuel clk (lg_disk g) n 0 b = Some (Some (b', k, q, 0))" if "?N \<le> fuel" for fuel
  proof -
    have "\<forall>ms\<in>set mss. length ms + 5 \<le> fuel"
      using that member_le_sum_list [of _ "map (\<lambda>ms. length ms + 5) mss"] by fastforce
    from play_from_logs [OF lg this mss(2) _ b'(1)] that n show ?thesis by (simp add: playAllLogs_def)
  qed
  moreover have "set (logged_of as) \<subseteq> set (logged_of rs)"
  proof -
    have "set as \<subseteq> set rs" using arg_cong [OF as, of set] by auto
    then show ?thesis by (auto simp: logged_of_def set_map_filter)
  qed
  moreover have "map (erase_item R) (metatree b') = map (erase_item R) (metatree (ms_state s1))" "fileID b' = fileID (ms_state s1)"
    using b'(2) by (auto simp: matches_def erase_def)
  ultimately show ?thesis using s1 by blast
qed


definition sample_requests :: "LogRequest list" where
  "sample_requests =
     [\<lparr>lr_log = Some (LogCreate ROOTFID ''a'' 3 2), lr_rollover = False, lr_mutation = True, lr_status = 0, lr_seqno = 0\<rparr>,
      \<lparr>lr_log = None, lr_rollover = True, lr_mutation = True, lr_status = 0, lr_seqno = 0\<rparr>,
      \<lparr>lr_log = Some (LogMkdir ROOTFID ''d'' 4), lr_rollover = False, lr_mutation = True, lr_status = 0, lr_seqno = 0\<rparr>]"

lemma run_pending:
  assumes "logger_run g0 rs as g" "logger_inv n [] [] g0" "lg_pending g = r # q" "time_ok t"
  obtains g' where "logger_run g0 (rs @ [r\<lparr>lr_seqno := lg_nextseq g + 1\<rparr>]) as g'" "lg_pending g' = q"
proof -
  let ?r = "r\<lparr>lr_seqno := lg_nextseq g + 1\<rparr>"
  have nx: "get_pending g = Some (?r, g\<lparr>lg_pending := q, lg_nextseq := lg_nextseq g + 1\<rparr>)"
    using assms(3) by (simp add: get_pending_def)
  obtain g' where g': "logger_main t ?r (g\<lparr>lg_pending := q, lg_nextseq := lg_nextseq g + 1\<rparr>) = Some g'"
    using logger_work [OF logger_run_inv [OF assms(1,2)] nx assms(4)] by auto
  moreover have "lg_pending g' = q"
    using g' by (auto simp: logger_main_def Logger_log_def request_log_def flushResult_def flushLog_def finishLog_def
      startLog_def write_file_def flush_file_def Let_def bind_eq_Some_conv split: if_splits option.splits)
  ultimately show ?thesis using that logger_run.lg_work [OF assms(1) nx assms(4) g'] by blast
qed

lemma sample_logger_run:
  obtains g0 rs as g where "startLog ''t'' 0 (new_Logger Map.empty) = Some g0" "logger_run g0 rs as g"
    "logged_of rs = [LogCreate ROOTFID ''a'' 3 2, LogMkdir ROOTFID ''d'' 4]" "length as = 1"
proof -
  obtain g0 where g0: "startLog ''t'' 0 (new_Logger Map.empty) = Some g0" "lg_pending g0 = []"
    by (auto simp: startLog_def new_Logger_def write_file_def Let_def)
  have inv: "logger_inv 0 [] [] g0" by (rule startLog_inv [OF g0(1)]) (simp_all add: time_ok_def)
  have t: "time_ok ''t''" by (simp add: time_ok_def)
  obtain r1 r2 r3 where r: "sample_requests = [r1, r2, r3]" by (simp add: sample_requests_def)
  then have f: "\<not> lr_rollover r1" "lr_rollover r2" "\<not> lr_rollover r3" "lr_mutation r1" "lr_mutation r3" "lr_status r1 = 0"
    "lr_status r3 = 0" "lr_log r1 = Some (LogCreate ROOTFID ''a'' 3 2)" "lr_log r3 = Some (LogMkdir ROOTFID ''d'' 4)"
    by (auto simp: sample_requests_def)
  have "logger_run g0 [] [] (add_pending r3 (add_pending r2 (add_pending r1 g0)))"
    by (intro logger_run.lg_submit logger_run.lg_start)
  moreover have "lg_pending (add_pending r3 (add_pending r2 (add_pending r1 g0))) = [r1, r2, r3]"
    by (simp add: add_pending_def g0(2))
  ultimately obtain g1 k1 where g1: "logger_run g0 [r1\<lparr>lr_seqno := k1\<rparr>] [] g1" "lg_pending g1 = [r2, r3]"
    using run_pending [OF _ inv _ t] by (metis append_Nil)
  then obtain g2 k2 where g2: "logger_run g0 [r1\<lparr>lr_seqno := k1\<rparr>, r2\<lparr>lr_seqno := k2\<rparr>] [] g2" "lg_pending g2 = [r3]"
    using run_pending [OF g1(1) inv g1(2) t] by (metis append_Cons append_Nil)
  then obtain g3 k3 where g3: "logger_run g0 [r1\<lparr>lr_seqno := k1\<rparr>, r2\<lparr>lr_seqno := k2\<rparr>, r3\<lparr>lr_seqno := k3\<rparr>] [] g3"
    using run_pending [OF g2(1) inv g2(2) t] by (metis append_Cons append_Nil)
  from logger_run_inv [OF g3 inv] have "lg_logged g3 = [r1\<lparr>lr_seqno := k1\<rparr>, r3\<lparr>lr_seqno := k3\<rparr>]"
    using f by (simp add: logger_inv_def)
  then have "next_result_nowait g3 = Some (r1\<lparr>lr_seqno := k1\<rparr>, g3\<lparr>lg_logged := [r3\<lparr>lr_seqno := k3\<rparr>]\<rparr>)"
    by (simp add: next_result_nowait_def)
  from that [OF g0(1) logger_run.lg_answer [OF g3 this]] f show ?thesis
    by (simp add: logged_of_def map_filter_simps)
qed


theorem write_ahead_witness:
  "\<exists>g0 rs as g mss. startLog ''t'' 0 (new_Logger Map.empty) = Some g0 \<and> logger_run g0 rs as g \<and> length as = 1 \<and>
    concat mss = [LogCreate ROOTFID ''a'' 3 2, LogMkdir ROOTFID ''d'' 4] \<and> logs_hold (lg_disk g) 0 mss"
proof -
  obtain g0 rs as g where s: "startLog ''t'' 0 (new_Logger Map.empty) = Some g0" "logger_run g0 rs as g"
    "logged_of rs = [LogCreate ROOTFID ''a'' 3 2, LogMkdir ROOTFID ''d'' 4]" "length as = 1"
    by (rule sample_logger_run)
  have "\<exists>mss. concat mss = logged_of rs \<and> logs_hold (lg_disk g) 0 mss"
    using write_ahead [OF s(1) _ _ s(2)] s(3) by (simp add: time_ok_def)
  then show ?thesis using s by auto
qed

theorem acknowledged_survive_witness:
  "\<exists>(g :: Logger) N b'. (\<forall>fuel \<ge> N. \<exists>k q. playAllLogs fuel zero_time (lg_disk g) 0 0 sample_fs = Some (Some (b', k, q, 0))) \<and> fileID b' = 4"
proof -
  let ?w = "\<lparr>allocs = \<lambda>_. new_MetaAllocate 0 0, submitted = []\<rparr>"
  obtain g0 rs as g where s: "startLog ''t'' 0 (new_Logger Map.empty) = Some g0" "logger_run g0 rs as g"
    "logged_of rs = [LogCreate ROOTFID ''a'' 3 2, LogMkdir ROOTFID ''d'' 4]" "length as = 1"
    by (rule sample_logger_run)
  note run = sample_run(1) [of ?w]
  have b: "matches {3} sample_fs sample_fs"
    by (simp add: matches_def sample_fs_ok(5) leaseless_def new_LayoutManager_def)
  have lg: "\<forall>m\<in>set [LogCreate ROOTFID ''a'' 3 2, LogMkdir ROOTFID ''d'' 4]. loggable m \<and> length (log_line m) < MAXLINE" by code_simp
  obtain s1 b' N where r: "meta_run {3} \<lparr>ms_state = sample_fs, ms_loop = ?w, ms_queue = [], trunc_of = Map.empty, next_alloc = 0\<rparr> (logged_of rs) s1"
    "\<forall>fuel \<ge> N. \<exists>k q. playAllLogs fuel zero_time (lg_disk g) 0 0 sample_fs = Some (Some (b', k, q, 0))"
    "fileID b' = fileID (ms_state s1)"
    using acknowledged_survive [OF s(1) _ _ s(2) run _ _ _ _ lg, of sample_fs zero_time] b sample_fs_ok(4)
    by (auto simp: s(3) time_ok_def)
  have "map_option (\<lambda>(b, ok). fileID b) (redo_all zero_time [LogCreate ROOTFID ''a'' 3 2, LogMkdir ROOTFID ''d'' 4] sample_fs) = Some 4"
    by code_simp
  then have "fileID (ms_state s1) = 4"
    using meta_run_recovered [OF r(1), of sample_fs zero_time] b s(3) by (auto simp: sample_fs_ok(4) dest: matchesD(2))
  with r(3) have "fileID b' = 4" by simp
  with r(2) show ?thesis by blast
qed

end
