(* ===== verification/Kfs_IOBuffer.thy ===== *)
theory Kfs_IOBuffer
  imports Kfs_Prelude "HOL-Library.Word" "HOL-Library.Monad_Syntax" "HOL-Library.Multiset"
begin

text \<open>
  The buffers of src/src/cc/libkfsIO/IOBuffer.h and IOBuffer.cc. An \<^verbatim>\<open>IOBuffer\<close> is a list of
  \<^verbatim>\<open>IOBufferData\<close>, each a window with a consumer and a producer position on an array of bytes. Arrays are
  shared between windows, so they are in a heap: a list of arrays, an array by its index. Positions are
  offsets into the array. \<^verbatim>\<open>bufsz\<close> is the variable \<^verbatim>\<open>IOBUFSIZE\<close>. A failed assert is \<^verbatim>\<open>None\<close>. Bytes of a new array
  are zero in the model; no operation reads a byte that was not written.
\<close>

section \<open>One window\<close>

type_synonym byte = "8 word"
type_synonym byte_heap = "byte list list"

record IOBufferData =
  mData :: nat
  mStart :: nat
  mEnd :: nat
  mProducer :: nat
  mConsumer :: nat

definition data_consumable :: "IOBufferData \<Rightarrow> nat" where
  "data_consumable d = mProducer d - mConsumer d"

definition SpaceAvailable :: "IOBufferData \<Rightarrow> nat" where
  "SpaceAvailable d = mEnd d - mProducer d"

definition IsFull :: "IOBufferData \<Rightarrow> bool" where
  "IsFull d \<longleftrightarrow> mProducer d = mEnd d"

definition IsEmpty :: "IOBufferData \<Rightarrow> bool" where
  "IsEmpty d \<longleftrightarrow> mProducer d = mConsumer d"

definition new_IOBufferData :: "nat \<Rightarrow> byte_heap \<Rightarrow> byte_heap \<times> IOBufferData" where
  "new_IOBufferData sz h =
     (h @ [replicate sz 0], \<lparr>mData = length h, mStart = 0, mEnd = sz, mProducer = 0, mConsumer = 0\<rparr>)"

text \<open>The constructor that shares the array of another window, with start and end positions.\<close>

definition share :: "IOBufferData \<Rightarrow> nat \<Rightarrow> nat \<Rightarrow> IOBufferData" where
  "share other s e = \<lparr>mData = mData other, mStart = s, mEnd = e, mProducer = e, mConsumer = s\<rparr>"

definition memcpy :: "byte_heap \<Rightarrow> nat \<Rightarrow> nat \<Rightarrow> byte list \<Rightarrow> byte_heap" where
  "memcpy h a pos bs = h[a := take pos (h ! a) @ bs @ drop (pos + length bs) (h ! a)]"

definition data_Fill :: "nat \<Rightarrow> IOBufferData \<Rightarrow> IOBufferData \<times> nat" where
  "data_Fill nbytes d =
     (if SpaceAvailable d < nbytes then (d\<lparr>mProducer := mEnd d\<rparr>, SpaceAvailable d)
      else (d\<lparr>mProducer := mProducer d + nbytes\<rparr>, nbytes))"

definition data_ZeroFill :: "nat \<Rightarrow> byte_heap \<Rightarrow> IOBufferData \<Rightarrow> byte_heap \<times> IOBufferData \<times> nat" where
  "data_ZeroFill nbytes h d =
     (let n = min nbytes (SpaceAvailable d) in (memcpy h (mData d) (mProducer d) (replicate n 0), data_Fill n d))"

definition data_Consume :: "nat \<Rightarrow> IOBufferData \<Rightarrow> IOBufferData \<times> nat" where
  "data_Consume nbytes d =
     (if data_consumable d < nbytes then (d\<lparr>mConsumer := mProducer d\<rparr>, data_consumable d)
      else (d\<lparr>mConsumer := mConsumer d + nbytes\<rparr>, nbytes))"

definition data_Trim :: "nat \<Rightarrow> IOBufferData \<Rightarrow> IOBufferData \<times> nat" where
  "data_Trim nbytes d =
     (if data_consumable d < nbytes then (d, data_consumable d)
      else (d\<lparr>mProducer := mConsumer d + nbytes\<rparr>, nbytes))"

definition data_CopyIn :: "byte list \<Rightarrow> nat \<Rightarrow> byte_heap \<Rightarrow> IOBufferData \<Rightarrow> byte_heap \<times> IOBufferData \<times> nat" where
  "data_CopyIn buf numBytes h d =
     (let n = min numBytes (SpaceAvailable d) in (memcpy h (mData d) (mProducer d) (take n buf), data_Fill n d))"

definition data_CopyIn_other :: "IOBufferData \<Rightarrow> nat \<Rightarrow> byte_heap \<Rightarrow> IOBufferData \<Rightarrow> byte_heap \<times> IOBufferData \<times> nat" where
  "data_CopyIn_other other numBytes h d = data_CopyIn (drop (mConsumer other) (h ! mData other)) numBytes h d"

definition data_CopyOut :: "nat \<Rightarrow> byte_heap \<Rightarrow> IOBufferData \<Rightarrow> byte list" where
  "data_CopyOut numBytes h d = take (min (data_consumable d) numBytes) (drop (mConsumer d) (h ! mData d))"

section \<open>The list of windows\<close>

type_synonym IOBuffer = "IOBufferData list"

definition BytesConsumable :: "IOBuffer \<Rightarrow> nat" where
  "BytesConsumable b = sum_list (map data_consumable b)"

definition buf_Append :: "IOBuffer \<Rightarrow> IOBuffer \<Rightarrow> IOBuffer \<times> IOBuffer" where
  "buf_Append b ioBuf = (b @ ioBuf, [])"

function consume_loop :: "nat \<Rightarrow> IOBuffer \<Rightarrow> nat \<times> IOBuffer" where
  "consume_loop nbytes [] = (nbytes, [])"
| "consume_loop nbytes (d # b) =
     (let (d1, n) = data_Consume nbytes d;
          b1 = (if IsEmpty d1 then b else d1 # b)
      in if nbytes - n = 0 then (0, b1) else consume_loop (nbytes - n) b1)"
  by pat_completeness auto
termination
proof (relation "measure (\<lambda>(n, b). length b)", goal_cases)
  case (2 nbytes d b p d1 n b1)
  then show ?case by (auto simp: data_Consume_def data_consumable_def IsEmpty_def split: if_splits)
qed simp

definition buf_Consume :: "int \<Rightarrow> IOBuffer \<Rightarrow> IOBuffer option" where
  "buf_Consume nbytes b =
     assert_then (0 \<le> nbytes)
       (let (n, b1) = consume_loop (nat nbytes) b in assert_then (n = 0) (Some b1))"

fun move_loop :: "nat \<Rightarrow> nat \<Rightarrow> IOBuffer \<Rightarrow> IOBuffer \<Rightarrow> (IOBuffer \<times> IOBuffer) option" where
  "move_loop numBytes moved b [] = Some (b, [])"
| "move_loop numBytes moved b (d # other) =
     (if moved < numBytes
      then
        if data_consumable d + moved < numBytes
        then move_loop numBytes (moved + data_consumable d) (b @ [d]) other
        else
          let n = numBytes - moved
          in map_option (\<lambda>other1. (b @ [share d (mConsumer d) (mConsumer d + n)], other1)) (buf_Consume (int n) (d # other))
      else Some (b, d # other))"

definition buf_Move :: "nat \<Rightarrow> IOBuffer \<Rightarrow> IOBuffer \<Rightarrow> (IOBuffer \<times> IOBuffer) option" where
  "buf_Move numBytes b other =
     assert_then (numBytes \<le> BytesConsumable other) (move_loop numBytes 0 b other)"

text \<open>New windows of zeros; the fuel is enough when \<^verbatim>\<open>IOBUFSIZE\<close> is not zero.\<close>

fun zero_blocks :: "nat \<Rightarrow> nat \<Rightarrow> nat \<Rightarrow> byte_heap \<Rightarrow> IOBuffer \<Rightarrow> (byte_heap \<times> IOBuffer) option" where
  "zero_blocks fuel bufsz 0 h b = Some (h, b)"
| "zero_blocks 0 bufsz n h b = None"
| "zero_blocks (Suc fuel) bufsz n h b =
     (let zeroed = min bufsz n;
          (h1, d) = new_IOBufferData bufsz h;
          (h2, d1, k) = data_ZeroFill zeroed h1 d
      in zero_blocks fuel bufsz (n - zeroed) h2 (b @ [d1]))"

definition buf_ZeroFill :: "nat \<Rightarrow> nat \<Rightarrow> byte_heap \<Rightarrow> IOBuffer \<Rightarrow> (byte_heap \<times> IOBuffer) option" where
  "buf_ZeroFill bufsz numBytes h b = zero_blocks numBytes bufsz numBytes h b"

fun copyin_loop :: "nat \<Rightarrow> nat \<Rightarrow> byte list \<Rightarrow> byte_heap \<Rightarrow> IOBuffer \<Rightarrow> IOBufferData \<Rightarrow> (byte_heap \<times> IOBuffer) option" where
  "copyin_loop 0 bufsz buf h b d = None"
| "copyin_loop (Suc fuel) bufsz buf h b d =
     (if buf = [] then Some (h, b @ [d])
      else
        let (h1, d1, n) = data_CopyIn buf (length buf) h d in
        if length buf \<le> n then Some (h1, b @ [d1])
        else let (h2, d2) = new_IOBufferData bufsz h1 in copyin_loop fuel bufsz (drop n buf) h2 (b @ [d1]) d2)"

definition buf_CopyIn :: "nat \<Rightarrow> byte list \<Rightarrow> byte_heap \<Rightarrow> IOBuffer \<Rightarrow> (byte_heap \<times> IOBuffer) option" where
  "buf_CopyIn bufsz buf h b =
     (if b = [] then let (h1, d) = new_IOBufferData bufsz h in copyin_loop (length buf + 2) bufsz buf h1 [] d
      else copyin_loop (length buf + 2) bufsz buf h (butlast b) (last b))"

fun buf_CopyOut :: "nat \<Rightarrow> byte_heap \<Rightarrow> IOBuffer \<Rightarrow> byte list" where
  "buf_CopyOut numBytes h [] = []"
| "buf_CopyOut numBytes h (d # b) =
     (let c = data_CopyOut numBytes h d in
      if numBytes \<le> length c then c else c @ buf_CopyOut (numBytes - length c) h b)"

fun trim_loop :: "nat \<Rightarrow> nat \<Rightarrow> IOBuffer \<Rightarrow> IOBuffer" where
  "trim_loop nbytes tot [] = []"
| "trim_loop nbytes tot (d # b) =
     (let drain = (\<lambda>e. fst (data_Consume (data_consumable e) e)) in
      if data_consumable d + tot \<le> nbytes then d # trim_loop nbytes (tot + data_consumable d) b
      else if tot = nbytes then map drain (d # b)
      else fst (data_Trim (nbytes - tot) d) # map drain b)"

definition buf_Trim :: "int \<Rightarrow> IOBuffer \<Rightarrow> IOBuffer option" where
  "buf_Trim nbytes b =
     (if nbytes \<le> 0 then Some b
      else let b1 = trim_loop (nat nbytes) 0 b in assert_then (BytesConsumable b1 = nat nbytes) (Some b1))"

definition buf_Clone :: "IOBuffer \<Rightarrow> IOBuffer" where
  "buf_Clone b = map (\<lambda>d. share d (mConsumer d) (mConsumer d + data_consumable d)) b"

text \<open>
  \<^verbatim>\<open>Splice\<close> looks for the insertion point, splitting a window there with a copy of its first part, then
  takes away the bytes that are replaced, and puts all of the other buffer in.
\<close>

function splice_find :: "nat \<Rightarrow> nat \<Rightarrow> nat \<Rightarrow> byte_heap \<Rightarrow> IOBuffer \<Rightarrow> IOBuffer \<Rightarrow> byte_heap \<times> nat \<times> IOBuffer \<times> IOBuffer" where
  "splice_find bufsz offset startPos h pre [] = (h, startPos, pre, [])"
| "splice_find bufsz offset startPos h pre (d # b) =
     (if startPos < offset
      then
        if offset < data_consumable d + startPos
        then
          let n = offset - startPos;
              (h1, c) = new_IOBufferData bufsz h;
              (h2, c1, k) = data_CopyIn_other d n h1 c;
              (d1, j) = data_Consume n d
          in splice_find bufsz offset (startPos + data_consumable c1) h2 (pre @ [c1]) (d1 # b)
        else splice_find bufsz offset (startPos + data_consumable d) h (pre @ [d]) b
      else (h, startPos, pre, d # b))"
  by pat_completeness auto
termination
  by (relation "measure (\<lambda>(z, off, p, h, pre, b). length b + sum_list (map data_consumable b))")
    (auto simp: data_Consume_def data_consumable_def split: if_splits)

fun splice_drop :: "nat \<Rightarrow> nat \<Rightarrow> IOBuffer \<Rightarrow> IOBuffer" where
  "splice_drop startPos limit [] = []"
| "splice_drop startPos limit (d # b) =
     (if startPos < limit
      then let extra = min (data_consumable d) (limit - startPos)
           in fst (data_Consume extra d) # splice_drop (startPos + extra) limit b
      else d # b)"

definition buf_Splice ::
  "nat \<Rightarrow> nat \<Rightarrow> nat \<Rightarrow> byte_heap \<Rightarrow> IOBuffer \<Rightarrow> IOBuffer \<Rightarrow> (byte_heap \<times> IOBuffer \<times> IOBuffer) option" where
  "buf_Splice bufsz offset numBytes h b other =
     do { (h1, b1) \<leftarrow> zero_blocks offset bufsz (offset - BytesConsumable b) h b;
          assert_then (offset \<le> BytesConsumable b1 \<and> numBytes \<le> BytesConsumable other)
            (let (h2, startPos, pre, post) = splice_find bufsz offset 0 h1 [] b1
             in Some (h2, pre @ other @ splice_drop startPos (offset + numBytes) post, [])) }"

section \<open>The bytes of a buffer, and sharing\<close>

definition win_ok :: "byte_heap \<Rightarrow> IOBufferData \<Rightarrow> bool" where
  "win_ok h d \<longleftrightarrow> mData d < length h \<and> mConsumer d \<le> mProducer d \<and> mProducer d \<le> mEnd d \<and> mEnd d \<le> length (h ! mData d)"

definition win_bytes :: "byte_heap \<Rightarrow> IOBufferData \<Rightarrow> byte list" where
  "win_bytes h d = take (data_consumable d) (drop (mConsumer d) (h ! mData d))"

definition buf_bytes :: "byte_heap \<Rightarrow> IOBuffer \<Rightarrow> byte list" where
  "buf_bytes h b = concat (map (win_bytes h) b)"

text \<open>What one window may still write, the other does not see.\<close>

definition apart :: "IOBufferData \<Rightarrow> IOBufferData \<Rightarrow> bool" where
  "apart d e \<longleftrightarrow> mData d = mData e \<longrightarrow>
     (mProducer d = mEnd d \<or> mEnd e \<le> mProducer d) \<and> (mProducer e = mEnd e \<or> mEnd d \<le> mProducer e)"

definition buf_ok :: "byte_heap \<Rightarrow> IOBuffer \<Rightarrow> bool" where
  "buf_ok h b \<longleftrightarrow> (\<forall>d\<in>set b. win_ok h d) \<and> sorted_wrt apart b"

definition framed :: "byte_heap \<Rightarrow> IOBuffer \<Rightarrow> IOBufferData \<Rightarrow> bool" where
  "framed h b x \<longleftrightarrow> win_ok h x \<and> (\<forall>d\<in>set b. apart d x)"

text \<open>A change of a buffer into one with given bytes that no window outside notices.\<close>

definition buf_step :: "byte_heap \<Rightarrow> IOBuffer \<Rightarrow> byte_heap \<Rightarrow> IOBuffer \<Rightarrow> byte list \<Rightarrow> bool" where
  "buf_step h b h' b' bs \<longleftrightarrow> buf_ok h' b' \<and> buf_bytes h' b' = bs \<and>
     (\<forall>x. framed h b x \<longrightarrow> framed h' b' x \<and> win_bytes h' x = win_bytes h x)"

lemma apart_sym: "apart d e \<longleftrightarrow> apart e d"
  by (auto simp: apart_def)

lemma apartI: "apart d e \<Longrightarrow> apart e d"
  by (auto simp: apart_def)

lemma length_win_bytes [simp]: "win_ok h d \<Longrightarrow> length (win_bytes h d) = data_consumable d"
  by (auto simp: win_ok_def win_bytes_def data_consumable_def min_def)

lemma buf_bytes_cong: "(\<And>d. d \<in> set b \<Longrightarrow> win_bytes h' d = win_bytes h d) \<Longrightarrow> buf_bytes h' b = buf_bytes h b"
  by (induction b) (simp_all add: buf_bytes_def)

lemma buf_bytes_simps [simp]:
  "buf_bytes h [] = []" "buf_bytes h (d # b) = win_bytes h d @ buf_bytes h b" "buf_bytes h (b @ c) = buf_bytes h b @ buf_bytes h c"
  by (simp_all add: buf_bytes_def)

lemma BytesConsumable_simps [simp]:
  "BytesConsumable [] = 0" "BytesConsumable (d # b) = data_consumable d + BytesConsumable b"
  "BytesConsumable (b @ c) = BytesConsumable b + BytesConsumable c"
  by (simp_all add: BytesConsumable_def)

lemma length_buf_bytes: "buf_ok h b \<Longrightarrow> length (buf_bytes h b) = BytesConsumable b"
  by (induction b) (auto simp: buf_ok_def)

lemma buf_ok_simps [simp]:
  "buf_ok h []" "buf_ok h (d # b) \<longleftrightarrow> win_ok h d \<and> buf_ok h b \<and> (\<forall>e\<in>set b. apart d e)"
  "buf_ok h (b @ c) \<longleftrightarrow> buf_ok h b \<and> buf_ok h c \<and> (\<forall>d\<in>set b. \<forall>e\<in>set c. apart d e)"
  by (auto simp: buf_ok_def sorted_wrt_append)

lemma framed_simps [simp]:
  "framed h [] x \<longleftrightarrow> win_ok h x" "framed h (d # b) x \<longleftrightarrow> apart d x \<and> framed h b x"
  "framed h (b @ c) x \<longleftrightarrow> framed h b x \<and> framed h c x"
  by (auto simp: framed_def)

lemma buf_ok_framed: "buf_ok h b \<Longrightarrow> (\<forall>d\<in>set b. apart d x) \<Longrightarrow> win_ok h x \<Longrightarrow> framed h b x"
  by (simp add: framed_def)

lemma buf_step_refl: "buf_ok h b \<Longrightarrow> buf_step h b h b (buf_bytes h b)"
  by (simp add: buf_step_def)

lemma buf_step_trans:
  "buf_step h b h1 b1 bs1 \<Longrightarrow> buf_step h1 b1 h2 b2 bs2 \<Longrightarrow> buf_step h b h2 b2 bs2"
  by (auto simp: buf_step_def)

subsection \<open>Writing and allocating\<close>

lemma memcpy_other:
  assumes "win_ok h d" "win_ok h x" "apart d x" "length bs \<le> SpaceAvailable d"
  shows "win_ok (memcpy h (mData d) (mProducer d) bs) x"
    "win_bytes (memcpy h (mData d) (mProducer d) bs) x = win_bytes h x"
proof -
  let ?h = "memcpy h (mData d) (mProducer d) bs"
  have len: "length (?h ! mData d) = length (h ! mData d)" "length ?h = length h"
    using assms(1,4) by (auto simp: memcpy_def win_ok_def SpaceAvailable_def)
  have "length (?h ! a) = length (h ! a)" for a using len by (cases "a = mData d") (auto simp: memcpy_def)
  then show "win_ok ?h x" using assms(2) len by (simp add: win_ok_def)
  show "win_bytes ?h x = win_bytes h x"
  proof (cases "mData x = mData d \<and> bs \<noteq> []")
    case True
    then have "mProducer d \<noteq> mEnd d" using assms(4) by (auto simp: SpaceAvailable_def)
    with True assms(3) have "mEnd x \<le> mProducer d" by (auto simp: apart_def)
    then have "mProducer x \<le> mProducer d" "mConsumer x \<le> mProducer d" using assms(2) by (auto simp: win_ok_def)
    moreover have "mProducer d \<le> length (h ! mData d)" using assms(1) by (auto simp: win_ok_def)
    ultimately show ?thesis
      using True assms(1,2) by (simp add: win_bytes_def data_consumable_def memcpy_def win_ok_def take_drop min_def)
  next
    case False
    then show ?thesis using assms(1) by (auto simp: win_bytes_def memcpy_def win_ok_def nth_list_update)
  qed
qed

lemma memcpy_self:
  assumes "win_ok h d" "length bs \<le> SpaceAvailable d"
  defines "d' \<equiv> d\<lparr>mProducer := mProducer d + length bs\<rparr>"
  shows "win_ok (memcpy h (mData d) (mProducer d) bs) d'"
    "win_bytes (memcpy h (mData d) (mProducer d) bs) d' = win_bytes h d @ bs"
proof -
  have a: "mData d < length h" "mConsumer d \<le> mProducer d" "mProducer d + length bs \<le> mEnd d" "mEnd d \<le> length (h ! mData d)"
    using assms(1,2) by (auto simp: win_ok_def SpaceAvailable_def)
  then show "win_ok (memcpy h (mData d) (mProducer d) bs) d'" by (simp add: win_ok_def d'_def memcpy_def)
  let ?A = "h ! mData d" and ?p = "mProducer d" and ?c = "mConsumer d"
  have "drop ?c (take ?p ?A @ bs @ drop (?p + length bs) ?A) = drop ?c (take ?p ?A) @ bs @ drop (?p + length bs) ?A"
    using a by (simp add: min_def)
  moreover have "length (drop ?c (take ?p ?A)) = ?p - ?c" using a by simp
  ultimately show "win_bytes (memcpy h (mData d) (mProducer d) bs) d' = win_bytes h d @ bs"
    using a by (simp add: win_bytes_def d'_def memcpy_def data_consumable_def drop_take)
qed

lemma apart_produce: "apart d x \<Longrightarrow> n \<le> SpaceAvailable d \<Longrightarrow> apart (d\<lparr>mProducer := mProducer d + n\<rparr>) x"
  by (auto simp: apart_def SpaceAvailable_def)

lemma put_step:
  assumes "buf_ok h (b @ [d])" "length bs \<le> SpaceAvailable d"
  shows "buf_step h (b @ [d]) (memcpy h (mData d) (mProducer d) bs) (b @ [d\<lparr>mProducer := mProducer d + length bs\<rparr>])
    (buf_bytes h (b @ [d]) @ bs)"
proof -
  let ?h = "memcpy h (mData d) (mProducer d) bs"
  have d: "win_ok h d" and b: "buf_ok h b" "\<And>e. e \<in> set b \<Longrightarrow> apart e d" using assms(1) by auto
  have x: "win_ok ?h e \<and> win_bytes ?h e = win_bytes h e" if "win_ok h e" "apart e d" for e
    using memcpy_other [OF d that(1) _ assms(2)] that(2) apart_sym by blast
  have e: "win_ok ?h e" "win_bytes ?h e = win_bytes h e" if "e \<in> set b" for e
    using x [of e] b(1) that b(2) [OF that] by (auto simp: buf_ok_def)
  have "buf_bytes ?h b = buf_bytes h b" by (rule buf_bytes_cong) (rule e)
  moreover have d': "apart e (d\<lparr>mProducer := mProducer d + length bs\<rparr>)" "apart (d\<lparr>mProducer := mProducer d + length bs\<rparr>) e"
    if "apart e d" for e
    using apart_produce [OF _ assms(2)] that apart_sym by blast+
  moreover have "buf_ok ?h (b @ [d\<lparr>mProducer := mProducer d + length bs\<rparr>])"
    using memcpy_self [OF d assms(2)] b e d' by (auto simp: buf_ok_def sorted_wrt_append)
  moreover have "framed ?h (b @ [d\<lparr>mProducer := mProducer d + length bs\<rparr>]) y \<and> win_bytes ?h y = win_bytes h y"
    if "framed h (b @ [d]) y" for y
    using that x [of y] d'(2) [of y] apart_sym by (auto simp: framed_def)
  ultimately show ?thesis using memcpy_self [OF d assms(2)] by (simp add: buf_step_def)
qed

lemma fresh_step:
  assumes "buf_ok h b" "new_IOBufferData sz h = (h1, d)"
  shows "buf_step h b h1 (b @ [d]) (buf_bytes h b)" "SpaceAvailable d = sz" "win_ok h1 d" "win_bytes h1 d = []"
proof -
  have x: "win_ok h1 e \<and> win_bytes h1 e = win_bytes h e \<and> apart e d \<and> apart d e" if "win_ok h e" for e
    using assms(2) that by (auto simp: new_IOBufferData_def win_ok_def win_bytes_def apart_def nth_append)
  then have "buf_bytes h1 b = buf_bytes h b" using assms(1) by (intro buf_bytes_cong) (auto simp: buf_ok_def)
  moreover show d: "SpaceAvailable d = sz" "win_ok h1 d" "win_bytes h1 d = []"
    using assms(2) by (auto simp: new_IOBufferData_def win_ok_def win_bytes_def SpaceAvailable_def data_consumable_def)
  moreover have "buf_ok h1 (b @ [d])" using assms(1) x d by (auto simp: buf_ok_def sorted_wrt_append)
  moreover have "framed h1 (b @ [d]) y \<and> win_bytes h1 y = win_bytes h y" if "framed h b y" for y
    using that x [of y] by (auto simp: framed_def)
  ultimately show "buf_step h b h1 (b @ [d]) (buf_bytes h b)" by (simp add: buf_step_def)
qed

lemma buf_step_frame:
  assumes "buf_step h b h' b' bs" "buf_ok h (b @ r)"
  shows "buf_step h (b @ r) h' (b' @ r) (bs @ buf_bytes h r)"
proof -
  have r: "framed h' b' e \<and> win_bytes h' e = win_bytes h e" if "e \<in> set r" for e
    using assms that by (auto simp: buf_step_def buf_ok_def framed_def sorted_wrt_append)
  then have "buf_ok h' (b' @ r)"
    using assms by (auto simp: buf_step_def buf_ok_def framed_def sorted_wrt_append)
  moreover have "buf_bytes h' r = buf_bytes h r" by (rule buf_bytes_cong) (use r in blast)
  ultimately show ?thesis using assms(1) by (auto simp: buf_step_def framed_def)
qed

subsection \<open>Consuming\<close>

lemma apart_consumer [simp]: "apart (d\<lparr>mConsumer := c\<rparr>) x = apart d x" "apart x (d\<lparr>mConsumer := c\<rparr>) = apart x d"
  by (simp_all add: apart_def)

lemma win_consume:
  assumes "win_ok h d" "n \<le> data_consumable d"
  shows "win_ok h (d\<lparr>mConsumer := mConsumer d + n\<rparr>)" "win_bytes h (d\<lparr>mConsumer := mConsumer d + n\<rparr>) = drop n (win_bytes h d)"
  using assms by (auto simp: win_ok_def win_bytes_def data_consumable_def drop_take add.commute)

lemma data_Consume_eq:
  "data_Consume n d = (d\<lparr>mConsumer := mConsumer d + min n (data_consumable d)\<rparr>, min n (data_consumable d))" if "win_ok h d"
  using that by (auto simp: data_Consume_def data_consumable_def win_ok_def min_def)

lemma consume_loop_step:
  assumes "buf_ok h b" "consume_loop n b = (m, b')"
  shows "m = n - BytesConsumable b \<and> buf_step h b h b' (drop n (buf_bytes h b))"
  using assms
proof (induction n b arbitrary: m b' rule: consume_loop.induct)
  case (1 n)
  then show ?case by (simp add: buf_step_def)
next
  case (2 n d b)
  let ?k = "min n (data_consumable d)" and ?d = "d\<lparr>mConsumer := mConsumer d + min n (data_consumable d)\<rparr>"
  have d: "win_ok h d" "buf_ok h b" "\<forall>e\<in>set b. apart d e" using "2.prems"(1) by auto
  note c = data_Consume_eq [OF d(1), of n]
  have w: "win_ok h ?d" "win_bytes h ?d = drop ?k (win_bytes h d)" by (rule win_consume [OF d(1)], simp)+
  have len: "length (win_bytes h d) = data_consumable d" by (rule length_win_bytes [OF d(1)])
  let ?b = "if IsEmpty ?d then b else ?d # b"
  have s: "buf_step h (d # b) h ?b (drop ?k (win_bytes h d) @ buf_bytes h b)"
    using d w by (auto simp: buf_step_def framed_def IsEmpty_def win_bytes_def data_consumable_def)
  show ?case
  proof (cases "n - ?k = 0")
    case True
    then have "m = 0" "b' = ?b" using "2.prems"(2) c by (auto simp: Let_def)
    moreover have "n \<le> data_consumable d" using True by simp
    ultimately show ?thesis using s len by (simp add: min_def)
  next
    case False
    then have k: "data_consumable d < n" by simp
    then have e: "IsEmpty ?d" using d(1) by (simp add: IsEmpty_def data_consumable_def win_ok_def)
    then have "consume_loop (n - ?k) b = (m, b')" using "2.prems"(2) False c by (simp add: Let_def)
    from "2.IH" [OF c [symmetric] refl _ False _ ] this e d(2)
    have "m = n - ?k - BytesConsumable b \<and> buf_step h b h b' (drop (n - ?k) (buf_bytes h b))" by simp
    moreover have "buf_step h (d # b) h b (buf_bytes h b)" using s e k len by simp
    ultimately show ?thesis using k len buf_step_trans by fastforce
  qed
qed

lemma buf_Consume_step:
  assumes "buf_ok h b"
  shows "if 0 \<le> n \<and> nat n \<le> length (buf_bytes h b)
    then \<exists>b'. buf_Consume n b = Some b' \<and> buf_step h b h b' (drop (nat n) (buf_bytes h b))
    else buf_Consume n b = None"
proof -
  obtain m b' where c: "consume_loop (nat n) b = (m, b')" by force
  with consume_loop_step [OF assms c] length_buf_bytes [OF assms] show ?thesis
    by (auto simp: buf_Consume_def assert_then_def)
qed

subsection \<open>Sharing\<close>

lemma share_ok:
  assumes "win_ok h d" "n \<le> data_consumable d"
  defines "c \<equiv> share d (mConsumer d) (mConsumer d + n)"
  shows "win_ok h c" "win_bytes h c = take n (win_bytes h d)" "apart c d" "apart d x \<Longrightarrow> apart c x"
proof -
  have n: "mConsumer d + n \<le> mProducer d" using assms(1,2) by (auto simp: win_ok_def data_consumable_def)
  show "win_ok h c" "apart c d" using assms(1) n by (auto simp: c_def share_def win_ok_def apart_def)
  show "apart d x \<Longrightarrow> apart c x" using assms(1) n by (auto simp: c_def share_def win_ok_def apart_def)
  show "win_bytes h c = take n (win_bytes h d)"
    using n by (simp add: c_def share_def win_bytes_def data_consumable_def min_def)
qed

lemma move_loop_step:
  assumes "buf_ok h (b @ other)" "moved \<le> n" "n - moved \<le> BytesConsumable other"
  shows "\<exists>b' other'. move_loop n moved b other = Some (b', other') \<and>
    buf_bytes h b' = buf_bytes h b @ take (n - moved) (buf_bytes h other) \<and>
    buf_bytes h other' = drop (n - moved) (buf_bytes h other) \<and>
    buf_step h (b @ other) h (b' @ other') (buf_bytes h (b @ other))"
  using assms
proof (induction other arbitrary: b moved)
  case Nil
  then show ?case by (simp add: buf_step_def framed_def)
next
  case (Cons d other)
  have d: "win_ok h d" and dl: "length (win_bytes h d) = data_consumable d" using Cons.prems(1) by auto
  consider "n \<le> moved" | "moved < n" "data_consumable d + moved < n" | "moved < n" "n \<le> data_consumable d + moved" by linarith
  then show ?case
  proof cases
    case 1
    then show ?thesis using buf_step_refl [OF Cons.prems(1)] Cons.prems(2) by simp
  next
    case 2
    have "buf_ok h ((b @ [d]) @ other)" using Cons.prems(1) by auto
    moreover have "n - (moved + data_consumable d) \<le> BytesConsumable other" using Cons.prems(3) by simp
    moreover have "moved + data_consumable d \<le> n" using 2 by simp
    ultimately obtain b' other' where "move_loop n (moved + data_consumable d) (b @ [d]) other = Some (b', other')"
      "buf_bytes h b' = buf_bytes h (b @ [d]) @ take (n - (moved + data_consumable d)) (buf_bytes h other)"
      "buf_bytes h other' = drop (n - (moved + data_consumable d)) (buf_bytes h other)"
      "buf_step h ((b @ [d]) @ other) h (b' @ other') (buf_bytes h ((b @ [d]) @ other))"
      using Cons.IH [of "b @ [d]" "moved + data_consumable d"] by blast
    then show ?thesis using 2 dl by (simp add: add.commute)
  next
    case 3
    let ?c = "share d (mConsumer d) (mConsumer d + (n - moved))"
    have ok: "buf_ok h (d # other)" "buf_ok h b" "\<forall>e\<in>set b. \<forall>x\<in>set (d # other). apart e x" using Cons.prems(1) by auto
    note sh = share_ok [OF d, of "n - moved"]
    have le: "n - moved \<le> data_consumable d" using 3 by simp
    have "\<exists>o'. buf_Consume (int (n - moved)) (d # other) = Some o' \<and>
        buf_step h (d # other) h o' (drop (n - moved) (buf_bytes h (d # other)))"
      using buf_Consume_step [OF ok(1), of "int (n - moved)"] length_buf_bytes [OF ok(1)] le by simp
    then obtain o' where o': "buf_Consume (int (n - moved)) (d # other) = Some o'"
      "buf_step h (d # other) h o' (drop (n - moved) (buf_bytes h (d # other)))" by blast
    have o: "framed h o' x" if "framed h (d # other) x" for x using o'(2) that by (simp add: buf_step_def)
    have "framed h (d # other) ?c"
      using sh(1) [OF le] sh(3) [OF le] sh(4) [OF le] ok(1) apartI by (simp add: framed_def)
    then have c: "framed h o' ?c" by (rule o)
    have e: "framed h o' e" if "e \<in> set b" for e
      by (rule o) (use ok(2,3) that apartI in \<open>simp add: framed_def buf_ok_def\<close>)
    have okb: "buf_ok h ((b @ [?c]) @ o')"
    proof -
      have "apart e ?c" if "e \<in> set b" for e using ok(3) that apartI sh(4) [OF le, of e] by simp
      moreover have "apart e x" if "e \<in> set b" "x \<in> set o'" for e x using e [OF that(1)] that(2) apartI by (simp add: framed_def)
      moreover have "apart ?c x" if "x \<in> set o'" for x using c that apartI by (simp add: framed_def)
      moreover have "buf_ok h o'" using o'(2) by (simp add: buf_step_def)
      ultimately show ?thesis using ok(2) sh(1) [OF le] by simp
    qed
    have fr: "framed h ((b @ [?c]) @ o') x" if "framed h (b @ d # other) x" for x
      using that o [of x] sh(4) [OF le, of x] by auto
    have bo: "buf_bytes h o' = drop (n - moved) (buf_bytes h (d # other))" using o'(2) by (simp add: buf_step_def)
    have bb: "buf_bytes h (b @ [?c]) = buf_bytes h b @ take (n - moved) (buf_bytes h (d # other))" using sh(2) [OF le] le dl by simp
    have "buf_bytes h ((b @ [?c]) @ o') = buf_bytes h (b @ d # other)"
      unfolding buf_bytes_simps(3) [of h "b @ [?c]" o'] bb bo
      by (simp only: append.assoc append_take_drop_id buf_bytes_simps(3))
    then have "buf_step h (b @ d # other) h ((b @ [?c]) @ o') (buf_bytes h (b @ d # other))"
      using okb fr by (simp add: buf_step_def)
    moreover have "move_loop n moved b (d # other) = Some (b @ [?c], o')" using 3 o'(1) by (simp add: Let_def)
    ultimately show ?thesis using bb bo by blast
  qed
qed

lemma buf_Move_step:
  assumes "buf_ok h (b @ other)"
  shows "if n \<le> length (buf_bytes h other)
    then \<exists>b' other'. buf_Move n b other = Some (b', other') \<and> buf_bytes h b' = buf_bytes h b @ take n (buf_bytes h other) \<and>
      buf_bytes h other' = drop n (buf_bytes h other) \<and> buf_step h (b @ other) h (b' @ other') (buf_bytes h (b @ other))
    else buf_Move n b other = None"
  using move_loop_step [OF assms, of 0 n] length_buf_bytes [of h other] assms by (auto simp: buf_Move_def)

lemma sorted_wrt_pair:
  assumes "sorted_wrt P xs" "\<And>x y. P x y \<Longrightarrow> P y x" "x \<in> set xs" "y \<in> set xs"
  shows "x = y \<or> P x y"
  using assms(1,3,4) by (induction xs) (auto intro: assms(2))

lemma buf_Clone_step:
  assumes "buf_ok h b"
  shows "buf_step h b h (b @ buf_Clone b) (buf_bytes h b @ buf_bytes h b)" "buf_bytes h (buf_Clone b) = buf_bytes h b"
proof -
  have d: "win_ok h d" if "d \<in> set b" for d using assms that by (simp add: buf_ok_def)
  let ?c = "\<lambda>d. share d (mConsumer d) (mConsumer d + data_consumable d)"
  have c: "win_ok h (?c d)" "win_bytes h (?c d) = win_bytes h d" if "d \<in> set b" for d
    using share_ok [OF d [OF that] order_refl] length_win_bytes [OF d [OF that]] by auto
  have pair: "d = e \<or> apart d e" if "d \<in> set b" "e \<in> set b" for d e
    using sorted_wrt_pair [of apart b d e] apartI that assms by (auto simp: buf_ok_def)
  have cd: "apart (?c d) e" if "d \<in> set b" "e \<in> set b" for d e
    using pair [OF that] share_ok(3,4) [OF d [OF that(1)] order_refl] by auto
  have cc: "apart (?c d) (?c e)" if "d \<in> set b" "e \<in> set b" for d e
    by (auto simp: apart_def share_def)
  show bytes: "buf_bytes h (buf_Clone b) = buf_bytes h b"
  proof -
    have "map (win_bytes h) (buf_Clone b) = map (win_bytes h) b" using c(2) by (simp add: buf_Clone_def)
    then show ?thesis by (simp only: buf_bytes_def)
  qed
  have "sorted_wrt apart (buf_Clone b)"
    using cc by (auto simp: buf_Clone_def sorted_wrt_map intro!: sorted_wrt_iff_nth_less [THEN iffD2])
  then have "buf_ok h (b @ buf_Clone b)"
    using assms c(1) cd apartI by (auto simp: buf_ok_def buf_Clone_def sorted_wrt_append)
  moreover have "framed h (b @ buf_Clone b) x" if "framed h b x" for x
    using that share_ok(4) [OF d order_refl, of _ x] by (auto simp: framed_def buf_Clone_def)
  ultimately show "buf_step h b h (b @ buf_Clone b) (buf_bytes h b @ buf_bytes h b)"
    using bytes by (simp add: buf_step_def)
qed

subsection \<open>Filling\<close>

lemma data_Fill_fits: "n \<le> SpaceAvailable d \<Longrightarrow> data_Fill n d = (d\<lparr>mProducer := mProducer d + n\<rparr>, n)"
  by (simp add: data_Fill_def)

lemma zero_blocks_step:
  assumes "buf_ok h b" "0 < bufsz" "n \<le> fuel"
  shows "\<exists>h' b'. zero_blocks fuel bufsz n h b = Some (h', b') \<and> buf_step h b h' b' (buf_bytes h b @ replicate n 0)"
  using assms
proof (induction fuel arbitrary: n h b)
  case 0
  then show ?case using buf_step_refl by simp
next
  case (Suc fuel)
  show ?case
  proof (cases n)
    case 0
    then show ?thesis using buf_step_refl [OF Suc.prems(1)] by simp
  next
    case (Suc m)
    let ?z = "min bufsz n"
    obtain h1 d where hd: "new_IOBufferData bufsz h = (h1, d)" by force
    note f = fresh_step [OF Suc.prems(1) hd]
    let ?h2 = "memcpy h1 (mData d) (mProducer d) (replicate ?z 0)" and ?d = "d\<lparr>mProducer := mProducer d + ?z\<rparr>"
    have ok1: "buf_ok h1 (b @ [d])" and bb: "buf_bytes h1 (b @ [d]) = buf_bytes h b" using f(1) by (auto simp: buf_step_def)
    have zf: "data_ZeroFill ?z h1 d = (?h2, ?d, ?z)"
      using f(2) by (simp add: data_ZeroFill_def data_Fill_fits Let_def min_def)
    have "buf_step h1 (b @ [d]) ?h2 (b @ [?d]) (buf_bytes h b @ replicate ?z 0)"
      using put_step [OF ok1, of "replicate ?z 0", unfolded bb] f(2) by simp
    with f(1) have s: "buf_step h b ?h2 (b @ [?d]) (buf_bytes h b @ replicate ?z 0)" by (rule buf_step_trans)
    have "n - ?z \<le> fuel" using Suc.prems(2,3) Suc by simp
    have ok2: "buf_ok ?h2 (b @ [?d])" using s by (simp only: buf_step_def)
    from Suc.IH [OF ok2 Suc.prems(2) \<open>n - ?z \<le> fuel\<close>] obtain h' b' where
      r: "zero_blocks fuel bufsz (n - ?z) ?h2 (b @ [?d]) = Some (h', b')"
      "buf_step ?h2 (b @ [?d]) h' b' (buf_bytes ?h2 (b @ [?d]) @ replicate (n - ?z) 0)" by blast
    have "replicate ?z (0 :: byte) @ replicate (n - ?z) 0 = replicate n 0" by (simp flip: replicate_add)
    moreover have "buf_bytes ?h2 (b @ [?d]) = buf_bytes h b @ replicate ?z 0" using s by (simp only: buf_step_def)
    ultimately have "buf_bytes ?h2 (b @ [?d]) @ replicate (n - ?z) 0 = buf_bytes h b @ replicate n 0"
      by (simp only: append.assoc)
    with r(2) have "buf_step ?h2 (b @ [?d]) h' b' (buf_bytes h b @ replicate n 0)" by (simp only:)
    with s have "buf_step h b h' b' (buf_bytes h b @ replicate n 0)" by (rule buf_step_trans)
    moreover have "zero_blocks (Suc fuel) bufsz n h b = Some (h', b')" using zf hd Suc r(1) by (simp add: Let_def)
    ultimately show ?thesis by blast
  qed
qed

lemma copyin_loop_step:
  assumes "buf_ok h (b @ [d])" "0 < bufsz" "length buf + (if SpaceAvailable d = 0 then 1 else 0) < fuel"
  shows "\<exists>h' b'. copyin_loop fuel bufsz buf h b d = Some (h', b') \<and> buf_step h (b @ [d]) h' b' (buf_bytes h (b @ [d]) @ buf)"
  using assms
proof (induction fuel arbitrary: buf h b d)
  case (Suc fuel)
  show ?case
  proof (cases "buf = []")
    case True
    then show ?thesis using buf_step_refl [OF Suc.prems(1)] by simp
  next
    case False
    let ?n = "min (length buf) (SpaceAvailable d)"
    let ?h1 = "memcpy h (mData d) (mProducer d) (take ?n buf)" and ?d1 = "d\<lparr>mProducer := mProducer d + ?n\<rparr>"
    have ci: "data_CopyIn buf (length buf) h d = (?h1, ?d1, ?n)"
      by (simp add: data_CopyIn_def data_Fill_fits Let_def)
    have "length (take ?n buf) = ?n" by simp
    then have s: "buf_step h (b @ [d]) ?h1 (b @ [?d1]) (buf_bytes h (b @ [d]) @ take ?n buf)"
      using put_step [OF Suc.prems(1), of "take ?n buf"] by (metis min.cobounded2)
    show ?thesis
    proof (cases "length buf \<le> ?n")
      case True
      then show ?thesis using s ci False by (auto simp: Let_def)
    next
      case short: False
      obtain h2 d2 where hd: "new_IOBufferData bufsz ?h1 = (h2, d2)" by force
      have ok1: "buf_ok ?h1 (b @ [?d1])" using s by (simp add: buf_step_def)
      note f = fresh_step [OF ok1 hd]
      have s2: "buf_step h (b @ [d]) h2 ((b @ [?d1]) @ [d2]) (buf_bytes h (b @ [d]) @ take ?n buf)"
        using buf_step_trans [OF s f(1)] s by (simp add: buf_step_def)
      have ok2: "buf_ok h2 ((b @ [?d1]) @ [d2])" using s2 by (simp add: buf_step_def)
      have "length (drop ?n buf) + (if SpaceAvailable d2 = 0 then 1 else 0) < fuel"
        using Suc.prems(2,3) f(2) short by (auto split: if_splits)
      from Suc.IH [OF ok2 Suc.prems(2) this] obtain h' b' where
        r: "copyin_loop fuel bufsz (drop ?n buf) h2 (b @ [?d1]) d2 = Some (h', b')"
        "buf_step h2 ((b @ [?d1]) @ [d2]) h' b' (buf_bytes h2 ((b @ [?d1]) @ [d2]) @ drop ?n buf)" by blast
      have "buf_bytes h2 ((b @ [?d1]) @ [d2]) = buf_bytes h (b @ [d]) @ take ?n buf" using s2 by (simp only: buf_step_def)
      then have "buf_bytes h2 ((b @ [?d1]) @ [d2]) @ drop ?n buf = buf_bytes h (b @ [d]) @ buf"
        by (simp only: append.assoc append_take_drop_id)
      with r(2) have "buf_step h2 ((b @ [?d1]) @ [d2]) h' b' (buf_bytes h (b @ [d]) @ buf)" by (simp only:)
      with s2 have "buf_step h (b @ [d]) h' b' (buf_bytes h (b @ [d]) @ buf)" by (rule buf_step_trans)
      moreover have "copyin_loop (Suc fuel) bufsz buf h b d = Some (h', b')"
        using ci hd False short r(1) by (simp add: Let_def)
      ultimately show ?thesis by blast
    qed
  qed
qed simp

lemma buf_CopyIn_step:
  assumes "buf_ok h b" "0 < bufsz"
  shows "\<exists>h' b'. buf_CopyIn bufsz buf h b = Some (h', b') \<and> buf_step h b h' b' (buf_bytes h b @ buf)"
proof (cases "b = []")
  case True
  obtain h1 d where hd: "new_IOBufferData bufsz h = (h1, d)" by force
  note f = fresh_step [OF assms(1) hd]
  have "buf_ok h1 ([] @ [d])" using f(1) True by (simp add: buf_step_def)
  from copyin_loop_step [OF this assms(2), of buf "length buf + 2"] f(2,4) assms(2) obtain h' b' where
    "copyin_loop (length buf + 2) bufsz buf h1 [] d = Some (h', b')" "buf_step h1 [d] h' b' buf" by auto
  moreover have "buf_step h b h1 [d] (buf_bytes h b)" using f(1) True by simp
  ultimately show ?thesis using buf_step_trans True hd by (auto simp: buf_CopyIn_def)
next
  case False
  then have e: "butlast b @ [last b] = b" by simp
  then have "buf_ok h (butlast b @ [last b])" using assms(1) by simp
  from copyin_loop_step [OF this assms(2), of buf "length buf + 2"] show ?thesis
    using False unfolding e by (simp add: buf_CopyIn_def)
qed

subsection \<open>Copying out\<close>

lemma data_CopyOut_bytes: "data_CopyOut n h d = take n (win_bytes h d)"
  by (simp add: data_CopyOut_def win_bytes_def min.commute)

lemma buf_CopyOut_bytes: "buf_CopyOut n h b = take n (buf_bytes h b)"
  by (induction n h b rule: buf_CopyOut.induct) (auto simp: data_CopyOut_bytes Let_def)

subsection \<open>Splicing\<close>

lemma consume_step:
  assumes "buf_ok h (p @ d # q)" "n \<le> data_consumable d"
  shows "buf_step h (p @ d # q) h (p @ d\<lparr>mConsumer := mConsumer d + n\<rparr> # q)
    (buf_bytes h p @ drop n (win_bytes h d) @ buf_bytes h q)"
  using assms win_consume [of h d n] by (auto simp: buf_step_def)

lemma take_drop_append: "take n xs @ drop n xs @ ys = xs @ ys"
  by (simp flip: append.assoc)

lemma splice_split:
  assumes "buf_ok h (pre @ d # b)" "n < data_consumable d" "data_consumable d \<le> bufsz"
    "new_IOBufferData bufsz h = (h1, c)" "data_CopyIn_other d n h1 c = (h2, c1, k)" "data_Consume n d = (d1, j)"
  shows "buf_step h (pre @ d # b) h2 ((pre @ [c1]) @ d1 # b) (buf_bytes h (pre @ d # b))"
    "buf_bytes h2 pre = buf_bytes h pre" "data_consumable c1 = n" "win_bytes h2 c1 = take n (win_bytes h d)"
proof -
  have d: "win_ok h d" and okp: "buf_ok h pre" using assms(1) by auto
  have d1: "d1 = d\<lparr>mConsumer := mConsumer d + n\<rparr>" using data_Consume_eq [OF d, of n] assms(2,6) by simp
  note f = fresh_step [OF okp assms(4)]
  have fd: "framed h pre d" using assms(1) d by (simp add: framed_def)
  then have wd: "win_bytes h1 d = win_bytes h d" "win_ok h1 d" using f(1) by (auto simp: buf_step_def framed_def)
  let ?s = "take n (drop (mConsumer d) (h1 ! mData d))"
  have "?s = take n (win_bytes h1 d)" using assms(2) by (simp add: win_bytes_def min_def)
  then have s: "?s = take n (win_bytes h d)" unfolding wd(1) .
  have ls: "length ?s = n" using s length_win_bytes [OF d] assms(2) by simp
  have c1: "c1 = c\<lparr>mProducer := mProducer c + n\<rparr>" "h2 = memcpy h1 (mData c) (mProducer c) ?s"
    using assms(2,3,5) f(2) ls by (auto simp: data_CopyIn_other_def data_CopyIn_def data_Fill_fits Let_def min_def)
  have ok1: "buf_ok h1 (pre @ [c])" "buf_bytes h1 (pre @ [c]) = buf_bytes h pre" using f(1) by (simp_all only: buf_step_def)
  have "buf_step h1 (pre @ [c]) h2 (pre @ [c1]) (buf_bytes h pre @ ?s)"
    using put_step [OF ok1(1), of ?s] assms(2,3) f(2) unfolding ok1(2) ls c1 by simp
  with f(1) have p: "buf_step h pre h2 (pre @ [c1]) (buf_bytes h pre @ ?s)" by (rule buf_step_trans)
  have "mProducer c = 0" "mConsumer c = 0" using assms(4) by (auto simp: new_IOBufferData_def)
  then have "data_consumable c1 = n" by (simp add: c1(1) data_consumable_def)
  moreover have "win_bytes h2 c1 = ?s"
    using memcpy_self(2) [OF f(3), of ?s] f(2,4) assms(2,3) unfolding c1 ls by simp
  ultimately have wc: "data_consumable c1 = n" "win_bytes h2 c1 = ?s" by blast+
  have "buf_bytes h2 pre @ win_bytes h2 c1 = buf_bytes h pre @ ?s" using p by (simp add: buf_step_def)
  then show "buf_bytes h2 pre = buf_bytes h pre" using wc(2) by simp
  show "data_consumable c1 = n" "win_bytes h2 c1 = take n (win_bytes h d)" using wc s by simp_all
  have fr: "buf_step h (pre @ d # b) h2 ((pre @ [c1]) @ d # b) ((buf_bytes h pre @ ?s) @ buf_bytes h (d # b))"
    by (rule buf_step_frame [OF p assms(1)])
  then have ok2: "buf_ok h2 ((pre @ [c1]) @ d # b)" by (simp only: buf_step_def)
  have eqs: "buf_bytes h2 (pre @ [c1]) = buf_bytes h pre @ ?s" using p by (simp only: buf_step_def)
  have same: "win_bytes h2 x = win_bytes h x" if "framed h pre x" for x using p that by (simp only: buf_step_def)
  have "framed h pre e" if "e \<in> set b" for e using assms(1) that by (auto simp: framed_def buf_ok_def sorted_wrt_append)
  then have wd2: "win_bytes h2 d = win_bytes h d" "buf_bytes h2 b = buf_bytes h b"
    using same fd by (auto intro: buf_bytes_cong)
  have "buf_step h2 ((pre @ [c1]) @ d # b) h2 ((pre @ [c1]) @ d1 # b)
      (buf_bytes h2 (pre @ [c1]) @ drop n (win_bytes h2 d) @ buf_bytes h2 b)"
    unfolding d1 by (rule consume_step [OF ok2]) (use assms(2) in simp)
  moreover have "buf_bytes h2 (pre @ [c1]) @ drop n (win_bytes h2 d) @ buf_bytes h2 b = buf_bytes h (pre @ d # b)"
    unfolding eqs wd2 s by (simp only: append.assoc take_drop_append buf_bytes_simps)
  ultimately show "buf_step h (pre @ d # b) h2 ((pre @ [c1]) @ d1 # b) (buf_bytes h (pre @ d # b))"
    using buf_step_trans [OF fr] by (simp only:)
qed

lemma splice_find_step:
  assumes "buf_ok h (pre @ b)" "\<forall>d\<in>set b. data_consumable d \<le> bufsz"
    "startPos = BytesConsumable pre" "startPos \<le> offset" "offset \<le> startPos + BytesConsumable b"
    "splice_find bufsz offset startPos h pre b = (h', startPos', pre', post)"
  shows "startPos' = offset \<and> BytesConsumable pre' = offset \<and> buf_step h (pre @ b) h' (pre' @ post) (buf_bytes h (pre @ b))"
  using assms
proof (induction bufsz offset startPos h pre b rule: splice_find.induct)
  case (1 bufsz offset startPos h pre)
  then show ?case using buf_step_refl [of h pre] by auto
next
  case (2 bufsz offset startPos h pre d b)
  show ?case
  proof (cases "startPos < offset")
    case False
    then show ?thesis using "2.prems" buf_step_refl [OF "2.prems"(1)] by auto
  next
    case True
    show ?thesis
    proof (cases "offset < data_consumable d + startPos")
      case split: True
      let ?n = "offset - startPos"
      obtain h1 c where hc: "new_IOBufferData bufsz h = (h1, c)" by force
      obtain h2 c1 k where h2: "data_CopyIn_other d ?n h1 c = (h2, c1, k)" by (metis prod_cases3)
      obtain d1 j where d1: "data_Consume ?n d = (d1, j)" by force
      have lt: "?n < data_consumable d" "data_consumable d \<le> bufsz" using split "2.prems"(2) True by auto
      note s = splice_split [OF "2.prems"(1) lt hc h2 d1]
      have "win_ok h d" using "2.prems"(1) by simp
      from data_Consume_eq [OF this, of ?n] d1 lt(1) have d1': "d1 = d\<lparr>mConsumer := mConsumer d + ?n\<rparr>" by simp
      have ok: "buf_ok h2 ((pre @ [c1]) @ d1 # b)" using s(1) by (simp only: buf_step_def)
      have r: "splice_find bufsz offset (startPos + data_consumable c1) h2 (pre @ [c1]) (d1 # b) = (h', startPos', pre', post)"
        using "2.prems"(6) True split hc h2 d1 by (simp add: Let_def)
      have dc: "data_consumable d1 = data_consumable d - ?n" using d1' by (simp add: data_consumable_def)
      have "startPos' = offset \<and> BytesConsumable pre' = offset \<and>
          buf_step h2 ((pre @ [c1]) @ d1 # b) h' (pre' @ post) (buf_bytes h2 ((pre @ [c1]) @ d1 # b))"
        by (rule "2.IH"(1) [OF True split refl hc [symmetric] refl h2 [symmetric] refl refl d1 [symmetric] refl ok])
          (use "2.prems" s(3) True dc r split in auto)
      moreover have "buf_bytes h2 ((pre @ [c1]) @ d1 # b) = buf_bytes h (pre @ d # b)" using s(1) by (simp only: buf_step_def)
      ultimately show ?thesis using buf_step_trans [OF s(1)] by simp
    next
      case False
      have "buf_ok h ((pre @ [d]) @ b)" using "2.prems"(1) by auto
      from "2.IH"(2) [OF True False this] "2.prems" True False show ?thesis by simp
    qed
  qed
qed

lemma splice_drop_step:
  assumes "buf_ok h b"
  shows "buf_step h b h (splice_drop p l b) (drop (l - p) (buf_bytes h b))"
  using assms
proof (induction b arbitrary: p)
  case Nil
  then show ?case by (simp add: buf_step_def)
next
  case (Cons d b)
  show ?case
  proof (cases "p < l")
    case False
    then show ?thesis using buf_step_refl [OF Cons.prems] by simp
  next
    case True
    let ?x = "min (data_consumable d) (l - p)"
    have d: "win_ok h d" "buf_ok h b" "\<forall>e\<in>set b. apart d e" and len: "length (win_bytes h d) = data_consumable d"
      using Cons.prems by auto
    have c: "fst (data_Consume ?x d) = d\<lparr>mConsumer := mConsumer d + ?x\<rparr>" using data_Consume_eq [OF d(1), of ?x] by simp
    have w: "win_ok h (d\<lparr>mConsumer := mConsumer d + ?x\<rparr>)"
      "win_bytes h (d\<lparr>mConsumer := mConsumer d + ?x\<rparr>) = drop ?x (win_bytes h d)" by (rule win_consume [OF d(1)], simp)+
    have IH: "buf_step h b h (splice_drop (p + ?x) l b) (drop (l - (p + ?x)) (buf_bytes h b))" by (rule Cons.IH [OF d(2)])
    have "framed h b d" using d apartI by (simp add: framed_def)
    then have "framed h (splice_drop (p + ?x) l b) d" using IH by (simp only: buf_step_def)
    then have ap: "\<forall>e\<in>set (splice_drop (p + ?x) l b). apart d e" by (auto simp: framed_def intro: apartI)
    have ok: "buf_ok h (d\<lparr>mConsumer := mConsumer d + ?x\<rparr> # splice_drop (p + ?x) l b)"
      using w(1) IH ap by (simp add: buf_step_def)
    have "drop ?x (win_bytes h d) @ drop (l - (p + ?x)) (buf_bytes h b) = drop (l - p) (win_bytes h d @ buf_bytes h b)"
      using True len by (simp add: min_def)
    then have bytes: "buf_bytes h (d\<lparr>mConsumer := mConsumer d + ?x\<rparr> # splice_drop (p + ?x) l b) = drop (l - p) (buf_bytes h (d # b))"
      using w(2) IH by (simp add: buf_step_def)
    have "framed h (d\<lparr>mConsumer := mConsumer d + ?x\<rparr> # splice_drop (p + ?x) l b) x" if "framed h (d # b) x" for x
      using that IH by (simp add: buf_step_def)
    moreover have "splice_drop p l (d # b) = d\<lparr>mConsumer := mConsumer d + ?x\<rparr> # splice_drop (p + ?x) l b"
      using True c by (simp add: Let_def)
    ultimately show ?thesis using ok bytes by (simp only: buf_step_def) blast
  qed
qed

lemma win_size: "win_ok h d \<Longrightarrow> \<forall>a\<in>set h. length a = bufsz \<Longrightarrow> data_consumable d \<le> bufsz"
  by (auto simp: win_ok_def data_consumable_def dest!: nth_mem)

lemma splice_sides:
  assumes "buf_ok h' (pre @ post)" "buf_bytes h' (pre @ post) = bs" "BytesConsumable pre = n"
  shows "buf_bytes h' pre = take n bs" "buf_bytes h' post = drop n bs"
  using assms length_buf_bytes [of h' pre] by auto

subsection \<open>Sizes of the arrays\<close>

definition blocks_of :: "nat \<Rightarrow> byte_heap \<Rightarrow> bool" where
  "blocks_of bufsz h \<longleftrightarrow> (\<forall>a\<in>set h. length a = bufsz)"

lemma blocks_memcpy:
  "blocks_of z h \<Longrightarrow> win_ok h d \<Longrightarrow> length bs \<le> SpaceAvailable d \<Longrightarrow> blocks_of z (memcpy h (mData d) (mProducer d) bs)"
  by (auto simp: blocks_of_def memcpy_def win_ok_def SpaceAvailable_def dest!: set_update_subset_insert [THEN subsetD])

lemma blocks_new: "blocks_of z h \<Longrightarrow> new_IOBufferData z h = (h1, d) \<Longrightarrow> blocks_of z h1 \<and> win_ok h1 d \<and> SpaceAvailable d = z"
  by (auto simp: blocks_of_def new_IOBufferData_def win_ok_def SpaceAvailable_def)

lemma zero_blocks_size: "zero_blocks fuel z n h b = Some (h', b') \<Longrightarrow> blocks_of z h \<Longrightarrow> blocks_of z h'"
proof (induction fuel z n h b rule: zero_blocks.induct)
  case (3 fuel z n h b)
  obtain h1 d where hd: "new_IOBufferData z h = (h1, d)" by force
  note f = blocks_new [OF "3.prems"(2) hd]
  let ?z = "min z (Suc n)"
  have zf: "data_ZeroFill ?z h1 d = (memcpy h1 (mData d) (mProducer d) (replicate ?z 0), d\<lparr>mProducer := mProducer d + ?z\<rparr>, ?z)"
    using f by (simp add: data_ZeroFill_def data_Fill_fits Let_def)
  show ?case
  proof (rule "3.IH" [OF refl hd [symmetric] refl zf [symmetric] refl refl])
    show "zero_blocks fuel z (Suc n - ?z) (memcpy h1 (mData d) (mProducer d) (replicate ?z 0)) (b @ [d\<lparr>mProducer := mProducer d + ?z\<rparr>]) = Some (h', b')"
      using "3.prems"(1) hd zf by (simp add: Let_def)
    show "blocks_of z (memcpy h1 (mData d) (mProducer d) (replicate ?z 0))" using f by (intro blocks_memcpy) auto
  qed
qed auto

lemma copyin_loop_size:
  "copyin_loop fuel z buf h b d = Some (h', b') \<Longrightarrow> blocks_of z h \<Longrightarrow> win_ok h d \<Longrightarrow> blocks_of z h'"
proof (induction fuel z buf h b d rule: copyin_loop.induct)
  case (2 fuel z buf h b d)
  let ?n = "min (length buf) (SpaceAvailable d)"
  let ?h1 = "memcpy h (mData d) (mProducer d) (take ?n buf)" and ?d1 = "d\<lparr>mProducer := mProducer d + ?n\<rparr>"
  have ci: "data_CopyIn buf (length buf) h d = (?h1, ?d1, ?n)" by (simp add: data_CopyIn_def data_Fill_fits Let_def)
  have s1: "blocks_of z ?h1" using "2.prems"(2,3) by (intro blocks_memcpy) auto
  obtain h2 d2 where hd: "new_IOBufferData z ?h1 = (h2, d2)" by force
  note f = blocks_new [OF s1 hd]
  show ?case
  proof (cases "buf = [] \<or> length buf \<le> ?n")
    case True
    then show ?thesis using "2.prems"(1,2) ci s1 by (auto simp: Let_def split: if_splits)
  next
    case False
    then have ne: "buf \<noteq> []" "\<not> length buf \<le> ?n" by auto
    show ?thesis
      by (rule "2.IH" [OF ne(1) ci [symmetric] refl refl ne(2) hd [symmetric] refl])
        (use "2.prems"(1) f ci hd ne in \<open>simp_all add: Let_def\<close>)
  qed
qed simp

lemma buf_CopyIn_size:
  assumes "buf_CopyIn z buf h b = Some (h', b')" "blocks_of z h" "buf_ok h b"
  shows "blocks_of z h'"
proof (cases "b = []")
  case True
  obtain h1 d where hd: "new_IOBufferData z h = (h1, d)" by force
  with assms(1) True have "copyin_loop (length buf + 2) z buf h1 [] d = Some (h', b')" by (simp add: buf_CopyIn_def)
  with blocks_new [OF assms(2) hd] show ?thesis using copyin_loop_size by blast
next
  case False
  then have "copyin_loop (length buf + 2) z buf h (butlast b) (last b) = Some (h', b')" "win_ok h (last b)"
    using assms(1,3) by (simp_all add: buf_CopyIn_def buf_ok_def)
  then show ?thesis using copyin_loop_size assms(2) by blast
qed

lemma splice_find_size:
  "splice_find z off p h pre b = (h', p', pre', post) \<Longrightarrow> blocks_of z h \<Longrightarrow> blocks_of z h'"
proof (induction z off p h pre b rule: splice_find.induct)
  case (2 z off p h pre d b)
  obtain h1 c where hc: "new_IOBufferData z h = (h1, c)" by force
  obtain h2 c1 k where h2: "data_CopyIn_other d (off - p) h1 c = (h2, c1, k)" by (metis prod_cases3)
  obtain d1 j where d1: "data_Consume (off - p) d = (d1, j)" by force
  note f = blocks_new [OF "2.prems"(2) hc]
  have "h2 = memcpy h1 (mData c) (mProducer c) (take (min (off - p) (SpaceAvailable c)) (drop (mConsumer d) (h1 ! mData d)))"
    using h2 by (simp add: data_CopyIn_other_def data_CopyIn_def Let_def)
  moreover have "blocks_of z \<dots>" using f by (intro blocks_memcpy) auto
  ultimately have s: "blocks_of z h2" by simp
  consider "\<not> p < off" | "p < off" "\<not> off < data_consumable d + p" | "p < off" "off < data_consumable d + p" by blast
  then show ?case
  proof cases
    case 1
    then show ?thesis using "2.prems" by simp
  next
    case 2
    then show ?thesis using "2.IH"(2) "2.prems" by simp
  next
    case 3
    then have "splice_find z off (p + data_consumable c1) h2 (pre @ [c1]) (d1 # b) = (h', p', pre', post)"
      using "2.prems"(1) hc h2 d1 by (simp add: Let_def)
    from "2.IH"(1) [OF 3 refl hc [symmetric] refl h2 [symmetric] refl refl d1 [symmetric] refl this s] show ?thesis .
  qed
qed simp

subsection \<open>New windows\<close>

lemma length_memcpy [simp]: "length (memcpy h a p bs) = length h"
  by (simp add: memcpy_def)

lemma zero_blocks_grows: "zero_blocks fuel z n h b = Some (h', b') \<Longrightarrow> length h \<le> length h'"
proof (induction fuel z n h b rule: zero_blocks.induct)
  case (3 fuel z n h b)
  then show ?case by (fastforce simp: new_IOBufferData_def data_ZeroFill_def Let_def split: prod.splits)
qed auto

lemma zero_blocks_new:
  "zero_blocks fuel z n h b = Some (h', b') \<Longrightarrow>
    \<exists>nw. b' = b @ nw \<and> map mData nw = [length h..<length h'] \<and> (\<forall>d\<in>set nw. data_consumable d \<le> z)"
proof (induction fuel z n h b rule: zero_blocks.induct)
  case (3 fuel z n h b)
  let ?d = "\<lparr>mData = length h, mStart = 0, mEnd = z, mProducer = 0, mConsumer = 0\<rparr>" and ?z = "min z (Suc n)"
  let ?h1 = "h @ [replicate z 0]" and ?d1 = "\<lparr>mData = length h, mStart = 0, mEnd = z, mProducer = ?z, mConsumer = 0\<rparr>"
  have hd: "new_IOBufferData z h = (?h1, ?d)" by (simp add: new_IOBufferData_def)
  have zf: "data_ZeroFill ?z ?h1 ?d = (memcpy ?h1 (length h) 0 (replicate ?z 0), ?d1, ?z)"
    by (simp add: data_ZeroFill_def data_Fill_def SpaceAvailable_def Let_def)
  have r: "zero_blocks fuel z (Suc n - ?z) (memcpy ?h1 (length h) 0 (replicate ?z 0)) (b @ [?d1]) = Some (h', b')"
    using "3.prems" hd zf by (simp add: Let_def)
  from "3.IH" [OF refl hd [symmetric] refl zf [symmetric] refl refl r] obtain nw where
    nw: "b' = b @ ?d1 # nw" "map mData nw = [Suc (length h)..<length h']" "\<forall>d\<in>set nw. data_consumable d \<le> z" by auto
  moreover have "length h < length h'" using zero_blocks_grows [OF r] by simp
  ultimately show ?case by (intro exI [of _ "?d1 # nw"]) (simp add: upt_conv_Cons data_consumable_def)
qed auto

subsection \<open>Order of the windows, and the splice\<close>

lemma sorted_wrt_sym_perm:
  assumes "\<And>x y. P x y \<Longrightarrow> P y x" "mset xs = mset ys" "sorted_wrt P xs"
  shows "sorted_wrt P ys"
  using assms(2,3)
proof (induction xs arbitrary: ys)
  case (Cons x xs)
  then have "x \<in> set ys" by (metis list.set_intros(1) set_mset_mset)
  then obtain us vs where ys: "ys = us @ x # vs" by (meson split_list)
  with Cons.prems(1) have m: "mset xs = mset (us @ vs)" by simp
  then have "set xs = set (us @ vs)" by (rule mset_eq_setD)
  moreover have "sorted_wrt P (us @ vs)" using Cons m by simp
  moreover have "P x y" if "y \<in> set xs" for y using Cons.prems(2) that by simp
  ultimately have "\<And>y. y \<in> set (us @ vs) \<Longrightarrow> P x y" "sorted_wrt P us" "sorted_wrt P vs" "\<forall>u\<in>set us. \<forall>v\<in>set vs. P u v"
    by (simp_all add: sorted_wrt_append)
  then show ?case unfolding ys by (simp add: sorted_wrt_append assms(1))
qed simp

lemma buf_ok_perm: "buf_ok h b \<Longrightarrow> mset b = mset c \<Longrightarrow> buf_ok h c"
  using sorted_wrt_sym_perm [of apart b c] apartI mset_eq_setD [of b c] by (auto simp: buf_ok_def)

lemma framed_perm: "framed h b x \<Longrightarrow> mset b = mset c \<Longrightarrow> framed h c x"
  using mset_eq_setD [of b c] by (auto simp: framed_def)

lemma buf_step_perm:
  assumes "buf_step h b h' b' bs" "mset c = mset b" "mset b' = mset c'"
  shows "buf_step h c h' c' (buf_bytes h' c')"
  using assms buf_ok_perm [of h' b' c'] framed_perm [of h c _ b] framed_perm [of h' b' _ c'] by (simp add: buf_step_def)

lemma buf_step_mid:
  assumes "buf_step h b h' b' bs" "buf_ok h (p @ b @ q)"
  shows "buf_step h (p @ b @ q) h' (p @ b' @ q) (buf_bytes h p @ bs @ buf_bytes h q)"
proof -
  have "buf_ok h (b @ (p @ q))" by (rule buf_ok_perm [OF assms(2)]) simp
  from buf_step_frame [OF assms(1) this]
  have s: "buf_step h (b @ (p @ q)) h' (b' @ (p @ q)) (bs @ buf_bytes h (p @ q))" .
  have "framed h b e" if "e \<in> set p \<union> set q" for e
    using assms(2) that apartI by (auto simp: framed_def buf_ok_def sorted_wrt_append)
  then have same: "win_bytes h' e = win_bytes h e" if "e \<in> set p \<union> set q" for e using assms(1) that by (simp add: buf_step_def)
  have "buf_bytes h' p = buf_bytes h p" "buf_bytes h' q = buf_bytes h q" by (rule buf_bytes_cong, simp add: same)+
  moreover have "buf_bytes h' b' = bs" using assms(1) by (simp add: buf_step_def)
  ultimately have "buf_bytes h' (p @ b' @ q) = buf_bytes h p @ bs @ buf_bytes h q" by simp
  then show ?thesis using buf_step_perm [OF s, of "p @ b @ q" "p @ b' @ q"] by simp
qed

lemma buf_step_bytes: "buf_step h b h' b' bs \<Longrightarrow> buf_bytes h' b' = bs"
  by (simp only: buf_step_def)

lemma buf_step_ok: "buf_step h b h' b' bs \<Longrightarrow> buf_ok h' b'"
  by (simp only: buf_step_def)

lemma buf_Splice_step:
  fixes bs os :: "byte list"
  assumes "buf_ok h (b @ other)" "0 < bufsz" "\<forall>d\<in>set b. data_consumable d \<le> bufsz" "buf_bytes h b = bs" "buf_bytes h other = os"
    and "ps = bs @ replicate (offset - length bs) 0"
  shows "if n \<le> length os
    then \<exists>h' b'. buf_Splice bufsz offset n h b other = Some (h', b', []) \<and>
      buf_step h (b @ other) h' b' (take offset ps @ os @ drop (offset + n) ps)
    else buf_Splice bufsz offset n h b other = None"
proof -
  have ok: "buf_ok h b" "buf_ok h other" using assms(1) by auto
  note len = length_buf_bytes [OF ok(1), unfolded assms(4)] length_buf_bytes [OF ok(2), unfolded assms(5)]
  from zero_blocks_step [OF ok(1) assms(2), of "offset - length bs" offset, unfolded assms(4)] assms(6) obtain h1 b1 where
    z: "zero_blocks offset bufsz (offset - length bs) h b = Some (h1, b1)" "buf_step h b h1 b1 ps" by auto
  have ok1: "buf_ok h1 b1" "buf_bytes h1 b1 = ps" using z(2) by (simp_all only: buf_step_def)
  have le: "offset \<le> BytesConsumable b1" using length_buf_bytes [OF ok1(1)] ok1(2) assms(6) by simp
  obtain h2 p pre post where f: "splice_find bufsz offset 0 h1 [] b1 = (h2, p, pre, post)" by (metis prod_cases4)
  have small: "\<forall>d\<in>set b1. data_consumable d \<le> bufsz" using zero_blocks_new [OF z(1)] assms(3) by auto
  have ok1': "buf_ok h1 ([] @ b1)" using ok1 by simp
  from splice_find_step [OF ok1' small _ _ _ f] le ok1(2)
  have g: "p = offset" "BytesConsumable pre = offset" "buf_step h1 b1 h2 (pre @ post) ps" by auto
  note sides = splice_sides [OF buf_step_ok [OF g(3)] buf_step_bytes [OF g(3)] g(2)]
  have "buf_step h b h2 (pre @ post) ps" by (rule buf_step_trans [OF z(2) g(3)])
  from buf_step_frame [OF this assms(1)] have s1: "buf_step h (b @ other) h2 ((pre @ post) @ other) (ps @ os)"
    using assms(5) by (simp only:)
  have s2: "buf_step h (b @ other) h2 (pre @ other @ post) (buf_bytes h2 (pre @ other @ post))"
    by (rule buf_step_perm [OF s1]) simp_all
  have "buf_bytes h2 ((pre @ post) @ other) = ps @ os" by (rule buf_step_bytes [OF s1])
  then have o2: "buf_bytes h2 other = os" unfolding buf_bytes_simps(3) [of h2 "pre @ post"] buf_step_bytes [OF g(3)] by simp
  have okm: "buf_ok h2 (pre @ other @ post)" by (rule buf_step_ok [OF s2])
  then have "buf_ok h2 post" by simp
  from splice_drop_step [OF this, of offset "offset + n", unfolded sides(2)]
  have d: "buf_step h2 post h2 (splice_drop offset (offset + n) post) (drop (offset + n) ps)" by (simp add: add.commute)
  have okm': "buf_ok h2 ((pre @ other) @ post @ [])" using okm by (simp only: append.assoc append_Nil2)
  have bo: "buf_bytes h2 (pre @ other) = take offset ps @ os" using sides(1) o2 by simp
  from buf_step_mid [OF d okm', unfolded bo]
  have s3: "buf_step h2 (pre @ other @ post) h2 (pre @ other @ splice_drop offset (offset + n) post) (take offset ps @ os @ drop (offset + n) ps)"
    by (simp only: append.assoc append_Nil2 buf_bytes_simps(1))
  from buf_step_trans [OF s2 s3] show ?thesis
    using z(1) f g(1) le len by (auto simp: buf_Splice_def Let_def)
qed

lemma buf_Splice_size:
  assumes "buf_Splice z offset n h b other = Some (h', b', c')" "blocks_of z h"
  shows "blocks_of z h'"
proof -
  from assms(1) obtain h1 b1 where z: "zero_blocks offset z (offset - BytesConsumable b) h b = Some (h1, b1)"
    by (auto simp: buf_Splice_def split: bind_splits)
  obtain h2 p pre post where f: "splice_find z offset 0 h1 [] b1 = (h2, p, pre, post)" by (metis prod_cases4)
  from assms(1) z f have "h' = h2" by (auto simp: buf_Splice_def assert_then_def split: if_splits)
  then show ?thesis using splice_find_size [OF f] zero_blocks_size [OF z assms(2)] by simp
qed

end
