(* ===== verification/Kfs_Checksum.thy ===== *)
theory Kfs_Checksum
  imports Kfs_IOBuffer
begin

text \<open>
  The checksums of src/src/cc/libkfsIO/Checksum.cc over buffers. \<^verbatim>\<open>adler32\<close> of zlib is a parameter: \<^verbatim>\<open>ad0\<close> is
  \<^verbatim>\<open>adler32(0L, Z_NULL, 0)\<close> and \<^verbatim>\<open>ad\<close> updates a checksum with more bytes. What zlib documents of it is
  \<^verbatim>\<open>rolling\<close>: on running checksums, the ones that are reached from \<^verbatim>\<open>ad0\<close>, an update with two runs of bytes is the
  update with both, and an update with no byte changes nothing.
\<close>

definition CHECKSUM_BLOCKSIZE :: nat where
  "CHECKSUM_BLOCKSIZE = 65536"

text \<open>The results are \<^verbatim>\<open>uint32_t\<close>.\<close>

definition OffsetToChecksumBlockNum :: "nat \<Rightarrow> nat" where
  "OffsetToChecksumBlockNum offset = offset div CHECKSUM_BLOCKSIZE mod 2 ^ 32"

definition OffsetToChecksumBlockStart :: "nat \<Rightarrow> nat" where
  "OffsetToChecksumBlockStart offset = (offset div CHECKSUM_BLOCKSIZE) * CHECKSUM_BLOCKSIZE mod 2 ^ 32"

definition OffsetToChecksumBlockEnd :: "nat \<Rightarrow> nat" where
  "OffsetToChecksumBlockEnd offset = (offset div CHECKSUM_BLOCKSIZE + 1) * CHECKSUM_BLOCKSIZE mod 2 ^ 32"

type_synonym cksum = "32 word"
type_synonym adler = "cksum \<Rightarrow> byte list \<Rightarrow> cksum"

definition rolling :: "adler \<Rightarrow> cksum \<Rightarrow> bool" where
  "rolling ad ad0 \<longleftrightarrow> ad ad0 [] = ad0 \<and> (\<forall>xs ys. ad (ad ad0 xs) ys = ad ad0 (xs @ ys))"

definition ComputeBlockChecksum_bytes :: "adler \<Rightarrow> cksum \<Rightarrow> byte list \<Rightarrow> nat \<Rightarrow> cksum" where
  "ComputeBlockChecksum_bytes ad ad0 buf len = ad ad0 (take len buf)"

fun block_checksum_loop :: "adler \<Rightarrow> byte_heap \<Rightarrow> nat \<Rightarrow> cksum \<Rightarrow> IOBuffer \<Rightarrow> cksum" where
  "block_checksum_loop ad h len res [] = res"
| "block_checksum_loop ad h len res (blk # b) =
     (if 0 < len
      then
        let tlen = min (data_consumable blk) len in
        if tlen = 0 then block_checksum_loop ad h len res b
        else block_checksum_loop ad h (len - tlen) (ad res (take tlen (drop (mConsumer blk) (h ! mData blk)))) b
      else res)"

definition ComputeBlockChecksum :: "adler \<Rightarrow> cksum \<Rightarrow> byte_heap \<Rightarrow> IOBuffer \<Rightarrow> nat \<Rightarrow> cksum" where
  "ComputeBlockChecksum ad ad0 h b len = block_checksum_loop ad h len ad0 b"

text \<open>
  The two loops of \<^verbatim>\<open>ComputeChecksums\<close>. The windows from \<^verbatim>\<open>iter\<close> on are a list, empty at the end; \<^verbatim>\<open>buf\<close> is a
  position in the first of them.
\<close>

function checksum_block :: "adler \<Rightarrow> byte_heap \<Rightarrow> nat \<Rightarrow> cksum \<Rightarrow> nat \<Rightarrow> nat \<Rightarrow> IOBuffer \<Rightarrow> cksum \<times> nat \<times> nat \<times> IOBuffer" where
  "checksum_block ad h currLen res len buf [] = (res, len, buf, [])"
| "checksum_block ad h currLen res len buf (blk # b) =
     (if currLen < CHECKSUM_BLOCKSIZE
      then
        let navail0 = min (mProducer blk - buf) len;
            navail = (if CHECKSUM_BLOCKSIZE < currLen + navail0 then CHECKSUM_BLOCKSIZE - currLen else navail0)
        in if navail = 0
           then checksum_block ad h currLen res len (if b = [] then buf else mConsumer (hd b)) b
           else checksum_block ad h (currLen + navail) (ad res (take navail (drop buf (h ! mData blk)))) (len - navail)
                  (buf + navail) (blk # b)
      else (res, len, buf, blk # b))"
  by pat_completeness auto
termination
  by (relation "measure (\<lambda>(ad, h, c, r, len, buf, b). len + length b)") (auto simp: Let_def split: if_splits)

lemma checksum_block_less:
  assumes "checksum_block ad h c r len buf b = (r', len', buf', b')"
  shows "len' \<le> len \<and> length b' \<le> length b \<and> (c = 0 \<longrightarrow> b \<noteq> [] \<longrightarrow> len' + length b' < len + length b)"
  using assms
proof (induction ad h c r len buf b arbitrary: r' len' buf' b' rule: checksum_block.induct)
  case (2 ad h c r len buf blk b)
  let ?n0 = "min (mProducer blk - buf) len"
  let ?n = "if CHECKSUM_BLOCKSIZE < c + ?n0 then CHECKSUM_BLOCKSIZE - c else ?n0"
  consider "\<not> c < CHECKSUM_BLOCKSIZE" | "c < CHECKSUM_BLOCKSIZE" "?n = 0" | "c < CHECKSUM_BLOCKSIZE" "?n \<noteq> 0" by blast
  then show ?case
  proof cases
    case 1
    then show ?thesis using "2.prems" by (auto simp: CHECKSUM_BLOCKSIZE_def)
  next
    case 2
    then have "checksum_block ad h c r len (if b = [] then buf else mConsumer (hd b)) b = (r', len', buf', b')"
      using "2.prems" by (simp add: Let_def)
    from "2.IH"(1) [OF 2(1) refl refl 2(2) this] show ?thesis by auto
  next
    case 3
    then have "checksum_block ad h (c + ?n) (ad r (take ?n (drop buf (h ! mData blk)))) (len - ?n) (buf + ?n) (blk # b) = (r', len', buf', b')"
      using "2.prems" by (simp only: checksum_block.simps(2) [of ad h c r len buf blk b] Let_def if_True if_False)
    from "2.IH"(2) [OF 3(1) refl refl 3(2) this] 3 show ?thesis by (auto split: if_splits)
  qed
qed simp

function checksum_blocks :: "adler \<Rightarrow> cksum \<Rightarrow> byte_heap \<Rightarrow> nat \<Rightarrow> nat \<Rightarrow> IOBuffer \<Rightarrow> cksum list" where
  "checksum_blocks ad ad0 h len buf b =
     (if 0 < len \<and> b \<noteq> []
      then let (res, len1, buf1, b1) = checksum_block ad h 0 ad0 len buf b in res # checksum_blocks ad ad0 h len1 buf1 b1
      else [])"
  by pat_completeness auto
termination
  by (relation "measure (\<lambda>(ad, a, h, len, buf, b). len + length b)") (auto dest: checksum_block_less [OF sym])

declare checksum_blocks.simps [simp del]

definition ComputeChecksums :: "adler \<Rightarrow> cksum \<Rightarrow> byte_heap \<Rightarrow> IOBuffer \<Rightarrow> nat \<Rightarrow> cksum list option" where
  "ComputeChecksums ad ad0 h b len =
     assert_then (CHECKSUM_BLOCKSIZE \<le> len)
       (Some (if b = [] then [] else checksum_blocks ad ad0 h len (mConsumer (hd b)) b))"

section \<open>The checksums are those of the blocks of the bytes\<close>

function blocks :: "byte list \<Rightarrow> byte list list" where
  "blocks xs = (if xs = [] then [] else take CHECKSUM_BLOCKSIZE xs # blocks (drop CHECKSUM_BLOCKSIZE xs))"
  by pat_completeness auto
termination
  by (relation "measure length") (auto simp: CHECKSUM_BLOCKSIZE_def)

declare blocks.simps [simp del]

lemma B_pos [simp]: "0 < CHECKSUM_BLOCKSIZE"
  by (simp add: CHECKSUM_BLOCKSIZE_def)

definition running :: "adler \<Rightarrow> cksum \<Rightarrow> cksum \<Rightarrow> bool" where
  "running ad ad0 a \<longleftrightarrow> rolling ad ad0 \<and> (\<exists>xs. a = ad ad0 xs)"

lemma running_start: "rolling ad ad0 \<Longrightarrow> running ad ad0 ad0"
  unfolding running_def rolling_def by metis

lemma running_simps:
  assumes "running ad ad0 a"
  shows "ad a [] = a" "ad (ad a xs) ys = ad a (xs @ ys)" "running ad ad0 (ad a xs)"
  using assms by (auto simp: running_def rolling_def)

lemma block_checksum_loop_eq:
  assumes "running ad ad0 r" "\<forall>d\<in>set b. win_ok h d"
  shows "block_checksum_loop ad h len r b = ad r (take len (buf_bytes h b))"
  using assms
proof (induction b arbitrary: len r)
  case (Cons d b)
  have len: "length (win_bytes h d) = data_consumable d" using Cons.prems by simp
  let ?t = "min (data_consumable d) len"
  have "take ?t (drop (mConsumer d) (h ! mData d)) = take len (win_bytes h d)" by (simp add: win_bytes_def min.commute)
  with Cons len show ?case by (auto simp: running_simps Let_def min_def)
qed (simp add: running_simps)

lemma ComputeBlockChecksum_eq:
  assumes "rolling ad ad0" "\<forall>d\<in>set b. win_ok h d"
  shows "block_checksum_loop ad h len ad0 b = ad ad0 (take len (buf_bytes h b))"
  by (rule block_checksum_loop_eq [OF running_start [OF assms(1)] assms(2)])

text \<open>The bytes from a position in the first window on.\<close>

definition rest_bytes :: "byte_heap \<Rightarrow> nat \<Rightarrow> IOBuffer \<Rightarrow> byte list" where
  "rest_bytes h buf b = (case b of [] \<Rightarrow> [] | d # b' \<Rightarrow> win_bytes h (d\<lparr>mConsumer := buf\<rparr>) @ buf_bytes h b')"

lemma rest_bytes_start: "rest_bytes h (mConsumer d) (d # b) = buf_bytes h (d # b)"
  by (simp add: rest_bytes_def)

lemma rest_bytes_next: "rest_bytes h (if b = [] then x else mConsumer (hd b)) b = buf_bytes h b"
  by (cases b) (auto simp: rest_bytes_def)

definition cursor_ok :: "byte_heap \<Rightarrow> nat \<Rightarrow> IOBuffer \<Rightarrow> bool" where
  "cursor_ok h buf b \<longleftrightarrow> (\<forall>d\<in>set b. win_ok h d) \<and> (b \<noteq> [] \<longrightarrow> buf \<le> mProducer (hd b))"

text \<open>One block of \<^verbatim>\<open>n\<close> bytes; the windows run out when fewer were left.\<close>

lemma rest_bytes_cut:
  assumes "cursor_ok h buf (d # b)" "n \<le> mProducer d - buf"
  shows "cursor_ok h (buf + n) (d # b)" "rest_bytes h (buf + n) (d # b) = drop n (rest_bytes h buf (d # b))"
    "take n (drop buf (h ! mData d)) = take n (rest_bytes h buf (d # b))" "mProducer d - buf \<le> length (rest_bytes h buf (d # b))"
proof -
  have ok: "win_ok h d" "buf \<le> mProducer d" using assms(1) by (auto simp: cursor_ok_def)
  show "cursor_ok h (buf + n) (d # b)" using assms by (auto simp: cursor_ok_def)
  have w: "win_ok h (d\<lparr>mConsumer := buf\<rparr>)" using ok by (simp add: win_ok_def)
  have n: "n \<le> data_consumable (d\<lparr>mConsumer := buf\<rparr>)" using assms(2) by (simp add: data_consumable_def)
  have l: "length (win_bytes h (d\<lparr>mConsumer := buf\<rparr>)) = mProducer d - buf"
    using length_win_bytes [OF w] by (simp add: data_consumable_def)
  then show "mProducer d - buf \<le> length (rest_bytes h buf (d # b))" by (simp add: rest_bytes_def)
  show "rest_bytes h (buf + n) (d # b) = drop n (rest_bytes h buf (d # b))"
    using win_consume(2) [OF w n] l assms(2) by (simp add: rest_bytes_def)
  show "take n (drop buf (h ! mData d)) = take n (rest_bytes h buf (d # b))"
    using l assms(2) by (simp add: rest_bytes_def win_bytes_def data_consumable_def min_def)
qed

lemma min3_diff: "min a (min l m) - k = min (a - k) (min (l - k) (m - k :: nat))"
  by linarith

lemma checksum_block_eq:
  assumes "running ad ad0 r" "cursor_ok h buf b" "c \<le> CHECKSUM_BLOCKSIZE" "checksum_block ad h c r len buf b = (r', len', buf', b')"
    "n = min (CHECKSUM_BLOCKSIZE - c) (min len (length (rest_bytes h buf b)))"
  shows "r' = ad r (take n (rest_bytes h buf b)) \<and> len' = len - n \<and> cursor_ok h buf' b' \<and>
    (if n = CHECKSUM_BLOCKSIZE - c then b \<noteq> [] \<longrightarrow> b' \<noteq> [] \<and> rest_bytes h buf' b' = drop n (rest_bytes h buf b) else b' = [])"
  using assms
proof (induction ad h c r len buf b arbitrary: r' len' buf' b' n rule: checksum_block.induct)
  case (1 ad h c r len buf)
  then show ?case by (auto simp: rest_bytes_def running_simps)
next
  case (2 ad h c r len buf blk b)
  let ?n0 = "min (mProducer blk - buf) len"
  let ?n = "if CHECKSUM_BLOCKSIZE < c + ?n0 then CHECKSUM_BLOCKSIZE - c else ?n0"
  have nle: "?n \<le> mProducer blk - buf" "?n \<le> len" "?n \<le> CHECKSUM_BLOCKSIZE - c" by auto
  note cut = rest_bytes_cut [OF "2.prems"(2) nle(1)]
  consider "c = CHECKSUM_BLOCKSIZE" | "c < CHECKSUM_BLOCKSIZE" "?n = 0" | "c < CHECKSUM_BLOCKSIZE" "?n \<noteq> 0"
    using "2.prems"(3) by linarith
  then show ?case
  proof cases
    case 1
    then show ?thesis using "2.prems" by (auto simp: running_simps)
  next
    case 2
    then have z: "mProducer blk - buf = 0 \<or> len = 0" by (auto split: if_splits)
    let ?b = "if b = [] then buf else mConsumer (hd b)"
    have r: "checksum_block ad h c r len ?b b = (r', len', buf', b')" using "2.prems"(4) 2 by (simp add: Let_def)
    have ok: "cursor_ok h ?b b" using "2.prems"(2) by (cases b) (auto simp: cursor_ok_def win_ok_def)
    have nx: "rest_bytes h ?b b = buf_bytes h b" by (rule rest_bytes_next)
    have IH: "r' = ad r (take m (buf_bytes h b)) \<and> len' = len - m \<and> cursor_ok h buf' b' \<and>
      (if m = CHECKSUM_BLOCKSIZE - c then b \<noteq> [] \<longrightarrow> b' \<noteq> [] \<and> rest_bytes h buf' b' = drop m (buf_bytes h b) else b' = [])"
      if "m = min (CHECKSUM_BLOCKSIZE - c) (min len (length (buf_bytes h b)))" for m
      by (rule "2.IH"(1) [OF 2(1) refl refl 2(2) "2.prems"(1) ok "2.prems"(3) r, unfolded nx, OF that])
    show ?thesis
    proof (cases "len = 0")
      case True
      then show ?thesis using IH [of 0] "2.prems"(5) 2(1) by auto
    next
      case False
      with z have "mProducer blk - buf = 0" by simp
      then have e: "rest_bytes h buf (blk # b) = buf_bytes h b" by (simp add: rest_bytes_def win_bytes_def data_consumable_def)
      have "b \<noteq> []" if "n = CHECKSUM_BLOCKSIZE - c" using that "2.prems"(5) 2(1) unfolding e by (cases b) auto
      then show ?thesis using IH "2.prems"(5) unfolding e by auto
    qed
  next
    case 3
    let ?r = "ad r (take ?n (drop buf (h ! mData blk)))"
    have r: "checksum_block ad h (c + ?n) ?r (len - ?n) (buf + ?n) (blk # b) = (r', len', buf', b')"
      using "2.prems"(4) 3 by (simp only: checksum_block.simps(2) [of ad h c r len buf blk b] Let_def if_True if_False)
    have c: "c + ?n \<le> CHECKSUM_BLOCKSIZE" using nle(3) 3(1) by linarith
    let ?R = "rest_bytes h buf (blk # b)"
    have m: "n - ?n = min (CHECKSUM_BLOCKSIZE - (c + ?n)) (min (len - ?n) (length (drop ?n ?R)))"
      unfolding "2.prems"(5) length_drop min3_diff diff_diff_left ..
    have n: "?n \<le> n" using nle cut(4) unfolding "2.prems"(5) by linarith
    from "2.IH"(2) [OF 3(1) refl refl 3(2) running_simps(3) [OF "2.prems"(1)] cut(1) c r, unfolded cut(2), OF m]
    have IH: "r' = ad ?r (take (n - ?n) (drop ?n ?R))" "len' = len - ?n - (n - ?n)" "cursor_ok h buf' b'"
      "if n - ?n = CHECKSUM_BLOCKSIZE - (c + ?n) then blk # b \<noteq> [] \<longrightarrow> b' \<noteq> [] \<and> rest_bytes h buf' b' = drop (n - ?n) (drop ?n ?R) else b' = []"
      by blast+
    have "?r = ad r (take ?n ?R)" by (simp only: cut(3))
    with IH(1) have "r' = ad r (take ?n ?R @ take (n - ?n) (drop ?n ?R))" by (simp only: running_simps(2) [OF "2.prems"(1)])
    moreover have "take ?n ?R @ take (n - ?n) (drop ?n ?R) = take n ?R" using take_add [of ?n "n - ?n" ?R] n by simp
    moreover have "drop (n - ?n) (drop ?n ?R) = drop n ?R" using n by simp
    moreover have "(n - ?n = CHECKSUM_BLOCKSIZE - (c + ?n)) = (n = CHECKSUM_BLOCKSIZE - c)" using n c 3(1) by linarith
    moreover have "len - ?n - (n - ?n) = len - n" using n by linarith
    ultimately show ?thesis using IH(2-4) by (simp only:)
  qed
qed

lemma blocks_simps:
  "blocks [] = []" "xs \<noteq> [] \<Longrightarrow> length xs \<le> CHECKSUM_BLOCKSIZE \<Longrightarrow> blocks xs = [xs]"
  "CHECKSUM_BLOCKSIZE \<le> length xs \<Longrightarrow> blocks xs = take CHECKSUM_BLOCKSIZE xs # blocks (drop CHECKSUM_BLOCKSIZE xs)"
proof -
  show e: "blocks [] = []" by (simp add: blocks.simps)
  show "blocks xs = [xs]" if "xs \<noteq> []" "length xs \<le> CHECKSUM_BLOCKSIZE" using that e by (subst blocks.simps) simp
  show "blocks xs = take CHECKSUM_BLOCKSIZE xs # blocks (drop CHECKSUM_BLOCKSIZE xs)" if "CHECKSUM_BLOCKSIZE \<le> length xs"
    using that by (subst blocks.simps) (auto simp: CHECKSUM_BLOCKSIZE_def)
qed

definition cksums_of :: "adler \<Rightarrow> cksum \<Rightarrow> nat \<Rightarrow> byte list \<Rightarrow> cksum list" where
  "cksums_of ad ad0 len bs =
     (if len \<le> length bs then map (ad ad0) (blocks (take len bs))
      else map (ad ad0) (blocks bs) @ (if CHECKSUM_BLOCKSIZE dvd length bs then [ad0] else []))"

lemma cksums_of_full:
  assumes "CHECKSUM_BLOCKSIZE \<le> len" "CHECKSUM_BLOCKSIZE \<le> length bs"
  shows "cksums_of ad ad0 len bs = ad ad0 (take CHECKSUM_BLOCKSIZE bs) # cksums_of ad ad0 (len - CHECKSUM_BLOCKSIZE) (drop CHECKSUM_BLOCKSIZE bs)"
proof (cases "len \<le> length bs")
  case True
  have "blocks (take len bs) = take CHECKSUM_BLOCKSIZE bs # blocks (take (len - CHECKSUM_BLOCKSIZE) (drop CHECKSUM_BLOCKSIZE bs))"
    using blocks_simps(3) [of "take len bs"] assms True by (simp add: drop_take)
  with True show ?thesis by (simp add: cksums_of_def)
next
  case False
  have "(CHECKSUM_BLOCKSIZE dvd length bs) = (CHECKSUM_BLOCKSIZE dvd length bs - CHECKSUM_BLOCKSIZE)"
    using assms(2) by (simp add: dvd_minus_self)
  moreover have "\<not> len - CHECKSUM_BLOCKSIZE \<le> length bs - CHECKSUM_BLOCKSIZE" using False assms by linarith
  ultimately show ?thesis using blocks_simps(3) [OF assms(2)] False by (simp add: cksums_of_def)
qed

lemma cksums_of_short:
  assumes "rolling ad ad0" "min len (length bs) < CHECKSUM_BLOCKSIZE" "0 < len"
  shows "cksums_of ad ad0 len bs = [ad ad0 (take (min len (length bs)) bs)]"
proof (cases "len \<le> length bs")
  case True
  with assms(2,3) have "take len bs \<noteq> []" "length (take len bs) \<le> CHECKSUM_BLOCKSIZE" by auto
  then show ?thesis using True blocks_simps(2) by (simp add: cksums_of_def min_absorb1)
next
  case False
  then show ?thesis using assms blocks_simps(1) blocks_simps(2) [of bs] nat_dvd_not_less [of "length bs" CHECKSUM_BLOCKSIZE]
    by (cases "bs = []") (auto simp: cksums_of_def min_def rolling_def)
qed

lemma checksum_blocks_eq:
  assumes "rolling ad ad0" "cursor_ok h buf b" "b \<noteq> []" "0 < len"
  shows "checksum_blocks ad ad0 h len buf b = cksums_of ad ad0 len (rest_bytes h buf b)"
  using assms(2-4)
proof (induction "len + length b" arbitrary: len buf b rule: less_induct)
  case less
  let ?R = "rest_bytes h buf b"
  let ?n = "min (CHECKSUM_BLOCKSIZE - 0) (min len (length ?R))"
  obtain r len1 buf1 b1 where cb: "checksum_block ad h 0 ad0 len buf b = (r, len1, buf1, b1)" by (metis prod_cases4)
  have step: "checksum_blocks ad ad0 h len buf b = r # checksum_blocks ad ad0 h len1 buf1 b1"
    using less.prems cb by (subst checksum_blocks.simps) simp
  from checksum_block_eq [OF running_start [OF assms(1)] less.prems(1) _ cb refl]
  have e: "r = ad ad0 (take ?n ?R)" "len1 = len - ?n" "cursor_ok h buf1 b1"
    "if ?n = CHECKSUM_BLOCKSIZE - 0 then b \<noteq> [] \<longrightarrow> b1 \<noteq> [] \<and> rest_bytes h buf1 b1 = drop ?n ?R else b1 = []" by auto
  show ?case
  proof (cases "?n = CHECKSUM_BLOCKSIZE")
    case True
    then have le: "CHECKSUM_BLOCKSIZE \<le> len" "CHECKSUM_BLOCKSIZE \<le> length ?R" by auto
    have b1: "b1 \<noteq> []" "rest_bytes h buf1 b1 = drop CHECKSUM_BLOCKSIZE ?R" using e(4) True less.prems(2) by auto
    have len1: "len1 = len - CHECKSUM_BLOCKSIZE" using e(2) True by simp
    have "checksum_blocks ad ad0 h len1 buf1 b1 = cksums_of ad ad0 len1 (rest_bytes h buf1 b1)"
    proof (cases "0 < len1")
      case True
      have "len1 + length b1 < len + length b" using checksum_block_less [OF cb] less.prems(2) by simp
      from less.hyps [OF this e(3) b1(1) True] show ?thesis .
    next
      case False
      then show ?thesis by (subst checksum_blocks.simps) (simp add: cksums_of_def blocks_simps(1))
    qed
    then show ?thesis using step e(1) True cksums_of_full [OF le] by (simp add: b1(2) len1)
  next
    case False
    then have "min len (length ?R) < CHECKSUM_BLOCKSIZE" "b1 = []" using e(4) by auto
    moreover have "checksum_blocks ad ad0 h len1 buf1 [] = []" by (subst checksum_blocks.simps) simp
    ultimately show ?thesis using step e(1) cksums_of_short [OF assms(1) _ less.prems(3)] by simp
  qed
qed

lemma ComputeChecksums_eq:
  assumes "rolling ad ad0" "\<forall>d\<in>set b. win_ok h d"
  shows "ComputeChecksums ad ad0 h b len =
    (if len < CHECKSUM_BLOCKSIZE then None else Some (if b = [] then [] else cksums_of ad ad0 len (buf_bytes h b)))"
proof (cases b)
  case (Cons d b')
  have "cursor_ok h (mConsumer d) b" using assms(2) Cons by (auto simp: cursor_ok_def win_ok_def)
  then show ?thesis using checksum_blocks_eq [OF assms(1), of h "mConsumer d" b len] Cons
    by (auto simp: ComputeChecksums_def rest_bytes_start not_less CHECKSUM_BLOCKSIZE_def)
qed (auto simp: ComputeChecksums_def)

text \<open>
  C39. The checksums of a buffer are those of the 64 KB blocks of its bytes, however the bytes are spread over the
  windows: the i-th is what ComputeBlockChecksum gives for the i-th block of the first \<^verbatim>\<open>len\<close> bytes. When
  \<^verbatim>\<open>len\<close> is larger than the buffer, all of its bytes count, and a checksum of nothing follows when they
  fill their last block; less than a block fails the assert.
\<close>

theorem checksums_of_blocks:
  assumes "rolling ad ad0" "\<forall>d\<in>set b. win_ok h d" "b \<noteq> []"
  shows "ComputeChecksums ad ad0 h b len =
      (if len < CHECKSUM_BLOCKSIZE then None
       else if len \<le> length (buf_bytes h b) then Some (map (ad ad0) (blocks (take len (buf_bytes h b))))
       else Some (map (ad ad0) (blocks (buf_bytes h b)) @ (if CHECKSUM_BLOCKSIZE dvd length (buf_bytes h b) then [ad0] else [])))
    \<and> ComputeBlockChecksum ad ad0 h b n = ComputeBlockChecksum_bytes ad ad0 (buf_bytes h b) n"
  using ComputeChecksums_eq [OF assms(1,2)] ComputeBlockChecksum_eq [OF assms(1,2)] assms(3)
  by (simp add: cksums_of_def ComputeBlockChecksum_def ComputeBlockChecksum_bytes_def)

text \<open>A sum for the parameter, and two windows of 40000 bytes.\<close>

definition adler_sum :: adler where
  "adler_sum a xs = a + sum_list (map ucast xs)"

definition two_windows :: IOBuffer where
  "two_windows = [\<lparr>mData = 0, mStart = 0, mEnd = 40000, mProducer = 40000, mConsumer = 0\<rparr>,
     \<lparr>mData = 1, mStart = 0, mEnd = 40000, mProducer = 40000, mConsumer = 0\<rparr>]"

definition two_arrays :: byte_heap where
  "two_arrays = [replicate 40000 1, replicate 40000 2]"

lemma two_windows_facts:
  "rolling adler_sum 1" "\<forall>d\<in>set two_windows. win_ok two_arrays d" "two_windows \<noteq> []"
  "buf_bytes two_arrays two_windows = replicate 40000 1 @ replicate 40000 2"
  by (simp_all add: rolling_def adler_sum_def two_windows_def two_arrays_def win_ok_def win_bytes_def data_consumable_def)

lemma blocks_two: "blocks (replicate 40000 1 @ replicate 40000 2) = [replicate 40000 1 @ replicate 25536 2, replicate 14464 2]"
  using blocks_simps(3) [of "replicate 40000 1 @ replicate 40000 2"] blocks_simps(2) [of "replicate 14464 2"]
  by (simp add: CHECKSUM_BLOCKSIZE_def)

theorem checksums_of_blocks_witness:
  "ComputeChecksums adler_sum 1 two_arrays two_windows 80000 =
     Some [adler_sum 1 (replicate 40000 1 @ replicate 25536 2), adler_sum 1 (replicate 14464 2)]"
  using checksums_of_blocks [OF two_windows_facts(1-3), of 80000] two_windows_facts(4) blocks_two
  by (simp add: CHECKSUM_BLOCKSIZE_def)

end
