(* ===== verification/Chunk_Manager.thy ===== *)
theory Chunk_Manager
  imports Kfs_Checksum
begin

text \<open>
  The chunk table of a chunkserver: src/src/cc/chunk/Chunk.h, ChunkManager.h and ChunkManager.cc, without the
  data path (theory Chunk_Data). A chunk is a file of the host file system, 16 KB of header and the data; the
  path of a chunk is determined by the file id, the chunk id and the version, so the host file system is a map
  from these to bytes, and a second one for the directory of stale chunks. An open file descriptor is
  always of the file with the current name, since renaming a file keeps it open. What the host answers
  (\<^verbatim>\<open>creat\<close>, \<^verbatim>\<open>open\<close>, \<^verbatim>\<open>truncate\<close>), the time and the number of open descriptors are arguments.
\<close>

abbreviation (input) EBADF :: int where "EBADF \<equiv> 9"
abbreviation (input) ENOSPC :: int where "ENOSPC \<equiv> 28"
abbreviation (input) EBADVERS :: int where "EBADVERS \<equiv> 1000"
abbreviation (input) EBADCKSUM :: int where "EBADCKSUM \<equiv> 1002"
abbreviation (input) ESERVERBUSY :: int where "ESERVERBUSY \<equiv> 1004"

section \<open>State\<close>

definition KFS_CHUNK_HEADER_SIZE :: nat where
  "KFS_CHUNK_HEADER_SIZE = 16384"

definition MAX_CHUNK_CHECKSUM_BLOCKS :: nat where
  "MAX_CHUNK_CHECKSUM_BLOCKS = 2 ^ 26 div CHECKSUM_BLOCKSIZE"

text \<open>The checksums are \<^verbatim>\<open>None\<close> for a null pointer.\<close>

record ChunkInfo_t =
  ck_fileId :: int
  ck_chunkId :: int
  ck_version :: int
  ck_size :: int
  ck_sums :: "cksum list option"

record ChunkInfoHandle =
  chunkInfo :: ChunkInfo_t
  dataFH :: bool
  lastIOTime :: int
  isBeingReplicated :: bool
  isMetadataReadOngoing :: bool

type_synonym chunk_path = "int \<times> int \<times> int"

record ChunkManager =
  mChunkTable :: "int \<rightharpoonup> ChunkInfoHandle"
  mUsedSpace :: int
  mTotalSpace :: int
  mNumChunks :: int
  mIsChunkTableDirty :: bool
  host_files :: "chunk_path \<rightharpoonup> byte list"
  stale_files :: "chunk_path \<rightharpoonup> byte list"

definition Init_info :: "int \<Rightarrow> int \<Rightarrow> int \<Rightarrow> ChunkInfo_t" where
  "Init_info f c v = \<lparr>ck_fileId = f, ck_chunkId = c, ck_version = v, ck_size = 0,
     ck_sums = Some (replicate MAX_CHUNK_CHECKSUM_BLOCKS 0)\<rparr>"

definition new_handle :: "ChunkInfo_t \<Rightarrow> ChunkInfoHandle" where
  "new_handle i = \<lparr>chunkInfo = i, dataFH = False, lastIOTime = 0, isBeingReplicated = False, isMetadataReadOngoing = False\<rparr>"

definition AreChecksumsLoaded :: "ChunkInfo_t \<Rightarrow> bool" where
  "AreChecksumsLoaded i \<longleftrightarrow> ck_sums i \<noteq> None"

definition Release :: "ChunkInfoHandle \<Rightarrow> ChunkInfoHandle" where
  "Release cih = cih\<lparr>chunkInfo := (chunkInfo cih)\<lparr>ck_sums := None\<rparr>, dataFH := False\<rparr>"

definition MakeChunkPathname :: "ChunkInfo_t \<Rightarrow> chunk_path" where
  "MakeChunkPathname i = (ck_fileId i, ck_chunkId i, ck_version i)"

definition host_rename :: "chunk_path \<Rightarrow> chunk_path \<Rightarrow> (chunk_path \<rightharpoonup> byte list) \<Rightarrow> chunk_path \<rightharpoonup> byte list" where
  "host_rename p q fs = (case fs p of None \<Rightarrow> fs | Some f \<Rightarrow> (fs(p := None))(q \<mapsto> f))"

section \<open>Operations on the table\<close>

definition ChunkManager_Init :: "int \<Rightarrow> ChunkManager" where
  "ChunkManager_Init totalSpace = \<lparr>mChunkTable = Map.empty, mUsedSpace = 0, mTotalSpace = totalSpace, mNumChunks = 0,
     mIsChunkTableDirty = False, host_files = Map.empty, stale_files = Map.empty\<rparr>"

definition GetChunkInfoHandle :: "int \<Rightarrow> ChunkManager \<Rightarrow> int \<times> ChunkInfoHandle option" where
  "GetChunkInfoHandle c m = (case mChunkTable m c of None \<Rightarrow> (- EBADF, None) | Some cih \<Rightarrow> (0, Some cih))"

definition INACTIVE_FDS_CLEANUP_INTERVAL_SECS :: int where
  "INACTIVE_FDS_CLEANUP_INTERVAL_SECS = 300"

definition InactiveFdCleaner :: "int \<Rightarrow> ChunkInfoHandle \<Rightarrow> ChunkInfoHandle" where
  "InactiveFdCleaner time cih =
     (if \<not> dataFH cih \<or> time - lastIOTime cih < INACTIVE_FDS_CLEANUP_INTERVAL_SECS \<or> isBeingReplicated cih
      then cih else Release cih)"

text \<open>
  \<^verbatim>\<open>due\<close> says, for a periodic call, that the interval has elapsed since the last clean-up, and otherwise
  that too many descriptors are open.
\<close>

definition CleanupInactiveFds :: "bool \<Rightarrow> int \<Rightarrow> ChunkManager \<Rightarrow> ChunkManager" where
  "CleanupInactiveFds due time m =
     (if due then m\<lparr>mChunkTable := \<lambda>c. map_option (InactiveFdCleaner time) (mChunkTable m c)\<rparr> else m)"

definition ChangeChunkVers :: "int \<Rightarrow> int \<Rightarrow> ChunkManager \<Rightarrow> ChunkManager \<times> int" where
  "ChangeChunkVers c v m =
     (case mChunkTable m c of
        None \<Rightarrow> (m, - 1)
      | Some cih \<Rightarrow>
          let info = (chunkInfo cih)\<lparr>ck_version := v\<rparr>
          in (m\<lparr>mIsChunkTableDirty := True,
                host_files := host_rename (MakeChunkPathname (chunkInfo cih)) (MakeChunkPathname info) (host_files m),
                mChunkTable := (mChunkTable m)(c \<mapsto> cih\<lparr>chunkInfo := info\<rparr>)\<rparr>, 0))"

definition AllocChunk :: "bool \<Rightarrow> bool \<Rightarrow> int \<Rightarrow> int \<Rightarrow> int \<Rightarrow> int \<Rightarrow> bool \<Rightarrow> ChunkManager \<Rightarrow> ChunkManager \<times> int" where
  "AllocChunk creat_ok due time f c v repl m0 =
     (let m = m0\<lparr>mIsChunkTableDirty := True\<rparr> in
      case mChunkTable m c of
        Some cih \<Rightarrow> (fst (ChangeChunkVers c v m), 0)
      | None \<Rightarrow>
          let m1 = CleanupInactiveFds due time m in
          if \<not> creat_ok then (m1, - ESERVERBUSY)
          else (m1\<lparr>host_files := (host_files m1)((f, c, v) \<mapsto> []),
                   mNumChunks := mNumChunks m1 + 1,
                   mChunkTable := (mChunkTable m1)(c \<mapsto> (new_handle (Init_info f c v))\<lparr>isBeingReplicated := repl\<rparr>)\<rparr>, 0))"

definition erase_chunk :: "int \<Rightarrow> ChunkInfoHandle \<Rightarrow> ChunkManager \<Rightarrow> ChunkManager option" where
  "erase_chunk c cih m =
     assert_then (0 \<le> mNumChunks m - 1)
       (Some (m\<lparr>mNumChunks := mNumChunks m - 1, mUsedSpace := mUsedSpace m - ck_size (chunkInfo cih),
                mChunkTable := (mChunkTable m)(c := None)\<rparr>))"

definition cm_DeleteChunk :: "int \<Rightarrow> ChunkManager \<Rightarrow> (ChunkManager \<times> int) option" where
  "cm_DeleteChunk c m =
     (case mChunkTable m c of
        None \<Rightarrow> Some (m, - EBADF)
      | Some cih \<Rightarrow>
          map_option (\<lambda>m1. (m1, 0))
            (erase_chunk c cih (m\<lparr>mIsChunkTableDirty := True,
               host_files := (host_files m)(MakeChunkPathname (chunkInfo cih) := None)\<rparr>)))"

definition MarkChunkStale :: "ChunkInfo_t \<Rightarrow> ChunkManager \<Rightarrow> ChunkManager" where
  "MarkChunkStale i m =
     (let p = MakeChunkPathname i in
      case host_files m p of
        None \<Rightarrow> m
      | Some f \<Rightarrow> m\<lparr>host_files := (host_files m)(p := None), stale_files := (stale_files m)(p \<mapsto> f)\<rparr>)"

definition StaleChunk :: "int \<Rightarrow> ChunkManager \<Rightarrow> (ChunkManager \<times> int) option" where
  "StaleChunk c m =
     (case mChunkTable m c of
        None \<Rightarrow> Some (m, - EBADF)
      | Some cih \<Rightarrow>
          map_option (\<lambda>m1. (m1, 0)) (erase_chunk c cih (MarkChunkStale (chunkInfo cih) (m\<lparr>mIsChunkTableDirty := True\<rparr>))))"

definition host_truncate :: "nat \<Rightarrow> byte list \<Rightarrow> byte list" where
  "host_truncate n f = take n f @ replicate (n - length f) 0"

text \<open>
  \<^verbatim>\<open>TruncateChunk\<close>; \<^verbatim>\<open>err\<close> is what \<^verbatim>\<open>truncate\<close> of an existing file fails with, or zero. The file is cut to \<^verbatim>\<open>chunkSize\<close> bytes
  with its header. The block of the new size is written in the array of checksums without a check, so
  outside the array the result is \<^verbatim>\<open>None\<close>.
\<close>

definition cm_TruncateChunk :: "int \<Rightarrow> int \<Rightarrow> nat \<Rightarrow> ChunkManager \<Rightarrow> (ChunkManager \<times> int) option" where
  "cm_TruncateChunk err c csize m0 =
     (if 2 ^ 26 < csize then Some (m0, - EINVAL)
      else case mChunkTable m0 c of
        None \<Rightarrow> Some (m0, - EBADF)
      | Some cih \<Rightarrow>
          let m = m0\<lparr>mIsChunkTableDirty := True\<rparr>; p = MakeChunkPathname (chunkInfo cih) in
          case host_files m p of
            None \<Rightarrow> Some (m, - ENOENT)
          | Some f \<Rightarrow>
              if err \<noteq> 0 then Some (m, - err)
              else
                let blk = OffsetToChecksumBlockNum csize in
                case ck_sums (chunkInfo cih) of
                  None \<Rightarrow> None
                | Some sums \<Rightarrow>
                    assert_then (blk < length sums)
                      (Some (m\<lparr>host_files := (host_files m)(p \<mapsto> host_truncate csize f),
                               mUsedSpace := mUsedSpace m - ck_size (chunkInfo cih) + int csize,
                               mChunkTable := (mChunkTable m)(c \<mapsto> cih\<lparr>chunkInfo := (chunkInfo cih)
                                 \<lparr>ck_size := int csize, ck_sums := Some (sums[blk := 0])\<rparr>\<rparr>)\<rparr>, 0)))"

definition ReplicationDone :: "int \<Rightarrow> ChunkManager \<Rightarrow> ChunkManager" where
  "ReplicationDone c m =
     (case mChunkTable m c of
        None \<Rightarrow> m
      | Some cih \<Rightarrow> m\<lparr>mIsChunkTableDirty := True, mChunkTable := (mChunkTable m)(c \<mapsto> cih\<lparr>isBeingReplicated := False\<rparr>)\<rparr>)"

definition OpenChunk :: "bool \<Rightarrow> int \<Rightarrow> ChunkManager \<Rightarrow> ChunkManager \<times> int" where
  "OpenChunk open_ok c m =
     (case mChunkTable m c of
        None \<Rightarrow> (m, - EBADF)
      | Some cih \<Rightarrow>
          if \<not> dataFH cih
          then
            if host_files m (MakeChunkPathname (chunkInfo cih)) = None \<or> \<not> open_ok then (m, - EBADF)
            else (m\<lparr>mChunkTable := (mChunkTable m)(c \<mapsto> cih\<lparr>dataFH := True\<rparr>)\<rparr>, 0)
          else (m, 0))"

text \<open>\<^verbatim>\<open>few\<close> says that the handle has at most two references.\<close>

definition CloseChunk :: "bool \<Rightarrow> int \<Rightarrow> ChunkManager \<Rightarrow> ChunkManager" where
  "CloseChunk few c m =
     (case mChunkTable m c of
        None \<Rightarrow> m
      | Some cih \<Rightarrow>
          if few \<and> dataFH cih then m\<lparr>mChunkTable := (mChunkTable m)(c \<mapsto> Release cih)\<rparr> else m)"

definition ChunkSize :: "int \<Rightarrow> ChunkManager \<Rightarrow> int \<times> int" where
  "ChunkSize c m = (case mChunkTable m c of None \<Rightarrow> (- EBADF, 0) | Some cih \<Rightarrow> (0, ck_size (chunkInfo cih)))"

definition GetChunkVersion :: "int \<Rightarrow> ChunkManager \<Rightarrow> int" where
  "GetChunkVersion c m = (case mChunkTable m c of None \<Rightarrow> - 1 | Some cih \<Rightarrow> ck_version (chunkInfo cih))"

definition SetChunkMetadata :: "int \<Rightarrow> cksum list \<Rightarrow> ChunkManager \<Rightarrow> ChunkManager \<times> int" where
  "SetChunkMetadata c sums m =
     (case mChunkTable m c of
        None \<Rightarrow> (m, - EBADF)
      | Some cih \<Rightarrow> (m\<lparr>mChunkTable := (mChunkTable m)(c \<mapsto> cih\<lparr>chunkInfo := (chunkInfo cih)\<lparr>ck_sums := Some sums\<rparr>\<rparr>)\<rparr>, 0))"

text \<open>A null result is \<^verbatim>\<open>False\<close>.\<close>

definition SetupDiskConnection :: "bool \<Rightarrow> bool \<Rightarrow> int \<Rightarrow> int \<Rightarrow> ChunkManager \<Rightarrow> ChunkManager \<times> bool" where
  "SetupDiskConnection due open_ok time c m =
     (case mChunkTable m c of
        None \<Rightarrow> (m, False)
      | Some cih \<Rightarrow>
          let (m1, res) = (if \<not> dataFH cih then OpenChunk open_ok c (CleanupInactiveFds due time m) else (m, 0)) in
          if res < 0 then (m1, False)
          else (m1\<lparr>mChunkTable := (mChunkTable m1)(c := map_option (lastIOTime_update (\<lambda>_. time)) (mChunkTable m1 c))\<rparr>, True))"

definition AddMapping :: "ChunkInfoHandle \<Rightarrow> ChunkManager \<Rightarrow> ChunkManager" where
  "AddMapping cih m =
     m\<lparr>mNumChunks := mNumChunks m + 1, mChunkTable := (mChunkTable m)(ck_chunkId (chunkInfo cih) \<mapsto> cih),
       mUsedSpace := mUsedSpace m + ck_size (chunkInfo cih)\<rparr>"

text \<open>The chunk of a file found at start-up, from its name and size; without checksums.\<close>

definition MakeChunkInfoFromPathname :: "chunk_path \<Rightarrow> nat \<Rightarrow> ChunkInfoHandle" where
  "MakeChunkInfoFromPathname p filesz =
     (case p of (f, c, v) \<Rightarrow>
        new_handle \<lparr>ck_fileId = f, ck_chunkId = c, ck_version = v,
          ck_size = (if KFS_CHUNK_HEADER_SIZE \<le> filesz then int (filesz - KFS_CHUNK_HEADER_SIZE) else 0), ck_sums = None\<rparr>)"

definition RestoreV2 :: "(chunk_path \<times> byte list) list \<Rightarrow> ChunkManager \<Rightarrow> ChunkManager" where
  "RestoreV2 files m = fold (\<lambda>(p, f). AddMapping (MakeChunkInfoFromPathname p (length f))) files m"

end
