(* ===== verification/Kfs_IOShare.thy ===== *)
theory Kfs_IOShare
  imports Kfs_IOBuffer
begin

text \<open>
  Buffers of src/src/cc/libkfsIO/IOBuffer.cc that share arrays. The state is a heap and any number of buffers; every
  operation on a buffer does to the bytes of all buffers what the same operation does on independent lists of
  bytes, except \<^verbatim>\<open>Trim\<close> on a buffer whose array is shared.
\<close>

section \<open>Simulations of operations that may fail\<close>

fun run_ops :: "('o \<Rightarrow> 's \<Rightarrow> 's option) \<Rightarrow> 'o list \<Rightarrow> 's \<Rightarrow> 's option" where
  "run_ops exec [] s = Some s"
| "run_ops exec (p # ps) s = exec p s \<bind> run_ops exec ps"

text \<open>
  The contract of a component with an abstract specification: an operation that is allowed keeps the invariant
  and does on the abstraction what the specification does, failing when it fails.
\<close>

locale op_refinement =
  fixes exec :: "'o \<Rightarrow> 's \<Rightarrow> 's option" and spec :: "'o \<Rightarrow> 'a \<Rightarrow> 'a option" and absf :: "'s \<Rightarrow> 'a"
    and inv :: "'s \<Rightarrow> bool" and allowed :: "'o \<Rightarrow> bool"
  assumes exec_abs: "inv s \<Longrightarrow> allowed p \<Longrightarrow> map_option absf (exec p s) = spec p (absf s)"
    and exec_inv: "inv s \<Longrightarrow> allowed p \<Longrightarrow> exec p s = Some s' \<Longrightarrow> inv s'"
begin

lemma run_ref:
  assumes "inv s" "\<forall>p\<in>set ps. allowed p"
  shows "map_option absf (run_ops exec ps s) = run_ops spec ps (absf s) \<and> (\<forall>s'. run_ops exec ps s = Some s' \<longrightarrow> inv s')"
  using assms
proof (induction ps arbitrary: s)
  case (Cons p ps)
  from exec_abs [of s p] exec_inv [of s p] Cons.prems Cons.IH show ?case by (cases "exec p s") (auto dest: sym)
qed simp

lemma run_case:
  assumes "inv s" "\<forall>p\<in>set ps. allowed p" "\<And>s'. inv s' \<Longrightarrow> P s'"
  shows "case run_ops exec ps s of None \<Rightarrow> run_ops spec ps (absf s) = None | Some s' \<Rightarrow> run_ops spec ps (absf s) = Some (absf s') \<and> P s'"
  using run_ref [OF assms(1,2)] assms(3) by (auto split: option.split)

end

subsection \<open>Trimming\<close>

text \<open>\<^verbatim>\<open>Trim\<close> gives room back to a window, so its array must not be another window's.\<close>

definition unshared :: "IOBuffer \<Rightarrow> IOBuffer \<Rightarrow> bool" where
  "unshared b r \<longleftrightarrow> distinct (map mData b) \<and> (\<forall>d\<in>set b. \<forall>e\<in>set r. mData d \<noteq> mData e)"

lemma drain_win:
  assumes "win_ok h d"
  shows "win_ok h (fst (data_Consume (data_consumable d) d))" "win_bytes h (fst (data_Consume (data_consumable d) d)) = []"
    "data_consumable (fst (data_Consume (data_consumable d) d)) = 0" "mData (fst (data_Consume (data_consumable d) d)) = mData d"
  using assms by (auto simp: data_Consume_def data_consumable_def win_ok_def win_bytes_def)

lemma drain_all:
  assumes "\<forall>d\<in>set b. win_ok h d"
  defines "r \<equiv> map (\<lambda>d. fst (data_Consume (data_consumable d) d)) b"
  shows "\<forall>d\<in>set r. win_ok h d" "buf_bytes h r = []" "map mData r = map mData b"
  using assms(1) unfolding r_def by (induction b) (simp_all add: drain_win(1,2) drain_win(4) [of h])

lemma trim_win:
  assumes "win_ok h d" "n \<le> data_consumable d"
  shows "win_ok h (fst (data_Trim n d))" "win_bytes h (fst (data_Trim n d)) = take n (win_bytes h d)" "mData (fst (data_Trim n d)) = mData d"
  using assms by (auto simp: data_Trim_def data_consumable_def win_ok_def win_bytes_def min_def)

lemma trim_loop_ok:
  assumes "\<forall>d\<in>set b. win_ok h d" "tot \<le> n"
  shows "(\<forall>d\<in>set (trim_loop n tot b). win_ok h d) \<and> buf_bytes h (trim_loop n tot b) = take (n - tot) (buf_bytes h b)
    \<and> map mData (trim_loop n tot b) = map mData b"
  using assms
proof (induction b arbitrary: tot)
  case (Cons d b)
  have d: "win_ok h d" and b: "\<forall>e\<in>set b. win_ok h e" using Cons.prems by auto
  note len = length_win_bytes [OF d] and drain = drain_all [OF b] drain_win [OF d]
  consider "data_consumable d + tot \<le> n" | "\<not> data_consumable d + tot \<le> n" "tot = n" | "\<not> data_consumable d + tot \<le> n" "tot < n"
    using Cons.prems(2) by linarith
  then show ?case
  proof cases
    case 1
    with Cons.IH [OF b, of "tot + data_consumable d"] d len show ?thesis by (simp add: add.commute)
  next
    case 2
    with drain show ?thesis by (simp add: Let_def)
  next
    case 3
    with trim_win [OF d, of "n - tot"] drain(1-3) len show ?thesis by (simp add: Let_def)
  qed
qed simp

lemma win_bytes_consumable: "\<forall>d\<in>set b. win_ok h d \<Longrightarrow> length (buf_bytes h b) = BytesConsumable b"
  by (induction b) auto

lemma unshared_apart: "distinct (map mData b) \<Longrightarrow> sorted_wrt apart b"
  by (induction b) (auto simp: apart_def)

lemma buf_Trim_step:
  assumes "buf_ok h (b @ r)" "unshared b r"
  shows "if n \<le> 0 then buf_Trim n b = Some b
    else if nat n \<le> length (buf_bytes h b)
    then \<exists>b'. buf_Trim n b = Some b' \<and> buf_bytes h b' = take (nat n) (buf_bytes h b) \<and> buf_ok h (b' @ r)
    else buf_Trim n b = None"
proof -
  have w: "\<forall>d\<in>set b. win_ok h d" using assms(1) by (auto simp: buf_ok_def)
  let ?b = "trim_loop (nat n) 0 b"
  from trim_loop_ok [OF w, of 0 "nat n"] have t: "\<forall>d\<in>set ?b. win_ok h d" "buf_bytes h ?b = take (nat n) (buf_bytes h b)"
    "map mData ?b = map mData b" by auto
  have "BytesConsumable ?b = min (nat n) (length (buf_bytes h b))"
    using win_bytes_consumable [OF t(1)] t(2) by (simp add: min.commute)
  moreover have ds: "mData ` set ?b = mData ` set b" using t(3) by (metis set_map)
  have "apart d e" if "d \<in> set ?b" "e \<in> set r" for d e
  proof -
    have "mData d \<in> mData ` set b" using imageI [OF that(1), of mData] unfolding ds .
    then obtain d0 where "d0 \<in> set b" "mData d = mData d0" by blast
    then have "mData d \<noteq> mData e" using assms(2) that(2) by (simp add: unshared_def)
    then show ?thesis by (simp add: apart_def)
  qed
  then have "buf_ok h (?b @ r)"
    using assms t unshared_apart [of ?b] by (auto simp: buf_ok_def unshared_def sorted_wrt_append)
  ultimately show ?thesis using t(2) by (auto simp: buf_Trim_def Let_def min_def)
qed

section \<open>Several buffers over one heap\<close>

record io_state =
  io_heap :: byte_heap
  io_bufs :: "IOBuffer list"

datatype io_op =
  Io_New | Io_CopyIn nat "byte list" | Io_ZeroFill nat nat | Io_Consume nat int | Io_Clone nat
| Io_Append nat nat | Io_Move nat nat nat | Io_Splice nat nat nat nat | Io_Trim nat int

fun io_exec :: "nat \<Rightarrow> io_op \<Rightarrow> io_state \<Rightarrow> io_state option" where
  "io_exec z Io_New s = Some (s\<lparr>io_bufs := io_bufs s @ [[]]\<rparr>)"
| "io_exec z (Io_CopyIn i bs) s =
     do { assert_then (i < length (io_bufs s)) (Some ());
          (h, b) \<leftarrow> buf_CopyIn z bs (io_heap s) (io_bufs s ! i);
          Some \<lparr>io_heap = h, io_bufs = (io_bufs s)[i := b]\<rparr> }"
| "io_exec z (Io_ZeroFill i n) s =
     do { assert_then (i < length (io_bufs s)) (Some ());
          (h, b) \<leftarrow> buf_ZeroFill z n (io_heap s) (io_bufs s ! i);
          Some \<lparr>io_heap = h, io_bufs = (io_bufs s)[i := b]\<rparr> }"
| "io_exec z (Io_Consume i n) s =
     do { assert_then (i < length (io_bufs s)) (Some ());
          b \<leftarrow> buf_Consume n (io_bufs s ! i);
          Some (s\<lparr>io_bufs := (io_bufs s)[i := b]\<rparr>) }"
| "io_exec z (Io_Clone i) s =
     do { assert_then (i < length (io_bufs s)) (Some ());
          Some (s\<lparr>io_bufs := io_bufs s @ [buf_Clone (io_bufs s ! i)]\<rparr>) }"
| "io_exec z (Io_Append i j) s =
     do { assert_then (i < length (io_bufs s) \<and> j < length (io_bufs s) \<and> i \<noteq> j) (Some ());
          let (b, c) = buf_Append (io_bufs s ! i) (io_bufs s ! j) in
          Some (s\<lparr>io_bufs := (io_bufs s)[i := b, j := c]\<rparr>) }"
| "io_exec z (Io_Move i j n) s =
     do { assert_then (i < length (io_bufs s) \<and> j < length (io_bufs s) \<and> i \<noteq> j) (Some ());
          (b, c) \<leftarrow> buf_Move n (io_bufs s ! i) (io_bufs s ! j);
          Some (s\<lparr>io_bufs := (io_bufs s)[i := b, j := c]\<rparr>) }"
| "io_exec z (Io_Splice i j off n) s =
     do { assert_then (i < length (io_bufs s) \<and> j < length (io_bufs s) \<and> i \<noteq> j) (Some ());
          (h, b, c) \<leftarrow> buf_Splice z off n (io_heap s) (io_bufs s ! i) (io_bufs s ! j);
          Some \<lparr>io_heap = h, io_bufs = (io_bufs s)[i := b, j := c]\<rparr> }"
| "io_exec z (Io_Trim i n) s =
     do { assert_then (i < length (io_bufs s)) (Some ());
          b \<leftarrow> buf_Trim n (io_bufs s ! i);
          Some (s\<lparr>io_bufs := (io_bufs s)[i := b]\<rparr>) }"

text \<open>The same operations on lists of bytes.\<close>

fun io_spec :: "io_op \<Rightarrow> byte list list \<Rightarrow> byte list list option" where
  "io_spec Io_New t = Some (t @ [[]])"
| "io_spec (Io_CopyIn i bs) t = assert_then (i < length t) (Some (t[i := t ! i @ bs]))"
| "io_spec (Io_ZeroFill i n) t = assert_then (i < length t) (Some (t[i := t ! i @ replicate n 0]))"
| "io_spec (Io_Consume i n) t =
     assert_then (i < length t \<and> 0 \<le> n \<and> nat n \<le> length (t ! i)) (Some (t[i := drop (nat n) (t ! i)]))"
| "io_spec (Io_Clone i) t = assert_then (i < length t) (Some (t @ [t ! i]))"
| "io_spec (Io_Append i j) t =
     assert_then (i < length t \<and> j < length t \<and> i \<noteq> j) (Some (t[i := t ! i @ t ! j, j := []]))"
| "io_spec (Io_Move i j n) t =
     assert_then (i < length t \<and> j < length t \<and> i \<noteq> j \<and> n \<le> length (t ! j))
       (Some (t[i := t ! i @ take n (t ! j), j := drop n (t ! j)]))"
| "io_spec (Io_Splice i j off n) t =
     assert_then (i < length t \<and> j < length t \<and> i \<noteq> j \<and> n \<le> length (t ! j))
       (let p = t ! i @ replicate (off - length (t ! i)) 0
        in Some (t[i := take off p @ t ! j @ drop (off + n) p, j := []]))"
| "io_spec (Io_Trim i n) t =
     assert_then (i < length t \<and> (0 < n \<longrightarrow> nat n \<le> length (t ! i)))
       (Some (if n \<le> 0 then t else t[i := take (nat n) (t ! i)]))"

definition io_inv :: "nat \<Rightarrow> io_state \<Rightarrow> bool" where
  "io_inv z s \<longleftrightarrow> buf_ok (io_heap s) (concat (io_bufs s)) \<and> blocks_of z (io_heap s)"

definition io_abs :: "io_state \<Rightarrow> byte list list" where
  "io_abs s = map (buf_bytes (io_heap s)) (io_bufs s)"

subsection \<open>Steps of one and of two buffers\<close>

lemma concat_update: "i < length bs \<Longrightarrow> mset (concat (bs[i := c])) + mset (bs ! i) = mset (concat bs) + mset c"
  by (induction bs arbitrary: i) (auto split: nat.split simp: nth_Cons')

lemma concat_pick:
  assumes "i < length bs"
  shows "mset (concat bs) = mset (bs ! i @ concat (bs[i := []]))" "mset (concat (bs[i := c])) = mset (c @ concat (bs[i := []]))"
  using concat_update [OF assms, of "[]"] concat_update [of i "bs[i := c]" "[]"] assms by (simp_all add: add.commute)

lemma other_windows:
  assumes "k < length bs" "k \<notin> set is"
  shows "set (bs ! k) \<subseteq> set (concat (fold (\<lambda>i bs. bs[i := []]) is bs))"
  using assms
proof (induction "is" arbitrary: bs)
  case Nil
  then show ?case by (auto intro: nth_mem)
next
  case (Cons i "is")
  then show ?case using Cons.IH [of "bs[i := []]"] by simp
qed

lemma buf_bytes_framed: "buf_step h b h' b' bs \<Longrightarrow> (\<And>e. e \<in> set r \<Longrightarrow> framed h b e) \<Longrightarrow> buf_bytes h' r = buf_bytes h r"
  by (rule buf_bytes_cong) (simp add: buf_step_def)

lemma framed_rest: "buf_ok h (b @ r) \<Longrightarrow> e \<in> set r \<Longrightarrow> framed h b e"
  by (simp add: framed_def buf_ok_def sorted_wrt_append)

lemma step_one:
  assumes "buf_ok h (concat bs)" "i < length bs" "buf_step h (bs ! i) h' b' ys"
  shows "buf_ok h' (concat (bs[i := b']))" "map (buf_bytes h') (bs[i := b']) = (map (buf_bytes h) bs)[i := ys]"
proof -
  have ok: "buf_ok h (bs ! i @ concat (bs[i := []]))" by (rule buf_ok_perm [OF assms(1)]) (rule concat_pick [OF assms(2)])
  from buf_step_frame [OF assms(3) this]
  have "buf_ok h' (b' @ concat (bs[i := []]))" by (rule buf_step_ok)
  then show "buf_ok h' (concat (bs[i := b']))"
    by (rule buf_ok_perm) (rule concat_pick(2) [OF assms(2), symmetric])
  have "buf_bytes h' (bs ! k) = buf_bytes h (bs ! k)" if "k < length bs" "k \<noteq> i" for k
  proof (rule buf_bytes_framed [OF assms(3)])
    fix e assume "e \<in> set (bs ! k)"
    with that have "e \<in> set (concat (bs[i := []]))" using other_windows [of k bs "[i]"] by auto
    with ok show "framed h (bs ! i) e" by (rule framed_rest)
  qed
  then show "map (buf_bytes h') (bs[i := b']) = (map (buf_bytes h) bs)[i := ys]"
    using buf_step_bytes [OF assms(3)] assms(2) by (intro nth_equalityI) (auto simp: nth_list_update)
qed

lemma step_two:
  assumes "buf_ok h (concat bs)" "i < length bs" "j < length bs" "i \<noteq> j" "buf_step h (bs ! i @ bs ! j) h' (b' @ c') zs"
    "buf_bytes h' b' = ys" "buf_bytes h' c' = xs"
  shows "buf_ok h' (concat (bs[i := b', j := c']))"
    "map (buf_bytes h') (bs[i := b', j := c']) = (map (buf_bytes h) bs)[i := ys, j := xs]"
proof -
  let ?r = "concat (bs[i := [], j := []])"
  have p1: "mset (concat bs) = mset (bs ! i @ bs ! j @ ?r)"
  proof -
    have "mset (concat (bs[i := []])) = mset (bs ! j) + mset ?r" using concat_pick(1) [of j "bs[i := []]"] assms(3,4) by simp
    with concat_pick(1) [OF assms(2)] show ?thesis by (simp only: mset_append)
  qed
  have p2: "mset (concat (bs[i := b', j := c'])) = mset (b' @ c' @ ?r)"
  proof -
    have "mset (concat ((bs[j := c'])[i := b'])) = mset b' + mset (concat ((bs[j := c'])[i := []]))"
      using concat_pick(2) [of i "bs[j := c']" b'] assms(2) by simp
    moreover have "mset (concat ((bs[i := []])[j := c'])) = mset c' + mset ?r"
      using concat_pick(2) [of j "bs[i := []]" c'] assms(3) by simp
    moreover have "(bs[j := c'])[i := y] = bs[i := y, j := c']" for y
      by (rule list_update_swap [OF assms(4) [symmetric]])
    ultimately show ?thesis by (simp only: mset_append)
  qed
  have ok: "buf_ok h ((bs ! i @ bs ! j) @ ?r)" by (rule buf_ok_perm [OF assms(1)]) (simp add: p1)
  from buf_step_frame [OF assms(5) this] have "buf_ok h' ((b' @ c') @ ?r)" by (rule buf_step_ok)
  then show "buf_ok h' (concat (bs[i := b', j := c']))" by (rule buf_ok_perm) (simp add: p2)
  have "buf_bytes h' (bs ! k) = buf_bytes h (bs ! k)" if "k < length bs" "k \<noteq> i" "k \<noteq> j" for k
  proof (rule buf_bytes_framed [OF assms(5)])
    fix e assume "e \<in> set (bs ! k)"
    with that have "e \<in> set ?r" using other_windows [of k bs "[i, j]"] by auto
    with ok show "framed h (bs ! i @ bs ! j) e" by (rule framed_rest)
  qed
  then show "map (buf_bytes h') (bs[i := b', j := c']) = (map (buf_bytes h) bs)[i := ys, j := xs]"
    using assms(2-4,6,7) by (intro nth_equalityI) (auto simp: nth_list_update)
qed

subsection \<open>Every operation refines the one on bytes\<close>

definition io_ref :: "nat \<Rightarrow> io_state option \<Rightarrow> byte list list option \<Rightarrow> bool" where
  "io_ref z r t \<longleftrightarrow> map_option io_abs r = t \<and> (\<forall>s. r = Some s \<longrightarrow> io_inv z s)"

lemma io_ref_one:
  assumes "io_inv z s" "i < length (io_bufs s)" "buf_step (io_heap s) (io_bufs s ! i) h b ys" "blocks_of z h"
  shows "io_ref z (Some \<lparr>io_heap = h, io_bufs = (io_bufs s)[i := b]\<rparr>) (Some ((io_abs s)[i := ys]))"
  using step_one [OF _ assms(2,3)] assms(1,4) by (simp add: io_ref_def io_inv_def io_abs_def)

lemma io_ref_two:
  assumes "io_inv z s" "i < length (io_bufs s)" "j < length (io_bufs s)" "i \<noteq> j"
    "buf_step (io_heap s) (io_bufs s ! i @ io_bufs s ! j) h (b @ c) zs" "buf_bytes h b = ys" "buf_bytes h c = xs" "blocks_of z h"
  shows "io_ref z (Some \<lparr>io_heap = h, io_bufs = (io_bufs s)[i := b, j := c]\<rparr>) (Some ((io_abs s)[i := ys, j := xs]))"
  using step_two [OF _ assms(2-7)] assms(1,8) by (simp add: io_ref_def io_inv_def io_abs_def)

lemma io_inv_ok: "io_inv z s \<Longrightarrow> i < length (io_bufs s) \<Longrightarrow> buf_ok (io_heap s) (io_bufs s ! i)"
  using buf_ok_perm [OF _ concat_pick(1), of "io_heap s" "io_bufs s" i] by (simp add: io_inv_def)

lemma io_inv_ok2:
  assumes "io_inv z s" "i < length (io_bufs s)" "j < length (io_bufs s)" "i \<noteq> j"
  shows "buf_ok (io_heap s) (io_bufs s ! i @ io_bufs s ! j)"
proof -
  have "buf_ok (io_heap s) (io_bufs s ! i @ concat ((io_bufs s)[i := []]))"
    using assms(1,2) buf_ok_perm [OF _ concat_pick(1)] by (auto simp: io_inv_def)
  moreover have "set (io_bufs s ! j) \<subseteq> set (concat ((io_bufs s)[i := []]))"
    using other_windows [of j "io_bufs s" "[i]"] assms(3,4) by simp
  ultimately show ?thesis using io_inv_ok [OF assms(1,3)] by auto
qed

lemma io_abs_nth: "i < length (io_bufs s) \<Longrightarrow> io_abs s ! i = buf_bytes (io_heap s) (io_bufs s ! i)"
  by (simp add: io_abs_def)

lemma io_abs_length [simp]: "length (io_abs s) = length (io_bufs s)"
  by (simp add: io_abs_def)

lemma assert_then_bind [simp]: "(assert_then P (Some ()) \<bind> f) = assert_then P (f ())"
  by (simp add: assert_then_def)

lemma io_ref_None [simp]: "io_ref z None None"
  by (simp add: io_ref_def)

lemma io_ref_assert: "(P \<Longrightarrow> io_ref z r t) \<Longrightarrow> io_ref z (assert_then P r) (assert_then P t)"
  by (simp add: assert_then_def)

lemma io_heap_same: "s\<lparr>io_bufs := b\<rparr> = \<lparr>io_heap = io_heap s, io_bufs = b\<rparr>" for s :: io_state
  by simp

lemma ref_New:
  assumes inv: "io_inv z s" and z: "0 < z"
  shows "io_ref z (io_exec z Io_New s) (io_spec Io_New (io_abs s))"
  using inv by (simp add: io_ref_def io_inv_def io_abs_def)

lemma ref_CopyIn:
  assumes inv: "io_inv z s" and z: "0 < z"
  shows "io_ref z (io_exec z (Io_CopyIn i bs) s) (io_spec (Io_CopyIn i bs) (io_abs s))"
proof -
  have "io_ref z (do { (h, b) \<leftarrow> buf_CopyIn z bs (io_heap s) (io_bufs s ! i); Some \<lparr>io_heap = h, io_bufs = (io_bufs s)[i := b]\<rparr> })
      (Some ((io_abs s)[i := io_abs s ! i @ bs]))" if i: "i < length (io_bufs s)"
  proof -
    note ok = io_inv_ok [OF inv i]
    from buf_CopyIn_step [OF ok z, of bs] obtain h b where
      c: "buf_CopyIn z bs (io_heap s) (io_bufs s ! i) = Some (h, b)"
      "buf_step (io_heap s) (io_bufs s ! i) h b (buf_bytes (io_heap s) (io_bufs s ! i) @ bs)" by blast
    have "blocks_of z h" using buf_CopyIn_size [OF c(1) _ ok] inv by (simp add: io_inv_def)
    from io_ref_one [OF inv i c(2) this] c(1) show ?thesis by (simp add: io_abs_nth [OF i])
  qed
  then show ?thesis by (auto intro!: io_ref_assert)
qed

lemma ref_ZeroFill:
  assumes inv: "io_inv z s" and z: "0 < z"
  shows "io_ref z (io_exec z (Io_ZeroFill i n) s) (io_spec (Io_ZeroFill i n) (io_abs s))"
proof -
  have "io_ref z (do { (h, b) \<leftarrow> buf_ZeroFill z n (io_heap s) (io_bufs s ! i); Some \<lparr>io_heap = h, io_bufs = (io_bufs s)[i := b]\<rparr> })
      (Some ((io_abs s)[i := io_abs s ! i @ replicate n 0]))" if i: "i < length (io_bufs s)"
  proof -
    from zero_blocks_step [OF io_inv_ok [OF inv i] z order_refl, of n] obtain h b where
      c: "zero_blocks n z n (io_heap s) (io_bufs s ! i) = Some (h, b)"
      "buf_step (io_heap s) (io_bufs s ! i) h b (buf_bytes (io_heap s) (io_bufs s ! i) @ replicate n 0)" by blast
    have "blocks_of z h" using zero_blocks_size [OF c(1)] inv by (simp add: io_inv_def)
    from io_ref_one [OF inv i c(2) this] c(1) show ?thesis by (simp add: io_abs_nth [OF i] buf_ZeroFill_def)
  qed
  then show ?thesis by (auto intro!: io_ref_assert)
qed

lemma ref_Consume:
  assumes inv: "io_inv z s" and z: "0 < z"
  shows "io_ref z (io_exec z (Io_Consume i n) s) (io_spec (Io_Consume i n) (io_abs s))"
proof (cases "i < length (io_bufs s) \<and> 0 \<le> n \<and> nat n \<le> length (io_abs s ! i)")
  case True
  then have i: "i < length (io_bufs s)" by simp
  with True buf_Consume_step [OF io_inv_ok [OF inv i], of n] obtain b where
    c: "buf_Consume n (io_bufs s ! i) = Some b"
    "buf_step (io_heap s) (io_bufs s ! i) (io_heap s) b (drop (nat n) (buf_bytes (io_heap s) (io_bufs s ! i)))"
    by (auto simp: io_abs_nth)
  have "blocks_of z (io_heap s)" using inv by (simp add: io_inv_def)
  from io_ref_one [OF inv i c(2) this] c(1) True show ?thesis by (simp add: io_abs_nth [OF i] io_heap_same)
next
  case False
  then show ?thesis using buf_Consume_step [OF io_inv_ok [OF inv], of i n] by (auto simp: io_abs_nth assert_then_def)
qed

lemma ref_Clone:
  assumes inv: "io_inv z s" and z: "0 < z"
  shows "io_ref z (io_exec z (Io_Clone i) s) (io_spec (Io_Clone i) (io_abs s))"
proof -
  have "io_ref z (Some (s\<lparr>io_bufs := io_bufs s @ [buf_Clone (io_bufs s ! i)]\<rparr>)) (Some (io_abs s @ [io_abs s ! i]))"
    if i: "i < length (io_bufs s)"
  proof -
    let ?s = "s\<lparr>io_bufs := io_bufs s @ [[]]\<rparr>"
    have inv': "io_inv z ?s" using inv by (simp add: io_inv_def)
    note c = buf_Clone_step [OF io_inv_ok [OF inv i]]
    have "buf_step (io_heap ?s) (io_bufs ?s ! i @ io_bufs ?s ! length (io_bufs s)) (io_heap s) (io_bufs s ! i @ buf_Clone (io_bufs s ! i))
        (buf_bytes (io_heap s) (io_bufs s ! i) @ buf_bytes (io_heap s) (io_bufs s ! i))"
      using c(1) i by (simp add: nth_append)
    from io_ref_two [OF inv' _ _ _ this refl c(2)] i inv
    have "io_ref z (Some \<lparr>io_heap = io_heap s, io_bufs = (io_bufs ?s)[i := io_bufs s ! i, length (io_bufs s) := buf_Clone (io_bufs s ! i)]\<rparr>)
       (Some ((io_abs ?s)[i := io_abs s ! i, length (io_bufs s) := io_abs s ! i]))"
      by (simp add: io_inv_def io_abs_nth)
    moreover have "(io_bufs ?s)[i := io_bufs s ! i, length (io_bufs s) := buf_Clone (io_bufs s ! i)] = io_bufs s @ [buf_Clone (io_bufs s ! i)]"
      using i by (simp add: list_update_append)
    moreover have "(io_abs ?s)[i := io_abs s ! i, length (io_bufs s) := io_abs s ! i] = io_abs s @ [io_abs s ! i]"
      using i list_update_id [of "io_abs s" i] by (simp add: io_abs_def list_update_append)
    ultimately show ?thesis by (simp add: io_heap_same)
  qed
  then show ?thesis by (auto intro!: io_ref_assert)
qed

lemma ref_Append:
  assumes inv: "io_inv z s" and z: "0 < z"
  shows "io_ref z (io_exec z (Io_Append i j) s) (io_spec (Io_Append i j) (io_abs s))"
proof -
  have "io_ref z (Some (s\<lparr>io_bufs := (io_bufs s)[i := io_bufs s ! i @ io_bufs s ! j, j := []]\<rparr>))
      (Some ((io_abs s)[i := io_abs s ! i @ io_abs s ! j, j := []]))"
    if i: "i < length (io_bufs s)" and j: "j < length (io_bufs s)" and ij: "i \<noteq> j"
  proof -
    have "buf_step (io_heap s) (io_bufs s ! i @ io_bufs s ! j) (io_heap s) ((io_bufs s ! i @ io_bufs s ! j) @ [])
        (buf_bytes (io_heap s) (io_bufs s ! i @ io_bufs s ! j))"
      using buf_step_refl [OF io_inv_ok2 [OF inv i j ij]] by simp
    from io_ref_two [OF inv i j ij this refl refl] inv show ?thesis by (simp add: io_abs_nth i j io_inv_def io_heap_same)
  qed
  then show ?thesis by (auto intro!: io_ref_assert simp: buf_Append_def)
qed

lemma ref_Move:
  assumes inv: "io_inv z s" and z: "0 < z"
  shows "io_ref z (io_exec z (Io_Move i j n) s) (io_spec (Io_Move i j n) (io_abs s))"
proof (cases "i < length (io_bufs s) \<and> j < length (io_bufs s) \<and> i \<noteq> j")
  case True
  then have ij: "i < length (io_bufs s)" "j < length (io_bufs s)" "i \<noteq> j" by auto
  note m = buf_Move_step [OF io_inv_ok2 [OF inv ij], of n]
  show ?thesis
  proof (cases "n \<le> length (io_abs s ! j)")
    case True
    with m ij obtain b c where "buf_Move n (io_bufs s ! i) (io_bufs s ! j) = Some (b, c)"
      "buf_bytes (io_heap s) b = io_abs s ! i @ take n (io_abs s ! j)" "buf_bytes (io_heap s) c = drop n (io_abs s ! j)"
      "buf_step (io_heap s) (io_bufs s ! i @ io_bufs s ! j) (io_heap s) (b @ c) (buf_bytes (io_heap s) (io_bufs s ! i @ io_bufs s ! j))"
      by (auto simp: io_abs_nth simp del: buf_bytes_simps)
    from io_ref_two [OF inv ij this(4,2,3)] this(1) ij True inv show ?thesis by (simp add: io_inv_def io_heap_same)
  next
    case False
    with m ij show ?thesis by (simp add: io_abs_nth assert_then_def)
  qed
next
  case False
  then show ?thesis by (auto simp: assert_then_def)
qed

lemma ref_Splice:
  assumes inv: "io_inv z s" and z: "0 < z"
  shows "io_ref z (io_exec z (Io_Splice i j off n) s) (io_spec (Io_Splice i j off n) (io_abs s))"
proof (cases "i < length (io_bufs s) \<and> j < length (io_bufs s) \<and> i \<noteq> j")
  case True
  then have ij: "i < length (io_bufs s)" "j < length (io_bufs s)" "i \<noteq> j" by auto
  let ?p = "io_abs s ! i @ replicate (off - length (io_abs s ! i)) 0"
  have blk: "blocks_of z (io_heap s)" using inv by (simp add: io_inv_def)
  have small: "\<forall>d\<in>set (io_bufs s ! i). data_consumable d \<le> z"
    using io_inv_ok [OF inv ij(1)] blk win_size by (auto simp: buf_ok_def blocks_of_def)
  note m = buf_Splice_step [OF io_inv_ok2 [OF inv ij] z small io_abs_nth [OF ij(1), symmetric] io_abs_nth [OF ij(2), symmetric] refl, of n off]
  show ?thesis
  proof (cases "n \<le> length (io_abs s ! j)")
    case True
    with m obtain h b where r: "buf_Splice z off n (io_heap s) (io_bufs s ! i) (io_bufs s ! j) = Some (h, b, [])"
      "buf_step (io_heap s) (io_bufs s ! i @ io_bufs s ! j) h b (take off ?p @ io_abs s ! j @ drop (off + n) ?p)" by auto
    then have st: "buf_step (io_heap s) (io_bufs s ! i @ io_bufs s ! j) h (b @ []) (take off ?p @ io_abs s ! j @ drop (off + n) ?p)" by simp
    from io_ref_two [OF inv ij st buf_step_bytes [OF r(2)] _ buf_Splice_size [OF r(1) blk]] r(1) ij True show ?thesis by (simp add: Let_def)
  next
    case False
    with m ij show ?thesis by (simp add: assert_then_def)
  qed
next
  case False
  then show ?thesis by (auto simp: assert_then_def)
qed

lemma ref_Trim:
  assumes inv: "io_inv z s" and un: "i < length (io_bufs s) \<longrightarrow> unshared (io_bufs s ! i) (concat ((io_bufs s)[i := []]))"
  shows "io_ref z (io_exec z (Io_Trim i n) s) (io_spec (Io_Trim i n) (io_abs s))"
proof (cases "i < length (io_bufs s)")
  case True
  let ?r = "concat ((io_bufs s)[i := []])"
  have ok: "buf_ok (io_heap s) (io_bufs s ! i @ ?r)" 
    by (rule buf_ok_perm [OF _ concat_pick(1) [OF True]]) (use inv in \<open>simp add: io_inv_def\<close>)
  note t = buf_Trim_step [OF ok, of n] un True
  consider "n \<le> 0" | "0 < n" "nat n \<le> length (io_abs s ! i)" | "0 < n" "\<not> nat n \<le> length (io_abs s ! i)" by linarith
  then show ?thesis
  proof cases
    case 1
    with t inv show ?thesis by (simp add: io_ref_def)
  next
    case 2
    with t obtain b where b: "buf_Trim n (io_bufs s ! i) = Some b" "buf_bytes (io_heap s) b = take (nat n) (io_abs s ! i)"
      "buf_ok (io_heap s) (b @ ?r)" by (auto simp: io_abs_nth)
    have "buf_ok (io_heap s) (concat ((io_bufs s)[i := b]))"
      by (rule buf_ok_perm [OF b(3)]) (rule concat_pick(2) [OF True, symmetric])
    then show ?thesis using 2 b(1,2) True inv by (simp add: io_ref_def io_inv_def io_abs_def map_update)
  next
    case 3
    with t show ?thesis by (simp add: io_abs_nth assert_then_def)
  qed
next
  case False
  then show ?thesis by (simp add: assert_then_def)
qed

fun is_trim :: "io_op \<Rightarrow> bool" where
  "is_trim (Io_Trim i n) = True"
| "is_trim p = False"

definition io_init :: io_state where
  "io_init = \<lparr>io_heap = [], io_bufs = []\<rparr>"

lemma io_exec_ref: "io_inv z s \<Longrightarrow> 0 < z \<Longrightarrow> \<not> is_trim p \<Longrightarrow> io_ref z (io_exec z p s) (io_spec p (io_abs s))"
  by (cases p) (simp_all only: is_trim.simps ref_New ref_CopyIn ref_ZeroFill ref_Consume ref_Clone ref_Append ref_Move ref_Splice not_True_eq_False)

interpretation io: op_refinement "io_exec (Suc k)" io_spec io_abs "io_inv (Suc k)" "\<lambda>p. \<not> is_trim p" for k
  by unfold_locales (use io_exec_ref in \<open>auto simp: io_ref_def\<close>)

lemma io_init_inv: "io_inv z io_init"
  by (simp add: io_inv_def io_init_def blocks_of_def)

lemma io_observe:
  "io_inv z s \<Longrightarrow> \<forall>i<length (io_bufs s). \<forall>n. buf_CopyOut n (io_heap s) (io_bufs s ! i) = take n (io_abs s ! i)
     \<and> BytesConsumable (io_bufs s ! i) = length (io_abs s ! i)"
  using io_inv_ok [of z s] by (simp add: buf_CopyOut_bytes io_abs_nth length_buf_bytes)

text \<open>
  C8. Any sequence of operations on any number of buffers, where buffers share arrays through Clone and Move and
  no buffer is trimmed, has the result of the same operations on plain lists of bytes, and fails an assert
  exactly when they are not possible. What CopyOut and BytesConsumable return is a prefix and the
  length of these bytes.
\<close>

theorem iobuffers_refine_bytes:
  assumes "0 < z" "\<forall>p\<in>set ps. \<not> is_trim p"
  shows "case run_ops (io_exec z) ps io_init of
      None \<Rightarrow> run_ops io_spec ps [] = None
    | Some s \<Rightarrow> run_ops io_spec ps [] = Some (io_abs s) \<and>
        (\<forall>i<length (io_bufs s). \<forall>n. buf_CopyOut n (io_heap s) (io_bufs s ! i) = take n (io_abs s ! i)
          \<and> BytesConsumable (io_bufs s ! i) = length (io_abs s ! i))"
proof -
  obtain k where k: "z = Suc k" using assms(1) by (cases z) auto
  have i: "io_abs io_init = []" by (simp add: io_init_def io_abs_def)
  show ?thesis unfolding k
    by (rule io.run_case [OF io_init_inv assms(2), of k, unfolded i]) (rule io_observe)
qed

theorem iobuffers_refine_bytes_witness:
  "\<exists>s :: io_state. run_ops (io_exec 2) [Io_New, Io_CopyIn 0 [1, 2, 3], Io_Clone 0, Io_CopyIn 0 [4], Io_New, Io_Move 2 0 3, Io_Splice 2 1 1 2] io_init = Some s
    \<and> io_abs s = [[4], [], [1, 1, 2, 3]]"
  using iobuffers_refine_bytes [of 2 "[Io_New, Io_CopyIn 0 [1, 2, 3], Io_Clone 0, Io_CopyIn 0 [4], Io_New, Io_Move 2 0 3, Io_Splice 2 1 1 2]"]
  by (auto simp: Let_def split: option.splits simp del: io_exec.simps)

text \<open>
  Trim cuts a buffer to its first bytes when its arrays are its own; asking for nothing does
  nothing, asking for more bytes than there are fails the assert.
\<close>

lemma trim_bytes:
  assumes "io_inv z s" "i < length (io_bufs s)" "unshared (io_bufs s ! i) (concat ((io_bufs s)[i := []]))"
  shows "map_option io_abs (io_exec z (Io_Trim i n) s) =
    (if n \<le> 0 then Some (io_abs s)
     else if nat n \<le> length (io_abs s ! i) then Some ((io_abs s)[i := take (nat n) (io_abs s ! i)]) else None)"
  using ref_Trim [of z s i n] assms by (auto simp: io_ref_def assert_then_def)

text \<open>
  A Clone of a buffer that is trimmed and written again does not keep its bytes: the second write
  goes into the array that the clone shares.
\<close>

definition trim_ops :: "io_op list" where
  "trim_ops = [Io_New, Io_CopyIn 0 [1, 2], Io_Clone 0, Io_Trim 0 1, Io_CopyIn 0 [9]]"

lemma trim_breaks_clone:
  "run_ops io_spec trim_ops [] = Some [[1, 9], [1, 2]] \<and> map_option io_abs (run_ops (io_exec (k + 2)) trim_ops io_init) = Some [[1, 9], [1, 9]]"
  by (simp add: trim_ops_def io_init_def io_abs_def buf_CopyIn_def new_IOBufferData_def data_CopyIn_def data_Fill_def memcpy_def
      SpaceAvailable_def buf_Clone_def share_def data_consumable_def buf_Trim_def data_Trim_def win_bytes_def eval_nat_numeral Let_def)

end
