(* ===== verification/Chunk_Data.thy ===== *)
theory Chunk_Data
  imports Chunk_Manager Kfs_IOShare
begin

text \<open>
  The data path of a chunkserver: reading and writing chunks with checksums (src/src/cc/chunk/ChunkManager.cc and
  the read and write operations of KfsOps.cc). Offsets and sizes of requests are natural numbers below 2 ^ 63.
  A request to the disk is an offset in the chunk's file and a number of bytes or the bytes to write; the disk carries
  it out on the file and the result comes back as an event. A failed assert, a null pointer and an access
  outside an array or after a delete are \<^verbatim>\<open>None\<close>. \<^verbatim>\<open>bufsz\<close> is \<^verbatim>\<open>IOBUFSIZE\<close>, 69632 on a chunkserver.
\<close>

section \<open>Operations in flight\<close>

record ReadOp =
  ro_chunkId :: int
  ro_version :: int
  ro_offset :: nat
  ro_numBytes :: nat
  ro_numBytesIO :: nat
  ro_status :: int
  ro_dataBuf :: "IOBuffer option"
  ro_checksum :: cksum

record WriteOp =
  wo_chunkId :: int
  wo_version :: int
  wo_offset :: nat
  wo_numBytes :: nat
  wo_numBytesIO :: nat
  wo_dataBuf :: IOBuffer
  wo_checksums :: "cksum list"
  wo_rop :: "ReadOp option"
  wo_isFromReReplication :: bool
  wo_wp_checksum :: cksum

text \<open>What the host answers: whether too many descriptors are open, whether \<^verbatim>\<open>open\<close> works and a disk request is
  accepted, the time, and whether a handle has at most two references.\<close>

record IoEnv =
  e_due :: bool
  e_open :: bool
  e_sched :: bool
  e_few :: bool
  e_time :: int

section \<open>Reading\<close>

definition read_size :: "ReadOp \<Rightarrow> int \<Rightarrow> nat" where
  "read_size op csize =
     (if csize \<le> int (ro_offset op) then 0
      else if csize < int (ro_offset op + ro_numBytes op) then nat (csize - int (ro_offset op))
      else ro_numBytes op)"

definition read_request :: "nat \<Rightarrow> nat \<Rightarrow> int \<Rightarrow> nat \<times> nat" where
  "read_request offset numBytesIO csize =
     (let start = OffsetToChecksumBlockStart offset;
          n = numBytesIO div CHECKSUM_BLOCKSIZE * CHECKSUM_BLOCKSIZE + (if numBytesIO mod CHECKSUM_BLOCKSIZE \<noteq> 0 then CHECKSUM_BLOCKSIZE else 0)
      in (start + KFS_CHUNK_HEADER_SIZE, if csize < int (start + n) then nat (csize - int start) else n))"

definition ReadChunk :: "IoEnv \<Rightarrow> ReadOp \<Rightarrow> ChunkManager \<Rightarrow> (ChunkManager \<times> ReadOp \<times> int \<times> (nat \<times> nat)) option" where
  "ReadChunk e op m =
     (if fst (GetChunkInfoHandle (ro_chunkId op) m) < 0 then Some (m, op, - EBADF, (0, 0))
      else
        let (m1, d) = SetupDiskConnection (e_due e) (e_open e) (e_time e) (ro_chunkId op) m in
        if \<not> d then Some (m1, op, - ESERVERBUSY, (0, 0))
        else do {
          cih \<leftarrow> mChunkTable m1 (ro_chunkId op);
          sums \<leftarrow> ck_sums (chunkInfo cih);
          if ro_version op \<noteq> ck_version (chunkInfo cih) then Some (m1, op, - EBADVERS, (0, 0))
          else
            let n = read_size op (ck_size (chunkInfo cih)); op1 = op\<lparr>ro_numBytesIO := n\<rparr> in
            if n = 0 then Some (m1, op1, - EIO, (0, 0))
            else if \<not> e_sched e then Some (m1, op1, - EIO, (0, 0))
            else Some (m1, op1, 0, read_request (ro_offset op) n (ck_size (chunkInfo cih))) })"

definition ZeroPad :: "nat \<Rightarrow> byte_heap \<Rightarrow> IOBuffer \<Rightarrow> (byte_heap \<times> IOBuffer) option" where
  "ZeroPad bufsz h b =
     (let bytesFilled = BytesConsumable b in
      if bytesFilled mod CHECKSUM_BLOCKSIZE = 0 then Some (h, b)
      else buf_ZeroFill bufsz (CHECKSUM_BLOCKSIZE - bytesFilled mod CHECKSUM_BLOCKSIZE) h b)"

definition AdjustDataRead :: "ReadOp \<Rightarrow> IOBuffer \<Rightarrow> IOBuffer option" where
  "AdjustDataRead op b =
     do { let extraRead = ro_offset op - OffsetToChecksumBlockStart (ro_offset op);
          b1 \<leftarrow> (if 0 < extraRead then buf_Consume (int extraRead) b else Some b);
          if ro_numBytesIO op < BytesConsumable b1 then buf_Trim (int (ro_numBytesIO op)) b1 else Some b1 }"

fun checksum_mismatch :: "cksum list \<Rightarrow> nat \<Rightarrow> cksum list \<Rightarrow> bool" where
  "checksum_mismatch sums checksumBlock [] = False"
| "checksum_mismatch sums checksumBlock (c # checksums) =
     (if checksumBlock < MAX_CHUNK_CHECKSUM_BLOCKS
      then
        if sums ! checksumBlock = 0 \<or> c = sums ! checksumBlock then checksum_mismatch sums (checksumBlock + 1) checksums
        else True
      else False)"

text \<open>The last component of the result are the chunks reported to the metaserver as corrupt, with their files.\<close>

definition ReadChunkDone ::
  "adler \<Rightarrow> cksum \<Rightarrow> nat \<Rightarrow> ReadOp \<Rightarrow> byte_heap \<Rightarrow> IOBuffer \<Rightarrow> ChunkManager \<Rightarrow>
   (byte_heap \<times> ChunkManager \<times> ReadOp \<times> IOBuffer \<times> (int \<times> int) list) option" where
  "ReadChunkDone ad ad0 bufsz op h b m =
     (case mChunkTable m (ro_chunkId op) of
        None \<Rightarrow> map_option (\<lambda>b1. (h, m, op\<lparr>ro_status := - EBADVERS\<rparr>, b1, [])) (AdjustDataRead op b)
      | Some cih \<Rightarrow>
          if ro_version op \<noteq> ck_version (chunkInfo cih)
          then map_option (\<lambda>b1. (h, m, op\<lparr>ro_status := - EBADVERS\<rparr>, b1, [])) (AdjustDataRead op b)
          else do {
            (h1, b1) \<leftarrow> ZeroPad bufsz h b;
            assert_then (CHECKSUM_BLOCKSIZE \<le> BytesConsumable b1) (Some ());
            checksums \<leftarrow> ComputeChecksums ad ad0 h1 b1 (BytesConsumable b1);
            sums \<leftarrow> ck_sums (chunkInfo cih);
            if \<not> checksum_mismatch sums (OffsetToChecksumBlockStart (ro_offset op)) checksums
            then map_option (\<lambda>b2. (h1, m, op, b2, [])) (AdjustDataRead op b1)
            else map_option (\<lambda>(m1, r). (h1, m1, op\<lparr>ro_status := - EBADCKSUM\<rparr>, b1, [(ck_fileId (chunkInfo cih), ro_chunkId op)]))
                   (StaleChunk (ro_chunkId op) m) })"

text \<open>The event of a finished read: \<^verbatim>\<open>None\<close> for \<^verbatim>\<open>EVENT_DISK_ERROR\<close>, otherwise the buffer of \<^verbatim>\<open>EVENT_DISK_READ\<close>.\<close>

definition read_finished ::
  "adler \<Rightarrow> cksum \<Rightarrow> nat \<Rightarrow> IOBuffer option \<Rightarrow> ReadOp \<Rightarrow> byte_heap \<Rightarrow> ChunkManager \<Rightarrow>
   (byte_heap \<times> ChunkManager \<times> ReadOp \<times> (int \<times> int) list) option" where
  "read_finished ad ad0 bufsz ev op h m =
     (case ev of
        None \<Rightarrow> Some (h, m, op\<lparr>ro_status := - 1\<rparr>, [])
      | Some data \<Rightarrow> do {
          let b = fst (buf_Append (case ro_dataBuf op of None \<Rightarrow> [] | Some b \<Rightarrow> b) data);
          (h1, m1, op1, b1, bad) \<leftarrow> ReadChunkDone ad ad0 bufsz op h b m;
          let n = BytesConsumable b1;
          let st = (if ro_status op1 = 0 then int n else ro_status op1);
          let ck = (if 0 \<le> st \<and> n \<le> CHECKSUM_BLOCKSIZE then ComputeBlockChecksum ad ad0 h1 b1 n else ro_checksum op1);
          let op2 = op1\<lparr>ro_dataBuf := Some b1, ro_numBytesIO := n, ro_status := st, ro_checksum := ck\<rparr>;
          Some (h1, m1, op2, bad) })"

definition ReadOp_HandleDone ::
  "adler \<Rightarrow> cksum \<Rightarrow> nat \<Rightarrow> IoEnv \<Rightarrow> IOBuffer option \<Rightarrow> ReadOp \<Rightarrow> byte_heap \<Rightarrow> ChunkManager \<Rightarrow>
   (byte_heap \<times> ChunkManager \<times> ReadOp \<times> (int \<times> int) list) option" where
  "ReadOp_HandleDone ad ad0 bufsz e ev op h m =
     do { (h1, m1, op1, bad) \<leftarrow> read_finished ad ad0 bufsz ev op h m;
          let csize = snd (ChunkSize (ro_chunkId op) m1);
          Some (h1, if 0 < csize \<and> csize \<le> int (ro_offset op1 + ro_numBytesIO op1) then CloseChunk (e_few e) (ro_chunkId op) m1 else m1,
                op1, bad) }"

text \<open>
  A read that the disk has accepted in full: windows of at most 512 KB, filled with the bytes that the file has there.
  Whether the request is accepted is \<^verbatim>\<open>e_sched\<close>; \<^verbatim>\<open>DiskConnection::Read\<close> returns a smaller number without queueing
  anything when only the first windows are accepted, which is not modelled apart from a refusal.
\<close>

fun disk_read :: "nat \<Rightarrow> byte list \<Rightarrow> nat \<Rightarrow> nat \<Rightarrow> byte_heap \<Rightarrow> IOBuffer \<Rightarrow> byte_heap \<times> IOBuffer" where
  "disk_read 0 f offset n h b = (h, b)"
| "disk_read (Suc fuel) f offset n h b =
     (if n = 0 then (h, b)
      else
        let k = min (65536 * 8) n;
            (h1, d) = new_IOBufferData k h;
            data = take k (drop offset f);
            (h2, d1, c) = data_CopyIn data (length data) h1 d
        in disk_read fuel f (offset + k) (n - k) h2 (b @ [d1]))"

definition chunk_file :: "int \<Rightarrow> ChunkManager \<Rightarrow> byte list option" where
  "chunk_file c m = do { cih \<leftarrow> mChunkTable m c; host_files m (MakeChunkPathname (chunkInfo cih)) }"

text \<open>A whole read of a client whose chunk has its checksums in memory: the schedule, the disk and the completion.\<close>

definition chunk_read ::
  "adler \<Rightarrow> cksum \<Rightarrow> nat \<Rightarrow> IoEnv \<Rightarrow> ReadOp \<Rightarrow> byte_heap \<Rightarrow> ChunkManager \<Rightarrow>
   (byte_heap \<times> ChunkManager \<times> ReadOp \<times> (int \<times> int) list) option" where
  "chunk_read ad ad0 bufsz e op h m =
     do { (m1, op1, status, offset, n) \<leftarrow> ReadChunk e op m;
          if status < 0 then Some (h, m1, op1\<lparr>ro_status := status\<rparr>, [])
          else do {
            f \<leftarrow> chunk_file (ro_chunkId op) m1;
            let (h1, b) = disk_read n f offset n h [];
            ReadOp_HandleDone ad ad0 bufsz e (Some b) (op1\<lparr>ro_status := status\<rparr>) h1 m1 } }"

section \<open>Writing\<close>

datatype write_result =
  WFail int
| WRead ReadOp nat nat
| WRopFailed int
| WDisk nat "byte list"

definition write_size :: "WriteOp \<Rightarrow> nat" where
  "write_size op = min (nat ((2 ^ 26 - int (wo_offset op)) mod 2 ^ 64)) (wo_numBytes op)"

definition no_space :: "WriteOp \<Rightarrow> nat \<Rightarrow> int \<Rightarrow> ChunkManager \<Rightarrow> bool" where
  "no_space op n csize m \<longleftrightarrow>
     (let addedBytes = (int (wo_offset op + n) - csize) mod 2 ^ 64
      in mTotalSpace m \<le> sint (word_of_int (mUsedSpace m + addedBytes) :: 64 word))"

fun store_checksums :: "nat \<Rightarrow> cksum list \<Rightarrow> cksum list \<Rightarrow> cksum list option" where
  "store_checksums offset [] sums = Some sums"
| "store_checksums offset (c # cs) sums =
     (let blk = OffsetToChecksumBlockNum offset in
      assert_then (blk < length sums) (store_checksums (offset + CHECKSUM_BLOCKSIZE) cs (sums[blk := c])))"

definition UpdateChecksums :: "ChunkInfoHandle \<Rightarrow> WriteOp \<Rightarrow> ChunkManager \<Rightarrow> ChunkManager option" where
  "UpdateChecksums cih op m =
     do { let endOffset = int (wo_offset op + wo_numBytesIO op);
          sums \<leftarrow> ck_sums (chunkInfo cih);
          sums1 \<leftarrow> store_checksums (wo_offset op) (wo_checksums op) sums;
          let info = (chunkInfo cih)\<lparr>ck_sums := Some sums1\<rparr>;
          let grow = ck_size info < endOffset;
          let used = (if grow then mUsedSpace m + (endOffset - ck_size info) else mUsedSpace m);
          let info1 = (if grow then info\<lparr>ck_size := endOffset\<rparr> else info);
          assert_then (0 \<le> used \<and> used \<le> mTotalSpace m)
            (Some (m\<lparr>mIsChunkTableDirty := True, mUsedSpace := used,
                     mChunkTable := (mChunkTable m)(wo_chunkId op \<mapsto> cih\<lparr>chunkInfo := info1\<rparr>)\<rparr>)) }"

text \<open>From the disk connection on; the checksums are updated when the request is accepted.\<close>

definition write_disk :: "IoEnv \<Rightarrow> WriteOp \<Rightarrow> byte_heap \<Rightarrow> ChunkManager \<Rightarrow> (byte_heap \<times> ChunkManager \<times> WriteOp \<times> write_result) option" where
  "write_disk e op h m =
     (let (m1, d) = SetupDiskConnection (e_due e) (e_open e) (e_time e) (wo_chunkId op) m in
      if \<not> d then Some (h, m1, op, WFail (- ESERVERBUSY))
      else if \<not> e_sched e then Some (h, m1, op, WFail (- 1))
      else do {
        cih \<leftarrow> mChunkTable m1 (wo_chunkId op);
        m2 \<leftarrow> UpdateChecksums cih op m1;
        Some (h, m2, op, WDisk (wo_offset op + KFS_CHUNK_HEADER_SIZE) (buf_CopyOut (wo_numBytesIO op) h (wo_dataBuf op))) })"

text \<open>\<^verbatim>\<open>do_checksum\<close>, with the data of a whole block.\<close>

definition write_block ::
  "adler \<Rightarrow> cksum \<Rightarrow> IoEnv \<Rightarrow> WriteOp \<Rightarrow> byte_heap \<Rightarrow> IOBuffer \<Rightarrow> ChunkManager \<Rightarrow> (byte_heap \<times> ChunkManager \<times> WriteOp \<times> write_result) option" where
  "write_block ad ad0 e op h b m =
     do { assert_then (BytesConsumable b = CHECKSUM_BLOCKSIZE) (Some ());
          let cksum = ComputeBlockChecksum ad ad0 h b CHECKSUM_BLOCKSIZE;
          let extra = int (wo_offset op) - int (OffsetToChecksumBlockStart (wo_offset op));
          b1 \<leftarrow> (if 0 < extra then buf_Consume extra b else Some b);
          write_disk e (op\<lparr>wo_dataBuf := b1, wo_checksums := [cksum]\<rparr>) h m }"

definition new_rop :: "WriteOp \<Rightarrow> ReadOp" where
  "new_rop op = \<lparr>ro_chunkId = wo_chunkId op, ro_version = wo_version op, ro_offset = OffsetToChecksumBlockStart (wo_offset op),
     ro_numBytes = CHECKSUM_BLOCKSIZE, ro_numBytesIO = 0, ro_status = 0, ro_dataBuf = None, ro_checksum = 0\<rparr>"

text \<open>
  A read that cannot be scheduled resumes the write, which deletes the read operation; its status is looked at
  afterwards, hence \<^verbatim>\<open>None\<close>.
\<close>

definition write_partial ::
  "adler \<Rightarrow> cksum \<Rightarrow> nat \<Rightarrow> IoEnv \<Rightarrow> WriteOp \<Rightarrow> int \<Rightarrow> byte_heap \<Rightarrow> ChunkManager \<Rightarrow>
   (byte_heap \<times> ChunkManager \<times> WriteOp \<times> write_result) option" where
  "write_partial ad ad0 bufsz e op csize h m =
     (let inblock = wo_offset op mod CHECKSUM_BLOCKSIZE; op = op\<lparr>wo_checksums := []\<rparr> in
      if csize \<le> int (OffsetToChecksumBlockStart (wo_offset op))
      then do {
        (h1, data) \<leftarrow> buf_ZeroFill bufsz CHECKSUM_BLOCKSIZE h [];
        (h2, data1, rest) \<leftarrow> buf_Splice bufsz inblock (wo_numBytesIO op) h1 data (wo_dataBuf op);
        write_block ad ad0 e op h2 data1 m }
      else case wo_rop op of
        None \<Rightarrow> do {
          (m1, rop, status, offset, n) \<leftarrow> ReadChunk e (new_rop op) m;
          assert_then (0 \<le> status) (Some (h, m1, op\<lparr>wo_rop := Some (rop\<lparr>ro_status := status\<rparr>)\<rparr>, WRead (rop\<lparr>ro_status := status\<rparr>) offset n)) }
      | Some rop \<Rightarrow>
          if ro_status rop < 0 then Some (h, m, op\<lparr>wo_rop := None\<rparr>, WRopFailed (ro_status rop))
          else do {
            b \<leftarrow> ro_dataBuf rop;
            (h1, b1, rest) \<leftarrow> buf_Splice bufsz inblock (wo_numBytesIO op) h b (wo_dataBuf op);
            (h2, b2) \<leftarrow> ZeroPad bufsz h1 b1;
            write_block ad ad0 e (op\<lparr>wo_rop := Some (rop\<lparr>ro_dataBuf := None\<rparr>)\<rparr>) h2 b2 m })"

definition write_aligned ::
  "adler \<Rightarrow> cksum \<Rightarrow> IoEnv \<Rightarrow> WriteOp \<Rightarrow> byte_heap \<Rightarrow> ChunkManager \<Rightarrow> (byte_heap \<times> ChunkManager \<times> WriteOp \<times> write_result) option" where
  "write_aligned ad ad0 e op h m =
     assert_then (wo_numBytesIO op mod CHECKSUM_BLOCKSIZE = 0)
       (if \<not> wo_isFromReReplication op
        then assert_then (wo_checksums op \<noteq> [] \<and> hd (wo_checksums op) = wo_wp_checksum op) (write_disk e op h m)
        else do {
          checksums \<leftarrow> ComputeChecksums ad ad0 h (wo_dataBuf op) (wo_numBytesIO op);
          write_disk e (op\<lparr>wo_checksums := checksums\<rparr>) h m })"

definition WriteChunk ::
  "adler \<Rightarrow> cksum \<Rightarrow> nat \<Rightarrow> IoEnv \<Rightarrow> WriteOp \<Rightarrow> byte_heap \<Rightarrow> ChunkManager \<Rightarrow>
   (byte_heap \<times> ChunkManager \<times> WriteOp \<times> write_result) option" where
  "WriteChunk ad ad0 bufsz e op h m =
     (case mChunkTable m (wo_chunkId op) of
        None \<Rightarrow> Some (h, m, op, WFail (- EBADF))
      | Some cih \<Rightarrow>
          let n = write_size op; op1 = op\<lparr>wo_numBytesIO := n\<rparr>; csize = ck_size (chunkInfo cih) in
          assert_then (AreChecksumsLoaded (chunkInfo cih))
            (if n = 0 then Some (h, m, op1, WFail (- EINVAL))
             else if no_space op1 n csize m then Some (h, m, op1, WFail (- ENOSPC))
             else if OffsetToChecksumBlockStart (wo_offset op) = wo_offset op \<and> CHECKSUM_BLOCKSIZE \<le> n
             then write_aligned ad ad0 e op1 h m
             else assert_then (n < CHECKSUM_BLOCKSIZE) (write_partial ad ad0 bufsz e op1 csize h m)))"

text \<open>The disk's side of a write.\<close>

definition host_write :: "nat \<Rightarrow> byte list \<Rightarrow> byte list \<Rightarrow> byte list" where
  "host_write offset bs f =
     (let g = f @ replicate (offset - length f) 0 in take offset g @ bs @ drop (offset + length bs) g)"

definition disk_write :: "int \<Rightarrow> nat \<Rightarrow> byte list \<Rightarrow> ChunkManager \<Rightarrow> ChunkManager option" where
  "disk_write c offset bs m =
     do { cih \<leftarrow> mChunkTable m c;
          let p = MakeChunkPathname (chunkInfo cih);
          f \<leftarrow> host_files m p;
          Some (m\<lparr>host_files := (host_files m)(p \<mapsto> host_write offset bs f)\<rparr>) }"

text \<open>A whole write: the write, the read of the block it triggers and the write resumed, and the disk.\<close>

definition write_done ::
  "(byte_heap \<times> ChunkManager \<times> WriteOp \<times> write_result) \<Rightarrow> (byte_heap \<times> ChunkManager \<times> int) option" where
  "write_done r =
     (case r of (h, m, op, w) \<Rightarrow>
        (case w of
           WFail status \<Rightarrow> Some (h, m, status)
         | WRopFailed status \<Rightarrow> Some (h, m, status)
         | WRead rop offset n \<Rightarrow> None
         | WDisk offset bs \<Rightarrow> map_option (\<lambda>m1. (h, m1, int (length bs))) (disk_write (wo_chunkId op) offset bs m)))"

definition chunk_write ::
  "adler \<Rightarrow> cksum \<Rightarrow> nat \<Rightarrow> IoEnv \<Rightarrow> WriteOp \<Rightarrow> byte_heap \<Rightarrow> ChunkManager \<Rightarrow> (byte_heap \<times> ChunkManager \<times> int) option" where
  "chunk_write ad ad0 bufsz e op h m =
     do { (h1, m1, op1, w) \<leftarrow> WriteChunk ad ad0 bufsz e op h m;
          (case w of
             WRead rop offset n \<Rightarrow> do {
               f \<leftarrow> chunk_file (wo_chunkId op) m1;
               let (h2, b) = disk_read n f offset n h1 [];
               (h3, m3, rop1, bad) \<leftarrow> read_finished ad ad0 bufsz (Some b) rop h2 m1;
               r \<leftarrow> WriteChunk ad ad0 bufsz e (op1\<lparr>wo_rop := Some rop1\<rparr>) h3 m3;
               write_done r }
           | _ \<Rightarrow> write_done (h1, m1, op1, w)) }"

end
