(* ===== verification/Chunk_Integrity.thy ===== *)
theory Chunk_Integrity
  imports Chunk_Data
begin

text \<open>
  Reading a chunk: buffers of fresh windows, the disk, padding and adjusting, the blocks of what is read and
  their checksums. A read of a chunk whose checksums are right returns its bytes.
\<close>

section \<open>Buffers of fresh windows\<close>

text \<open>Windows on arrays of their own that are younger than the heap \<^verbatim>\<open>h0\<close>.\<close>

definition fresh_buf :: "byte_heap \<Rightarrow> byte_heap \<Rightarrow> IOBuffer \<Rightarrow> bool" where
  "fresh_buf h0 h b \<longleftrightarrow> (\<forall>d\<in>set b. win_ok h d \<and> length h0 \<le> mData d) \<and> distinct (map mData b)"

text \<open>A heap that extends another one: old windows keep their bytes.\<close>

definition heap_ext :: "byte_heap \<Rightarrow> byte_heap \<Rightarrow> bool" where
  "heap_ext h0 h \<longleftrightarrow> length h0 \<le> length h \<and> (\<forall>x. win_ok h0 x \<longrightarrow> win_ok h x \<and> win_bytes h x = win_bytes h0 x)"

lemma heap_ext_refl: "heap_ext h h"
  by (simp add: heap_ext_def)

lemma heap_ext_trans: "heap_ext h0 h1 \<Longrightarrow> heap_ext h1 h2 \<Longrightarrow> heap_ext h0 h2"
  by (auto simp: heap_ext_def)

lemma fresh_buf_ok: "fresh_buf h0 h b \<Longrightarrow> buf_ok h b"
  by (simp add: fresh_buf_def buf_ok_def unshared_apart)

lemma fresh_buf_pair:
  assumes "fresh_buf h0 h b" "buf_ok h0 c" "heap_ext h0 h"
  shows "buf_ok h (b @ c)" "buf_bytes h c = buf_bytes h0 c"
proof -
  have c: "win_ok h0 d" if "d \<in> set c" for d using assms(2) that by (simp add: buf_ok_def)
  then have "mData d < length h0" if "d \<in> set c" for d using that by (simp add: win_ok_def)
  then have "apart e d" if "e \<in> set b" "d \<in> set c" for e d
    using assms(1) that by (fastforce simp: fresh_buf_def apart_def)
  then show "buf_ok h (b @ c)"
    using fresh_buf_ok [OF assms(1)] assms(2,3) c by (auto simp: buf_ok_def heap_ext_def sorted_wrt_append)
  show "buf_bytes h c = buf_bytes h0 c" by (rule buf_bytes_cong) (use c assms(3) in \<open>simp add: heap_ext_def\<close>)
qed

lemma heap_ext_step: "buf_step h0 [] h b bs \<Longrightarrow> length h0 \<le> length h \<Longrightarrow> heap_ext h0 h"
  by (auto simp: buf_step_def heap_ext_def framed_def)

subsection \<open>The disk\<close>

lemma data_CopyIn_fits:
  "length bs \<le> SpaceAvailable d \<Longrightarrow>
    data_CopyIn bs (length bs) h d = (memcpy h (mData d) (mProducer d) bs, d\<lparr>mProducer := mProducer d + length bs\<rparr>, length bs)"
  by (simp add: data_CopyIn_def data_Fill_fits Let_def min_absorb1)

lemma disk_read_step:
  assumes "buf_ok h b" "n \<le> fuel" "disk_read fuel f offset n h b = (h', b')"
  shows "buf_step h b h' b' (buf_bytes h b @ take n (drop offset f)) \<and> length h \<le> length h' \<and>
    (\<exists>nw. b' = b @ nw \<and> map mData nw = [length h..<length h'])"
  using assms
proof (induction fuel arbitrary: offset n h b)
  case 0
  then show ?case using buf_step_refl by simp
next
  case (Suc fuel)
  show ?case
  proof (cases "n = 0")
    case True
    then show ?thesis using Suc.prems buf_step_refl by auto
  next
    case False
    let ?k = "min (65536 * 8) n"
    obtain h1 d where hd: "new_IOBufferData ?k h = (h1, d)" by force
    note f = fresh_step [OF Suc.prems(1) hd]
    let ?data = "take ?k (drop offset f)"
    let ?h2 = "memcpy h1 (mData d) (mProducer d) ?data" and ?d = "d\<lparr>mProducer := mProducer d + length ?data\<rparr>"
    have le: "length ?data \<le> SpaceAvailable d" unfolding f(2) length_take by (rule min.cobounded2)
    have ci: "data_CopyIn ?data (length ?data) h1 d = (?h2, ?d, length ?data)"
      by (rule data_CopyIn_fits [OF le])
    have ok1: "buf_ok h1 (b @ [d])" "buf_bytes h1 (b @ [d]) = buf_bytes h b" using f(1) by (simp_all only: buf_step_def)
    have "buf_step h1 (b @ [d]) ?h2 (b @ [?d]) (buf_bytes h b @ ?data)" using put_step [OF ok1(1) le] unfolding ok1(2) .
    with f(1) have s: "buf_step h b ?h2 (b @ [?d]) (buf_bytes h b @ ?data)" by (rule buf_step_trans)
    have r: "disk_read fuel f (offset + ?k) (n - ?k) ?h2 (b @ [?d]) = (h', b')"
      using Suc.prems(3) False hd ci by (simp only: disk_read.simps(2) [of fuel f offset n h b] Let_def if_False prod.case)
    have "n - ?k \<le> fuel" using Suc.prems(2) False by linarith
    from Suc.IH [OF buf_step_ok [OF s] this r] obtain nw where
      IH: "buf_step ?h2 (b @ [?d]) h' b' (buf_bytes ?h2 (b @ [?d]) @ take (n - ?k) (drop (offset + ?k) f))"
      "length ?h2 \<le> length h'" "b' = (b @ [?d]) @ nw" "map mData nw = [length ?h2..<length h']" by blast
    have len: "length ?h2 = Suc (length h)" "mData d = length h"
      using hd by (auto simp: new_IOBufferData_def)
    have "?data @ take (n - ?k) (drop (offset + ?k) f) = take n (drop offset f)"
      using take_add [of ?k "n - ?k" "drop offset f"] by (simp add: add.commute)
    then have "buf_bytes ?h2 (b @ [?d]) @ take (n - ?k) (drop (offset + ?k) f) = buf_bytes h b @ take n (drop offset f)"
      unfolding buf_step_bytes [OF s] by (simp only: append.assoc)
    then have "buf_step h b h' b' (buf_bytes h b @ take n (drop offset f))" using buf_step_trans [OF s IH(1)] by (simp only:)
    moreover have "map mData (?d # nw) = [length h..<length h']" using IH(2,4) len by (simp add: upt_conv_Cons)
    ultimately show ?thesis using IH(2,3) len(1) by (intro conjI exI [of _ "?d # nw"]) simp_all
  qed
qed

lemma disk_read_fresh:
  assumes "disk_read n f offset n h [] = (h', b)"
  shows "fresh_buf h h' b" "heap_ext h h'" "buf_bytes h' b = take n (drop offset f)"
proof -
  from disk_read_step [OF _ order_refl assms] have
    s: "buf_step h [] h' b (take n (drop offset f))" "length h \<le> length h'" "map mData b = [length h..<length h']" by auto
  show "heap_ext h h'" by (rule heap_ext_step [OF s(1,2)])
  have "mData d \<in> set [length h..<length h']" if "d \<in> set b" for d using that s(3) by (metis imageI set_map)
  then have "length h \<le> mData d" if "d \<in> set b" for d using that by simp
  then show "fresh_buf h h' b" using buf_step_ok [OF s(1)] s(3) by (auto simp: fresh_buf_def buf_ok_def)
  show "buf_bytes h' b = take n (drop offset f)" by (rule buf_step_bytes [OF s(1)])
qed

subsection \<open>Padding and adjusting\<close>

lemma zero_blocks_append:
  "zero_blocks fuel z n h (b @ c) = map_option (\<lambda>(h', c'). (h', b @ c')) (zero_blocks fuel z n h c)"
proof (induction fuel arbitrary: n h c)
  case 0
  then show ?case by (cases n) auto
next
  case (Suc fuel)
  then show ?case by (cases n) (auto simp: Let_def split: prod.split)
qed

lemma zero_blocks_fresh:
  assumes "fresh_buf h0 h b" "heap_ext h0 h" "0 < z" "n \<le> fuel"
  shows "\<exists>h' nw. zero_blocks fuel z n h b = Some (h', b @ nw) \<and> fresh_buf h0 h' (b @ nw) \<and> heap_ext h h' \<and>
    buf_bytes h' (b @ nw) = buf_bytes h b @ replicate n 0"
proof -
  from zero_blocks_step [of h "[]" z n fuel] assms(3,4) obtain h' nw where
    z: "zero_blocks fuel z n h [] = Some (h', nw)" "buf_step h [] h' nw (replicate n 0)" by auto
  from zero_blocks_new [OF z(1)] have nw: "map mData nw = [length h..<length h']" by auto
  have e: "heap_ext h h'" by (rule heap_ext_step [OF z(2) zero_blocks_grows [OF z(1)]])
  have "mData ` set nw = {length h..<length h'}" using nw by (metis list.set_map set_upt)
  then have new: "length h \<le> mData d" if "d \<in> set nw" for d using that by force
  have old: "mData d < length h" "win_ok h d" if "d \<in> set b" for d using assms(1) that by (auto simp: fresh_buf_def win_ok_def)
  have "distinct (map mData nw)" unfolding nw by simp
  moreover have "mData ` set b \<inter> mData ` set nw = {}" using new old(1) by fastforce
  moreover have "win_ok h' d" if "d \<in> set b" for d using old(2) [OF that] e by (simp add: heap_ext_def)
  moreover have "length h0 \<le> mData d" if "d \<in> set nw" for d using new [OF that] assms(2) by (auto simp: heap_ext_def)
  ultimately have "fresh_buf h0 h' (b @ nw)"
    using assms(1) buf_step_ok [OF z(2)] by (auto simp: fresh_buf_def buf_ok_def)
  moreover have "buf_bytes h' b = buf_bytes h b" by (rule buf_bytes_cong) (use old(2) e in \<open>simp add: heap_ext_def\<close>)
  ultimately show ?thesis
    using z(1) zero_blocks_append [of fuel z n h b "[]"] e buf_step_bytes [OF z(2)] by auto
qed

definition pad_len :: "nat \<Rightarrow> nat" where
  "pad_len n = (CHECKSUM_BLOCKSIZE - n mod CHECKSUM_BLOCKSIZE) mod CHECKSUM_BLOCKSIZE"

lemma pad_len_simps:
  "CHECKSUM_BLOCKSIZE dvd n + pad_len n" "0 < n \<Longrightarrow> n \<le> CHECKSUM_BLOCKSIZE \<Longrightarrow> n + pad_len n = CHECKSUM_BLOCKSIZE"
  "n + pad_len n < n + CHECKSUM_BLOCKSIZE"
proof -
  show "n + pad_len n < n + CHECKSUM_BLOCKSIZE" by (simp add: pad_len_def)
  show "CHECKSUM_BLOCKSIZE dvd n + pad_len n"
  proof (cases "n mod CHECKSUM_BLOCKSIZE = 0")
    case True
    then show ?thesis by (auto simp: pad_len_def)
  next
    case False
    have lt: "n mod CHECKSUM_BLOCKSIZE < CHECKSUM_BLOCKSIZE" by simp
    with False have "pad_len n = CHECKSUM_BLOCKSIZE - n mod CHECKSUM_BLOCKSIZE" by (simp add: pad_len_def)
    then have "n + pad_len n = n div CHECKSUM_BLOCKSIZE * CHECKSUM_BLOCKSIZE + CHECKSUM_BLOCKSIZE"
      using div_mult_mod_eq [of n CHECKSUM_BLOCKSIZE] lt by linarith
    then show ?thesis by simp
  qed
  show "n + pad_len n = CHECKSUM_BLOCKSIZE" if "0 < n" "n \<le> CHECKSUM_BLOCKSIZE"
    using that by (cases "n = CHECKSUM_BLOCKSIZE") (auto simp: pad_len_def)
qed

lemma ZeroPad_fresh:
  assumes "fresh_buf h0 h b" "heap_ext h0 h" "0 < z"
  shows "\<exists>h' b'. ZeroPad z h b = Some (h', b') \<and> fresh_buf h0 h' b' \<and> heap_ext h0 h' \<and>
    buf_bytes h' b' = buf_bytes h b @ replicate (pad_len (length (buf_bytes h b))) 0"
proof -
  let ?n = "BytesConsumable b"
  have len: "length (buf_bytes h b) = ?n" by (rule length_buf_bytes [OF fresh_buf_ok [OF assms(1)]])
  show ?thesis
  proof (cases "?n mod CHECKSUM_BLOCKSIZE = 0")
    case True
    then show ?thesis using assms len by (simp add: ZeroPad_def pad_len_def)
  next
    case False
    then have p: "pad_len ?n = CHECKSUM_BLOCKSIZE - ?n mod CHECKSUM_BLOCKSIZE" by (simp add: pad_len_def)
    from zero_blocks_fresh [OF assms order_refl, of "pad_len ?n"] obtain h' nw where
      "zero_blocks (pad_len ?n) z (pad_len ?n) h b = Some (h', b @ nw)" "fresh_buf h0 h' (b @ nw)" "heap_ext h h'"
      "buf_bytes h' (b @ nw) = buf_bytes h b @ replicate (pad_len ?n) 0" by blast
    then show ?thesis using False p len heap_ext_trans [OF assms(2)]
      by (intro exI [of _ h'] exI [of _ "b @ nw"]) (auto simp: ZeroPad_def buf_ZeroFill_def Let_def)
  qed
qed

lemma consume_loop_suffix: "consume_loop n b = (m, b') \<Longrightarrow> \<exists>p. map mData b = p @ map mData b'"
proof (induction n b arbitrary: m b' rule: consume_loop.induct)
  case (2 n d b)
  obtain d1 k where dk: "data_Consume n d = (d1, k)" by force
  then have d1: "mData d1 = mData d" by (auto simp: data_Consume_def split: if_splits)
  let ?b1 = "if IsEmpty d1 then b else d1 # b"
  have b1: "\<exists>p. map mData (d # b) = p @ map mData ?b1" using d1 by (auto intro: exI [of _ "[]"])
  show ?case
  proof (cases "n - k = 0")
    case True
    then have "b' = ?b1" using "2.prems" dk by (simp add: Let_def)
    then show ?thesis using b1 by simp
  next
    case False
    then have "consume_loop (n - k) ?b1 = (m, b')" using "2.prems" dk by (simp add: Let_def)
    from "2.IH" [OF dk [symmetric] refl refl False this] b1 show ?thesis by (metis append.assoc)
  qed
qed auto

lemma fresh_data:
  assumes "fresh_buf h0 h b" "mData ` set b' \<subseteq> mData ` set b" "d \<in> set b'"
  shows "length h0 \<le> mData d"
proof -
  have "mData d \<in> mData ` set b" using assms(2,3) by blast
  then show ?thesis using assms(1) by (auto simp: fresh_buf_def)
qed

lemma consume_fresh:
  assumes "fresh_buf h0 h b" "n \<le> length (buf_bytes h b)"
  shows "\<exists>b'. buf_Consume (int n) b = Some b' \<and> fresh_buf h0 h b' \<and> buf_bytes h b' = drop n (buf_bytes h b)"
proof -
  obtain m b' where c: "consume_loop n b = (m, b')" by force
  from consume_loop_suffix [OF c] obtain p where p: "map mData b = p @ map mData b'" by blast
  from consume_loop_step [OF fresh_buf_ok [OF assms(1)] c] length_buf_bytes [OF fresh_buf_ok [OF assms(1)]] assms(2)
  have s: "m = 0" "buf_step h b h b' (drop n (buf_bytes h b))" by auto
  have "mData ` set b' \<subseteq> mData ` set b" using arg_cong [OF p, of set] by auto
  then have "length h0 \<le> mData d" if "d \<in> set b'" for d using fresh_data [OF assms(1) _ that] by simp
  then have "fresh_buf h0 h b'"
    using assms(1) p buf_step_ok [OF s(2)] by (auto simp: fresh_buf_def buf_ok_def)
  then show ?thesis using c s(1) buf_step_bytes [OF s(2)] by (simp add: buf_Consume_def)
qed

lemma trim_fresh:
  assumes "fresh_buf h0 h b" "0 < n" "n \<le> length (buf_bytes h b)"
  shows "\<exists>b'. buf_Trim (int n) b = Some b' \<and> fresh_buf h0 h b' \<and> buf_bytes h b' = take n (buf_bytes h b)"
proof -
  have w: "\<forall>d\<in>set b. win_ok h d" using assms(1) by (simp add: fresh_buf_def)
  from trim_loop_ok [OF w, of 0 n] have t: "\<forall>d\<in>set (trim_loop n 0 b). win_ok h d"
    "buf_bytes h (trim_loop n 0 b) = take n (buf_bytes h b)" "map mData (trim_loop n 0 b) = map mData b" by auto
  have "mData ` set (trim_loop n 0 b) = mData ` set b" using t(3) by (metis set_map)
  then have "length h0 \<le> mData d" if "d \<in> set (trim_loop n 0 b)" for d using fresh_data [OF assms(1) _ that] by simp
  then have "fresh_buf h0 h (trim_loop n 0 b)" using assms(1) t by (simp add: fresh_buf_def)
  moreover have "BytesConsumable (trim_loop n 0 b) = n" using win_bytes_consumable [OF t(1)] t(2) assms(3) by simp
  ultimately show ?thesis using t(2) assms(2) by (simp add: buf_Trim_def)
qed

lemma AdjustDataRead_fresh:
  assumes "fresh_buf h0 h b" "0 < ro_numBytesIO op"
    "x = ro_offset op - OffsetToChecksumBlockStart (ro_offset op)" "x \<le> length (buf_bytes h b)"
  shows "\<exists>b'. AdjustDataRead op b = Some b' \<and> fresh_buf h0 h b' \<and> buf_bytes h b' = take (ro_numBytesIO op) (drop x (buf_bytes h b))"
proof -
  have "\<exists>b1. (if 0 < x then buf_Consume (int x) b else Some b) = Some b1 \<and> fresh_buf h0 h b1 \<and> buf_bytes h b1 = drop x (buf_bytes h b)"
    using consume_fresh [OF assms(1,4)] assms(1) by auto
  then obtain b1 where b1: "(if 0 < x then buf_Consume (int x) b else Some b) = Some b1" "fresh_buf h0 h b1"
    "buf_bytes h b1 = drop x (buf_bytes h b)" by blast
  have len: "length (buf_bytes h b1) = BytesConsumable b1" by (rule length_buf_bytes [OF fresh_buf_ok [OF b1(2)]])
  have a: "AdjustDataRead op b = (if ro_numBytesIO op < BytesConsumable b1 then buf_Trim (int (ro_numBytesIO op)) b1 else Some b1)"
    using b1(1) unfolding AdjustDataRead_def Let_def assms(3) by simp
  show ?thesis
  proof (cases "ro_numBytesIO op < BytesConsumable b1")
    case True
    then show ?thesis using trim_fresh [OF b1(2) assms(2)] len a b1(3) by simp
  next
    case False
    then show ?thesis using a b1(2,3) len by simp
  qed
qed

section \<open>Blocks and their checksums\<close>

lemma B_le_max: "MAX_CHUNK_CHECKSUM_BLOCKS = 1024" "MAX_CHUNK_CHECKSUM_BLOCKS * CHECKSUM_BLOCKSIZE = 2 ^ 26" "MAX_CHUNK_CHECKSUM_BLOCKS \<le> CHECKSUM_BLOCKSIZE"
  by (simp_all add: MAX_CHUNK_CHECKSUM_BLOCKS_def CHECKSUM_BLOCKSIZE_def)

lemma block_start: "off < 2 ^ 32 \<Longrightarrow> OffsetToChecksumBlockStart off = off - off mod CHECKSUM_BLOCKSIZE"
proof -
  assume "off < 2 ^ 32"
  then have "off div CHECKSUM_BLOCKSIZE * CHECKSUM_BLOCKSIZE < 2 ^ 32" using div_times_less_eq_dividend le_less_trans by blast
  then show ?thesis by (simp add: OffsetToChecksumBlockStart_def minus_mod_eq_div_mult)
qed

lemma block_num: "off < 2 ^ 32 \<Longrightarrow> OffsetToChecksumBlockNum off = off div CHECKSUM_BLOCKSIZE"
proof -
  assume "off < 2 ^ 32"
  then have "off div CHECKSUM_BLOCKSIZE < 2 ^ 32" using div_le_dividend le_less_trans by blast
  then show ?thesis by (simp add: OffsetToChecksumBlockNum_def)
qed

definition pad_block :: "byte list \<Rightarrow> nat \<Rightarrow> byte list" where
  "pad_block data i =
     (let x = take CHECKSUM_BLOCKSIZE (drop (i * CHECKSUM_BLOCKSIZE) data) in x @ replicate (CHECKSUM_BLOCKSIZE - length x) 0)"

lemma nth_blocks: "i < length (blocks xs) \<Longrightarrow> blocks xs ! i = take CHECKSUM_BLOCKSIZE (drop (i * CHECKSUM_BLOCKSIZE) xs)"
proof (induction xs arbitrary: i rule: blocks.induct)
  case (1 xs)
  show ?case
  proof (cases "xs = []")
    case True
    then show ?thesis using "1.prems" by (simp add: blocks_simps)
  next
    case False
    then have b: "blocks xs = take CHECKSUM_BLOCKSIZE xs # blocks (drop CHECKSUM_BLOCKSIZE xs)" by (subst blocks.simps) simp
    show ?thesis
    proof (cases i)
      case 0
      then show ?thesis by (simp add: b)
    next
      case (Suc j)
      then have "j < length (blocks (drop CHECKSUM_BLOCKSIZE xs))" using "1.prems" b by simp
      from "1.IH" [OF False this] show ?thesis by (simp add: b Suc add.commute)
    qed
  qed
qed

lemma length_blocks: "i < length (blocks xs) \<longleftrightarrow> i * CHECKSUM_BLOCKSIZE < length xs"
proof (induction xs arbitrary: i rule: blocks.induct)
  case (1 xs)
  show ?case
  proof (cases "xs = []")
    case True
    then show ?thesis by (simp add: blocks_simps)
  next
    case False
    then have b: "blocks xs = take CHECKSUM_BLOCKSIZE xs # blocks (drop CHECKSUM_BLOCKSIZE xs)" by (subst blocks.simps) simp
    show ?thesis
    proof (cases i)
      case 0
      then show ?thesis using False by (simp add: b)
    next
      case (Suc j)
      then have "i < length (blocks xs) \<longleftrightarrow> j < length (blocks (drop CHECKSUM_BLOCKSIZE xs))" by (simp only: b list.size) simp
      also have "\<dots> \<longleftrightarrow> j * CHECKSUM_BLOCKSIZE < length xs - CHECKSUM_BLOCKSIZE" using "1.IH" [OF False, of j] by simp
      finally show ?thesis by (simp add: Suc less_diff_conv add.commute)
    qed
  qed
qed

text \<open>The blocks of what is read from the start of a chunk are the padded blocks of the chunk.\<close>

lemma blocks_read:
  assumes "q = length data \<or> q \<le> length data \<and> CHECKSUM_BLOCKSIZE dvd q"
    and "i < length (blocks (take q data @ replicate (pad_len q) 0))"
  shows "blocks (take q data @ replicate (pad_len q) 0) ! i = pad_block data i"
proof -
  let ?B = CHECKSUM_BLOCKSIZE
  let ?xs = "take q data @ replicate (pad_len q) 0"
  have q: "q \<le> length data" using assms(1) by auto
  then have len: "length ?xs = q + pad_len q" by simp
  have i: "i * ?B < q + pad_len q" using assms(2) len by (simp add: length_blocks)
  obtain k where k: "q + pad_len q = ?B * k" using pad_len_simps(1) by (auto elim: dvdE)
  then have "i < k" using i by (simp add: mult.commute)
  then have "(i + 1) * ?B \<le> q + pad_len q" using k mult_le_mono1 [of "i + 1" k ?B] by (simp add: mult.commute)
  then have full: "i * ?B + ?B \<le> q + pad_len q" by simp
  have nth: "blocks ?xs ! i = take ?B (drop (i * ?B) ?xs)" by (rule nth_blocks [OF assms(2)])
  show ?thesis
  proof (cases "q = length data")
    case True
    have lt: "i * ?B < q" using full pad_len_simps(3) [of q] by linarith
    have "take ?B (drop (i * ?B) ?xs) = take ?B (drop (i * ?B) data) @ take (?B - (q - i * ?B)) (replicate (pad_len q) 0)"
      using lt True by simp
    also have "take (?B - (q - i * ?B)) (replicate (pad_len q) 0) = replicate (?B - length (take ?B (drop (i * ?B) data))) (0 :: byte)"
      using full True by (auto simp: min_def)
    finally show ?thesis using nth by (simp add: pad_block_def)
  next
    case False
    with assms(1) have d: "?B dvd q" by simp
    then have "pad_len q = 0" by (auto simp: pad_len_def)
    with full have f: "i * ?B + ?B \<le> q" by simp
    have "take ?B (drop (i * ?B) (take q data)) = take ?B (drop (i * ?B) data)" using f by (simp add: drop_take min_def)
    moreover have "length (take ?B (drop (i * ?B) data)) = ?B" using f q by simp
    ultimately show ?thesis using nth \<open>pad_len q = 0\<close> by (simp add: pad_block_def)
  qed
qed

lemma checksum_mismatch_iff:
  "checksum_mismatch sums k cs \<longleftrightarrow>
    (\<exists>j<length cs. k + j < MAX_CHUNK_CHECKSUM_BLOCKS \<and> sums ! (k + j) \<noteq> 0 \<and> cs ! j \<noteq> sums ! (k + j))"
proof (induction cs arbitrary: k)
  case (Cons c cs)
  let ?P = "\<lambda>k cs j. k + j < MAX_CHUNK_CHECKSUM_BLOCKS \<and> sums ! (k + j) \<noteq> 0 \<and> cs ! j \<noteq> sums ! (k + j)"
  have "(\<exists>j<length (c # cs). ?P k (c # cs) j) \<longleftrightarrow> ?P k (c # cs) 0 \<or> (\<exists>j<length cs. ?P (k + 1) cs j)"
    by (simp add: Ex_less_Suc2)
  with Cons.IH [of "k + 1"] show ?case by auto
qed simp

section \<open>A chunk in the table\<close>

definition chunk_is :: "int \<Rightarrow> ChunkManager \<Rightarrow> ChunkInfoHandle \<Rightarrow> byte list \<Rightarrow> cksum list \<Rightarrow> bool" where
  "chunk_is c m cih f sums \<longleftrightarrow> mChunkTable m c = Some cih \<and> host_files m (MakeChunkPathname (chunkInfo cih)) = Some f \<and>
     ck_sums (chunkInfo cih) = Some sums \<and> length sums = MAX_CHUNK_CHECKSUM_BLOCKS \<and>
     ck_size (chunkInfo cih) = int (length (drop KFS_CHUNK_HEADER_SIZE f)) \<and> length (drop KFS_CHUNK_HEADER_SIZE f) \<le> 2 ^ 26"

lemma setup_chunk:
  assumes "chunk_is c m cih f sums" "SetupDiskConnection due True t c m = (m1, d)"
  shows "d" "chunk_is c m1 (cih\<lparr>dataFH := True, lastIOTime := t\<rparr>) f sums" "m1\<lparr>mChunkTable := T\<rparr> = m\<lparr>mChunkTable := T\<rparr>"
proof -
  have c: "mChunkTable m c = Some cih" "host_files m (MakeChunkPathname (chunkInfo cih)) = Some f"
    using assms(1) by (auto simp: chunk_is_def)
  have k: "mChunkTable (CleanupInactiveFds due t m) c = Some cih" "host_files (CleanupInactiveFds due t m) = host_files m"
    "(CleanupInactiveFds due t m)\<lparr>mChunkTable := T\<rparr> = m\<lparr>mChunkTable := T\<rparr>" if "\<not> dataFH cih" for T
    using c that by (auto simp: CleanupInactiveFds_def InactiveFdCleaner_def)
  show "d" "chunk_is c m1 (cih\<lparr>dataFH := True, lastIOTime := t\<rparr>) f sums" "m1\<lparr>mChunkTable := T\<rparr> = m\<lparr>mChunkTable := T\<rparr>"
    using assms c k by (auto simp: SetupDiskConnection_def OpenChunk_def chunk_is_def split: if_splits)
qed

lemma ReadChunk_eq:
  assumes "chunk_is c m cih f sums" "ro_chunkId op = c" "ro_version op = ck_version (chunkInfo cih)" "e_open e" "e_sched e"
    "0 < ro_numBytes op" "ro_offset op < length (drop KFS_CHUNK_HEADER_SIZE f)"
    "n = min (ro_numBytes op) (length (drop KFS_CHUNK_HEADER_SIZE f) - ro_offset op)"
  shows "\<exists>m1. ReadChunk e op m =
      Some (m1, op\<lparr>ro_numBytesIO := n\<rparr>, 0, read_request (ro_offset op) n (int (length (drop KFS_CHUNK_HEADER_SIZE f)))) \<and>
    chunk_is c m1 (cih\<lparr>dataFH := True, lastIOTime := e_time e\<rparr>) f sums \<and> (\<forall>T. m1\<lparr>mChunkTable := T\<rparr> = m\<lparr>mChunkTable := T\<rparr>)"
proof -
  obtain m1 d where s: "SetupDiskConnection (e_due e) True (e_time e) c m = (m1, d)" by force
  note u = setup_chunk [OF assms(1) s]
  have t: "fst (GetChunkInfoHandle c m) = 0" using assms(1) by (simp add: chunk_is_def GetChunkInfoHandle_def)
  have r: "read_size op (int (length (drop KFS_CHUNK_HEADER_SIZE f))) = n"
    using assms(7,8) by (auto simp: read_size_def min_def)
  have "0 < n" using assms(6,7,8) by simp
  with u s t r assms(2-5) show ?thesis by (auto simp: ReadChunk_def chunk_is_def)
qed

lemma ReadChunkDone_eq:
  assumes "rolling ad ad0" "chunk_is c m cih f sums" "ro_chunkId op = c" "ro_version op = ck_version (chunkInfo cih)" "0 < z"
    "fresh_buf h0 h b" "heap_ext h0 h" "buf_bytes h b = raw" "raw \<noteq> []" "0 < ro_numBytesIO op"
    "x = ro_offset op - OffsetToChecksumBlockStart (ro_offset op)" "x \<le> length ps" "ps = raw @ replicate (pad_len (length raw)) 0"
  shows "if checksum_mismatch sums (OffsetToChecksumBlockStart (ro_offset op)) (map (ad ad0) (blocks ps))
    then \<exists>h' b'. ReadChunkDone ad ad0 z op h b m =
      map_option (\<lambda>(m1, r). (h', m1, op\<lparr>ro_status := - EBADCKSUM\<rparr>, b', [(ck_fileId (chunkInfo cih), c)])) (StaleChunk c m)
      \<and> fresh_buf h0 h' b'
    else \<exists>h' b'. ReadChunkDone ad ad0 z op h b m = Some (h', m, op, b', []) \<and> fresh_buf h0 h' b' \<and> heap_ext h0 h' \<and>
      buf_bytes h' b' = take (ro_numBytesIO op) (drop x ps)"
proof -
  from ZeroPad_fresh [OF assms(6,7,5)] obtain h1 b1 where
    z: "ZeroPad z h b = Some (h1, b1)" "fresh_buf h0 h1 b1" "heap_ext h0 h1" "buf_bytes h1 b1 = ps"
    unfolding assms(8) assms(13) by blast
  have len: "BytesConsumable b1 = length ps" using length_buf_bytes [OF fresh_buf_ok [OF z(2)]] z(4) by simp
  have d: "CHECKSUM_BLOCKSIZE dvd length ps" "ps \<noteq> []" using pad_len_simps(1) [of "length raw"] assms(9,13) by auto
  then have le: "CHECKSUM_BLOCKSIZE \<le> length ps" by (auto intro: dvd_imp_le)
  have "b1 \<noteq> []" using z(4) d(2) by auto
  moreover have "\<forall>e\<in>set b1. win_ok h1 e" using z(2) by (simp add: fresh_buf_def)
  ultimately have ck: "ComputeChecksums ad ad0 h1 b1 (length ps) = Some (map (ad ad0) (blocks ps))"
    using ComputeChecksums_eq [OF assms(1)] le z(4) by (simp add: cksums_of_def)
  from AdjustDataRead_fresh [OF z(2) assms(10,11)] assms(12) z(4) obtain b2 where
    a: "AdjustDataRead op b1 = Some b2" "fresh_buf h0 h1 b2" "buf_bytes h1 b2 = take (ro_numBytesIO op) (drop x ps)" by auto
  have t: "mChunkTable m c = Some cih" "ck_sums (chunkInfo cih) = Some sums" using assms(2) by (auto simp: chunk_is_def)
  show ?thesis
  proof (cases "checksum_mismatch sums (OffsetToChecksumBlockStart (ro_offset op)) (map (ad ad0) (blocks ps))")
    case True
    have "ReadChunkDone ad ad0 z op h b m =
      map_option (\<lambda>(m1, r). (h1, m1, op\<lparr>ro_status := - EBADCKSUM\<rparr>, b1, [(ck_fileId (chunkInfo cih), c)])) (StaleChunk c m)"
      using True t z(1) ck len le assms(3,4) by (simp add: ReadChunkDone_def)
    then show ?thesis using True z(2) by auto
  next
    case False
    have "ReadChunkDone ad ad0 z op h b m = Some (h1, m, op, b2, [])"
      using False t z(1) ck len le assms(3,4) a(1) by (simp add: ReadChunkDone_def)
    then show ?thesis using False z(3) a(2,3) by auto
  qed
qed

text \<open>
  The bytes that \<^verbatim>\<open>ReadChunk\<close> and \<^verbatim>\<open>AdjustDataRead\<close> get, which is a fact about the code and not what a client wants: the read starts at the block of its offset but is as long as the requested bytes rounded
  up to blocks, so a request that is not aligned and crosses a block may get less than it asked for.
\<close>

definition read_result :: "byte list \<Rightarrow> nat \<Rightarrow> nat \<Rightarrow> byte list" where
  "read_result data offset nb =
     (let n = min nb (length data - offset)
      in take (min n (n + pad_len n - offset mod CHECKSUM_BLOCKSIZE)) (drop offset data))"

lemma round_up: "n div CHECKSUM_BLOCKSIZE * CHECKSUM_BLOCKSIZE + (if n mod CHECKSUM_BLOCKSIZE \<noteq> 0 then CHECKSUM_BLOCKSIZE else 0) = n + pad_len n"
proof (cases "n mod CHECKSUM_BLOCKSIZE = 0")
  case True
  then show ?thesis by (auto simp: pad_len_def)
next
  case False
  have lt: "n mod CHECKSUM_BLOCKSIZE < CHECKSUM_BLOCKSIZE" by simp
  with False have "pad_len n = CHECKSUM_BLOCKSIZE - n mod CHECKSUM_BLOCKSIZE" by (simp add: pad_len_def)
  moreover have "n div CHECKSUM_BLOCKSIZE * CHECKSUM_BLOCKSIZE + CHECKSUM_BLOCKSIZE = n + (CHECKSUM_BLOCKSIZE - n mod CHECKSUM_BLOCKSIZE)"
    using lt div_mult_mod_eq [of n CHECKSUM_BLOCKSIZE] by linarith
  ultimately show ?thesis using False by (simp only: if_True not_False_eq_True)
qed

lemma read_plan:
  assumes "off < length data" "length data \<le> 2 ^ 26" "0 < nb" "n = min nb (length data - off)" "start = off - off mod CHECKSUM_BLOCKSIZE"
    "q = min (n + pad_len n) (length data - start)" "raw = take q (drop start data)" "ps = raw @ replicate (pad_len (length raw)) 0"
  shows "read_request off n (int (length data)) = (start + KFS_CHUNK_HEADER_SIZE, q)" "raw \<noteq> []" "off - start \<le> length ps"
    "take n (drop (off - start) ps) = read_result data off nb" "OffsetToChecksumBlockStart off = start"
    "start + q = length data \<or> start + q \<le> length data \<and> CHECKSUM_BLOCKSIZE dvd q" "length raw = q"
proof -
  let ?B = CHECKSUM_BLOCKSIZE
  let ?o = "off mod ?B"
  have o: "off - start = ?o" "start + ?o = off" "?o < ?B" "start \<le> off" using assms(5) by auto
  show st: "OffsetToChecksumBlockStart off = start" using block_start [of off] assms(1,2,5) by simp
  have n: "0 < n" "n \<le> length data - off" using assms(1,3,4) by auto
  have r: "?B dvd n + pad_len n" "0 < n + pad_len n" using pad_len_simps(1) n(1) by auto
  then have rB: "?B \<le> n + pad_len n" by (rule dvd_imp_le)
  show "read_request off n (int (length data)) = (start + KFS_CHUNK_HEADER_SIZE, q)"
    unfolding read_request_def round_up st Let_def assms(6) using assms(1) o(4) by (auto simp: min_def)
  show lr: "length raw = q" using assms(6,7) by simp
  have q0: "0 < q" using assms(1,6) o(4) r(2) by simp
  then show "raw \<noteq> []" using lr by auto
  show "start + q = length data \<or> start + q \<le> length data \<and> ?B dvd q"
    using assms(1,6) o(4) r(1) by (auto simp: min_def)
  have lps: "length ps = q + pad_len q" using assms(8) lr by simp
  have "?B \<le> q + pad_len q" using pad_len_simps(1) [of q] q0 by (intro dvd_imp_le) simp_all
  then show "off - start \<le> length ps" using lps o by linarith
  show "take n (drop (off - start) ps) = read_result data off nb"
  proof (cases "n + pad_len n \<le> length data - start")
    case True
    then have q: "q = n + pad_len n" using assms(6) by simp
    then have "pad_len q = 0" using r(1) by (auto simp: pad_len_def)
    then have "take n (drop (off - start) ps) = take n (drop ?o (take q (drop start data)))" using assms(7,8) lr o(1) by simp
    also have "\<dots> = take (min n (q - ?o)) (drop off data)" using o(2) by (simp add: drop_take add.commute)
    finally show ?thesis unfolding q assms(4) read_result_def Let_def .
  next
    case False
    then have q: "q = length data - start" using assms(6) by simp
    have "raw = drop start data" using assms(7) q by simp
    then have "take n (drop (off - start) ps) = take n (drop off data)"
      using assms(8) o(1) o(2) [unfolded add.commute [of start]] n(2) lr q by simp
    moreover have "n \<le> n + pad_len n - ?o" using False n(2) o assms(1) by linarith
    ultimately show ?thesis unfolding read_result_def Let_def assms(4) by (simp add: min_absorb1)
  qed
qed

lemma chunk_file_at: "chunk_is c m cih f sums \<Longrightarrow> chunk_file c m = Some f"
  by (simp add: chunk_file_def chunk_is_def)

text \<open>What is compared when a chunk is read: the padded blocks of the bytes from the start of the block on.\<close>

definition read_padded :: "byte list \<Rightarrow> nat \<Rightarrow> nat \<Rightarrow> byte list" where
  "read_padded data off nb =
     (let n = min nb (length data - off);
          start = off - off mod CHECKSUM_BLOCKSIZE;
          raw = take (min (n + pad_len n) (length data - start)) (drop start data)
      in raw @ replicate (pad_len (length raw)) 0)"

lemma read_disk:
  assumes "rolling ad ad0" "chunk_is c m cih f sums" "ro_chunkId op = c" "ro_version op = ck_version (chunkInfo cih)"
    "e_open e" "e_sched e" "0 < ro_numBytes op" "0 < z" "ro_dataBuf op = None"
    "data = drop KFS_CHUNK_HEADER_SIZE f" "ro_offset op < length data"
  shows "\<exists>m1 h1 b n offset q. ReadChunk e op m = Some (m1, op\<lparr>ro_numBytesIO := n\<rparr>, 0, offset, q) \<and>
    chunk_is c m1 (cih\<lparr>dataFH := True, lastIOTime := e_time e\<rparr>) f sums \<and> (\<forall>T. m1\<lparr>mChunkTable := T\<rparr> = m\<lparr>mChunkTable := T\<rparr>) \<and>
    disk_read q f offset q h [] = (h1, b) \<and> fresh_buf h h1 b \<and> heap_ext h h1 \<and>
    (if checksum_mismatch sums (OffsetToChecksumBlockStart (ro_offset op)) (map (ad ad0) (blocks (read_padded data (ro_offset op) (ro_numBytes op))))
     then \<exists>h' b'. ReadChunkDone ad ad0 z (op\<lparr>ro_numBytesIO := n, ro_status := 0\<rparr>) h1 b m1 =
        map_option (\<lambda>(m2, r). (h', m2, op\<lparr>ro_numBytesIO := n, ro_status := - EBADCKSUM\<rparr>, b', [(ck_fileId (chunkInfo cih), c)])) (StaleChunk c m1)
        \<and> fresh_buf h h' b'
     else \<exists>h' b'. ReadChunkDone ad ad0 z (op\<lparr>ro_numBytesIO := n, ro_status := 0\<rparr>) h1 b m1 =
        Some (h', m1, op\<lparr>ro_numBytesIO := n, ro_status := 0\<rparr>, b', []) \<and> fresh_buf h h' b' \<and> heap_ext h h' \<and>
        buf_bytes h' b' = read_result data (ro_offset op) (ro_numBytes op))"
proof -
  let ?off = "ro_offset op"
  let ?n = "min (ro_numBytes op) (length data - ?off)" and ?s = "?off - ?off mod CHECKSUM_BLOCKSIZE"
  let ?q = "min (?n + pad_len ?n) (length data - ?s)"
  let ?raw = "take ?q (drop ?s data)"
  have le: "length data \<le> 2 ^ 26" using assms(2,10) by (simp add: chunk_is_def)
  note p = read_plan [OF assms(11) le assms(7) refl refl refl refl refl]
  from ReadChunk_eq [OF assms(2-7) assms(11) [unfolded assms(10)] refl, folded assms(10)] obtain m1 where
    r: "ReadChunk e op m = Some (m1, op\<lparr>ro_numBytesIO := ?n\<rparr>, 0, ?s + KFS_CHUNK_HEADER_SIZE, ?q)"
    "chunk_is c m1 (cih\<lparr>dataFH := True, lastIOTime := e_time e\<rparr>) f sums" "\<forall>T. m1\<lparr>mChunkTable := T\<rparr> = m\<lparr>mChunkTable := T\<rparr>"
    unfolding p(1) by blast
  obtain h1 b where d: "disk_read ?q f (?s + KFS_CHUNK_HEADER_SIZE) ?q h [] = (h1, b)" by force
  note fr = disk_read_fresh [OF d]
  have raw: "buf_bytes h1 b = ?raw" using fr(3) assms(10) by (simp add: add.commute)
  have n0: "0 < ?n" using assms(7,11) by simp
  let ?op = "op\<lparr>ro_numBytesIO := ?n, ro_status := 0\<rparr>"
  have rp: "read_padded data ?off (ro_numBytes op) = ?raw @ replicate (pad_len (length ?raw)) 0"
    by (simp only: read_padded_def Let_def)
  have e: "ro_chunkId ?op = c" "ro_version ?op = ck_version (chunkInfo (cih\<lparr>dataFH := True, lastIOTime := e_time e\<rparr>))"
    "ro_offset ?op = ?off" "ro_numBytesIO ?op = ?n" "0 < ro_numBytesIO ?op" using assms(3,4) n0 by simp_all
  have x: "?off - ?s = ro_offset ?op - OffsetToChecksumBlockStart (ro_offset ?op)" unfolding e p(5) ..
  have st: "?op\<lparr>ro_status := - 1002\<rparr> = op\<lparr>ro_numBytesIO := ?n, ro_status := - 1002\<rparr>"
    "chunkInfo (cih\<lparr>dataFH := True, lastIOTime := e_time e\<rparr>) = chunkInfo cih" by simp_all
  note R = ReadChunkDone_eq [OF assms(1) r(2) e(1,2) assms(8) fr(1,2) raw p(2) e(5) x p(3) refl, unfolded e(3,4) p(4) st, folded rp]
  show ?thesis
    by (rule exI [of _ m1], rule exI [of _ h1], rule exI [of _ b], rule exI [of _ ?n],
        rule exI [of _ "?s + KFS_CHUNK_HEADER_SIZE"], rule exI [of _ ?q], intro conjI)
      (rule r(1) r(2) r(3) d fr(1) fr(2) R)+
qed

section \<open>Reading a chunk\<close>

definition sums_ok :: "adler \<Rightarrow> cksum \<Rightarrow> cksum list \<Rightarrow> byte list \<Rightarrow> bool" where
  "sums_ok ad ad0 sums data \<longleftrightarrow> (\<forall>i<MAX_CHUNK_CHECKSUM_BLOCKS. sums ! i = 0 \<or> sums ! i = ad ad0 (pad_block data i))"

lemma CloseChunk_files [simp]: "host_files (CloseChunk few c m) = host_files m"
  by (simp add: CloseChunk_def split: option.split)

lemma read_finished_ok:
  assumes "rolling ad ad0" "ro_dataBuf op = None" "ReadChunkDone ad ad0 z op h b m = Some (h', m, op, b', [])" "ro_status op = 0"
    "fresh_buf h0 h' b'" "buf_bytes h' b' = bs"
  shows "\<exists>op'. read_finished ad ad0 z (Some b) op h m = Some (h', m, op', []) \<and> ro_dataBuf op' = Some b' \<and>
    ro_status op' = int (length bs) \<and> ro_numBytesIO op' = length bs \<and> ro_offset op' = ro_offset op \<and>
    (length bs \<le> CHECKSUM_BLOCKSIZE \<longrightarrow> ro_checksum op' = ad ad0 bs)"
proof -
  have len: "BytesConsumable b' = length bs" using length_buf_bytes [OF fresh_buf_ok [OF assms(5)]] assms(6) by simp
  have w: "\<forall>d\<in>set b'. win_ok h' d" using assms(5) by (simp add: fresh_buf_def)
  have ck: "ComputeBlockChecksum ad ad0 h' b' (length bs) = ad ad0 bs"
    using ComputeBlockChecksum_eq [OF assms(1) w] assms(6) by (simp add: ComputeBlockChecksum_def)
  show ?thesis using assms(2,3,4) len ck by (auto simp: read_finished_def buf_Append_def Let_def)
qed

lemma chunk_read_ok:
  assumes "rolling ad ad0" "chunk_is c m cih f sums" "ro_chunkId op = c" "ro_version op = ck_version (chunkInfo cih)"
    "e_open e" "e_sched e" "0 < ro_numBytes op" "0 < z" "ro_dataBuf op = None"
    "data = drop KFS_CHUNK_HEADER_SIZE f" "ro_offset op < length data"
    "\<not> checksum_mismatch sums (OffsetToChecksumBlockStart (ro_offset op)) (map (ad ad0) (blocks (read_padded data (ro_offset op) (ro_numBytes op))))"
    "bs = read_result data (ro_offset op) (ro_numBytes op)"
  shows "\<exists>h' m' op' b. chunk_read ad ad0 z e op h m = Some (h', m', op', []) \<and> ro_dataBuf op' = Some b \<and> buf_bytes h' b = bs \<and>
    ro_status op' = int (length bs) \<and> host_files m' = host_files m \<and> (length bs \<le> CHECKSUM_BLOCKSIZE \<longrightarrow> ro_checksum op' = ad ad0 bs)"
proof -
  from read_disk [OF assms(1-11), of h] assms(12,13) obtain m1 h1 b n offset q h' b' where
    r: "ReadChunk e op m = Some (m1, op\<lparr>ro_numBytesIO := n\<rparr>, 0, offset, q)"
    "chunk_is c m1 (cih\<lparr>dataFH := True, lastIOTime := e_time e\<rparr>) f sums" "\<forall>T. m1\<lparr>mChunkTable := T\<rparr> = m\<lparr>mChunkTable := T\<rparr>"
    "disk_read q f offset q h [] = (h1, b)"
    "ReadChunkDone ad ad0 z (op\<lparr>ro_numBytesIO := n, ro_status := 0\<rparr>) h1 b m1 = Some (h', m1, op\<lparr>ro_numBytesIO := n, ro_status := 0\<rparr>, b', [])"
    "fresh_buf h h' b'" "buf_bytes h' b' = bs" by (simp only: if_False) blast
  have "host_files (m1\<lparr>mChunkTable := Map.empty\<rparr>) = host_files (m\<lparr>mChunkTable := Map.empty\<rparr>)" by (simp only: spec [OF r(3)])
  then have hf: "host_files m1 = host_files m" by simp
  let ?op = "op\<lparr>ro_numBytesIO := n, ro_status := 0\<rparr>"
  have "ro_dataBuf ?op = None" "ro_status ?op = 0" using assms(9) by simp_all
  from read_finished_ok [OF assms(1) this(1) r(5) this(2) r(6,7)] obtain op' where
    o: "read_finished ad ad0 z (Some b) ?op h1 m1 = Some (h', m1, op', [])" "ro_dataBuf op' = Some b'" "ro_status op' = int (length bs)"
    "length bs \<le> CHECKSUM_BLOCKSIZE \<longrightarrow> ro_checksum op' = ad ad0 bs" by blast
  let ?m = "let csize = snd (ChunkSize c m1) in if 0 < csize \<and> csize \<le> int (ro_offset op' + ro_numBytesIO op') then CloseChunk (e_few e) c m1 else m1"
  have "chunk_read ad ad0 z e op h m = Some (h', ?m, op', [])"
    using r(1,4) o(1) chunk_file_at [OF r(2)] assms(3) by (simp add: chunk_read_def ReadOp_HandleDone_def Let_def)
  then show ?thesis using o(2-4) r(7) hf by (auto simp: Let_def)
qed

lemma no_mismatch_later:
  assumes "CHECKSUM_BLOCKSIZE \<le> off" "off < 2 ^ 32"
  shows "\<not> checksum_mismatch sums (OffsetToChecksumBlockStart off) cs"
proof -
  have "1 \<le> off div CHECKSUM_BLOCKSIZE" using assms(1) by (simp add: Suc_le_eq div_greater_zero_iff)
  from mult_le_mono1 [OF this, of CHECKSUM_BLOCKSIZE] have "off mod CHECKSUM_BLOCKSIZE + CHECKSUM_BLOCKSIZE \<le> off"
    using div_mult_mod_eq [of off CHECKSUM_BLOCKSIZE] by linarith
  then have "MAX_CHUNK_CHECKSUM_BLOCKS \<le> OffsetToChecksumBlockStart off"
    using block_start [OF assms(2)] B_le_max(3) by linarith
  then show ?thesis by (simp add: checksum_mismatch_iff)
qed

lemma read_padded_blocks:
  assumes "off < length data" "length data \<le> 2 ^ 26" "0 < nb" "off < CHECKSUM_BLOCKSIZE" "i < length (blocks (read_padded data off nb))"
  shows "blocks (read_padded data off nb) ! i = pad_block data i" "OffsetToChecksumBlockStart off = 0"
proof -
  note p = read_plan [OF assms(1-3) refl refl refl refl refl]
  let ?n = "min nb (length data - off)"
  let ?q = "min (?n + pad_len ?n) (length data)"
  have "off mod CHECKSUM_BLOCKSIZE = off" using assms(4) by simp
  then have rp: "read_padded data off nb = take ?q data @ replicate (pad_len ?q) 0" by (simp add: read_padded_def Let_def)
  have "?q = length data \<or> ?q \<le> length data \<and> CHECKSUM_BLOCKSIZE dvd ?q"
    using p(6) assms(4) by simp
  from blocks_read [OF this assms(5) [unfolded rp]] show "blocks (read_padded data off nb) ! i = pad_block data i" unfolding rp .
  show "OffsetToChecksumBlockStart off = 0" using p(5) assms(4) by simp
qed

lemma no_mismatch_sound:
  assumes "sums_ok ad ad0 sums data" "off < length data" "length data \<le> 2 ^ 26" "0 < nb"
  shows "\<not> checksum_mismatch sums (OffsetToChecksumBlockStart off) (map (ad ad0) (blocks (read_padded data off nb)))"
proof (cases "CHECKSUM_BLOCKSIZE \<le> off")
  case True
  then show ?thesis using no_mismatch_later assms(2,3) by simp
next
  case False
  then have lt: "off < CHECKSUM_BLOCKSIZE" by simp
  note b = read_padded_blocks [OF assms(2-4) lt]
  then show ?thesis
  proof (cases "blocks (read_padded data off nb)")
    case Nil
    then show ?thesis by simp
  next
    case (Cons x xs)
    then have "OffsetToChecksumBlockStart off = 0" using b(2) [of 0] by simp
    then show ?thesis using b(1) assms(1) by (auto simp: checksum_mismatch_iff sums_ok_def)
  qed
qed

end
