(* ===== verification/Chunk_Array.thy ===== *)
theory Chunk_Array
  imports Chunk_Integrity
begin

text \<open>
  Writing a chunk: the three ways a write of at most one block is carried out (a whole block, a block beyond the
  end, a block that is read first) have the same effect on the bytes and keep the checksums right, so a
  chunk refines an array of bytes. Then what goes wrong: checksums of later blocks are not compared, and
  truncation counts the header as data.
\<close>

section \<open>Bytes of a write\<close>

text \<open>A byte of a file that reads as zero beyond its end.\<close>

definition nth0 :: "byte list \<Rightarrow> nat \<Rightarrow> byte" where
  "nth0 xs k = (if k < length xs then xs ! k else 0)"

lemma nth0_simps [simp]:
  "nth0 (xs @ replicate n 0) k = nth0 xs k" "nth0 (drop s xs) k = nth0 xs (s + k)" "k < n \<Longrightarrow> nth0 (take n xs) k = nth0 xs k"
  "nth0 [] k = 0"
  by (auto simp: nth0_def nth_append)

lemma pad_nth0: "length xs \<le> n \<Longrightarrow> xs @ replicate (n - length xs) 0 = map (nth0 xs) [0..<n]"
  by (rule nth_equalityI) (auto simp: nth0_def nth_append)

lemma pad_block_nth0: "pad_block data i = map (\<lambda>k. nth0 data (i * CHECKSUM_BLOCKSIZE + k)) [0..<CHECKSUM_BLOCKSIZE]"
proof -
  let ?x = "take CHECKSUM_BLOCKSIZE (drop (i * CHECKSUM_BLOCKSIZE) data)"
  have "pad_block data i = map (nth0 ?x) [0..<CHECKSUM_BLOCKSIZE]"
    using pad_nth0 [of ?x CHECKSUM_BLOCKSIZE] by (simp only: pad_block_def Let_def) simp
  then show ?thesis by simp
qed

lemma length_host_write: "length (host_write off bs f) = max (length f) (off + length bs)"
  by (simp add: host_write_def Let_def)

lemma nth0_host_write:
  "nth0 (host_write off bs f) k = (if off \<le> k \<and> k < off + length bs then bs ! (k - off) else nth0 f k)"
proof -
  let ?g = "f @ replicate (off - length f) 0"
  have g: "off \<le> length ?g" "\<And>j. nth0 ?g j = nth0 f j" by auto
  have hw: "host_write off bs f = take off ?g @ bs @ drop (off + length bs) ?g" by (simp only: host_write_def Let_def)
  have lt: "length (take off ?g) = off" using g(1) by simp
  consider "k < off" | "off \<le> k" "k < off + length bs" | "off + length bs \<le> k" by linarith
  then show ?thesis
  proof cases
    case 1
    then have "nth0 (host_write off bs f) k = nth0 (take off ?g) k"
      unfolding hw using lt by (simp only: nth0_def nth_append length_append) simp
    also have "\<dots> = nth0 f k" using 1 g(2) by (simp only: nth0_simps(3))
    finally show ?thesis using 1 by simp
  next
    case 2
    then have "k - off < length bs" by linarith
    with 2 have "host_write off bs f ! k = bs ! (k - off)" unfolding hw using lt by (simp only: nth_append) simp
    then show ?thesis using 2 by (simp add: nth0_def length_host_write less_max_iff_disj)
  next
    case 3
    have "nth0 (host_write off bs f) k = nth0 (drop (off + length bs) ?g) (k - (off + length bs))"
      unfolding hw using 3 lt by (simp only: nth0_def nth_append length_append) auto
    also have "\<dots> = nth0 f k" using 3 g(2) by (simp del: nth0_simps(1))
    finally show ?thesis using 3 by simp
  qed
qed

lemma list_eq_nth0: "length xs = length ys \<Longrightarrow> (\<And>k. k < length xs \<Longrightarrow> nth0 xs k = nth0 ys k) \<Longrightarrow> xs = ys"
  by (rule nth_equalityI) (auto simp: nth0_def)

lemma drop_host_write: "drop H (host_write (off + H) bs f) = host_write off bs (drop H f)"
  by (rule list_eq_nth0) (auto simp: length_host_write nth0_host_write)

lemma pad_block_same:
  assumes "off mod CHECKSUM_BLOCKSIZE + length bs \<le> CHECKSUM_BLOCKSIZE" "i \<noteq> off div CHECKSUM_BLOCKSIZE"
  shows "pad_block (host_write off bs data) i = pad_block data i"
proof -
  let ?B = CHECKSUM_BLOCKSIZE
  have "\<not> (off \<le> i * ?B + k \<and> i * ?B + k < off + length bs)" if "k < ?B" for k
  proof
    assume a: "off \<le> i * ?B + k \<and> i * ?B + k < off + length bs"
    have d: "off = off div ?B * ?B + off mod ?B" by simp
    have "i * ?B + k < off div ?B * ?B + ?B" using a d assms(1) by linarith
    then have "(i * ?B + k) div ?B \<le> off div ?B" using div_less_iff_less_mult [of ?B "i * ?B + k" "off div ?B + 1"] by simp
    moreover have "off div ?B \<le> (i * ?B + k) div ?B" using a by (intro div_le_mono) simp
    ultimately show False using assms(2) that by simp
  qed
  then have "nth0 (host_write off bs data) (i * ?B + k) = nth0 data (i * ?B + k)" if "k < ?B" for k
    using that by (simp only: nth0_host_write if_False)
  then show ?thesis unfolding pad_block_nth0 by simp
qed

text \<open>The block of a write is the write in the padded block.\<close>

lemma pad_block_write:
  assumes "off mod CHECKSUM_BLOCKSIZE + length bs \<le> CHECKSUM_BLOCKSIZE"
  shows "pad_block (host_write off bs data) (off div CHECKSUM_BLOCKSIZE) =
    host_write (off mod CHECKSUM_BLOCKSIZE) bs (pad_block data (off div CHECKSUM_BLOCKSIZE))"
proof -
  let ?B = CHECKSUM_BLOCKSIZE and ?i = "off div CHECKSUM_BLOCKSIZE"
  have len: "length (pad_block x i) = ?B" for x i unfolding pad_block_nth0 by simp
  show ?thesis
  proof (rule list_eq_nth0)
    show "length (pad_block (host_write off bs data) ?i) = length (host_write (off mod ?B) bs (pad_block data ?i))"
      using assms by (simp add: len length_host_write)
    fix k assume "k < length (pad_block (host_write off bs data) ?i)"
    then have k: "k < ?B" by (simp add: len)
    have n: "nth0 (pad_block x ?i) k = nth0 x (?i * ?B + k)" for x
      using k unfolding pad_block_nth0 by (simp add: nth0_def [of "map _ _"])
    have d: "off = ?i * ?B + off mod ?B" by simp
    have "(off \<le> ?i * ?B + k \<and> ?i * ?B + k < off + length bs) = (off mod ?B \<le> k \<and> k < off mod ?B + length bs)"
      "?i * ?B + k - off = k - off mod ?B" using d by linarith+
    then show "nth0 (pad_block (host_write off bs data) ?i) k = nth0 (host_write (off mod ?B) bs (pad_block data ?i)) k"
      unfolding nth0_host_write n by simp
  qed
qed

lemma sums_ok_write:
  assumes "sums_ok ad ad0 sums data" "off mod CHECKSUM_BLOCKSIZE + length bs \<le> CHECKSUM_BLOCKSIZE"
    "length sums = MAX_CHUNK_CHECKSUM_BLOCKS" "k = 0 \<or> k = ad ad0 (host_write (off mod CHECKSUM_BLOCKSIZE) bs (pad_block data (off div CHECKSUM_BLOCKSIZE)))"
  shows "sums_ok ad ad0 (sums[off div CHECKSUM_BLOCKSIZE := k]) (host_write off bs data)"
  unfolding sums_ok_def
proof (intro allI impI)
  fix i assume i: "i < MAX_CHUNK_CHECKSUM_BLOCKS"
  let ?s = "sums[off div CHECKSUM_BLOCKSIZE := k]"
  show "?s ! i = 0 \<or> ?s ! i = ad ad0 (pad_block (host_write off bs data) i)"
  proof (cases "i = off div CHECKSUM_BLOCKSIZE")
    case True
    then show ?thesis using assms(3,4) i pad_block_write [OF assms(2), of data] by simp
  next
    case False
    then show ?thesis using assms(1) i pad_block_same [OF assms(2) False] by (simp add: sums_ok_def)
  qed
qed

text \<open>Padding after the write or before gives the same block.\<close>

lemma host_write_pad:
  assumes "length x \<le> CHECKSUM_BLOCKSIZE" "o0 + length bs \<le> CHECKSUM_BLOCKSIZE"
  shows "host_write o0 bs x @ replicate (CHECKSUM_BLOCKSIZE - length (host_write o0 bs x)) 0 =
    host_write o0 bs (x @ replicate (CHECKSUM_BLOCKSIZE - length x) 0)"
  using assms by (intro list_eq_nth0) (auto simp: length_host_write nth0_host_write)

lemma drop_take_host_write: "o0 + length bs \<le> length x \<Longrightarrow> take (length bs) (drop o0 (host_write o0 bs x)) = bs"
  by (auto simp: host_write_def Let_def)

section \<open>Writing a chunk\<close>

lemma write_size_eq: "wo_offset op + wo_numBytes op \<le> 2 ^ 26 \<Longrightarrow> write_size op = wo_numBytes op"
proof -
  assume a: "wo_offset op + wo_numBytes op \<le> 2 ^ 26"
  then have "(2 ^ 26 - int (wo_offset op)) mod 2 ^ 64 = 2 ^ 26 - int (wo_offset op)" by (intro mod_pos_pos_trivial) auto
  then show ?thesis using a unfolding write_size_def by simp
qed

lemma no_space_eq:
  assumes "0 \<le> csize" "csize \<le> mUsedSpace m" "mUsedSpace m - csize + int (wo_offset op + n) < 2 ^ 62"
  shows "no_space op n csize m \<longleftrightarrow> mTotalSpace m \<le> mUsedSpace m - csize + int (wo_offset op + n)"
proof -
  let ?d = "int (wo_offset op + n) - csize"
  have "word_of_int (mUsedSpace m + ?d mod 2 ^ 64) = (word_of_int (mUsedSpace m + ?d) :: 64 word)"
    by (rule word_of_int_eq_iff [THEN iffD2]) (simp add: take_bit_eq_mod mod_simps)
  moreover have "sint (word_of_int (mUsedSpace m + ?d) :: 64 word) = mUsedSpace m + ?d"
  proof -
    have "signed_take_bit 63 (mUsedSpace m + ?d) = mUsedSpace m + ?d"
      by (rule signed_take_bit_int_eq_self) (use assms in auto)
    then show ?thesis unfolding sint_sbintrunc' by simp
  qed
  ultimately have w: "sint (word_of_int (mUsedSpace m + ?d mod 2 ^ 64) :: 64 word) = mUsedSpace m + ?d" by (simp only:)
  show ?thesis unfolding no_space_def Let_def w by linarith
qed

text \<open>What a write leaves: the file with the bytes, the checksum of the block, the size and the space in use.\<close>

definition chunk_written :: "int \<Rightarrow> ChunkManager \<Rightarrow> ChunkInfoHandle \<Rightarrow> byte list \<Rightarrow> cksum list \<Rightarrow> nat \<Rightarrow> byte list \<Rightarrow> cksum \<Rightarrow> ChunkManager \<Rightarrow> bool" where
  "chunk_written c m cih f sums off bs k m' \<longleftrightarrow>
     (\<exists>cih'. chunk_is c m' cih' (host_write (off + KFS_CHUNK_HEADER_SIZE) bs f) (sums[off div CHECKSUM_BLOCKSIZE := k]) \<and>
        ck_version (chunkInfo cih') = ck_version (chunkInfo cih)) \<and>
     mUsedSpace m' = mUsedSpace m + max 0 (int (off + length bs) - ck_size (chunkInfo cih)) \<and> mTotalSpace m' = mTotalSpace m"

lemma length_data_write:
  "length (drop KFS_CHUNK_HEADER_SIZE (host_write (off + KFS_CHUNK_HEADER_SIZE) bs f)) = max (length (drop KFS_CHUNK_HEADER_SIZE f)) (off + length bs)"
  unfolding drop_host_write length_host_write ..

lemma write_disk_ok:
  assumes "chunk_is c m cih f sums" "wo_chunkId op = c" "e_open e" "e_sched e" "wo_checksums op = [k]" "wo_offset op = off"
    "wo_numBytesIO op = length bs" "buf_CopyOut (length bs) h (wo_dataBuf op) = bs" "off + length bs \<le> 2 ^ 26" "bs \<noteq> []"
    "0 \<le> mUsedSpace m" "mUsedSpace m + max 0 (int (off + length bs) - ck_size (chunkInfo cih)) \<le> mTotalSpace m"
  shows "\<exists>m2 m3. write_disk e op h m = Some (h, m2, op, WDisk (off + KFS_CHUNK_HEADER_SIZE) bs) \<and>
    disk_write c (off + KFS_CHUNK_HEADER_SIZE) bs m2 = Some m3 \<and> chunk_written c m cih f sums off bs k m3"
proof -
  obtain m1 d where s: "SetupDiskConnection (e_due e) True (e_time e) c m = (m1, d)" by force
  note u = setup_chunk [OF assms(1) s]
  let ?cih = "cih\<lparr>dataFH := True, lastIOTime := e_time e\<rparr>"
  have m1: "mUsedSpace m1 = mUsedSpace m" "mTotalSpace m1 = mTotalSpace m"
    using arg_cong [OF u(3) [of Map.empty], of mUsedSpace] arg_cong [OF u(3) [of Map.empty], of mTotalSpace] by simp_all
  have c: "mChunkTable m1 c = Some ?cih" "ck_sums (chunkInfo cih) = Some sums" "length sums = MAX_CHUNK_CHECKSUM_BLOCKS"
    "host_files m1 (MakeChunkPathname (chunkInfo cih)) = Some f" "ck_size (chunkInfo cih) = int (length (drop KFS_CHUNK_HEADER_SIZE f))"
    "length (drop KFS_CHUNK_HEADER_SIZE f) \<le> 2 ^ 26"
    using u(2) by (auto simp: chunk_is_def)
  have lt: "off < 2 ^ 26" using assms(9,10) by (cases bs) auto
  then have "off div CHECKSUM_BLOCKSIZE < MAX_CHUNK_CHECKSUM_BLOCKS"
    using B_le_max(2) by (simp add: div_less_iff_less_mult)
  then have st: "store_checksums off [k] sums = Some (sums[off div CHECKSUM_BLOCKSIZE := k])"
    using block_num [of off] lt c(3) by (simp add: Let_def)
  let ?fin = "int (off + length bs)" and ?cs = "ck_size (chunkInfo cih)"
  let ?info = "(chunkInfo cih)\<lparr>ck_sums := Some (sums[off div CHECKSUM_BLOCKSIZE := k]), ck_size := max ?cs ?fin\<rparr>"
  let ?m2 = "m1\<lparr>mIsChunkTableDirty := True, mUsedSpace := mUsedSpace m + max 0 (?fin - ?cs),
    mChunkTable := (mChunkTable m1)(c \<mapsto> ?cih\<lparr>chunkInfo := ?info\<rparr>)\<rparr>"
  have up: "UpdateChecksums ?cih op m1 = Some ?m2"
  proof -
    have "mUsedSpace m \<le> mTotalSpace m" using assms(12) by linarith
    then show ?thesis using st assms(2,5,6,7,11,12) c(2) m1
      by (cases "?cs < ?fin") (auto simp: UpdateChecksums_def Let_def max_def)
  qed
  have w: "write_disk e op h m = Some (h, ?m2, op, WDisk (off + KFS_CHUNK_HEADER_SIZE) bs)"
    using s u(1) assms(2-4,6-8) c(1) up by (simp add: write_disk_def)
  have p: "MakeChunkPathname ?info = MakeChunkPathname (chunkInfo cih)" by (simp add: MakeChunkPathname_def)
  let ?m3 = "?m2\<lparr>host_files := (host_files ?m2)(MakeChunkPathname (chunkInfo cih) \<mapsto> host_write (off + KFS_CHUNK_HEADER_SIZE) bs f)\<rparr>"
  have d: "disk_write c (off + KFS_CHUNK_HEADER_SIZE) bs ?m2 = Some ?m3" using p c(4) by (simp add: disk_write_def Let_def)
  have "chunk_is c ?m3 (?cih\<lparr>chunkInfo := ?info\<rparr>) (host_write (off + KFS_CHUNK_HEADER_SIZE) bs f) (sums[off div CHECKSUM_BLOCKSIZE := k])"
    using p c(3,5,6) assms(9) unfolding chunk_is_def length_data_write by (simp add: of_nat_max)
  then have "chunk_written c m cih f sums off bs k ?m3" using m1 unfolding chunk_written_def
    by (intro conjI exI [of _ "?cih\<lparr>chunkInfo := ?info\<rparr>"]) simp_all
  then show ?thesis using w d by blast
qed

lemma write_block_ok:
  assumes "rolling ad ad0" "chunk_is c m cih f sums" "wo_chunkId op = c" "e_open e" "e_sched e" "wo_offset op = off"
    "wo_numBytesIO op = length bs" "off + length bs \<le> 2 ^ 26" "bs \<noteq> []"
    "0 \<le> mUsedSpace m" "mUsedSpace m + max 0 (int (off + length bs) - ck_size (chunkInfo cih)) \<le> mTotalSpace m"
    "buf_ok h b" "buf_bytes h b = x" "length x = CHECKSUM_BLOCKSIZE" "take (length bs) (drop (off mod CHECKSUM_BLOCKSIZE) x) = bs"
  shows "\<exists>m2 m3 op2. write_block ad ad0 e op h b m = Some (h, m2, op2, WDisk (off + KFS_CHUNK_HEADER_SIZE) bs) \<and> wo_chunkId op2 = c \<and>
    disk_write c (off + KFS_CHUNK_HEADER_SIZE) bs m2 = Some m3 \<and> chunk_written c m cih f sums off bs (ad ad0 x) m3"
proof -
  have len: "BytesConsumable b = CHECKSUM_BLOCKSIZE" using length_buf_bytes [OF assms(12)] assms(13,14) by simp
  have w: "\<forall>d\<in>set b. win_ok h d" using assms(12) by (simp add: buf_ok_def)
  have ck: "ComputeBlockChecksum ad ad0 h b CHECKSUM_BLOCKSIZE = ad ad0 x"
    using ComputeBlockChecksum_eq [OF assms(1) w] assms(13,14) by (simp add: ComputeBlockChecksum_def)
  have off: "off < 2 ^ 32" using assms(8) by simp
  then have ex: "int off - int (OffsetToChecksumBlockStart off) = int (off mod CHECKSUM_BLOCKSIZE)"
    using block_start [OF off] by (simp add: of_nat_diff)
  have le: "off mod CHECKSUM_BLOCKSIZE \<le> length x" using assms(14) by (simp add: less_imp_le)
  have "\<exists>b1. (if 0 < int (off mod CHECKSUM_BLOCKSIZE) then buf_Consume (int (off mod CHECKSUM_BLOCKSIZE)) b else Some b) = Some b1 \<and>
      buf_bytes h b1 = drop (off mod CHECKSUM_BLOCKSIZE) x"
  proof (cases "off mod CHECKSUM_BLOCKSIZE = 0")
    case True
    then show ?thesis using assms(13) by simp
  next
    case False
    have "\<exists>b'. buf_Consume (int (off mod CHECKSUM_BLOCKSIZE)) b = Some b' \<and> buf_step h b h b' (drop (off mod CHECKSUM_BLOCKSIZE) x)"
      using buf_Consume_step [OF assms(12), of "int (off mod CHECKSUM_BLOCKSIZE)"] le assms(13) by simp
    then show ?thesis using False buf_step_bytes by auto
  qed
  then obtain b1 where b1: "(if 0 < int (off mod CHECKSUM_BLOCKSIZE) then buf_Consume (int (off mod CHECKSUM_BLOCKSIZE)) b else Some b) = Some b1"
    "buf_bytes h b1 = drop (off mod CHECKSUM_BLOCKSIZE) x" by blast
  let ?op = "op\<lparr>wo_dataBuf := b1, wo_checksums := [ad ad0 x]\<rparr>"
  have "write_block ad ad0 e op h b m = write_disk e ?op h m"
    using len ck b1(1) assms(6) ex by (simp add: write_block_def Let_def)
  moreover have "buf_CopyOut (length bs) h (wo_dataBuf ?op) = bs" using b1(2) assms(15) by (simp add: buf_CopyOut_bytes)
  ultimately show ?thesis
    using write_disk_ok [OF assms(2), of ?op e "ad ad0 x" off bs h] assms(3-11) by auto
qed

text \<open>A client's write of at most one block, whose data has the checksum that came with it (zero for none).\<close>

definition client_write :: "adler \<Rightarrow> cksum \<Rightarrow> int \<Rightarrow> ChunkInfoHandle \<Rightarrow> byte_heap \<Rightarrow> nat \<Rightarrow> byte list \<Rightarrow> WriteOp \<Rightarrow> bool" where
  "client_write ad ad0 c cih h off bs op \<longleftrightarrow> wo_chunkId op = c \<and> wo_version op = ck_version (chunkInfo cih) \<and> wo_offset op = off \<and>
     wo_numBytes op = length bs \<and> buf_ok h (wo_dataBuf op) \<and> buf_bytes h (wo_dataBuf op) = bs \<and>
     wo_checksums op = [wo_wp_checksum op] \<and> (wo_wp_checksum op = 0 \<or> wo_wp_checksum op = ad ad0 bs) \<and>
     wo_rop op = None \<and> \<not> wo_isFromReReplication op \<and>
     bs \<noteq> [] \<and> off mod CHECKSUM_BLOCKSIZE + length bs \<le> CHECKSUM_BLOCKSIZE \<and> off + length bs \<le> 2 ^ 26"

lemma splice_write:
  assumes "buf_ok h (b @ d)" "buf_bytes h b = x" "length x \<le> CHECKSUM_BLOCKSIZE" "CHECKSUM_BLOCKSIZE \<le> z" "buf_bytes h d = bs"
  shows "\<exists>h' b'. buf_Splice z o0 (length bs) h b d = Some (h', b', []) \<and> buf_ok h' b' \<and> buf_bytes h' b' = host_write o0 bs x"
proof -
  have "buf_ok h b" using assms(1) by simp
  then have "BytesConsumable b = length x" using length_buf_bytes [of h b] assms(2) by simp
  moreover have "data_consumable e \<le> BytesConsumable b" if "e \<in> set b" for e
    using that by (simp add: BytesConsumable_def member_le_sum_list)
  ultimately have small: "\<forall>e\<in>set b. data_consumable e \<le> z" using assms(3,4) by fastforce
  have z: "0 < z" using assms(4) B_pos by linarith
  from buf_Splice_step [OF assms(1) z small assms(2,5) refl, of "length bs" o0] obtain h' b' where
    "buf_Splice z o0 (length bs) h b d = Some (h', b', [])"
    "buf_step h (b @ d) h' b' (take o0 (x @ replicate (o0 - length x) 0) @ bs @ drop (o0 + length bs) (x @ replicate (o0 - length x) 0))"
    by auto
  then show ?thesis using buf_step_ok buf_step_bytes unfolding host_write_def Let_def by blast
qed

lemma zero_block:
  assumes "0 < z" "buf_ok h d" "buf_bytes h d = bs"
  shows "\<exists>h' b. buf_ZeroFill z CHECKSUM_BLOCKSIZE h [] = Some (h', b) \<and> buf_ok h' (b @ d) \<and>
    buf_bytes h' b = replicate CHECKSUM_BLOCKSIZE 0 \<and> buf_bytes h' d = bs"
proof -
  have "fresh_buf h h []" by (simp add: fresh_buf_def)
  from zero_blocks_fresh [OF this heap_ext_refl assms(1) order_refl, of CHECKSUM_BLOCKSIZE] obtain h' b where
    "zero_blocks CHECKSUM_BLOCKSIZE z CHECKSUM_BLOCKSIZE h [] = Some (h', b)" "fresh_buf h h' b" "heap_ext h h'"
    "buf_bytes h' b = replicate CHECKSUM_BLOCKSIZE 0" by auto
  with fresh_buf_pair [OF this(2) assms(2) this(3)] assms(3) show ?thesis by (auto simp: buf_ZeroFill_def)
qed

lemma WriteChunk_eq:
  assumes "chunk_is c m cih f sums" "csize = ck_size (chunkInfo cih)"
    "csize \<le> mUsedSpace m" "mUsedSpace m - csize + int (off + length bs) < mTotalSpace m" "mTotalSpace m \<le> 2 ^ 62"
    "off mod CHECKSUM_BLOCKSIZE + length bs \<le> CHECKSUM_BLOCKSIZE" "off + length bs \<le> 2 ^ 26" "bs \<noteq> []"
    "wo_chunkId op = c" "wo_offset op = off" "wo_numBytes op = length bs"
  shows "WriteChunk ad ad0 z e op h m =
      (if length bs = CHECKSUM_BLOCKSIZE then write_aligned ad ad0 e (op\<lparr>wo_numBytesIO := length bs\<rparr>) h m
       else write_partial ad ad0 z e (op\<lparr>wo_numBytesIO := length bs\<rparr>) csize h m)"
proof -
  have c: "mChunkTable m c = Some cih" "AreChecksumsLoaded (chunkInfo cih)" "0 \<le> csize"
    using assms(1,2) by (auto simp: chunk_is_def AreChecksumsLoaded_def)
  have ws: "write_size op = length bs" using write_size_eq [of op] assms(7,10,11) by simp
  let ?op = "op\<lparr>wo_numBytesIO := length bs\<rparr>"
  have "mUsedSpace m - csize + int (wo_offset ?op + length bs) < 2 ^ 62" using assms(4,5,10) by simp
  from no_space_eq [OF c(3) assms(3) this] have ns: "\<not> no_space ?op (length bs) csize m" using assms(4,10) by simp
  have al: "OffsetToChecksumBlockStart off = off \<and> CHECKSUM_BLOCKSIZE \<le> length bs \<longleftrightarrow> length bs = CHECKSUM_BLOCKSIZE"
    using assms(6,7) block_start [of off] by auto
  show ?thesis
  proof (cases "length bs = CHECKSUM_BLOCKSIZE")
    case True
    then show ?thesis using c ws ns al assms(2,8-11) B_pos by (simp add: WriteChunk_def Let_def del: B_pos)
  next
    case False
    then have "length bs < CHECKSUM_BLOCKSIZE" using assms(6) by linarith
    then show ?thesis using c ws ns al assms(2,8-11) by (simp add: WriteChunk_def Let_def)
  qed
qed

lemma ZeroPad_step:
  assumes "buf_ok h b" "0 < z"
  shows "\<exists>h' b'. ZeroPad z h b = Some (h', b') \<and> buf_ok h' b' \<and> buf_bytes h' b' = buf_bytes h b @ replicate (pad_len (length (buf_bytes h b))) 0"
proof -
  let ?n = "BytesConsumable b"
  have len: "length (buf_bytes h b) = ?n" by (rule length_buf_bytes [OF assms(1)])
  show ?thesis
  proof (cases "?n mod CHECKSUM_BLOCKSIZE = 0")
    case True
    then show ?thesis using assms len by (simp add: ZeroPad_def pad_len_def)
  next
    case False
    then have p: "pad_len ?n = CHECKSUM_BLOCKSIZE - ?n mod CHECKSUM_BLOCKSIZE" by (simp add: pad_len_def)
    from zero_blocks_step [OF assms order_refl, of "pad_len ?n"] show ?thesis
      using False p len buf_step_ok buf_step_bytes by (fastforce simp: ZeroPad_def buf_ZeroFill_def Let_def)
  qed
qed

definition space_for :: "nat \<Rightarrow> ChunkManager \<Rightarrow> int \<Rightarrow> bool" where
  "space_for n m csize \<longleftrightarrow> csize \<le> mUsedSpace m \<and> mUsedSpace m \<le> mTotalSpace m \<and> mUsedSpace m - csize + int n < mTotalSpace m \<and> mTotalSpace m \<le> 2 ^ 62"

lemma space_for_used: "space_for n m csize \<Longrightarrow> 0 \<le> csize \<Longrightarrow> 0 \<le> mUsedSpace m \<and> mUsedSpace m + max 0 (int n - csize) \<le> mTotalSpace m"
  by (auto simp: space_for_def max_def)

definition write_effect :: "adler \<Rightarrow> cksum \<Rightarrow> int \<Rightarrow> ChunkManager \<Rightarrow> ChunkInfoHandle \<Rightarrow> byte list \<Rightarrow> cksum list \<Rightarrow> nat \<Rightarrow> byte list \<Rightarrow> ChunkManager \<Rightarrow> bool" where
  "write_effect ad ad0 c m cih f sums off bs m' \<longleftrightarrow>
     (\<exists>k. chunk_written c m cih f sums off bs k m' \<and>
       (k = 0 \<or> k = ad ad0 (host_write (off mod CHECKSUM_BLOCKSIZE) bs (pad_block (drop KFS_CHUNK_HEADER_SIZE f) (off div CHECKSUM_BLOCKSIZE)))))"

lemma chunk_write_full:
  assumes "chunk_is c m cih f sums" "client_write ad ad0 c cih h off bs op" "e_open e" "e_sched e"
    "space_for (off + length bs) m (ck_size (chunkInfo cih))" "length bs = CHECKSUM_BLOCKSIZE"
  shows "\<exists>m'. chunk_write ad ad0 z e op h m = Some (h, m', int (length bs)) \<and> write_effect ad ad0 c m cih f sums off bs m'"
proof -
  have cw: "wo_chunkId op = c" "wo_offset op = off" "wo_numBytes op = length bs" "buf_bytes h (wo_dataBuf op) = bs"
    "wo_checksums op = [wo_wp_checksum op]" "wo_wp_checksum op = 0 \<or> wo_wp_checksum op = ad ad0 bs" "\<not> wo_isFromReReplication op"
    "bs \<noteq> []" "off mod CHECKSUM_BLOCKSIZE + length bs \<le> CHECKSUM_BLOCKSIZE" "off + length bs \<le> 2 ^ 26"
    using assms(2) by (auto simp: client_write_def)
  have sp: "0 \<le> ck_size (chunkInfo cih)" using assms(1) by (simp add: chunk_is_def)
  note us = space_for_used [OF assms(5) sp]
  let ?op = "op\<lparr>wo_numBytesIO := length bs\<rparr>"
  have "WriteChunk ad ad0 z e op h m = write_aligned ad ad0 e ?op h m"
    using WriteChunk_eq [OF assms(1) refl _ _ _ cw(9,10,8) cw(1-3)] assms(5,6) by (simp add: space_for_def)
  moreover have "write_aligned ad ad0 e ?op h m = write_disk e ?op h m" using cw(5,7) assms(6) by (simp add: write_aligned_def)
  moreover have "buf_CopyOut (length bs) h (wo_dataBuf ?op) = bs" using cw(4) by (simp add: buf_CopyOut_bytes)
  then obtain m2 m3 where w: "write_disk e ?op h m = Some (h, m2, ?op, WDisk (off + KFS_CHUNK_HEADER_SIZE) bs)"
    "disk_write c (off + KFS_CHUNK_HEADER_SIZE) bs m2 = Some m3" "chunk_written c m cih f sums off bs (wo_wp_checksum op) m3"
    using write_disk_ok [OF assms(1), of ?op e "wo_wp_checksum op" off bs h] cw us assms(3,4) by auto
  ultimately have r: "chunk_write ad ad0 z e op h m = Some (h, m3, int (length bs))"
    using cw(1) by (simp add: chunk_write_def write_done_def)
  have o0: "off mod CHECKSUM_BLOCKSIZE = 0" using cw(9) assms(6) by simp
  have "length (pad_block x i) = CHECKSUM_BLOCKSIZE" for x i unfolding pad_block_nth0 by simp
  then have "host_write 0 bs (pad_block x i) = bs" for x i using assms(6) by (simp add: host_write_def)
  then show ?thesis using r w(3) cw(6) o0 unfolding write_effect_def by auto
qed

lemma pad_block_beyond: "length data \<le> i * CHECKSUM_BLOCKSIZE \<Longrightarrow> pad_block data i = replicate CHECKSUM_BLOCKSIZE 0"
  by (simp add: pad_block_def)

lemma length_pad_block [simp]: "length (pad_block data i) = CHECKSUM_BLOCKSIZE"
  by (simp add: pad_block_nth0)

lemma chunk_write_beyond:
  assumes "rolling ad ad0" "chunk_is c m cih f sums" "client_write ad ad0 c cih h off bs op" "e_open e" "e_sched e" "CHECKSUM_BLOCKSIZE \<le> z"
    "space_for (off + length bs) m (ck_size (chunkInfo cih))" "length bs < CHECKSUM_BLOCKSIZE"
    "length (drop KFS_CHUNK_HEADER_SIZE f) \<le> off - off mod CHECKSUM_BLOCKSIZE"
  shows "\<exists>h' m'. chunk_write ad ad0 z e op h m = Some (h', m', int (length bs)) \<and> write_effect ad ad0 c m cih f sums off bs m'"
proof -
  have cw: "wo_chunkId op = c" "wo_offset op = off" "wo_numBytes op = length bs" "buf_ok h (wo_dataBuf op)" "buf_bytes h (wo_dataBuf op) = bs"
    "bs \<noteq> []" "off mod CHECKSUM_BLOCKSIZE + length bs \<le> CHECKSUM_BLOCKSIZE" "off + length bs \<le> 2 ^ 26"
    using assms(3) by (auto simp: client_write_def)
  have sp: "ck_size (chunkInfo cih) = int (length (drop KFS_CHUNK_HEADER_SIZE f))" using assms(2) by (simp add: chunk_is_def)
  have us: "0 \<le> mUsedSpace m" "mUsedSpace m + max 0 (int (off + length bs) - ck_size (chunkInfo cih)) \<le> mTotalSpace m"
    using space_for_used [OF assms(7)] sp by simp_all
  have st: "OffsetToChecksumBlockStart off = off - off mod CHECKSUM_BLOCKSIZE" using block_start [of off] cw(8) by simp
  have z: "0 < z" using assms(6) B_pos by linarith
  let ?op = "op\<lparr>wo_numBytesIO := length bs, wo_checksums := []\<rparr>" and ?o = "off mod CHECKSUM_BLOCKSIZE"
  from zero_block [OF z cw(4,5)] obtain h1 b1 where
    zb: "buf_ZeroFill z CHECKSUM_BLOCKSIZE h [] = Some (h1, b1)" "buf_ok h1 (b1 @ wo_dataBuf op)"
    "buf_bytes h1 b1 = replicate CHECKSUM_BLOCKSIZE 0" "buf_bytes h1 (wo_dataBuf op) = bs" by blast
  from splice_write [OF zb(2,3) _ assms(6) zb(4), of ?o] obtain h2 b2 where
    sw: "buf_Splice z ?o (length bs) h1 b1 (wo_dataBuf op) = Some (h2, b2, [])" "buf_ok h2 b2"
    "buf_bytes h2 b2 = host_write ?o bs (replicate CHECKSUM_BLOCKSIZE 0)" by auto
  let ?x = "host_write ?o bs (replicate CHECKSUM_BLOCKSIZE 0)"
  have x: "length ?x = CHECKSUM_BLOCKSIZE" "take (length bs) (drop ?o ?x) = bs"
    using cw(7) by (simp_all add: length_host_write drop_take_host_write)
  have "WriteChunk ad ad0 z e op h m = write_partial ad ad0 z e (op\<lparr>wo_numBytesIO := length bs\<rparr>) (ck_size (chunkInfo cih)) h m"
    using WriteChunk_eq [OF assms(2) refl _ _ _ cw(7,8,6) cw(1-3)] assms(7,8) by (simp add: space_for_def)
  also have "\<dots> = write_block ad ad0 e ?op h2 b2 m"
    using zb(1) sw(1) sp st assms(9) cw(2) by (simp add: write_partial_def Let_def)
  finally have w: "WriteChunk ad ad0 z e op h m = write_block ad ad0 e ?op h2 b2 m" .
  from write_block_ok [OF assms(1,2) _ assms(4,5) _ _ cw(8,6) us sw(2,3) x, of ?op] cw(1,2) obtain m2 m3 op2 where
    "write_block ad ad0 e ?op h2 b2 m = Some (h2, m2, op2, WDisk (off + KFS_CHUNK_HEADER_SIZE) bs)" "wo_chunkId op2 = c"
    "disk_write c (off + KFS_CHUNK_HEADER_SIZE) bs m2 = Some m3" "chunk_written c m cih f sums off bs (ad ad0 ?x) m3" by auto
  moreover have "pad_block (drop KFS_CHUNK_HEADER_SIZE f) (off div CHECKSUM_BLOCKSIZE) = replicate CHECKSUM_BLOCKSIZE 0"
    using pad_block_beyond assms(9) by (simp add: minus_mod_eq_div_mult)
  ultimately show ?thesis using w unfolding write_effect_def by (auto simp: chunk_write_def write_done_def)
qed

lemma read_result_block:
  assumes "start mod CHECKSUM_BLOCKSIZE = 0"
  shows "read_result data start CHECKSUM_BLOCKSIZE = take CHECKSUM_BLOCKSIZE (drop start data)"
  using assms by (simp add: read_result_def Let_def min_def)

lemma chunk_write_within:
  assumes "rolling ad ad0" "chunk_is c m cih f sums" "client_write ad ad0 c cih h off bs op" "e_open e" "e_sched e" "CHECKSUM_BLOCKSIZE \<le> z"
    "space_for (off + length bs) m (ck_size (chunkInfo cih))" "length bs < CHECKSUM_BLOCKSIZE" "data = drop KFS_CHUNK_HEADER_SIZE f"
    "off - off mod CHECKSUM_BLOCKSIZE < length data" "sums_ok ad ad0 sums data"
  shows "\<exists>h' m'. chunk_write ad ad0 z e op h m = Some (h', m', int (length bs)) \<and> write_effect ad ad0 c m cih f sums off bs m'"
proof -
  have cw: "wo_chunkId op = c" "wo_offset op = off" "wo_numBytes op = length bs" "buf_ok h (wo_dataBuf op)" "buf_bytes h (wo_dataBuf op) = bs"
    "bs \<noteq> []" "off mod CHECKSUM_BLOCKSIZE + length bs \<le> CHECKSUM_BLOCKSIZE" "off + length bs \<le> 2 ^ 26"
    "wo_version op = ck_version (chunkInfo cih)" "wo_rop op = None"
    using assms(3) by (auto simp: client_write_def)
  have sp: "ck_size (chunkInfo cih) = int (length data)" "length data \<le> 2 ^ 26" using assms(2,9) by (auto simp: chunk_is_def)
  let ?s = "off - off mod CHECKSUM_BLOCKSIZE" and ?o = "off mod CHECKSUM_BLOCKSIZE"
  have st: "OffsetToChecksumBlockStart off = ?s" using block_start [of off] cw(8) by simp
  have z: "0 < z" using assms(6) B_pos by linarith
  let ?op = "op\<lparr>wo_numBytesIO := length bs, wo_checksums := []\<rparr>"
  have ro: "ro_chunkId (new_rop ?op) = c" "ro_version (new_rop ?op) = ck_version (chunkInfo cih)" "0 < ro_numBytes (new_rop ?op)"
    "ro_dataBuf (new_rop ?op) = None" "ro_offset (new_rop ?op) = ?s" "ro_numBytes (new_rop ?op) = CHECKSUM_BLOCKSIZE"
    using cw st by (simp_all add: new_rop_def)
  have "ro_offset (new_rop ?op) < length data" using assms(10) ro(5) by simp
  note rd = read_disk [OF assms(1,2) ro(1,2) assms(4,5) ro(3) z ro(4) assms(9) this, of h]
  have "\<not> checksum_mismatch sums (OffsetToChecksumBlockStart ?s) (map (ad ad0) (blocks (read_padded data ?s CHECKSUM_BLOCKSIZE)))"
    by (rule no_mismatch_sound [OF assms(11,10) sp(2)]) simp
  with rd obtain m1 h1 b n offset q h3 b3 where
    r: "ReadChunk e (new_rop ?op) m = Some (m1, (new_rop ?op)\<lparr>ro_numBytesIO := n\<rparr>, 0, offset, q)"
    "chunk_is c m1 (cih\<lparr>dataFH := True, lastIOTime := e_time e\<rparr>) f sums" "\<forall>T. m1\<lparr>mChunkTable := T\<rparr> = m\<lparr>mChunkTable := T\<rparr>"
    "disk_read q f offset q h [] = (h1, b)"
    "ReadChunkDone ad ad0 z ((new_rop ?op)\<lparr>ro_numBytesIO := n, ro_status := 0\<rparr>) h1 b m1 =
       Some (h3, m1, (new_rop ?op)\<lparr>ro_numBytesIO := n, ro_status := 0\<rparr>, b3, [])"
    "fresh_buf h h3 b3" "heap_ext h h3" "buf_bytes h3 b3 = read_result data ?s CHECKSUM_BLOCKSIZE"
    unfolding ro(5,6) by (simp only: if_False) blast
  have m1: "mUsedSpace m1 = mUsedSpace m" "mTotalSpace m1 = mTotalSpace m"
    using arg_cong [OF spec [OF r(3), of Map.empty], of mUsedSpace] arg_cong [OF spec [OF r(3), of Map.empty], of mTotalSpace] by simp_all
  let ?cih = "cih\<lparr>dataFH := True, lastIOTime := e_time e\<rparr>"
  have sp1: "space_for (off + length bs) m1 (ck_size (chunkInfo ?cih))" using assms(7) m1 by (simp add: space_for_def)
  have us: "0 \<le> mUsedSpace m1" "mUsedSpace m1 + max 0 (int (off + length bs) - ck_size (chunkInfo ?cih)) \<le> mTotalSpace m1"
    using space_for_used [OF sp1] sp by simp_all
  let ?rop = "(new_rop ?op)\<lparr>ro_numBytesIO := n, ro_status := 0\<rparr>" and ?x = "take CHECKSUM_BLOCKSIZE (drop ?s data)"
  have ropn: "ro_dataBuf ?rop = None" "ro_status ?rop = 0" using ro(4) by simp_all
  from read_finished_ok [OF assms(1) ropn(1) r(5) ropn(2) r(6,8)] obtain rop1 where
    fin: "read_finished ad ad0 z (Some b) ?rop h1 m1 = Some (h3, m1, rop1, [])" "ro_dataBuf rop1 = Some b3" "0 \<le> ro_status rop1" by auto
  have bytes: "buf_bytes h3 b3 = ?x" using r(8) read_result_block [of ?s] by (simp add: minus_mod_eq_div_mult)
  note pair = fresh_buf_pair [OF r(6) cw(4) r(7)]
  from splice_write [OF pair(1) bytes _ assms(6), of bs ?o] pair(2) cw(5) obtain h4 b4 where
    sw: "buf_Splice z ?o (length bs) h3 b3 (wo_dataBuf op) = Some (h4, b4, [])" "buf_ok h4 b4" "buf_bytes h4 b4 = host_write ?o bs ?x" by auto
  from ZeroPad_step [OF sw(2) z] obtain h5 b5 where
    zp: "ZeroPad z h4 b4 = Some (h5, b5)" "buf_ok h5 b5" "buf_bytes h5 b5 = host_write ?o bs ?x @ replicate (pad_len (length (host_write ?o bs ?x))) 0"
    unfolding sw(3) by blast
  let ?y = "host_write ?o bs (pad_block data (off div CHECKSUM_BLOCKSIZE))"
  have lx: "length ?x \<le> CHECKSUM_BLOCKSIZE" "0 < length (host_write ?o bs ?x)" "length (host_write ?o bs ?x) \<le> CHECKSUM_BLOCKSIZE"
    using cw(6,7) by (auto simp: length_host_write less_max_iff_disj)
  have "pad_len (length (host_write ?o bs ?x)) = CHECKSUM_BLOCKSIZE - length (host_write ?o bs ?x)"
    using pad_len_simps(2) [OF lx(2,3)] by linarith
  then have y: "buf_bytes h5 b5 = ?y"
    using zp(3) host_write_pad [OF lx(1) cw(7)] by (simp only: pad_block_def Let_def minus_mod_eq_div_mult)
  have ly: "length ?y = CHECKSUM_BLOCKSIZE" "take (length bs) (drop ?o ?y) = bs"
    using cw(7) by (simp_all add: length_host_write drop_take_host_write)
  have gt: "\<not> ck_size (chunkInfo cih) \<le> int (OffsetToChecksumBlockStart off)" using sp(1) st assms(10) by simp
  have w1: "WriteChunk ad ad0 z e op h m = Some (h, m1, ?op\<lparr>wo_rop := Some ?rop\<rparr>, WRead ?rop offset q)"
    using WriteChunk_eq [OF assms(2) refl _ _ _ cw(7,8,6) cw(1-3)] assms(7,8) r(1) gt cw(2,10)
    by (simp add: space_for_def write_partial_def Let_def)
  let ?op2 = "?op\<lparr>wo_rop := Some rop1\<rparr>"
  have f2: "wo_chunkId ?op2 = c" "wo_offset ?op2 = off" "wo_numBytes ?op2 = length bs" using cw(1-3) by simp_all
  let ?op3 = "?op2\<lparr>wo_rop := Some (rop1\<lparr>ro_dataBuf := None\<rparr>)\<rparr>"
  have w2: "WriteChunk ad ad0 z e ?op2 h3 m1 = write_block ad ad0 e ?op3 h5 b5 m1"
    using WriteChunk_eq [OF r(2) refl _ _ _ cw(7,8,6) f2] sp1 assms(8) gt cw(2) fin(2,3) sw(1) zp(1)
    by (simp add: space_for_def write_partial_def Let_def)
  have f3: "wo_chunkId ?op3 = c" "wo_offset ?op3 = off" "wo_numBytesIO ?op3 = length bs" using cw(1-3) by simp_all
  from write_block_ok [OF assms(1) r(2) f3(1) assms(4,5) f3(2,3) cw(8,6) us zp(2) y ly] obtain m2 m3 op2 where
    w3: "write_block ad ad0 e ?op3 h5 b5 m1 = Some (h5, m2, op2, WDisk (off + KFS_CHUNK_HEADER_SIZE) bs)" "wo_chunkId op2 = c"
    "disk_write c (off + KFS_CHUNK_HEADER_SIZE) bs m2 = Some m3" "chunk_written c m1 ?cih f sums off bs (ad ad0 ?y) m3" by blast
  have "chunk_write ad ad0 z e op h m = Some (h5, m3, int (length bs))"
    using w1 w2 w3(1-3) chunk_file_at [OF r(2)] r(4) fin(1) cw(1) by (simp add: chunk_write_def write_done_def Let_def)
  moreover have "chunk_written c m cih f sums off bs (ad ad0 ?y) m3" using w3(4) m1 by (simp add: chunk_written_def)
  ultimately show ?thesis unfolding write_effect_def assms(9) by blast
qed

lemma chunk_write_ok:
  assumes "rolling ad ad0" "chunk_is c m cih f sums" "client_write ad ad0 c cih h off bs op" "e_open e" "e_sched e" "CHECKSUM_BLOCKSIZE \<le> z"
    "space_for (off + length bs) m (ck_size (chunkInfo cih))" "sums_ok ad ad0 sums (drop KFS_CHUNK_HEADER_SIZE f)"
  shows "\<exists>h' m'. chunk_write ad ad0 z e op h m = Some (h', m', int (length bs)) \<and> write_effect ad ad0 c m cih f sums off bs m'"
proof -
  have le: "length bs \<le> CHECKSUM_BLOCKSIZE" using assms(3) by (simp add: client_write_def)
  consider "length bs = CHECKSUM_BLOCKSIZE"
    | "length bs < CHECKSUM_BLOCKSIZE" "length (drop KFS_CHUNK_HEADER_SIZE f) \<le> off - off mod CHECKSUM_BLOCKSIZE"
    | "length bs < CHECKSUM_BLOCKSIZE" "off - off mod CHECKSUM_BLOCKSIZE < length (drop KFS_CHUNK_HEADER_SIZE f)" using le by linarith
  then show ?thesis
  proof cases
    case 1
    then show ?thesis using chunk_write_full [OF assms(2-5,7)] by blast
  next
    case 2
    then show ?thesis using chunk_write_beyond [OF assms(1-7)] by blast
  next
    case 3
    then show ?thesis using chunk_write_within [OF assms(1-7) 3(1) refl 3(2) assms(8)] by blast
  qed
qed

section \<open>A chunk is an array of bytes\<close>

datatype chunk_write_op = CW nat "byte list" cksum

text \<open>A client's write: the data arrives in a buffer of its own.\<close>

fun client_op :: "int \<Rightarrow> int \<Rightarrow> chunk_write_op \<Rightarrow> IOBuffer \<Rightarrow> WriteOp" where
  "client_op c v (CW off bs k) b =
     \<lparr>wo_chunkId = c, wo_version = v, wo_offset = off, wo_numBytes = length bs, wo_numBytesIO = 0, wo_dataBuf = b,
       wo_checksums = [k], wo_rop = None, wo_isFromReReplication = False, wo_wp_checksum = k\<rparr>"

fun chunk_exec :: "adler \<Rightarrow> cksum \<Rightarrow> nat \<Rightarrow> IoEnv \<Rightarrow> int \<Rightarrow> chunk_write_op \<Rightarrow> ChunkManager \<Rightarrow> ChunkManager option" where
  "chunk_exec ad ad0 z e c (CW off bs k) m =
     do { (h, b) \<leftarrow> buf_CopyIn z bs [] [];
          (h', m', status) \<leftarrow> chunk_write ad ad0 z e (client_op c (GetChunkVersion c m) (CW off bs k) b) h m;
          assert_then (status = int (length bs)) (Some m') }"

fun array_write :: "chunk_write_op \<Rightarrow> byte list \<Rightarrow> byte list" where
  "array_write (CW off bs k) d = host_write off bs d"

fun write_allowed :: "adler \<Rightarrow> cksum \<Rightarrow> chunk_write_op \<Rightarrow> bool" where
  "write_allowed ad ad0 (CW off bs k) \<longleftrightarrow> bs \<noteq> [] \<and> off mod CHECKSUM_BLOCKSIZE + length bs \<le> CHECKSUM_BLOCKSIZE \<and>
     off + length bs \<le> 2 ^ 26 \<and> (k = 0 \<or> k = ad ad0 bs)"

definition chunk_bytes :: "int \<Rightarrow> ChunkManager \<Rightarrow> byte list" where
  "chunk_bytes c m = (case chunk_file c m of None \<Rightarrow> [] | Some f \<Rightarrow> drop KFS_CHUNK_HEADER_SIZE f)"

definition chunk_inv :: "adler \<Rightarrow> cksum \<Rightarrow> nat \<Rightarrow> IoEnv \<Rightarrow> int \<Rightarrow> int \<Rightarrow> ChunkManager \<Rightarrow> bool" where
  "chunk_inv ad ad0 z e c v m \<longleftrightarrow> rolling ad ad0 \<and> e_open e \<and> e_sched e \<and> CHECKSUM_BLOCKSIZE \<le> z \<and>
     (\<exists>cih f sums. chunk_is c m cih f sums \<and> sums_ok ad ad0 sums (drop KFS_CHUNK_HEADER_SIZE f) \<and> ck_version (chunkInfo cih) = v \<and>
        ck_size (chunkInfo cih) \<le> mUsedSpace m \<and> mUsedSpace m - ck_size (chunkInfo cih) + 2 ^ 26 < mTotalSpace m \<and> mTotalSpace m \<le> 2 ^ 62)"

lemma chunk_exec_ok:
  assumes "chunk_inv ad ad0 z e c v m" "write_allowed ad ad0 p"
  shows "\<exists>m'. chunk_exec ad ad0 z e c p m = Some m' \<and> chunk_inv ad ad0 z e c v m' \<and> chunk_bytes c m' = array_write p (chunk_bytes c m)"
proof -
  obtain off bs k where p: "p = CW off bs k" by (cases p)
  from assms(1) obtain cih f sums where i: "rolling ad ad0" "e_open e" "e_sched e" "CHECKSUM_BLOCKSIZE \<le> z" "chunk_is c m cih f sums"
    "sums_ok ad ad0 sums (drop KFS_CHUNK_HEADER_SIZE f)" "ck_version (chunkInfo cih) = v" "ck_size (chunkInfo cih) \<le> mUsedSpace m"
    "mUsedSpace m - ck_size (chunkInfo cih) + 2 ^ 26 < mTotalSpace m" "mTotalSpace m \<le> 2 ^ 62" by (auto simp: chunk_inv_def)
  have al: "bs \<noteq> []" "off mod CHECKSUM_BLOCKSIZE + length bs \<le> CHECKSUM_BLOCKSIZE" "off + length bs \<le> 2 ^ 26" "k = 0 \<or> k = ad ad0 bs"
    using assms(2) p by auto
  have z: "0 < z" using i(4) B_pos by linarith
  from buf_CopyIn_step [of "[]" "[]" z bs] z obtain h b where
    ci: "buf_CopyIn z bs [] [] = Some (h, b)" "buf_step [] [] h b bs" by auto
  have v: "GetChunkVersion c m = v" using i(5,7) by (simp add: GetChunkVersion_def chunk_is_def)
  have cs: "ck_size (chunkInfo cih) = int (length (drop KFS_CHUNK_HEADER_SIZE f))" "length (drop KFS_CHUNK_HEADER_SIZE f) \<le> 2 ^ 26"
    "length sums = MAX_CHUNK_CHECKSUM_BLOCKS" using i(5) by (auto simp: chunk_is_def)
  have cw: "client_write ad ad0 c cih h off bs (client_op c v (CW off bs k) b)"
    using al i(7) buf_step_ok [OF ci(2)] buf_step_bytes [OF ci(2)] by (simp add: client_write_def)
  have "int (off + length bs) \<le> 2 ^ 26" using al(3) by simp
  moreover have "ck_size (chunkInfo cih) \<le> 2 ^ 26" using cs(1,2) by simp
  ultimately have sp: "space_for (off + length bs) m (ck_size (chunkInfo cih))"
    using i(8-10) unfolding space_for_def by (intro conjI) linarith+
  from chunk_write_ok [OF i(1,5) cw i(2,3,4) sp i(6)] obtain h' m' k' where
    w: "chunk_write ad ad0 z e (client_op c v (CW off bs k) b) h m = Some (h', m', int (length bs))" "chunk_written c m cih f sums off bs k' m'"
    "k' = 0 \<or> k' = ad ad0 (host_write (off mod CHECKSUM_BLOCKSIZE) bs (pad_block (drop KFS_CHUNK_HEADER_SIZE f) (off div CHECKSUM_BLOCKSIZE)))"
    unfolding write_effect_def by blast
  from w(2) obtain cih' where c': "chunk_is c m' cih' (host_write (off + KFS_CHUNK_HEADER_SIZE) bs f) (sums[off div CHECKSUM_BLOCKSIZE := k'])"
    "ck_version (chunkInfo cih') = v" "mUsedSpace m' = mUsedSpace m + max 0 (int (off + length bs) - ck_size (chunkInfo cih))"
    "mTotalSpace m' = mTotalSpace m" using i(7) by (auto simp: chunk_written_def)
  have ex: "chunk_exec ad ad0 z e c p m = Some m'" using p ci(1) v w(1) by simp
  have cs': "ck_size (chunkInfo cih') = max (ck_size (chunkInfo cih)) (int (off + length bs))"
    using c'(1) cs(1) unfolding chunk_is_def length_data_write by (simp only: of_nat_max)
  have "chunk_inv ad ad0 z e c v m'"
    unfolding chunk_inv_def
  proof (intro conjI exI)
    show "rolling ad ad0" "e_open e" "e_sched e" "CHECKSUM_BLOCKSIZE \<le> z" by (fact i)+
    show "chunk_is c m' cih' (host_write (off + KFS_CHUNK_HEADER_SIZE) bs f) (sums[off div CHECKSUM_BLOCKSIZE := k'])" by (fact c'(1))
    show "sums_ok ad ad0 (sums[off div CHECKSUM_BLOCKSIZE := k']) (drop KFS_CHUNK_HEADER_SIZE (host_write (off + KFS_CHUNK_HEADER_SIZE) bs f))"
      unfolding drop_host_write by (rule sums_ok_write [OF i(6) al(2) cs(3) w(3)])
    show "ck_version (chunkInfo cih') = v" by (fact c'(2))
    show "ck_size (chunkInfo cih') \<le> mUsedSpace m'" "mUsedSpace m' - ck_size (chunkInfo cih') + 2 ^ 26 < mTotalSpace m'" "mTotalSpace m' \<le> 2 ^ 62"
      using i(8-10) cs' c'(3,4) by (auto simp: max_def)
  qed
  moreover have "chunk_bytes c m' = array_write p (chunk_bytes c m)"
    using chunk_file_at [OF c'(1)] chunk_file_at [OF i(5)] p by (simp add: chunk_bytes_def drop_host_write)
  ultimately show ?thesis using ex by blast
qed

interpretation chunk: op_refinement "chunk_exec ad ad0 z e c" "\<lambda>p d. Some (array_write p d)" "chunk_bytes c"
  "chunk_inv ad ad0 z e c v" "write_allowed ad ad0" for ad ad0 z e c v
  by unfold_locales (use chunk_exec_ok in fastforce)+

lemma run_total: "run_ops (\<lambda>p d. Some (g p d)) ps d = Some (fold g ps d)"
  by (induction ps arbitrary: d) simp_all

lemma chunk_run:
  assumes "chunk_inv ad ad0 z e c v m" "\<forall>p\<in>set ps. write_allowed ad ad0 p"
  shows "\<exists>m'. run_ops (chunk_exec ad ad0 z e c) ps m = Some m' \<and> chunk_inv ad ad0 z e c v m' \<and> chunk_bytes c m' = fold array_write ps (chunk_bytes c m)"
  using chunk.run_ref [OF assms] by (auto simp: run_total)

lemma AllocChunk_new:
  assumes "mChunkTable m c = None" "AllocChunk True due t fid c v False m = (m0, st)"
  shows "\<exists>cih. chunk_is c m0 cih [] (replicate MAX_CHUNK_CHECKSUM_BLOCKS 0) \<and> ck_version (chunkInfo cih) = v \<and> ck_size (chunkInfo cih) = 0"
    "mUsedSpace m0 = mUsedSpace m" "mTotalSpace m0 = mTotalSpace m"
  using assms by (auto simp: AllocChunk_def CleanupInactiveFds_def Let_def chunk_is_def new_handle_def Init_info_def MakeChunkPathname_def)

definition client_read :: "int \<Rightarrow> int \<Rightarrow> nat \<Rightarrow> nat \<Rightarrow> ReadOp" where
  "client_read c v off nb = \<lparr>ro_chunkId = c, ro_version = v, ro_offset = off, ro_numBytes = nb, ro_numBytesIO = 0, ro_status = 0,
     ro_dataBuf = None, ro_checksum = 0\<rparr>"

text \<open>The answer of a read that succeeds: the bytes, their number as status, and no report of a corrupt chunk.\<close>

definition answers :: "(byte_heap \<times> ChunkManager \<times> ReadOp \<times> (int \<times> int) list) option \<Rightarrow> byte list \<Rightarrow> bool" where
  "answers r bs \<longleftrightarrow> (\<exists>h m op b. r = Some (h, m, op, []) \<and> ro_dataBuf op = Some b \<and> buf_bytes h b = bs \<and> ro_status op = int (length bs))"

lemma chunk_inv_read:
  assumes "chunk_inv ad ad0 z e c v m" "off < length (chunk_bytes c m)" "0 < nb"
  shows "answers (chunk_read ad ad0 z e (client_read c v off nb) h m) (read_result (chunk_bytes c m) off nb)"
proof -
  from assms(1) obtain cih f sums where i: "rolling ad ad0" "e_open e" "e_sched e" "CHECKSUM_BLOCKSIZE \<le> z" "chunk_is c m cih f sums"
    "sums_ok ad ad0 sums (drop KFS_CHUNK_HEADER_SIZE f)" "ck_version (chunkInfo cih) = v" by (auto simp: chunk_inv_def)
  let ?op = "client_read c v off nb"
  have d: "chunk_bytes c m = drop KFS_CHUNK_HEADER_SIZE f" using chunk_file_at [OF i(5)] by (simp add: chunk_bytes_def)
  have op: "ro_chunkId ?op = c" "ro_version ?op = ck_version (chunkInfo cih)" "0 < ro_numBytes ?op" "ro_dataBuf ?op = None"
    "ro_offset ?op = off" "ro_numBytes ?op = nb" using i(7) assms(3) by (simp_all add: client_read_def)
  have z: "0 < z" using i(4) B_pos by linarith
  have len: "length (chunk_bytes c m) \<le> 2 ^ 26" using i(5) d by (simp add: chunk_is_def)
  have "ro_offset ?op < length (chunk_bytes c m)" using assms(2) op(5) by simp
  moreover have "\<not> checksum_mismatch sums (OffsetToChecksumBlockStart (ro_offset ?op)) (map (ad ad0) (blocks (read_padded (chunk_bytes c m) (ro_offset ?op) (ro_numBytes ?op))))"
    unfolding op(5,6) by (rule no_mismatch_sound [OF i(6) [folded d] assms(2) len assms(3)])
  ultimately show ?thesis
    using chunk_read_ok [where h = h and ?ad0.0 = ad0, OF i(1,5) op(1,2) i(2,3) op(3) z op(4) d _ _ refl] unfolding answers_def op(5,6) by blast
qed

text \<open>
  The bytes that are got are the requested ones, up to the end of the data, when the offset is the start of a block or
  the request stays within a block; in the other cases they are a beginning of the requested ones, and not empty.
\<close>

lemma read_result_exact:
  assumes "off < length data" "CHECKSUM_BLOCKSIZE dvd off \<or> off mod CHECKSUM_BLOCKSIZE + nb \<le> CHECKSUM_BLOCKSIZE"
  shows "read_result data off nb = take nb (drop off data)"
proof -
  let ?n = "min nb (length data - off)" and ?o = "off mod CHECKSUM_BLOCKSIZE"
  have "?n \<le> ?n + pad_len ?n - ?o"
  proof (cases "?n = 0 \<or> ?o = 0")
    case False
    then have "?o + ?n \<le> CHECKSUM_BLOCKSIZE" using assms(2) by (auto simp: dvd_eq_mod_eq_0)
    moreover have "CHECKSUM_BLOCKSIZE \<le> ?n + pad_len ?n" using False pad_len_simps(1) [of ?n] by (intro dvd_imp_le) simp_all
    ultimately show ?thesis by linarith
  qed auto
  then have "read_result data off nb = take ?n (drop off data)" by (simp only: read_result_def Let_def min_absorb1)
  then show ?thesis by (simp add: min_def)
qed

lemma read_result_part:
  assumes "off < length data" "0 < nb"
  shows "\<exists>k. 0 < k \<and> k \<le> nb \<and> read_result data off nb = take k (drop off data)"
proof -
  let ?n = "min nb (length data - off)" and ?o = "off mod CHECKSUM_BLOCKSIZE"
  have n: "0 < ?n" using assms by simp
  then have "CHECKSUM_BLOCKSIZE \<le> ?n + pad_len ?n" using pad_len_simps(1) [of ?n] by (intro dvd_imp_le) simp_all
  moreover have "?o < CHECKSUM_BLOCKSIZE" by simp
  ultimately have "0 < min ?n (?n + pad_len ?n - ?o)" using n by linarith
  moreover have "min ?n (?n + pad_len ?n - ?o) \<le> nb" by (simp add: min.coboundedI1)
  moreover have "read_result data off nb = take (min ?n (?n + pad_len ?n - ?o)) (drop off data)"
    unfolding read_result_def Let_def ..
  ultimately show ?thesis by blast
qed

text \<open>
  C4. A new chunk is an array of bytes: whatever writes within a block clients make, in any order and overlapping, with a
  right checksum or none, each succeeds. Every read afterwards at an offset within the array is answered with bytes of
  the array from that offset on and with no false report of corruption. The answer has all the bytes that were
  requested, up to the end of the array, when the offset is the start of a checksum block or the request stays
  within one block. Other requests may be answered with fewer bytes than the array has for them, but with at
  least one. Bytes that were never written, before the end of the array, read as zero.
\<close>

theorem chunk_read_your_writes:
  assumes "rolling ad ad0" "e_open e" "e_sched e" "CHECKSUM_BLOCKSIZE \<le> z"
    and "mChunkTable m c = None" "0 \<le> mUsedSpace m" "mUsedSpace m + 2 ^ 26 < mTotalSpace m" "mTotalSpace m \<le> 2 ^ 62"
    and "\<forall>p\<in>set ps. write_allowed ad ad0 p"
    and "bytes = fold array_write ps []"
  shows "\<exists>m1. run_ops (chunk_exec ad ad0 z e c) ps (fst (AllocChunk True due t fid c v False m)) = Some m1 \<and>
    (\<forall>off<length bytes. \<forall>nb>0.
      if CHECKSUM_BLOCKSIZE dvd off \<or> off mod CHECKSUM_BLOCKSIZE + nb \<le> CHECKSUM_BLOCKSIZE
      then answers (chunk_read ad ad0 z e (client_read c v off nb) h m1) (take nb (drop off bytes))
      else \<exists>k. 0 < k \<and> k \<le> nb \<and> answers (chunk_read ad ad0 z e (client_read c v off nb) h m1) (take k (drop off bytes)))"
proof -
  obtain m0 st where a: "AllocChunk True due t fid c v False m = (m0, st)" by force
  note n = AllocChunk_new [OF assms(5) a]
  from n(1) obtain cih where c: "chunk_is c m0 cih [] (replicate MAX_CHUNK_CHECKSUM_BLOCKS 0)" "ck_version (chunkInfo cih) = v"
    "ck_size (chunkInfo cih) = 0" by blast
  have "sums_ok ad ad0 (replicate MAX_CHUNK_CHECKSUM_BLOCKS 0) (drop KFS_CHUNK_HEADER_SIZE [])" by (simp add: sums_ok_def)
  then have inv: "chunk_inv ad ad0 z e c v m0"
    using assms(1-4,6-8) c n(2,3) unfolding chunk_inv_def by (intro conjI exI [of _ cih] exI [of _ "[]"] exI [of _ "replicate MAX_CHUNK_CHECKSUM_BLOCKS 0"]) simp_all
  have "chunk_bytes c m0 = []" using chunk_file_at [OF c(1)] by (simp add: chunk_bytes_def)
  with chunk_run [OF inv assms(9)] obtain m1 where
    m1: "run_ops (chunk_exec ad ad0 z e c) ps m0 = Some m1" "chunk_inv ad ad0 z e c v m1" "chunk_bytes c m1 = bytes" using assms(10) by auto
  note r = chunk_inv_read [OF m1(2), unfolded m1(3), where h = h]
  have "if CHECKSUM_BLOCKSIZE dvd off \<or> off mod CHECKSUM_BLOCKSIZE + nb \<le> CHECKSUM_BLOCKSIZE
      then answers (chunk_read ad ad0 z e (client_read c v off nb) h m1) (take nb (drop off bytes))
      else \<exists>k. 0 < k \<and> k \<le> nb \<and> answers (chunk_read ad ad0 z e (client_read c v off nb) h m1) (take k (drop off bytes))"
    if "off < length bytes" "0 < nb" for off nb
    using r [OF that] read_result_exact [OF that(1), of nb] read_result_part [OF that] by auto
  then show ?thesis using m1(1) unfolding a by auto
qed

text \<open>Room for a witness: a server with a gigabyte, two overlapping writes and one behind a gap.\<close>

definition good_env :: IoEnv where
  "good_env = \<lparr>e_due = False, e_open = True, e_sched = True, e_few = True, e_time = 0\<rparr>"

definition some_writes :: "chunk_write_op list" where
  "some_writes = [CW 1 [5, 6] 0, CW 0 [7, 8] (adler_sum 1 [7, 8]), CW 4 [9] 0]"

theorem chunk_read_your_writes_witness:
  "\<exists>m1. run_ops (chunk_exec adler_sum 1 69632 good_env 4) some_writes (fst (AllocChunk True False 0 3 4 1 False (ChunkManager_Init (2 ^ 30)))) = Some m1 \<and>
    answers (chunk_read adler_sum 1 69632 good_env (client_read 4 1 0 3) [] m1) [7, 8, 6] \<and>
    answers (chunk_read adler_sum 1 69632 good_env (client_read 4 1 2 10) [] m1) [6, 0, 9]"
proof -
  have w: "\<forall>p\<in>set some_writes. write_allowed adler_sum 1 p" by (simp add: some_writes_def CHECKSUM_BLOCKSIZE_def)
  have b: "[7, 8, 6, 0, 9] = fold array_write some_writes []" by (simp add: some_writes_def host_write_def)
  have "e_open good_env" "e_sched good_env" "CHECKSUM_BLOCKSIZE \<le> 69632" "mChunkTable (ChunkManager_Init (2 ^ 30)) 4 = None"
    "0 \<le> mUsedSpace (ChunkManager_Init (2 ^ 30))" "mUsedSpace (ChunkManager_Init (2 ^ 30)) + 2 ^ 26 < mTotalSpace (ChunkManager_Init (2 ^ 30))"
    "mTotalSpace (ChunkManager_Init (2 ^ 30)) \<le> 2 ^ 62"
    by (simp_all add: good_env_def CHECKSUM_BLOCKSIZE_def ChunkManager_Init_def)
  from chunk_read_your_writes [OF two_windows_facts(1) this w b, where due = False and t = 0 and fid = 3 and v = 1 and h = "[]"]
  obtain m1 where
    m1: "run_ops (chunk_exec adler_sum 1 69632 good_env 4) some_writes (fst (AllocChunk True False 0 3 4 1 False (ChunkManager_Init (2 ^ 30)))) = Some m1"
    "\<forall>off<length [7, 8, 6, 0, 9 :: byte]. \<forall>nb>0. if CHECKSUM_BLOCKSIZE dvd off \<or> off mod CHECKSUM_BLOCKSIZE + nb \<le> CHECKSUM_BLOCKSIZE
      then answers (chunk_read adler_sum 1 69632 good_env (client_read 4 1 off nb) [] m1) (take nb (drop off [7, 8, 6, 0, 9]))
      else \<exists>k. 0 < k \<and> k \<le> nb \<and> answers (chunk_read adler_sum 1 69632 good_env (client_read 4 1 off nb) [] m1) (take k (drop off [7, 8, 6, 0, 9]))"
    by blast
  have "2 + 10 \<le> CHECKSUM_BLOCKSIZE" "2 mod CHECKSUM_BLOCKSIZE = 2" by (simp_all add: CHECKSUM_BLOCKSIZE_def)
  with m1(1) m1(2) [rule_format, of 0 3] m1(2) [rule_format, of 2 10] show ?thesis by auto
qed

lemma chunk_read_bad:
  assumes "rolling ad ad0" "chunk_is c m cih f sums" "ro_chunkId op = c" "ro_version op = ck_version (chunkInfo cih)"
    "e_open e" "e_sched e" "0 < ro_numBytes op" "0 < z" "ro_dataBuf op = None"
    "data = drop KFS_CHUNK_HEADER_SIZE f" "ro_offset op < length data"
    "checksum_mismatch sums (OffsetToChecksumBlockStart (ro_offset op)) (map (ad ad0) (blocks (read_padded data (ro_offset op) (ro_numBytes op))))"
    "1 \<le> mNumChunks m"
  shows "\<exists>h' m' op'. chunk_read ad ad0 z e op h m = Some (h', m', op', [(ck_fileId (chunkInfo cih), c)]) \<and>
    ro_status op' = - EBADCKSUM \<and> mChunkTable m' c = None \<and> stale_files m' (MakeChunkPathname (chunkInfo cih)) = Some f"
proof -
  from read_disk [OF assms(1-11), of h] assms(12) obtain m1 h1 b n offset q h' b' where
    r: "ReadChunk e op m = Some (m1, op\<lparr>ro_numBytesIO := n\<rparr>, 0, offset, q)"
    "chunk_is c m1 (cih\<lparr>dataFH := True, lastIOTime := e_time e\<rparr>) f sums" "\<forall>T. m1\<lparr>mChunkTable := T\<rparr> = m\<lparr>mChunkTable := T\<rparr>"
    "disk_read q f offset q h [] = (h1, b)"
    "ReadChunkDone ad ad0 z (op\<lparr>ro_numBytesIO := n, ro_status := 0\<rparr>) h1 b m1 =
       map_option (\<lambda>(m2, r). (h', m2, op\<lparr>ro_numBytesIO := n, ro_status := - EBADCKSUM\<rparr>, b', [(ck_fileId (chunkInfo cih), c)])) (StaleChunk c m1)"
    by (simp only: if_True) blast
  have nc: "mNumChunks m1 = mNumChunks m" using arg_cong [OF spec [OF r(3), of Map.empty], of mNumChunks] by simp
  have "\<exists>m2. StaleChunk c m1 = Some (m2, 0) \<and> mChunkTable m2 c = None \<and> stale_files m2 (MakeChunkPathname (chunkInfo cih)) = Some f"
    using r(2) nc assms(13) by (auto simp: chunk_is_def StaleChunk_def erase_chunk_def MarkChunkStale_def Let_def)
  then obtain m2 where m2: "StaleChunk c m1 = Some (m2, 0)" "mChunkTable m2 c = None" "stale_files m2 (MakeChunkPathname (chunkInfo cih)) = Some f" by blast
  let ?op' = "op\<lparr>ro_numBytesIO := n, ro_status := - EBADCKSUM\<rparr>\<lparr>ro_dataBuf := Some b', ro_numBytesIO := BytesConsumable b'\<rparr>"
  have "chunk_read ad ad0 z e op h m = Some (h', m2, ?op', [(ck_fileId (chunkInfo cih), c)])"
    using r(1,4,5) m2(1,2) chunk_file_at [OF r(2)] assms(3,9)
    by (simp add: chunk_read_def ReadOp_HandleDone_def read_finished_def buf_Append_def Let_def ChunkSize_def)
  then show ?thesis using m2(2,3) by auto
qed

text \<open>
  C15. When the block at the offset of a read does not have its checksum, the read is refused and the chunk reported and
  moved away only if it starts in the first block of the chunk. A read that starts in any later block
  returns the corrupt bytes as good, since the checksum to compare with is looked up by the byte offset of the
  block instead of its number, which is outside the table.
\<close>

theorem only_first_block_verified:
  assumes "rolling ad ad0" "chunk_is c m cih f sums" "e_open e" "e_sched e" "0 < z" "1 \<le> mNumChunks m"
    and "data = drop KFS_CHUNK_HEADER_SIZE f" "off < length data" "0 < nb"
    and "sums ! (off div CHECKSUM_BLOCKSIZE) \<noteq> 0"
    and "sums ! (off div CHECKSUM_BLOCKSIZE) \<noteq> ad ad0 (pad_block data (off div CHECKSUM_BLOCKSIZE))"
  shows "if off < CHECKSUM_BLOCKSIZE
    then \<exists>h' m' op'. chunk_read ad ad0 z e (client_read c (ck_version (chunkInfo cih)) off nb) h m =
        Some (h', m', op', [(ck_fileId (chunkInfo cih), c)]) \<and> ro_status op' = - EBADCKSUM \<and> mChunkTable m' c = None
    else answers (chunk_read ad ad0 z e (client_read c (ck_version (chunkInfo cih)) off nb) h m) (read_result data off nb)"
proof -
  let ?op = "client_read c (ck_version (chunkInfo cih)) off nb"
  have op: "ro_chunkId ?op = c" "ro_version ?op = ck_version (chunkInfo cih)" "0 < ro_numBytes ?op" "ro_dataBuf ?op = None"
    "ro_offset ?op = off" "ro_numBytes ?op = nb" using assms(9) by (simp_all add: client_read_def)
  have len: "length data \<le> 2 ^ 26" using assms(2,7) by (simp add: chunk_is_def)
  have lt: "ro_offset ?op < length data" using assms(8) op(5) by simp
  show ?thesis
  proof (cases "off < CHECKSUM_BLOCKSIZE")
    case True
    have ne: "0 < length (blocks (read_padded data off nb))"
      using read_plan(2) [OF assms(8) len assms(9) refl refl refl refl refl] by (simp add: length_blocks read_padded_def Let_def)
    note b = read_padded_blocks [OF assms(8) len assms(9) True ne]
    have "off div CHECKSUM_BLOCKSIZE = 0" using True by simp
    then have "checksum_mismatch sums (OffsetToChecksumBlockStart off) (map (ad ad0) (blocks (read_padded data off nb)))"
      using assms(10,11) b ne B_le_max(1) by (auto simp: checksum_mismatch_iff intro!: exI [of _ 0])
    then have "checksum_mismatch sums (OffsetToChecksumBlockStart (ro_offset ?op)) (map (ad ad0) (blocks (read_padded data (ro_offset ?op) (ro_numBytes ?op))))"
      unfolding op(5,6) .
    from chunk_read_bad [OF assms(1,2) op(1,2) assms(3,4) op(3) assms(5) op(4) assms(7) lt this assms(6), of h] True show ?thesis by auto
  next
    case False
    then have "\<not> checksum_mismatch sums (OffsetToChecksumBlockStart (ro_offset ?op)) (map (ad ad0) (blocks (read_padded data (ro_offset ?op) (ro_numBytes ?op))))"
      using no_mismatch_later assms(8) len op(5) by simp
    from chunk_read_ok [where h = h, OF assms(1,2) op(1,2) assms(3,4) op(3) assms(5) op(4) assms(7) lt this refl] False
    show ?thesis unfolding answers_def op(5,6) by auto
  qed
qed

text \<open>
  C40. Truncating a chunk cuts the file to the new size without counting the 16 KB header, so the last 16 KB
  of the data that should stay are lost although the size that is kept includes them; truncating to the full
  64 MB writes one entry beyond the table of checksums.
\<close>

theorem truncate_cuts_too_much:
  assumes "chunk_is c m cih f sums" "n \<le> length (chunk_bytes c m)"
  shows "if n = 2 ^ 26 then cm_TruncateChunk 0 c n m = None
    else \<exists>m'. cm_TruncateChunk 0 c n m = Some (m', 0) \<and> ChunkSize c m' = (0, int n) \<and>
      chunk_bytes c m' = take (n - KFS_CHUNK_HEADER_SIZE) (chunk_bytes c m)"
proof -
  have d: "chunk_bytes c m = drop KFS_CHUNK_HEADER_SIZE f" using chunk_file_at [OF assms(1)] by (simp add: chunk_bytes_def)
  have c: "mChunkTable m c = Some cih" "host_files m (MakeChunkPathname (chunkInfo cih)) = Some f" "ck_sums (chunkInfo cih) = Some sums"
    "length sums = MAX_CHUNK_CHECKSUM_BLOCKS" "n \<le> 2 ^ 26" using assms d by (auto simp: chunk_is_def)
  have bn: "OffsetToChecksumBlockNum n = n div CHECKSUM_BLOCKSIZE" using block_num [of n] c(5) by simp
  have lt: "n div CHECKSUM_BLOCKSIZE < MAX_CHUNK_CHECKSUM_BLOCKS \<longleftrightarrow> n \<noteq> 2 ^ 26"
    using c(5) B_le_max(2) by (auto simp: div_less_iff_less_mult)
  have le: "n \<le> length f" using assms(2) d by simp
  show ?thesis
  proof (cases "n = 2 ^ 26")
    case True
    then show ?thesis using c bn lt by (simp add: cm_TruncateChunk_def Let_def assert_then_def)
  next
    case False
    let ?info = "(chunkInfo cih)\<lparr>ck_size := int n, ck_sums := Some (sums[n div CHECKSUM_BLOCKSIZE := 0])\<rparr>"
    have p: "MakeChunkPathname ?info = MakeChunkPathname (chunkInfo cih)" by (simp add: MakeChunkPathname_def)
    have "drop KFS_CHUNK_HEADER_SIZE (host_truncate n f) = take (n - KFS_CHUNK_HEADER_SIZE) (drop KFS_CHUNK_HEADER_SIZE f)"
      using le by (simp add: host_truncate_def drop_take)
    then show ?thesis using False c bn lt p d
      by (auto simp: cm_TruncateChunk_def Let_def ChunkSize_def chunk_bytes_def chunk_file_def)
  qed
qed

text \<open>A chunk of 70000 bytes whose checksums are all wrong.\<close>

definition bad_info :: ChunkInfoHandle where
  "bad_info = new_handle \<lparr>ck_fileId = 3, ck_chunkId = 4, ck_version = 1, ck_size = 70000, ck_sums = Some (replicate MAX_CHUNK_CHECKSUM_BLOCKS 5)\<rparr>"

definition bad_file :: "byte list" where
  "bad_file = replicate 16384 0 @ replicate 70000 1"

definition bad_chunk :: ChunkManager where
  "bad_chunk = (ChunkManager_Init (2 ^ 30))\<lparr>mNumChunks := 1, mUsedSpace := 70000, mChunkTable := [4 \<mapsto> bad_info],
     host_files := [(3, 4, 1) \<mapsto> bad_file]\<rparr>"

lemma bad_chunk_at: "chunk_is 4 bad_chunk bad_info bad_file (replicate MAX_CHUNK_CHECKSUM_BLOCKS 5)"
  by (simp add: chunk_is_def bad_chunk_def bad_info_def bad_file_def new_handle_def MakeChunkPathname_def KFS_CHUNK_HEADER_SIZE_def)

lemma bad_data: "drop KFS_CHUNK_HEADER_SIZE bad_file = replicate 70000 1"
  by (simp add: bad_file_def KFS_CHUNK_HEADER_SIZE_def)

theorem only_first_block_verified_witness:
  "answers (chunk_read adler_sum 1 69632 good_env (client_read 4 1 66000 10) [] bad_chunk) (replicate 10 1)"
proof -
  let ?data = "replicate 70000 (1 :: byte)"
  have e: "e_open good_env" "e_sched good_env" "(0 :: nat) < 69632" "1 \<le> mNumChunks bad_chunk" "66000 < length ?data" "(0 :: nat) < 10"
    by (simp_all add: good_env_def bad_chunk_def)
  have b: "(66000 :: nat) div CHECKSUM_BLOCKSIZE = 1" "\<not> 66000 < CHECKSUM_BLOCKSIZE" by (simp_all add: CHECKSUM_BLOCKSIZE_def)
  have "pad_block ?data 1 = replicate 4464 1 @ replicate 61072 0" by (simp add: pad_block_def Let_def CHECKSUM_BLOCKSIZE_def)
  then have "adler_sum 1 (pad_block ?data 1) = 4465" by (simp add: adler_sum_def sum_list_replicate)
  then have s: "replicate MAX_CHUNK_CHECKSUM_BLOCKS 5 ! (66000 div CHECKSUM_BLOCKSIZE) \<noteq> (0 :: cksum)"
    "replicate MAX_CHUNK_CHECKSUM_BLOCKS 5 ! (66000 div CHECKSUM_BLOCKSIZE) \<noteq> adler_sum 1 (pad_block ?data (66000 div CHECKSUM_BLOCKSIZE))"
    by (simp_all add: b B_le_max(1))
  have "read_result ?data 66000 10 = replicate 10 1" by (simp add: read_result_def Let_def pad_len_def CHECKSUM_BLOCKSIZE_def)
  moreover have "ck_version (chunkInfo bad_info) = 1" by (simp add: bad_info_def new_handle_def)
  ultimately show ?thesis
    using only_first_block_verified [OF two_windows_facts(1) bad_chunk_at e(1-4) bad_data [symmetric] e(5,6) s, where h = "[]"] b(2) by simp
qed

theorem truncate_cuts_too_much_witness:
  "\<exists>m'. cm_TruncateChunk 0 4 20000 bad_chunk = Some (m', 0) \<and> ChunkSize 4 m' = (0, 20000) \<and> chunk_bytes 4 m' = replicate 3616 1"
proof -
  have d: "chunk_bytes 4 bad_chunk = replicate 70000 1"
    using chunk_file_at [OF bad_chunk_at] bad_data by (simp add: chunk_bytes_def)
  have "20000 \<le> length (chunk_bytes 4 bad_chunk)" by (simp add: d)
  from truncate_cuts_too_much [OF bad_chunk_at this] show ?thesis by (simp add: d KFS_CHUNK_HEADER_SIZE_def)
qed

text \<open>A write beyond the end of the chunk is not cut, and its checksum does not fit into the table.\<close>

lemma write_beyond_chunk:
  assumes "2 ^ 26 < wo_offset op" "wo_offset op < 2 ^ 32" "wo_numBytes op \<le> 2 ^ 26" "length sums = MAX_CHUNK_CHECKSUM_BLOCKS"
  shows "write_size op = wo_numBytes op" "store_checksums (wo_offset op) (k # ks) sums = None"
proof -
  have "(2 ^ 26 - int (wo_offset op)) mod 2 ^ 64 = (2 ^ 26 - int (wo_offset op) + 2 ^ 64) mod 2 ^ 64"
    by (rule mod_add_self2 [symmetric])
  also have "\<dots> = 2 ^ 26 - int (wo_offset op) + 2 ^ 64" using assms(1,2) by (intro mod_pos_pos_trivial) simp_all
  finally show "write_size op = wo_numBytes op" using assms(2,3) unfolding write_size_def by simp
  have "MAX_CHUNK_CHECKSUM_BLOCKS \<le> wo_offset op div CHECKSUM_BLOCKSIZE"
    using assms(1) B_le_max(2) less_eq_div_iff_mult_less_eq [OF B_pos, of MAX_CHUNK_CHECKSUM_BLOCKS "wo_offset op"] by simp
  then show "store_checksums (wo_offset op) (k # ks) sums = None"
    using block_num [OF assms(2)] assms(4) by (simp add: Let_def assert_then_def)
qed

end
