(* ===== verification/Spec2Isabelle.thy ===== *)
theory Spec2Isabelle
  imports Meta_Logger Chunk_Array
begin

text \<open>
  The Kosmos distributed file system (KFS), src/src/cc: a verification development of its
  metaserver and of the chunks and buffers of its chunkservers.

  The program. A metaserver keeps the name space, the attributes of files and the chunks of each
  file in a B+ tree in memory; a layout manager in the same process decides which chunkservers hold
  a chunk, grants leases on chunks and talks to the chunkservers through RPC queues. Chunkservers
  keep chunks of 64 MB on their disks; clients ask the metaserver for metadata and read and write
  chunks directly at the chunkservers. The development follows the metaserver from its data
  structures up, and a second line of theories follows the bytes of a chunkserver from buffers to chunks.

  Theories, in the order of the imports:

  \<^item> Kfs_Prelude: identifier types and error numbers of common/kfstypes.h, the convention for asserts
    (\<^verbatim>\<open>None\<close> is an aborted process), lemmas on lists, ordered maps (\<^verbatim>\<open>std::map\<close> as its list of pairs).
  \<^item> Meta_Base: keys and metadata items (meta/base.h, meta.h, meta.cc) and the order of keys with
    its wildcard.
  \<^item> Meta_Tree, Meta_Tree_Inv, Meta_Tree_Del: the B+ tree of meta/kfstree.h and kfstree.cc: nodes,
    insertion with splits, deletion with merges and shifts, lookups over the leaves; the invariant
    (fan-out, order, equal depth, keys of parents) and that both updates keep it.
  \<^item> Meta_Store: the abstract store, a sorted sequence of items; an interface locale with the laws
    of a store, interpreted on the tree, and the refinement theorems.
  \<^item> Meta_ChunkServer: one chunkserver as the metaserver sees it (meta/ChunkServer.cc and the RPC
    classes of request.h): sequence numbers, queues, errors, 64-bit space accounting. What is complete is
    read off the main loop, from the RPCs that were resumed in it.
  \<^item> Meta_Lookup, Meta_Ops: all operations of meta/kfsops.cc on the store.
  \<^item> Meta_Layout, Meta_Placement: leases, the chunk map, candidate racks and servers, allocation,
    joining, retiring, hibernating and failing servers (meta/LayoutManager.cc).
  \<^item> Meta_Lease: a step relation over the layout manager's operations with the lease invariant.
  \<^item> Meta_Names, Meta_Namespace, Meta_Changes, Meta_FileOps, Meta_Safety: the name space as an
    abstract tree of directories, what a sound name space is (\<^verbatim>\<open>ns_inv\<close>), the effect of each primitive
    change on it, and that every operation of kfsops.cc returns and keeps it sound.
  \<^item> Meta_Contract: the contracts of the file-system operations as properties.
  \<^item> Meta_Request: the request handlers of meta/request.cc on the tree and the layout manager, with the
    suspension of allocations and truncations.
  \<^item> Meta_Entry: numbers, components and lines of text (meta/util.cc, entry.cc), the input stream with
    its state bits; printing and parsing numbers, splitting what was joined, reading a file of lines.
  \<^item> Meta_Replay: the log lines (the \<^verbatim>\<open>log\<close> methods of request.cc) and their replay (replay.cc); a line is
    replayed as the request that was logged.
  \<^item> Meta_Erase, Meta_Recovery: what a restart can bring back. Every operation on files without live
    leases commutes with forgetting times, sizes, the layout manager and the degree of replication of chosen
    files; a run of the handlers is a step relation that gives the logged requests, and redoing them
    follows the run.
  \<^item> Meta_Checkpoint, Meta_Restart: checkpoints (checkpoint.cc, restore.cc, the \<^verbatim>\<open>show\<close> methods of meta.cc),
    their round trip, the replay of all logs, crash recovery, and two logs that cannot be replayed.
  \<^item> Meta_Logger: the logger (logger.cc) with its queues; the log is written ahead of the answers, and
    what has a log line and was acknowledged survives a crash.
  \<^item> Kfs_IOBuffer, Kfs_IOShare: the buffers of libkfsIO/IOBuffer.cc over a heap of shared arrays. A step of a
    buffer (\<^verbatim>\<open>buf_step\<close>) leaves the windows of all other buffers alone; the locale \<^verbatim>\<open>op_refinement\<close> is the
    contract of a component with an abstract specification, interpreted on the buffers and on chunks.
  \<^item> Kfs_Checksum: the checksum blocks of libkfsIO/Checksum.cc, with zlib's \<^verbatim>\<open>adler32\<close> as a parameter.
  \<^item> Chunk_Manager: the table of chunks of a chunkserver with its space accounting (chunk/Chunk.h,
    ChunkManager.cc); the files of the host are a map.
  \<^item> Chunk_Data, Chunk_Integrity, Chunk_Array: reading and writing chunks (ReadChunk, ReadChunkDone, WriteChunk,
    UpdateChecksums of ChunkManager.cc, ReadOp::HandleDone of KfsOps.cc) with the disk's side, what a read
    returns (\<^verbatim>\<open>read_result\<close>), that a chunk refines an array of bytes and which reads get all that they ask for, that only
    the first block is verified, and that truncation loses data.

  How code is modelled. A struct is a record, an enum or class hierarchy a datatype, an operation a
  function from the old state to the new one and the status code of the source. Asserts, panics and
  null pointers make the result \<^verbatim>\<open>None\<close>. \<^verbatim>\<open>uint64_t\<close> counters are 64-bit words; \<^verbatim>\<open>int64_t\<close> identifiers
  and offsets are \<^verbatim>\<open>int\<close>, with the conversion to a word written out where the code divides by the
  unsigned chunk size. The time, the result of a division of floats and the permutations of
  \<^verbatim>\<open>random_shuffle\<close> are arguments.

  Bounds. The mutual recursion of remove, moveToDumpster and rename is cut at depth two, and
  remove_terminates shows that a larger depth gives the same result. The walk of is_descendant has
  the number of items plus one as its fuel, and is_descendant_decides shows that a sound name space
  never uses it up.

  The loops that read files and logs have a fuel; the theorems give a number that is enough, and
  long_rename_hangs is about a file for which none is.

  Limits of the recovery theorems. A change of the degree of replication of a file is answered but writes no log line, so
  it is lost: runs may contain it for the files of a set \<^verbatim>\<open>R\<close>, and the degrees of these files are not compared. A run excludes removals of files with live leases, whose replay
  differs from the first run (they go to the dumpster at the first run only), clean-ups of leases while files are in the
  dumpster (they are removed and no line is written), directories with the name of a slash, and an allocation that
  ends must still fit the tree (\<^verbatim>\<open>allocation_sound\<close>). The replay starts from the state that the run
  started from; a checkpoint restores the same name space, but the entries of a directory come back in
  another order.

  The operations of kfsops.cc work on the abstract store, which cannot fail. tree_delete_refines says when the
  deletion of the tree hits an assert instead.

  Limits of the chunk theorems. A read that is not aligned and crosses a block may return fewer bytes than it asked for. A read or write of a chunk is followed from its start to its end with no
  other operation on the same chunk in between; the disk carries out what it accepts. A write is of at most
  one checksum block, as the client library sends it; larger aligned writes store one checksum for all their
  bytes.

  Not modelled. Sockets, threads and the event loop; parsing and printing of RPC messages;
  re-replication and rebalancing; the chunk headers on disk, the log, leases and forwarding of writes at
  the chunkservers; the client library; language bindings and tools.
\<close>

end
